(* ===== verification/Prelude.thy ===== *)
theory Prelude
  imports Complex_Main "HOL-Library.Word"
begin

text \<open>
  Shared vocabulary of the development: C strings as byte lists, machine integers with
  their bounds, undefined behaviour as a value, the C library routines on strings that
  the sources call (\<open>strtok\<close>, \<open>strtol\<close>, \<open>atoi\<close>, \<open>sprintf("%d")\<close>,
  \<open>tolower\<close>, \<open>isspace\<close>), and the generic lemmas the component theories share.
\<close>

section \<open>Results of C code\<close>

text \<open>
  A C function either computes a value or runs into behaviour the language leaves
  undefined; the second is a value of its own, so that a theorem can say that it does
  not occur.
\<close>

datatype ub =
    BufferOverflow      \<comment> \<open>a write past the end of a fixed buffer\<close>
  | EndIterator         \<comment> \<open>a dereference of a past-the-end iterator\<close>
  | IntOverflow         \<comment> \<open>a signed integer result outside its type\<close>
  | BadConversion       \<comment> \<open>a floating value outside the integer type it is cast to\<close>
  | OutOfBounds         \<comment> \<open>a read outside the buffer\<close>
  | NullDereference
  | Uninitialised       \<comment> \<open>a read of a member no one has assigned\<close>
  | AssertFailure
  | UseAfterFree        \<comment> \<open>a read of memory that has been freed\<close>
  | UncaughtException   \<comment> \<open>a C++ exception that no handler catches\<close>
  | Diverges            \<comment> \<open>a loop that goes round a cycle for ever\<close>

type_synonym 'a cres = "ub + 'a"

definition cbind :: "'a cres \<Rightarrow> ('a \<Rightarrow> 'b cres) \<Rightarrow> 'b cres" where
  "cbind m f = (case m of Inl e \<Rightarrow> Inl e | Inr a \<Rightarrow> f a)"

definition no_ub :: "'a cres \<Rightarrow> bool" where
  "no_ub r = (case r of Inl _ \<Rightarrow> False | Inr _ \<Rightarrow> True)"

lemma cbind_simps [simp]:
  "cbind (Inl e) f = Inl e" "cbind (Inr a) f = f a"
  by (simp_all add: cbind_def)

lemma cbind_Inr_iff: "cbind m f = Inr b \<longleftrightarrow> (\<exists>a. m = Inr a \<and> f a = Inr b)"
  by (cases m) auto

lemma cbind_cong [fundef_cong]:
  "m = m' \<Longrightarrow> (\<And>a. m' = Inr a \<Longrightarrow> f a = g a) \<Longrightarrow> cbind m f = cbind m' g"
  by (cases m') auto

lemma no_ub_simps [simp]: "no_ub (Inr a)" "\<not> no_ub (Inl e)"
  by (simp_all add: no_ub_def)

lemma no_ub_iff: "no_ub r \<longleftrightarrow> (\<exists>a. r = Inr a)"
  by (cases r) auto

section \<open>Machine integers\<close>

definition INT_MAX :: int where "INT_MAX = 2147483647"
definition INT_MIN :: int where "INT_MIN = - 2147483648"
definition LONG_MAX :: int where "LONG_MAX = 9223372036854775807"
definition LONG_MIN :: int where "LONG_MIN = - 9223372036854775808"

lemmas limit_defs = INT_MAX_def INT_MIN_def LONG_MAX_def LONG_MIN_def

text \<open>The result of a signed 32-bit addition or subtraction.\<close>

definition int_range :: "int \<Rightarrow> int cres" where
  "int_range n = (if INT_MIN \<le> n \<and> n \<le> INT_MAX then Inr n else Inl IntOverflow)"

text \<open>Conversion of a wider integer to \<open>int\<close>: two's complement truncation.\<close>

definition wrap32 :: "int \<Rightarrow> int" where
  "wrap32 n = (n + 2147483648) mod 4294967296 - 2147483648"

lemma wrap32_id: "INT_MIN \<le> n \<Longrightarrow> n \<le> INT_MAX \<Longrightarrow> wrap32 n = n"
  by (simp add: wrap32_def limit_defs)

lemma wrap32_range: "INT_MIN \<le> wrap32 n \<and> wrap32 n \<le> INT_MAX"
proof -
  have "0 \<le> (n + 2147483648) mod 4294967296" "(n + 2147483648) mod 4294967296 < 4294967296"
    by simp_all
  then show ?thesis by (simp add: wrap32_def limit_defs)
qed

text \<open>C's integer division and remainder truncate towards zero.\<close>

definition c_rem :: "int \<Rightarrow> int \<Rightarrow> int" where
  "c_rem a b = sgn a * (\<bar>a\<bar> mod \<bar>b\<bar>)"

lemma c_rem_nonneg: "0 \<le> a \<Longrightarrow> 0 < b \<Longrightarrow> c_rem a b = a mod b"
  by (cases "a = 0") (simp_all add: c_rem_def)

lemma c_rem_0_iff: "0 < b \<Longrightarrow> c_rem a b = 0 \<longleftrightarrow> b dvd a"
  by (auto simp: c_rem_def sgn_if dvd_eq_mod_eq_0[symmetric])

section \<open>Characters and C strings\<close>

text \<open>Numbers that code computes with are \<open>int\<close>: they stay binary when a witness is evaluated.\<close>

abbreviation byte_of :: "char \<Rightarrow> int" where "byte_of \<equiv> of_char"

lemma byte_of_nonneg [simp]: "0 \<le> byte_of c"
  by (metis of_nat_of_char of_nat_0_le_iff)

lemma byte_of_less [simp]: "byte_of c < 256"
  by (metis of_nat_of_char nat_of_char_less_256 of_nat_less_iff of_nat_numeral)

definition NUL :: char where "NUL = CHR 0x00"

definition is_digit :: "char \<Rightarrow> bool" where
  "is_digit c = (48 \<le> byte_of c \<and> byte_of c \<le> 57)"

definition digit_val :: "char \<Rightarrow> int" where
  "digit_val c = byte_of c - 48"

definition digit_char :: "int \<Rightarrow> char" where
  "digit_char d = char_of (48 + d)"

lemma digit_char_val: "0 \<le> d \<Longrightarrow> d < 10 \<Longrightarrow> digit_val (digit_char d) = d"
  by (simp add: digit_char_def digit_val_def)

lemma is_digit_digit_char: "0 \<le> d \<Longrightarrow> d < 10 \<Longrightarrow> is_digit (digit_char d)"
  by (simp add: digit_char_def is_digit_def)

text \<open>C's \<open>tolower\<close> and \<open>isspace\<close> in the C locale.\<close>

definition tolower :: "char \<Rightarrow> char" where
  "tolower c = (if 65 \<le> byte_of c \<and> byte_of c \<le> 90 then char_of (byte_of c + 32) else c)"

definition isspace :: "char \<Rightarrow> bool" where
  "isspace c = (byte_of c = 32 \<or> (9 \<le> byte_of c \<and> byte_of c \<le> 13))"

text \<open>What a C routine sees of a buffer: the bytes before the first NUL.\<close>

definition cstr :: "string \<Rightarrow> string" where
  "cstr s = takeWhile (\<lambda>c. c \<noteq> NUL) s"

lemma cstr_cstr [simp]: "cstr (cstr s) = cstr s"
  by (simp add: cstr_def takeWhile_idem)

lemma cstr_id: "NUL \<notin> set s \<Longrightarrow> cstr s = s"
  by (auto simp: cstr_def intro!: takeWhile_eq_all_conv[THEN iffD2])

lemma NUL_notin_cstr [simp]: "NUL \<notin> set (cstr s)"
  by (auto simp: cstr_def dest: set_takeWhileD)

lemma length_cstr_le [simp]: "length (cstr s) \<le> length s"
  by (simp add: cstr_def length_takeWhile_le)

section \<open>Decimal numerals\<close>

fun dec_val_aux :: "int \<Rightarrow> string \<Rightarrow> int" where
  "dec_val_aux acc [] = acc"
| "dec_val_aux acc (c # cs) = dec_val_aux (10 * acc + digit_val c) cs"

definition dec_val :: "string \<Rightarrow> int" where "dec_val s = dec_val_aux 0 s"

text \<open>The digits of a non-negative number.\<close>

function dec_digits :: "int \<Rightarrow> string" where
  "dec_digits n = (if n < 10 then [digit_char n] else dec_digits (n div 10) @ [digit_char (n mod 10)])"
  by pat_completeness auto
termination
  by (relation "measure nat") auto

declare dec_digits.simps [simp del]

definition int_to_string :: "int \<Rightarrow> string" where
  "int_to_string n = (if n < 0 then CHR ''-'' # dec_digits (- n) else dec_digits n)"

lemma dec_val_aux_append: "dec_val_aux acc (s @ [c]) = 10 * dec_val_aux acc s + digit_val c"
  by (induction s arbitrary: acc) auto

lemma dec_val_digits [simp]: "0 \<le> n \<Longrightarrow> dec_val (dec_digits n) = n"
proof (induction n rule: dec_digits.induct)
  case (1 n)
  show ?case
  proof (cases "n < 10")
    case True
    with 1 show ?thesis by (subst dec_digits.simps) (simp add: dec_val_def digit_char_val)
  next
    case False
    with 1 have IH: "dec_val (dec_digits (n div 10)) = n div 10" by simp
    from False show ?thesis
      using IH by (subst dec_digits.simps)
        (simp add: dec_val_def dec_val_aux_append digit_char_val)
  qed
qed

lemma dec_digits_all_digit: "0 \<le> n \<Longrightarrow> \<forall>c \<in> set (dec_digits n). is_digit c"
proof (induction n rule: dec_digits.induct)
  case (1 n)
  show ?case
  proof (cases "n < 10")
    case True
    with 1 show ?thesis by (subst dec_digits.simps) (simp add: is_digit_digit_char)
  next
    case False
    with 1 have "\<forall>c \<in> set (dec_digits (n div 10)). is_digit c" by simp
    with False show ?thesis by (subst dec_digits.simps) (auto simp: is_digit_digit_char)
  qed
qed

lemma dec_digits_not_Nil [simp]: "dec_digits n \<noteq> []"
  by (subst dec_digits.simps) simp

section \<open>\<open>strtol\<close> and \<open>atoi\<close>\<close>

definition strtol10 :: "string \<Rightarrow> int" where
  "strtol10 s =
     (let s1 = dropWhile isspace (cstr s);
          neg = (s1 \<noteq> [] \<and> hd s1 = CHR ''-'');
          s2 = (if s1 \<noteq> [] \<and> (hd s1 = CHR ''-'' \<or> hd s1 = CHR ''+'') then tl s1 else s1);
          v = dec_val (takeWhile is_digit s2)
      in if neg then max LONG_MIN (- v) else min LONG_MAX v)"

definition atoi :: "string \<Rightarrow> int" where
  "atoi s = wrap32 (strtol10 s)"

lemma digit_not_special:
  assumes "is_digit c"
  shows "\<not> isspace c" "c \<noteq> CHR ''-''" "c \<noteq> CHR ''+''" "c \<noteq> NUL" "c \<noteq> CHR ''.''"
  using assms by (auto simp: is_digit_def isspace_def NUL_def)

lemma takeWhile_all: "\<forall>x \<in> set xs. P x \<Longrightarrow> takeWhile P xs = xs"
  by (simp add: takeWhile_eq_all_conv)

lemma dropWhile_none: "xs = [] \<or> \<not> P (hd xs) \<Longrightarrow> dropWhile P xs = xs"
  by (cases xs) auto

lemma cstr_dec_digits [simp]: "0 \<le> n \<Longrightarrow> cstr (dec_digits n) = dec_digits n"
  using dec_digits_all_digit digit_not_special(4) by (intro cstr_id) blast

lemma dec_digits_hd: "0 \<le> n \<Longrightarrow> is_digit (hd (dec_digits n))"
  using dec_digits_all_digit[of n] hd_in_set[OF dec_digits_not_Nil[of n]] by blast

lemma takeWhile_dec_digits [simp]: "0 \<le> n \<Longrightarrow> takeWhile is_digit (dec_digits n) = dec_digits n"
  by (rule takeWhile_all) (rule dec_digits_all_digit)

lemma strtol10_int_to_string:
  assumes "LONG_MIN \<le> n" "n \<le> LONG_MAX"
  shows "strtol10 (int_to_string n) = n"
proof (cases "n < 0")
  case True
  have "cstr (CHR ''-'' # dec_digits (- n)) = CHR ''-'' # dec_digits (- n)"
    using True cstr_dec_digits[of "- n"] by (simp add: cstr_def NUL_def)
  moreover have "\<not> isspace (CHR ''-'')" by (simp add: isspace_def)
  ultimately show ?thesis
    using True assms by (simp add: strtol10_def int_to_string_def Let_def)
next
  case False
  let ?d = "dec_digits n"
  have d: "is_digit (hd ?d)" using False by (simp add: dec_digits_hd)
  have "dropWhile isspace ?d = ?d"
    using digit_not_special(1)[OF d] by (simp add: dropWhile_none)
  then show ?thesis
    using False assms digit_not_special[OF d]
    by (simp add: strtol10_def int_to_string_def Let_def)
qed

lemma atoi_int_to_string:
  assumes "INT_MIN \<le> n" "n \<le> INT_MAX"
  shows "atoi (int_to_string n) = n"
  using assms by (simp add: atoi_def strtol10_int_to_string limit_defs wrap32_def)

section \<open>\<open>strtok\<close>\<close>

text \<open>
  One call of \<open>strtok\<close> on the remaining text: leading delimiters are skipped; the token
  ends at the next delimiter, which is consumed.
\<close>

definition strtok :: "string \<Rightarrow> string \<Rightarrow> (string \<times> string) option" where
  "strtok delim s =
     (let s1 = dropWhile (\<lambda>c. c \<in> set delim) s
      in if s1 = [] then None
         else Some (takeWhile (\<lambda>c. c \<notin> set delim) s1, tl (dropWhile (\<lambda>c. c \<notin> set delim) s1)))"

lemma strtok_shorter: "strtok delim s = Some (t, r) \<Longrightarrow> length r < length s"
proof -
  assume *: "strtok delim s = Some (t, r)"
  let ?s1 = "dropWhile (\<lambda>c. c \<in> set delim) s"
  from * have ne: "?s1 \<noteq> []" and r: "r = tl (dropWhile (\<lambda>c. c \<notin> set delim) ?s1)"
    by (auto simp: strtok_def Let_def split: if_splits)
  have "length r \<le> length (dropWhile (\<lambda>c. c \<notin> set delim) ?s1) - 1" using r by simp
  also have "\<dots> \<le> length ?s1 - 1"
    by (simp add: diff_le_mono length_dropWhile_le)
  also have "\<dots> < length ?s1" using ne by (cases ?s1) auto
  also have "\<dots> \<le> length s" by (rule length_dropWhile_le)
  finally show ?thesis .
qed

lemma strtok_token:
  assumes "strtok delim s = Some (t, r)"
  shows "t \<noteq> []" "set t \<inter> set delim = {}"
proof -
  let ?s1 = "dropWhile (\<lambda>c. c \<in> set delim) s"
  from assms have ne: "?s1 \<noteq> []" and t: "t = takeWhile (\<lambda>c. c \<notin> set delim) ?s1"
    by (auto simp: strtok_def Let_def split: if_splits)
  have "hd ?s1 \<notin> set delim" using ne by (rule hd_dropWhile)
  then show "t \<noteq> []" using ne t by (cases ?s1) auto
  show "set t \<inter> set delim = {}" using t by (auto dest: set_takeWhileD)
qed

section \<open>Bytes of a buffer\<close>

text \<open>Reading and writing one byte of a buffer, with the bound checked.\<close>

definition rd :: "string \<Rightarrow> nat \<Rightarrow> char cres" where
  "rd buf i = (if i < length buf then Inr (buf ! i) else Inl OutOfBounds)"

definition wr :: "string \<Rightarrow> nat \<Rightarrow> char \<Rightarrow> string cres" where
  "wr buf i c = (if i < length buf then Inr (buf[i := c]) else Inl BufferOverflow)"

lemma rd_Inr: "rd buf i = Inr c \<Longrightarrow> i < length buf"
  by (simp add: rd_def split: if_splits)

lemma wr_Inr: "wr buf i c = Inr buf' \<Longrightarrow> length buf' = length buf"
  by (auto simp: wr_def split: if_splits)

lemma rd_drop: "drop i buf = c # t \<Longrightarrow> rd buf i = Inr c \<and> drop (Suc i) buf = t"
  by (metis Cons_nth_drop_Suc drop_all list.inject list.distinct(1) not_le rd_def)

lemma drop_lt: "drop i buf = c # t \<Longrightarrow> i < length buf"
  by (metis drop_all list.distinct(1) not_le)

text \<open>Writing several bytes: \<open>memcpy\<close> into a buffer of known size, out of a region of known size.\<close>

definition wr_bytes :: "string \<Rightarrow> nat \<Rightarrow> string \<Rightarrow> string cres" where
  "wr_bytes buf i xs =
     (if i + length xs \<le> length buf then Inr (take i buf @ xs @ drop (i + length xs) buf)
      else Inl BufferOverflow)"

definition rd_bytes :: "string \<Rightarrow> int \<Rightarrow> string cres" where
  "rd_bytes buf n = (if n \<le> int (length buf) then Inr (take (nat n) buf) else Inl OutOfBounds)"

lemma rd_bytes_all [simp]: "rd_bytes xs (int (length xs)) = Inr xs"
  by (simp add: rd_bytes_def)

lemma wr_bytes_append:
  "length xs \<le> length t \<Longrightarrow> wr_bytes (pre @ t) (length pre) xs = Inr (pre @ xs @ drop (length xs) t)"
  by (simp add: wr_bytes_def)

lemma in_set_tlD: "x \<in> set (tl xs) \<Longrightarrow> x \<in> set xs"
  by (cases xs) auto

section \<open>Runs of a system and their invariants\<close>

inductive reaches :: "('s \<Rightarrow> 'r \<Rightarrow> 'o \<Rightarrow> 's \<Rightarrow> bool) \<Rightarrow> 's \<Rightarrow> ('r \<times> 'o) list \<Rightarrow> 's \<Rightarrow> bool"
  for step :: "'s \<Rightarrow> 'r \<Rightarrow> 'o \<Rightarrow> 's \<Rightarrow> bool" where
  reaches_start: "reaches step s [] s"
| reaches_step: "reaches step s tr s' \<Longrightarrow> step s' r z s'' \<Longrightarrow> reaches step s (tr @ [(r, z)]) s''"

text \<open>An invariant every step keeps holds in every state a run reaches.\<close>

locale step_invariant =
  fixes step :: "'s \<Rightarrow> 'r \<Rightarrow> 'o \<Rightarrow> 's \<Rightarrow> bool" and inv :: "'s \<Rightarrow> bool"
  assumes step_inv: "inv s \<Longrightarrow> step s r z s' \<Longrightarrow> inv s'"
begin

lemma reaches_inv: "reaches step s tr s' \<Longrightarrow> inv s \<Longrightarrow> inv s'"
  by (induction rule: reaches.induct) (auto intro: step_inv)

end

text \<open>A reflexive and transitive relation every step satisfies relates both ends of a run.\<close>

locale step_preorder =
  fixes step :: "'s \<Rightarrow> 'r \<Rightarrow> 'o \<Rightarrow> 's \<Rightarrow> bool" and rel :: "'s \<Rightarrow> 's \<Rightarrow> bool"
  assumes rel_refl: "rel s s" and rel_trans: "rel a b \<Longrightarrow> rel b c \<Longrightarrow> rel a c"
    and step_rel: "step s r z s' \<Longrightarrow> rel s s'"
begin

lemma reaches_rel: "reaches step s tr s' \<Longrightarrow> rel s s'"
  by (induction rule: reaches.induct) (auto intro: rel_refl rel_trans step_rel)

end

end
