(* ===== verification/CFloat.thy ===== *)
theory CFloat
  imports Prelude
begin

text \<open>
  IEEE 754 \<open>float\<close> (binary32) and \<open>double\<close> (binary64) as the sources use them:
  a sign bit and a dyadic magnitude, correctly rounded arithmetic (round to nearest,
  ties to even, as on x86-64), comparisons that are false on NaN, the conversions to and
  from integers, \<open>strtod\<close>/\<open>atof\<close>, and the \<open>printf\<close> conversions \<open>%f\<close> and
  \<open>%.<P>g\<close>. Every operation computes on integers; \<open>fl_rat\<close> is the rational a
  finite value stands for.
\<close>

datatype fl = NaN | Inf bool | Fin bool int int
  \<comment> \<open>\<open>Fin s n k\<close> stands for \<open>(-1)^s * n * 2^k\<close>, \<open>n \<ge> 0\<close>\<close>

datatype ffmt = Float | Double

definition prec :: "ffmt \<Rightarrow> int" where
  "prec f = (case f of Float \<Rightarrow> 24 | Double \<Rightarrow> 53)"

definition emin :: "ffmt \<Rightarrow> int" where
  "emin f = (case f of Float \<Rightarrow> - 126 | Double \<Rightarrow> - 1022)"

definition emax :: "ffmt \<Rightarrow> int" where
  "emax f = (case f of Float \<Rightarrow> 127 | Double \<Rightarrow> 1023)"

definition fl_zero :: fl where "fl_zero = Fin False 0 0"

section \<open>Rounding\<close>

text \<open>\<open>a * 2 ^ k\<close> for \<open>k \<ge> 0\<close>, and \<open>a\<close> itself for negative \<open>k\<close>.\<close>

definition scale2 :: "int \<Rightarrow> int \<Rightarrow> int" where
  "scale2 k a = a * 2 ^ nat k"

function nbits :: "int \<Rightarrow> int" where
  "nbits n = (if n \<le> 0 then 0 else 1 + nbits (n div 2))"
  by pat_completeness auto
termination
  by (relation "measure nat") auto

declare nbits.simps [simp del]

text \<open>The binary exponent of a positive fraction \<open>a / b\<close>: \<open>2^e \<le> a/b < 2^(e+1)\<close>.\<close>

definition frac_exp2 :: "int \<Rightarrow> int \<Rightarrow> int" where
  "frac_exp2 a b = (let d = nbits a - nbits b in if scale2 d b \<le> scale2 (- d) a then d else d - 1)"

text \<open>The integer nearest to \<open>a / b\<close>, ties to even.\<close>

definition round_even :: "int \<Rightarrow> int \<Rightarrow> int" where
  "round_even a b =
     (let q = a div b; r = a mod b
      in if 2 * r < b then q else if b < 2 * r then q + 1 else if even q then q else q + 1)"

text \<open>The value of format \<open>f\<close> nearest to \<open>a / b\<close> with the given sign.\<close>

definition fl_make :: "ffmt \<Rightarrow> bool \<Rightarrow> int \<Rightarrow> int \<Rightarrow> fl" where
  "fl_make f s a b =
     (if a = 0 then Fin s 0 0
      else let k = max (frac_exp2 a b) (emin f) - prec f + 1;
               n = round_even (scale2 (- k) a) (scale2 k b)
           in if scale2 (emax f + 1 - k) 1 \<le> n then Inf s else Fin s n k)"

text \<open>The same for \<open>n * 2 ^ k\<close>.\<close>

definition fl_round_dyadic :: "ffmt \<Rightarrow> bool \<Rightarrow> int \<Rightarrow> int \<Rightarrow> fl" where
  "fl_round_dyadic f s n k = fl_make f s (scale2 k n) (scale2 (- k) 1)"

section \<open>Arithmetic and comparison\<close>

definition fl_isnan :: "fl \<Rightarrow> bool" where "fl_isnan x = (x = NaN)"

definition signed :: "bool \<Rightarrow> int \<Rightarrow> int" where
  "signed s n = (if s then - n else n)"

fun fl_neg :: "fl \<Rightarrow> fl" where
  "fl_neg NaN = NaN"
| "fl_neg (Inf s) = Inf (\<not> s)"
| "fl_neg (Fin s n k) = Fin (\<not> s) n k"

fun fl_abs :: "fl \<Rightarrow> fl" where
  "fl_abs NaN = NaN"
| "fl_abs (Inf s) = Inf False"
| "fl_abs (Fin s n k) = Fin False n k"

fun fl_add :: "ffmt \<Rightarrow> fl \<Rightarrow> fl \<Rightarrow> fl" where
  "fl_add f NaN y = NaN"
| "fl_add f x NaN = NaN"
| "fl_add f (Inf s) (Inf t) = (if s = t then Inf s else NaN)"
| "fl_add f (Inf s) (Fin t m j) = Inf s"
| "fl_add f (Fin s n k) (Inf t) = Inf t"
| "fl_add f (Fin s n k) (Fin t m j) =
     (let l = min k j; v = signed s (scale2 (k - l) n) + signed t (scale2 (j - l) m)
      in if v = 0 then Fin (s \<and> t) 0 0 else fl_round_dyadic f (v < 0) \<bar>v\<bar> l)"

definition fl_sub :: "ffmt \<Rightarrow> fl \<Rightarrow> fl \<Rightarrow> fl" where
  "fl_sub f x y = fl_add f x (fl_neg y)"

fun fl_mult :: "ffmt \<Rightarrow> fl \<Rightarrow> fl \<Rightarrow> fl" where
  "fl_mult f NaN y = NaN"
| "fl_mult f x NaN = NaN"
| "fl_mult f (Inf s) (Inf t) = Inf (s \<noteq> t)"
| "fl_mult f (Inf s) (Fin t m j) = (if m = 0 then NaN else Inf (s \<noteq> t))"
| "fl_mult f (Fin s n k) (Inf t) = (if n = 0 then NaN else Inf (s \<noteq> t))"
| "fl_mult f (Fin s n k) (Fin t m j) = fl_round_dyadic f (s \<noteq> t) (n * m) (k + j)"

text \<open>\<open>x < y\<close> and \<open>x <= y\<close>; both are false when an operand is NaN.\<close>

fun fl_less :: "fl \<Rightarrow> fl \<Rightarrow> bool" where
  "fl_less NaN y = False"
| "fl_less x NaN = False"
| "fl_less (Inf s) (Inf t) = (s \<and> \<not> t)"
| "fl_less (Inf s) (Fin t m j) = s"
| "fl_less (Fin s n k) (Inf t) = (\<not> t)"
| "fl_less (Fin s n k) (Fin t m j) =
     (let l = min k j in signed s (scale2 (k - l) n) < signed t (scale2 (j - l) m))"

fun fl_le :: "fl \<Rightarrow> fl \<Rightarrow> bool" where
  "fl_le NaN y = False"
| "fl_le x NaN = False"
| "fl_le (Inf s) (Inf t) = (s \<or> \<not> t)"
| "fl_le (Inf s) (Fin t m j) = s"
| "fl_le (Fin s n k) (Inf t) = (\<not> t)"
| "fl_le (Fin s n k) (Fin t m j) =
     (let l = min k j in signed s (scale2 (k - l) n) \<le> signed t (scale2 (j - l) m))"

section \<open>Conversions\<close>

definition fl_of_int :: "ffmt \<Rightarrow> int \<Rightarrow> fl" where
  "fl_of_int f n = fl_make f (n < 0) \<bar>n\<bar> 1"

text \<open>A decimal constant \<open>a / b\<close> of the source, as the \<open>double\<close> the compiler makes of it.\<close>

definition dconst :: "int \<Rightarrow> int \<Rightarrow> fl" where
  "dconst a b = fl_make Double (a < 0) \<bar>a\<bar> b"

fun to_float :: "fl \<Rightarrow> fl" where
  "to_float NaN = NaN"
| "to_float (Inf s) = Inf s"
| "to_float (Fin s n k) = fl_round_dyadic Float s n k"

text \<open>\<open>(int) x\<close>: truncation; undefined outside the range of \<open>int\<close>.\<close>

fun fl_to_int :: "fl \<Rightarrow> int cres" where
  "fl_to_int (Fin s n k) =
     (let m = signed s (scale2 k n div scale2 (- k) 1)
      in if INT_MIN \<le> m \<and> m \<le> INT_MAX then Inr m else Inl BadConversion)"
| "fl_to_int NaN = Inl BadConversion"
| "fl_to_int (Inf s) = Inl BadConversion"

text \<open>\<open>std::round\<close>: to the nearest integer, halves away from zero (an exact operation).\<close>

fun fl_round :: "fl \<Rightarrow> fl" where
  "fl_round (Fin s n k) = (if 0 \<le> k then Fin s n k else Fin s ((2 * n + 2 ^ nat (- k)) div (2 * 2 ^ nat (- k))) 0)"
| "fl_round NaN = NaN"
| "fl_round (Inf s) = Inf s"

section \<open>\<open>strtod\<close> and \<open>atof\<close>\<close>

definition is_xdigit :: "char \<Rightarrow> bool" where
  "is_xdigit c = (is_digit c \<or> (97 \<le> byte_of (tolower c) \<and> byte_of (tolower c) \<le> 102))"

definition xdigit_val :: "char \<Rightarrow> int" where
  "xdigit_val c = (if is_digit c then digit_val c else byte_of (tolower c) - 87)"

definition hex_val :: "string \<Rightarrow> int" where
  "hex_val s = foldl (\<lambda>a c. 16 * a + xdigit_val c) 0 s"

text \<open>The optional exponent: its value and the number of characters it takes (0 if malformed).\<close>

definition exponent_part :: "char \<Rightarrow> string \<Rightarrow> int \<times> nat" where
  "exponent_part e s =
     (if s \<noteq> [] \<and> tolower (hd s) = e then
        let s1 = tl s;
            sgnd = (s1 \<noteq> [] \<and> (hd s1 = CHR ''-'' \<or> hd s1 = CHR ''+''));
            s2 = (if sgnd then tl s1 else s1);
            ds = takeWhile is_digit s2
        in if ds = [] then (0, 0)
           else ((if sgnd \<and> hd s1 = CHR ''-'' then - dec_val ds else dec_val ds),
                 1 + (if sgnd then 1 else 0) + length ds)
      else (0, 0))"

text \<open>
  An unsigned decimal or hexadecimal number at the head of the text: a fraction and the
  characters taken; \<open>None\<close> if there is none.
\<close>

definition decimal_part :: "string \<Rightarrow> (int \<times> int \<times> nat) option" where
  "decimal_part s =
     (let ip = takeWhile is_digit s;
          s1 = dropWhile is_digit s;
          dot = (s1 \<noteq> [] \<and> hd s1 = CHR ''.'');
          fp = (if dot then takeWhile is_digit (tl s1) else [])
      in if ip = [] \<and> fp = [] then None
         else let k = length ip + (if dot then 1 + length fp else 0);
                  (x, j) = exponent_part (CHR ''e'') (drop k s);
                  d = x - int (length fp)
              in Some (dec_val (ip @ fp) * 10 ^ nat d, 10 ^ nat (- d), k + j))"

definition hexadecimal_part :: "string \<Rightarrow> (int \<times> int \<times> nat) option" where
  "hexadecimal_part s =
     (let ip = takeWhile is_xdigit s;
          s1 = dropWhile is_xdigit s;
          dot = (s1 \<noteq> [] \<and> hd s1 = CHR ''.'');
          fp = (if dot then takeWhile is_xdigit (tl s1) else [])
      in if ip = [] \<and> fp = [] then None
         else let k = length ip + (if dot then 1 + length fp else 0);
                  (x, j) = exponent_part (CHR ''p'') (drop k s);
                  d = x - 4 * int (length fp)
              in Some (scale2 d (hex_val (ip @ fp)), scale2 (- d) 1, k + j))"

definition nan_length :: "string \<Rightarrow> nat" where
  "nan_length s =
     (if s \<noteq> [] \<and> hd s = CHR ''('' then
        let body = takeWhile (\<lambda>c. is_digit c \<or> (97 \<le> byte_of (tolower c) \<and> byte_of (tolower c) \<le> 122)
                                  \<or> c = CHR ''_'') (tl s);
            rest = drop (length body) (tl s)
        in if rest \<noteq> [] \<and> hd rest = CHR '')'' then 2 + length body else 0
      else 0)"

text \<open>The value and the number of characters converted (0: no conversion).\<close>

definition strtod :: "string \<Rightarrow> fl \<times> nat" where
  "strtod str =
     (let s = cstr str;
          ws = length (takeWhile isspace s);
          s1 = drop ws s;
          sgnd = (s1 \<noteq> [] \<and> (hd s1 = CHR ''-'' \<or> hd s1 = CHR ''+''));
          neg = (sgnd \<and> hd s1 = CHR ''-'');
          k = ws + (if sgnd then 1 else 0);
          s2 = drop k s;
          l2 = map tolower (take 8 s2)
      in if l2 = ''infinity'' then (Inf neg, k + 8)
         else if take 3 l2 = ''inf'' then (Inf neg, k + 3)
         else if take 3 l2 = ''nan'' then (NaN, k + 3 + nan_length (drop 3 s2))
         else case (if take 2 l2 = ''0x'' then hexadecimal_part (drop 2 s2) else None) of
                Some (a, b, j) \<Rightarrow> (fl_make Double neg a b, k + 2 + j)
              | None \<Rightarrow>
                  (case decimal_part s2 of
                     Some (a, b, j) \<Rightarrow> (fl_make Double neg a b, k + j)
                   | None \<Rightarrow> (fl_zero, 0)))"

definition atof :: "string \<Rightarrow> fl" where "atof s = fst (strtod s)"

section \<open>\<open>printf\<close> conversions\<close>

text \<open>\<open>n\<close> as at least \<open>k\<close> decimal digits, zero padded.\<close>

definition pad_digits :: "nat \<Rightarrow> int \<Rightarrow> string" where
  "pad_digits k n = (let d = dec_digits n in replicate (k - length d) (CHR ''0'') @ d)"

text \<open>\<open>a / b\<close> with \<open>k\<close> digits after the point.\<close>

definition fixed_digits :: "nat \<Rightarrow> int \<Rightarrow> int \<Rightarrow> string" where
  "fixed_digits k a b =
     (let n = round_even (a * 10 ^ k) b
      in dec_digits (n div 10 ^ k) @ (if k = 0 then [] else CHR ''.'' # pad_digits k (n mod 10 ^ k)))"

definition sign_str :: "bool \<Rightarrow> string" where
  "sign_str s = (if s then ''-'' else [])"

text \<open>\<open>%f\<close>, also what \<open>std::to_string\<close> of a \<open>float\<close> or \<open>double\<close> gives.\<close>

fun fmt_f :: "fl \<Rightarrow> string" where
  "fmt_f NaN = ''nan''"
| "fmt_f (Inf s) = sign_str s @ ''inf''"
| "fmt_f (Fin s n k) = sign_str s @ fixed_digits 6 (scale2 k n) (scale2 (- k) 1)"

text \<open>The decimal exponent of a positive fraction.\<close>

definition frac_exp10 :: "int \<Rightarrow> int \<Rightarrow> int" where
  "frac_exp10 a b =
     (let d = int (length (dec_digits a)) - int (length (dec_digits b))
      in if b * 10 ^ nat d \<le> a * 10 ^ nat (- d) then d else d - 1)"

text \<open>Trailing zeros of the fraction, and a bare point, are dropped by \<open>%g\<close>.\<close>

definition strip_zeros :: "string \<Rightarrow> string" where
  "strip_zeros s =
     (if CHR ''.'' \<in> set s then
        let t = rev (dropWhile (\<lambda>c. c = CHR ''0'') (rev s))
        in if last t = CHR ''.'' then butlast t else t
      else s)"

text \<open>The \<open>P\<close> significant digits of a positive fraction, with its decimal exponent.\<close>

definition sig_digits :: "nat \<Rightarrow> int \<Rightarrow> int \<Rightarrow> int \<times> int" where
  "sig_digits P a b =
     (let x = frac_exp10 a b; j = x - int P + 1;
          n = round_even (a * 10 ^ nat (- j)) (b * 10 ^ nat j)
      in if n = 10 ^ P then (10 ^ (P - 1), x + 1) else (n, x))"

definition exp_str :: "int \<Rightarrow> string" where
  "exp_str x = (if x < 0 then ''e-'' else ''e+'') @ pad_digits 2 \<bar>x\<bar>"

fun fmt_g :: "nat \<Rightarrow> fl \<Rightarrow> string" where
  "fmt_g P NaN = ''nan''"
| "fmt_g P (Inf s) = sign_str s @ ''inf''"
| "fmt_g P (Fin s m k) =
     sign_str s @
     (if m = 0 then ''0''
      else let (n, x) = sig_digits P (scale2 k m) (scale2 (- k) 1); j = x - int P + 1
           in if - 4 \<le> x \<and> x < int P then
                strip_zeros (fixed_digits (nat (int P - 1 - x)) (n * 10 ^ nat j) (10 ^ nat (- j)))
              else
                let d = pad_digits P n
                in strip_zeros (hd d # CHR ''.'' # tl d) @ exp_str x)"

section \<open>Consumption of the input\<close>

lemma exponent_part_le: "snd (exponent_part e s) \<le> length s"
proof -
  let ?s1 = "tl s" let ?s2 = "tl (tl s)"
  have a: "s \<noteq> [] \<Longrightarrow> Suc (length (takeWhile is_digit ?s1)) \<le> length s"
    using length_takeWhile_le[of is_digit ?s1] by (cases s) auto
  have b: "s \<noteq> [] \<Longrightarrow> ?s1 \<noteq> [] \<Longrightarrow> Suc (Suc (length (takeWhile is_digit ?s2))) \<le> length s"
    using length_takeWhile_le[of is_digit ?s2] by (cases s; cases ?s1) auto
  show ?thesis using a b by (auto simp: exponent_part_def Let_def)
qed

lemma mantissa_le:
  "length (takeWhile P s) +
     (if dropWhile P s \<noteq> [] \<and> hd (dropWhile P s) = c
      then 1 + length (takeWhile P (tl (dropWhile P s))) else 0) \<le> length s"
proof -
  have s: "length (takeWhile P s) + length (dropWhile P s) = length s"
    by (metis length_append takeWhile_dropWhile_id)
  show ?thesis
  proof (cases "dropWhile P s")
    case Nil
    then show ?thesis using s by simp
  next
    case (Cons x xs)
    then show ?thesis using s length_takeWhile_le[of P xs] by simp
  qed
qed

lemma exponent_part_at:
  assumes "exponent_part e (drop k s) = (x, j)" and "k \<le> length s"
  shows "k + j \<le> length s"
  using exponent_part_le[of e "drop k s"] assms by simp

lemma decimal_part_le: "decimal_part s = Some (a, b, n) \<Longrightarrow> n \<le> length s"
  using mantissa_le[of is_digit s "CHR ''.''"]
  by (auto simp: decimal_part_def Let_def split: if_splits prod.splits dest!: exponent_part_at)

lemma hexadecimal_part_le: "hexadecimal_part s = Some (a, b, n) \<Longrightarrow> n \<le> length s"
  using mantissa_le[of is_xdigit s "CHR ''.''"]
  by (auto simp: hexadecimal_part_def Let_def split: if_splits prod.splits dest!: exponent_part_at)

lemma fl_make_not_NaN [simp]: "fl_make f s a b \<noteq> NaN"
  by (simp add: fl_make_def Let_def)

section \<open>Values as rationals\<close>

fun fl_rat :: "fl \<Rightarrow> rat" where
  "fl_rat (Fin s n k) = of_int (signed s n) * 2 powi k"
| "fl_rat NaN = 0"
| "fl_rat (Inf s) = 0"

lemma of_int_scale2: "0 \<le> k \<Longrightarrow> (of_int (scale2 k n) :: rat) = of_int n * 2 powi k"
  by (simp add: scale2_def power_int_def)

lemma aligned_rat:
  assumes "l \<le> k"
  shows "(of_int (signed s (scale2 (k - l) n)) :: rat) * 2 powi l = fl_rat (Fin s n k)"
proof -
  have "(2::rat) powi (k - l) * 2 powi l = 2 powi k"
    by (simp add: power_int_add[symmetric])
  then show ?thesis
    using of_int_scale2[of "k - l" n] assms by (simp add: signed_def mult.assoc)
qed

lemma fl_less_rat: "fl_less (Fin s n k) (Fin t m j) \<longleftrightarrow> fl_rat (Fin s n k) < fl_rat (Fin t m j)"
proof -
  let ?l = "min k j"
  have "fl_less (Fin s n k) (Fin t m j) \<longleftrightarrow>
      (of_int (signed s (scale2 (k - ?l) n)) :: rat) * 2 powi ?l
        < of_int (signed t (scale2 (j - ?l) m)) * 2 powi ?l"
    by (simp add: Let_def)
  then show ?thesis by (simp only: aligned_rat min.cobounded1 min.cobounded2)
qed

lemma fl_le_rat: "fl_le (Fin s n k) (Fin t m j) \<longleftrightarrow> fl_rat (Fin s n k) \<le> fl_rat (Fin t m j)"
proof -
  let ?l = "min k j"
  have "fl_le (Fin s n k) (Fin t m j) \<longleftrightarrow>
      (of_int (signed s (scale2 (k - ?l) n)) :: rat) * 2 powi ?l
        \<le> of_int (signed t (scale2 (j - ?l) m)) * 2 powi ?l"
    by (simp add: Let_def)
  then show ?thesis by (simp only: aligned_rat min.cobounded1 min.cobounded2)
qed

lemma trunc_floor: "scale2 k n div scale2 (- k) 1 = \<lfloor>(of_int n :: rat) * 2 powi k\<rfloor>"
proof (cases "0 \<le> k")
  case True
  then have "(of_int n :: rat) * 2 powi k = of_int (n * 2 ^ nat k)"
    by (simp add: power_int_def)
  then have "\<lfloor>(of_int n :: rat) * 2 powi k\<rfloor> = n * 2 ^ nat k" by (simp only: floor_of_int)
  with True show ?thesis by (simp add: scale2_def)
next
  case False
  then have "(2::rat) powi k = inverse (2 ^ nat (- k))"
    by (simp only: power_int_def if_False power_inverse)
  then have "(of_int n :: rat) * 2 powi k = of_int n / of_int (2 ^ nat (- k))"
    by (simp only: divide_inverse of_int_power of_int_numeral)
  then have "\<lfloor>(of_int n :: rat) * 2 powi k\<rfloor> = n div 2 ^ nat (- k)"
    by (simp only: floor_divide_of_int_eq)
  with False show ?thesis by (simp add: scale2_def)
qed

section \<open>Length of printed numbers\<close>

text \<open>The values of \<open>double\<close>: at most 53 significant bits, exponents in range.\<close>

definition is_double :: "fl \<Rightarrow> bool" where
  "is_double d = (case d of Fin s n k \<Rightarrow> 0 \<le> n \<and> n \<le> 2 ^ 53 \<and> - 1074 \<le> k \<and> k \<le> 971 | _ \<Rightarrow> True)"

lemma is_double_zero [simp]: "is_double (Fin s 0 0)"
  by (simp add: is_double_def)

lemma dec_digits_length: "0 \<le> n \<Longrightarrow> n < 10 ^ Suc k \<Longrightarrow> length (dec_digits n) \<le> Suc k"
proof (induction k arbitrary: n)
  case 0
  then show ?case by (subst dec_digits.simps) simp
next
  case (Suc k)
  then have "length (dec_digits (n div 10)) \<le> Suc k" by (intro Suc.IH) auto
  then show ?case by (subst dec_digits.simps) simp
qed

lemma dec_digits_bounds:
  "0 < n \<Longrightarrow> 10 ^ (length (dec_digits n) - 1) \<le> n \<and> n < 10 ^ length (dec_digits n)"
proof (induction n rule: dec_digits.induct)
  case (1 n)
  show ?case
  proof (cases "n < 10")
    case True
    then have "dec_digits n = [digit_char n]" by (subst dec_digits.simps) simp
    with True 1 show ?thesis by simp
  next
    case False
    let ?l = "length (dec_digits (n div 10))"
    have l: "length (dec_digits n) = Suc ?l" using False by (subst dec_digits.simps) simp
    have "0 < ?l" by (simp add: dec_digits_not_Nil)
    then obtain m where m: "?l = Suc m" by (cases ?l) auto
    have "10 ^ (?l - 1) \<le> n div 10 \<and> n div 10 < 10 ^ ?l" using 1 False by auto
    with l m show ?thesis by auto
  qed
qed

lemma round_even_le:
  assumes "0 < b" "a \<le> m * b"
  shows "round_even a b \<le> m"
proof -
  let ?q = "a div b" let ?r = "a mod b"
  have a: "a = b * ?q + ?r" "0 \<le> ?r" "?r < b" using assms by auto
  have q: "?q \<le> m" using assms by (metis zdiv_mono1 nonzero_mult_div_cancel_right less_irrefl)
  show ?thesis
  proof (cases "?q = m")
    case True
    then have "?r \<le> 0" using a assms by (simp add: mult.commute)
    then have "?r = 0" using a by simp
    then show ?thesis using q assms by (simp add: round_even_def Let_def)
  next
    case False
    with q show ?thesis by (auto simp: round_even_def Let_def)
  qed
qed

lemma round_even_nonneg: "0 < b \<Longrightarrow> 0 \<le> a \<Longrightarrow> 0 \<le> round_even a b"
  using pos_imp_zdiv_nonneg_iff[of b a] by (auto simp: round_even_def Let_def)

lemma round_even_exact: "0 < b \<Longrightarrow> round_even (n * b) b = n"
  by (simp add: round_even_def Let_def)

text \<open>The decimal exponent bounds the fraction from above.\<close>

lemma frac_exp10_upper:
  assumes "0 < a" "0 < b"
  shows "a * 10 ^ nat (- (frac_exp10 a b + 1)) < b * 10 ^ nat (frac_exp10 a b + 1)"
proof -
  let ?la = "length (dec_digits a)" let ?lb = "length (dec_digits b)"
  let ?d = "int ?la - int ?lb"
  have a: "a < 10 ^ ?la" and b: "10 ^ (?lb - 1) \<le> b" and lb: "0 < ?lb"
    using dec_digits_bounds[OF assms(1)] dec_digits_bounds[OF assms(2)] by (auto simp: dec_digits_not_Nil)
  have up: "a * 10 ^ nat (- (?d + 1)) < b * 10 ^ nat (?d + 1)"
  proof (cases "0 \<le> ?d + 1")
    case True
    have "?la = (?lb - 1) + nat (?d + 1)" using True lb by linarith
    then have "a < 10 ^ (?lb - 1) * 10 ^ nat (?d + 1)" using a by (metis power_add)
    also have "\<dots> \<le> b * 10 ^ nat (?d + 1)" using b by simp
    finally show ?thesis using True by simp
  next
    case False
    have "a * 10 ^ nat (- (?d + 1)) < 10 ^ ?la * 10 ^ nat (- (?d + 1))" using a by simp
    also have "\<dots> = 10 ^ (?lb - 1)" using False lb by (auto simp: power_add[symmetric])
    also have "\<dots> \<le> b" by (rule b)
    finally show ?thesis using False by simp
  qed
  show ?thesis using up by (auto simp: frac_exp10_def Let_def not_le)
qed

lemma sig_digits_bounds:
  assumes "0 < a" "0 < b" "0 < P" "sig_digits P a b = (n, x)"
  shows "0 \<le> n" "n < 10 ^ P" "frac_exp10 a b \<le> x" "x \<le> frac_exp10 a b + 1"
proof -
  let ?x = "frac_exp10 a b" let ?j = "?x - int P + 1"
  let ?A = "a * 10 ^ nat (- ?j)" let ?B = "b * 10 ^ nat ?j"
  have le: "?A \<le> 10 ^ P * ?B"
  proof (cases "0 \<le> ?x + 1")
    case True
    then have u: "a < b * 10 ^ nat (?x + 1)" using frac_exp10_upper[OF assms(1,2)] by simp
    have e: "nat (?x + 1) + nat (- ?j) = P + nat ?j" using True by simp
    have "?A < b * 10 ^ nat (?x + 1) * 10 ^ nat (- ?j)" using u by simp
    also have "\<dots> = b * 10 ^ (nat (?x + 1) + nat (- ?j))" by (simp only: power_add mult.assoc)
    also have "\<dots> = 10 ^ P * ?B" by (simp only: e power_add mult.left_commute)
    finally show ?thesis by simp
  next
    case False
    then have u: "a * 10 ^ nat (- (?x + 1)) < b" using frac_exp10_upper[OF assms(1,2)] by simp
    have e: "nat (- ?j) = nat (- (?x + 1)) + P" "nat ?j = 0" using False by auto
    have "?A = a * 10 ^ nat (- (?x + 1)) * 10 ^ P" by (simp only: e power_add mult.assoc)
    also have "\<dots> \<le> b * 10 ^ P" using u by simp
    finally show ?thesis using e by (simp add: mult.commute)
  qed
  have n: "0 \<le> round_even ?A ?B" "round_even ?A ?B \<le> 10 ^ P"
    using round_even_nonneg[of ?B ?A] round_even_le[of ?B ?A "10 ^ P"] le assms by auto
  show "0 \<le> n" "n < 10 ^ P" "frac_exp10 a b \<le> x" "x \<le> frac_exp10 a b + 1"
    using n assms by (auto simp: sig_digits_def Let_def split: if_splits)
qed

lemma pad_digits_length: "0 \<le> n \<Longrightarrow> n < 10 ^ k \<Longrightarrow> 0 < k \<Longrightarrow> length (pad_digits k n) = k"
  using dec_digits_length[of n "k - 1"] by (simp add: pad_digits_def Let_def)

lemma strip_zeros_length: "length (strip_zeros s) \<le> length s"
  using length_dropWhile_le[of "\<lambda>c. c = CHR ''0''" "rev s"]
  by (auto simp: strip_zeros_def Let_def le_diff_conv)

lemma strip_zeros_set: "set (strip_zeros s) \<subseteq> set s"
proof -
  let ?t = "rev (dropWhile (\<lambda>c. c = CHR ''0'') (rev s))"
  have "set ?t \<subseteq> set s" by (auto dest: set_dropWhileD)
  moreover have "set (butlast ?t) \<subseteq> set ?t" by (meson in_set_butlastD subsetI)
  ultimately have "set (butlast ?t) \<subseteq> set s" by (rule subset_trans[rotated])
  then show ?thesis using \<open>set ?t \<subseteq> set s\<close>
    unfolding strip_zeros_def Let_def by (simp del: butlast_rev set_rev split: if_split)
qed

text \<open>Characters of a printed number: digits, sign, point and exponent mark.\<close>

definition numeral_char :: "char \<Rightarrow> bool" where
  "numeral_char c = (is_digit c \<or> c \<in> {CHR ''-'', CHR ''+'', CHR ''.'', CHR ''e''})"

lemma numeral_char_consts [simp]:
  "numeral_char (CHR ''0'')" "numeral_char (CHR ''-'')" "numeral_char (CHR ''+'')"
  "numeral_char (CHR ''.'')" "numeral_char (CHR ''e'')"
  by (simp_all add: numeral_char_def is_digit_def)

lemma dec_digits_numeral: "0 \<le> n \<Longrightarrow> c \<in> set (dec_digits n) \<Longrightarrow> numeral_char c"
  using dec_digits_all_digit by (auto simp: numeral_char_def)

lemma pad_digits_numeral: "0 \<le> n \<Longrightarrow> c \<in> set (pad_digits k n) \<Longrightarrow> numeral_char c"
proof -
  assume a: "0 \<le> n" "c \<in> set (pad_digits k n)"
  have z: "numeral_char (CHR ''0'')" by (simp add: numeral_char_def is_digit_def)
  from a(2) have "c = CHR ''0'' \<or> c \<in> set (dec_digits n)" by (auto simp: pad_digits_def Let_def)
  then show "numeral_char c" using z dec_digits_numeral[OF a(1)] by blast
qed

lemma div_less_power:
  assumes "0 < b" "n < m * b"
  shows "n div b < (m::int)"
proof (rule ccontr)
  assume "\<not> n div b < m"
  then have "m * b \<le> n div b * b" using assms(1) by simp
  also have "\<dots> \<le> n" using assms(1) div_mult_mod_eq[of n b] pos_mod_sign[of b n] by linarith
  finally show False using assms(2) by simp
qed

lemma fixed_digits_exact:
  assumes "0 \<le> n"
  shows "fixed_digits k n (10 ^ k)
    = dec_digits (n div 10 ^ k) @ (if k = 0 then [] else CHR ''.'' # pad_digits k (n mod 10 ^ k))"
  using round_even_exact[of "10 ^ k" n] by (simp add: fixed_digits_def Let_def)

lemma fixed_digits_length:
  assumes "0 \<le> n" "n < 10 ^ P" "- 4 \<le> x" "x < int P" "k = nat (int P - 1 - x)"
  shows "length (fixed_digits k n (10 ^ k)) \<le> P + 5"
proof -
  have pl: "k \<noteq> 0 \<Longrightarrow> length (pad_digits k (n mod 10 ^ k)) = k"
    by (rule pad_digits_length) auto
  have "length (dec_digits (n div 10 ^ k)) + k \<le> P + 4"
  proof (cases "0 \<le> x")
    case True
    have kP: "Suc (nat x) + k = P" using True assms by simp
    have "n div 10 ^ k < 10 ^ Suc (nat x)"
    proof -
      have "n < 10 ^ Suc (nat x) * 10 ^ k" using assms(2) kP by (metis power_add)
      then show ?thesis by (rule div_less_power[rotated]) simp
    qed
    then have "length (dec_digits (n div 10 ^ k)) \<le> Suc (nat x)"
      using assms(1) by (intro dec_digits_length) (auto simp: pos_imp_zdiv_nonneg_iff)
    then show ?thesis using kP by simp
  next
    case False
    then have "P \<le> k" using assms by simp
    then have "n < 10 ^ k" using assms(2) by (meson order_less_le_trans power_increasing one_le_numeral)
    then have "length (dec_digits (n div 10 ^ k)) = 1"
      using assms(1) by (subst dec_digits.simps) simp
    then show ?thesis using assms by simp
  qed
  then show ?thesis using pl by (auto simp: fixed_digits_exact[OF assms(1)])
qed

lemma exp_str_length: "\<bar>x\<bar> < 1000 \<Longrightarrow> length (exp_str x) \<le> 5"
  using dec_digits_length[of "\<bar>x\<bar>" 2] by (auto simp: exp_str_def pad_digits_def Let_def)

lemma two_power_digits: "(2::int) ^ (3 * k) < 10 ^ k" if "0 < k"
  unfolding power_mult using that by (intro power_strict_mono) simp_all

lemma dec_digits_below:
  assumes "0 \<le> n" "n \<le> 2 ^ j" "j \<le> 3 * k" "0 < k"
  shows "length (dec_digits n) \<le> k"
proof -
  have "(2::int) ^ j \<le> 2 ^ (3 * k)" using assms(3) by (intro power_increasing) simp_all
  with assms(2) two_power_digits[OF assms(4)] have "n < 10 ^ k" by linarith
  with assms(1,4) dec_digits_length[of n "k - 1"] show ?thesis by simp
qed

lemma double_exponent:
  assumes "0 < m" "is_double (Fin s m k)"
  shows "\<bar>frac_exp10 (scale2 k m) (scale2 (- k) 1)\<bar> < 999"
proof -
  have b: "m \<le> 2 ^ 53" "nat (- k) \<le> 1074" "nat k \<le> 971" using assms by (simp_all only: is_double_def fl.case) linarith+
  have u: "scale2 k m \<le> 2 ^ (53 + nat k)"
    unfolding scale2_def power_add using b(1) by (intro mult_right_mono) simp_all
  have "length (dec_digits (scale2 k m)) \<le> 358"
    by (rule dec_digits_below[OF _ u]) (use assms(1) b(3) in \<open>simp_all add: scale2_def\<close>)
  moreover have "length (dec_digits (scale2 (- k) 1)) \<le> 358"
    using b(2) by (intro dec_digits_below[of _ "nat (- k)"]) (simp_all add: scale2_def)
  ultimately show ?thesis by (auto simp: frac_exp10_def Let_def)
qed

lemma fmt_g_length:
  assumes "is_double d" "0 < P"
  shows "length (fmt_g P d) \<le> P + 7"
proof (cases d)
  case (Fin s m k)
  show ?thesis
  proof (cases "m = 0")
    case False
    let ?a = "scale2 k m" let ?b = "scale2 (- k) 1"
    obtain n x where nx: "sig_digits P ?a ?b = (n, x)" by fastforce
    have m: "0 < m" using False assms Fin by (simp add: is_double_def)
    have n: "0 \<le> n" "n < 10 ^ P" and "frac_exp10 ?a ?b \<le> x" "x \<le> frac_exp10 ?a ?b + 1"
      using sig_digits_bounds[OF _ _ assms(2) nx] m by (auto simp: scale2_def)
    then have x: "\<bar>x\<bar> < 1000" using double_exponent[of m s k] m assms(1) Fin by simp
    have sg: "length (sign_str s) \<le> 1" by (simp add: sign_str_def)
    show ?thesis
    proof (cases "- 4 \<le> x \<and> x < int P")
      case True
      let ?k = "nat (int P - 1 - x)"
      have j: "nat (x - int P + 1) = 0" "nat (- (x - int P + 1)) = ?k" using True by auto
      have "length (strip_zeros (fixed_digits ?k n (10 ^ ?k))) \<le> P + 5"
        using fixed_digits_length[OF n, of x ?k] True strip_zeros_length le_trans by blast
      then show ?thesis using Fin False nx True sg j by simp
    next
      case o: False
      let ?d = "pad_digits P n"
      have "length ?d = P" using n assms(2) by (rule pad_digits_length)
      then have "length (strip_zeros (hd ?d # CHR ''.'' # tl ?d)) \<le> P + 1"
        using strip_zeros_length[of "hd ?d # CHR ''.'' # tl ?d"] assms(2) by simp
      then show ?thesis using Fin False nx o sg exp_str_length[OF x] by (auto simp: Let_def)
    qed
  qed (simp add: Fin sign_str_def)
qed (auto simp: sign_str_def)

lemma fmt_g_chars:
  assumes "is_double (Fin s m k)" "0 < P" "c \<in> set (fmt_g P (Fin s m k))"
  shows "numeral_char c"
proof (cases "m = 0")
  case True
  with assms show ?thesis by (auto simp: sign_str_def split: if_splits)
next
  case False
  let ?a = "scale2 k m" let ?b = "scale2 (- k) 1"
  obtain n x where nx: "sig_digits P ?a ?b = (n, x)" by fastforce
  have n: "0 \<le> n" "n < 10 ^ P"
    using sig_digits_bounds[OF _ _ assms(2) nx] False assms(1) by (auto simp: scale2_def is_double_def)
  let ?d = "pad_digits P n" let ?k = "nat (int P - 1 - x)"
  have d: "?d \<noteq> []" by (simp add: pad_digits_def Let_def)
  have sg: "e \<in> set (sign_str s) \<Longrightarrow> numeral_char e" for e by (simp add: sign_str_def split: if_splits)
  have "set (exp_str x) \<subseteq> {CHR ''e'', CHR ''-'', CHR ''+''} \<union> set (pad_digits 2 \<bar>x\<bar>)"
    unfolding exp_str_def set_append by (intro Un_mono) (cases "x < 0"; simp)+
  then have ex: "e \<in> set (exp_str x) \<Longrightarrow> numeral_char e" for e
    using pad_digits_numeral[of "\<bar>x\<bar>" e 2] numeral_char_consts abs_ge_zero by blast
  have man: "numeral_char e" if e: "e \<in> set (strip_zeros (hd ?d # CHR ''.'' # tl ?d))" for e
  proof -
    have "e \<in> set (hd ?d # CHR ''.'' # tl ?d)" using e by (rule subsetD[OF strip_zeros_set])
    then consider "e = CHR ''.''" | "e \<in> set ?d" using d list.set_sel by (metis set_ConsD)
    then show ?thesis using pad_digits_numeral[OF n(1)] by cases auto
  qed
  have fixd: "numeral_char e" if e: "e \<in> set (strip_zeros (fixed_digits k n (10 ^ k)))" for e k
  proof -
    have "set (fixed_digits k n (10 ^ k)) \<subseteq> set (dec_digits (n div 10 ^ k)) \<union> {CHR ''.''} \<union> set (pad_digits k (n mod 10 ^ k))"
      unfolding fixed_digits_exact[OF n(1)] by (cases "k = 0") (simp_all add: le_supI1 subset_insertI2)
    moreover have "0 \<le> n div 10 ^ k" "0 \<le> n mod 10 ^ k" using n(1) by (simp_all add: pos_imp_zdiv_nonneg_iff)
    ultimately show ?thesis
      using e strip_zeros_set[of "fixed_digits k n (10 ^ k)"] dec_digits_numeral pad_digits_numeral
        numeral_char_consts(4) by blast
  qed
  show ?thesis
  proof (cases "- 4 \<le> x \<and> x < int P")
    case True
    then have j: "nat (x - int P + 1) = 0" "nat (- (x - int P + 1)) = ?k" by auto
    have "fmt_g P (Fin s m k) = sign_str s @ strip_zeros (fixed_digits ?k n (10 ^ ?k))"
      using False nx True j by simp
    then have "c \<in> set (sign_str s) \<union> set (strip_zeros (fixed_digits ?k n (10 ^ ?k)))"
      using assms(3) by (simp only: set_append)
    then show ?thesis using sg fixd by blast
  next
    case o: False
    have "fmt_g P (Fin s m k) = sign_str s @ strip_zeros (hd ?d # CHR ''.'' # tl ?d) @ exp_str x"
      unfolding fmt_g.simps nx prod.case Let_def using False o by (simp only: if_False)
    then have "c \<in> set (sign_str s) \<union> set (strip_zeros (hd ?d # CHR ''.'' # tl ?d)) \<union> set (exp_str x)"
      using assms(3) by (simp only: set_append Un_assoc)
    then show ?thesis using sg man ex by blast
  qed
qed

section \<open>Rounding stays in the format\<close>

lemma nbits_bounds: "0 < n \<Longrightarrow> 0 < nbits n \<and> 2 ^ nat (nbits n - 1) \<le> n \<and> n < 2 ^ nat (nbits n)"
proof (induction n rule: nbits.induct)
  case (1 n)
  show ?case
  proof (cases "n = 1")
    case True
    then show ?thesis by (simp add: nbits.simps)
  next
    case False
    let ?b = "nbits (n div 2)"
    have u: "nbits n = 1 + ?b" using 1 by (subst nbits.simps) simp
    have h: "0 < ?b" "2 ^ nat (?b - 1) \<le> n div 2" "n div 2 < 2 ^ nat ?b" using 1 False by auto
    have e: "nat (1 + ?b) = Suc (nat ?b)" "nat ?b = Suc (nat (?b - 1))" using h(1) by auto
    have "2 ^ nat ?b \<le> n" using h(2) unfolding e(2) by auto
    moreover have "n < 2 ^ Suc (nat ?b)" using h(3) by auto
    ultimately show ?thesis using h(1) u e(1) by simp
  qed
qed

lemma frac_exp2_bounds:
  assumes "0 < a" "0 < b"
  shows "scale2 (- (frac_exp2 a b + 1)) a < scale2 (frac_exp2 a b + 1) b"
    and "scale2 (frac_exp2 a b) b \<le> scale2 (- frac_exp2 a b) a"
proof -
  let ?la = "nbits a" let ?lb = "nbits b" let ?d = "?la - ?lb"
  have a: "0 < ?la" "2 ^ nat (?la - 1) \<le> a" "a < 2 ^ nat ?la"
    and b: "0 < ?lb" "2 ^ nat (?lb - 1) \<le> b" "b < 2 ^ nat ?lb"
    using nbits_bounds[OF assms(1)] nbits_bounds[OF assms(2)] by auto
  have up: "scale2 (- (?d + 1)) a < scale2 (?d + 1) b"
  proof -
    have e: "nat ?la + nat (- (?d + 1)) = nat (?lb - 1) + nat (?d + 1)" using a b by linarith
    have "a * 2 ^ nat (- (?d + 1)) < 2 ^ nat ?la * 2 ^ nat (- (?d + 1))" using a(3) by simp
    also have "\<dots> = 2 ^ nat (?lb - 1) * 2 ^ nat (?d + 1)" by (simp only: power_add[symmetric] e)
    also have "\<dots> \<le> b * 2 ^ nat (?d + 1)" using b(2) by simp
    finally show ?thesis by (simp add: scale2_def)
  qed
  have low: "scale2 (?d - 1) b \<le> scale2 (- (?d - 1)) a"
  proof -
    have e: "nat ?lb + nat (?d - 1) = nat (?la - 1) + nat (- (?d - 1))" using a b by linarith
    have "b * 2 ^ nat (?d - 1) \<le> 2 ^ nat ?lb * 2 ^ nat (?d - 1)" using b(3) by simp
    also have "\<dots> = 2 ^ nat (?la - 1) * 2 ^ nat (- (?d - 1))" by (simp only: power_add[symmetric] e)
    also have "\<dots> \<le> a * 2 ^ nat (- (?d - 1))" using a(2) by simp
    finally show ?thesis by (simp add: scale2_def)
  qed
  show "scale2 (- (frac_exp2 a b + 1)) a < scale2 (frac_exp2 a b + 1) b"
    using up by (auto simp: frac_exp2_def Let_def not_le)
  show "scale2 (frac_exp2 a b) b \<le> scale2 (- frac_exp2 a b) a"
    using low by (auto simp: frac_exp2_def Let_def not_le)
qed

text \<open>Shifting both sides of a comparison of scaled numbers.\<close>

lemma scale2_shift:
  "scale2 (- e) a \<le> scale2 e b \<Longrightarrow> scale2 (- k) a \<le> scale2 (e - k) 1 * scale2 k b" if "k \<le> e" "0 \<le> b"
proof -
  assume "scale2 (- e) a \<le> scale2 e b"
  then have h: "a * 2 ^ nat (- e) \<le> b * 2 ^ nat e" by (simp add: scale2_def)
  show ?thesis
  proof (cases "0 \<le> e")
    case True
    then have z: "nat (- e) = 0" "nat k + nat (e - k) = nat e + nat (- k)" using that by auto
    have "a * 2 ^ nat (- k) \<le> b * 2 ^ nat e * 2 ^ nat (- k)" using h z(1) by simp
    also have "\<dots> = 2 ^ nat (e - k) * (b * 2 ^ nat k)"
      using z(2) by (simp add: power_add[symmetric] mult.assoc mult.left_commute)
    finally show ?thesis by (simp add: scale2_def)
  next
    case False
    then have z: "nat e = 0" "nat k = 0" "nat (- k) = nat (- e) + nat (e - k)" using that by auto
    have "a * 2 ^ nat (- k) = a * 2 ^ nat (- e) * 2 ^ nat (e - k)" by (simp only: z(3) power_add mult.assoc)
    also have "\<dots> \<le> b * 2 ^ nat (e - k)" using h z(1) by simp
    finally show ?thesis using z by (simp add: scale2_def mult.commute)
  qed
qed

lemma scale2_shift_ge:
  "scale2 e b \<le> scale2 (- e) a \<Longrightarrow> scale2 (e - k) 1 * scale2 k b \<le> scale2 (- k) a" if "k \<le> e" "0 \<le> b"
proof -
  assume "scale2 e b \<le> scale2 (- e) a"
  then have h: "b * 2 ^ nat e \<le> a * 2 ^ nat (- e)" by (simp add: scale2_def)
  show ?thesis
  proof (cases "0 \<le> e")
    case True
    then have z: "nat (- e) = 0" "nat k + nat (e - k) = nat e + nat (- k)" using that by auto
    have "2 ^ nat (e - k) * (b * 2 ^ nat k) = b * 2 ^ nat e * 2 ^ nat (- k)"
      using z(2) by (simp add: power_add[symmetric] mult.assoc mult.left_commute)
    also have "\<dots> \<le> a * 2 ^ nat (- k)" using h z(1) by simp
    finally show ?thesis by (simp add: scale2_def)
  next
    case False
    then have z: "nat e = 0" "nat k = 0" "nat (- k) = nat (- e) + nat (e - k)" using that by auto
    have "b * 2 ^ nat (e - k) \<le> a * 2 ^ nat (- e) * 2 ^ nat (e - k)" using h z(1) by simp
    also have "\<dots> = a * 2 ^ nat (- k)" by (simp only: z(3) power_add mult.assoc)
    finally show ?thesis using z by (simp add: scale2_def mult.commute)
  qed
qed

lemma round_even_ge:
  assumes "0 < b" "m * b \<le> a"
  shows "m \<le> round_even a b"
proof -
  have "m \<le> a div b" using assms by (metis zdiv_mono1 nonzero_mult_div_cancel_right less_irrefl)
  then show ?thesis by (auto simp: round_even_def Let_def)
qed

lemma scale2_pos [simp]: "0 < a \<Longrightarrow> 0 < scale2 k a"
  by (simp add: scale2_def)

lemma fl_make_double:
  assumes "0 \<le> a" "0 < b"
  shows "is_double (fl_make Double s a b)"
proof (cases "a = 0")
  case False
  then have a: "0 < a" using assms by simp
  let ?e = "frac_exp2 a b" let ?k = "max ?e (- 1022) - 52"
  let ?n = "round_even (scale2 (- ?k) a) (scale2 ?k b)"
  have u: "scale2 (- (?e + 1)) a \<le> scale2 (?e + 1) b" and l: "scale2 ?e b \<le> scale2 (- ?e) a"
    using frac_exp2_bounds[OF a assms(2)] by simp_all
  have u': "scale2 (- (?k + 53)) a \<le> scale2 (?k + 53) b"
  proof (cases "- 1022 \<le> ?e")
    case True
    then show ?thesis using u by (simp add: add.commute)
  next
    case False
    have "nat (- (?e + 1)) = nat (- (?k + 53)) + nat (?k + 53 - (?e + 1))" "nat (?e + 1) = 0" "nat (?k + 53) = 0"
      using False by auto
    then have "a * 2 ^ nat (- (?k + 53)) * 2 ^ nat (?k + 53 - (?e + 1)) \<le> b"
      using u by (simp add: scale2_def power_add mult.assoc)
    moreover have "a * 2 ^ nat (- (?k + 53)) * 1 \<le> a * 2 ^ nat (- (?k + 53)) * 2 ^ nat (?k + 53 - (?e + 1))"
      using a by (intro mult_left_mono) auto
    ultimately show ?thesis using \<open>nat (?k + 53) = 0\<close> by (simp add: scale2_def)
  qed
  have "scale2 (- ?k) a \<le> scale2 53 1 * scale2 ?k b"
    using scale2_shift[OF _ _ u', of ?k] assms(2) by simp
  then have n: "?n \<le> 2 ^ 53" using round_even_le[of "scale2 ?k b" _ "2 ^ 53"] assms(2) by (simp add: scale2_def)
  have n0: "0 \<le> ?n" using a assms(2) by (intro round_even_nonneg) (simp_all add: order_less_imp_le)
  have top: "?k \<le> 971" if "\<not> scale2 (1024 - ?k) 1 \<le> ?n"
  proof (rule ccontr)
    assume "\<not> ?k \<le> 971"
    then have e: "?e = ?k + 52" "972 \<le> ?k" by auto
    have "scale2 52 1 * scale2 ?k b \<le> scale2 (- ?k) a"
      using scale2_shift_ge[OF _ _ l, of ?k] assms(2) e by simp
    then have "2 ^ 52 \<le> ?n" using round_even_ge[of "scale2 ?k b" "2 ^ 52"] assms(2) by (simp add: scale2_def)
    moreover have "scale2 (1024 - ?k) 1 \<le> 2 ^ 52"
      unfolding scale2_def mult_1 by (rule power_increasing) (use e(2) in auto)
    ultimately show False using that by linarith
  qed
  show ?thesis using False n n0 top
    by (auto simp: fl_make_def is_double_def prec_def emin_def emax_def Let_def)
qed (simp add: fl_make_def is_double_def)

lemma dec_val_aux_nonneg: "\<forall>c \<in> set s. is_digit c \<Longrightarrow> 0 \<le> acc \<Longrightarrow> 0 \<le> dec_val_aux acc s"
  by (induction s arbitrary: acc) (auto simp: is_digit_def digit_val_def)

lemma decimal_part_pos: "decimal_part s = Some (a, b, j) \<Longrightarrow> 0 \<le> a \<and> 0 < b"
  by (auto simp: decimal_part_def Let_def dec_val_def split: if_splits prod.splits
      intro!: mult_nonneg_nonneg dec_val_aux_nonneg dest: set_takeWhileD)

lemma hex_fold_nonneg: "\<forall>c \<in> set s. is_xdigit c \<Longrightarrow> 0 \<le> acc \<Longrightarrow> 0 \<le> foldl (\<lambda>a c. 16 * a + xdigit_val c) acc s"
  by (induction s arbitrary: acc) (auto simp: is_xdigit_def xdigit_val_def is_digit_def digit_val_def)

lemma hexadecimal_part_pos: "hexadecimal_part s = Some (a, b, j) \<Longrightarrow> 0 \<le> a \<and> 0 < b"
  by (auto simp: hexadecimal_part_def Let_def hex_val_def scale2_def split: if_splits prod.splits
      intro!: mult_nonneg_nonneg hex_fold_nonneg dest: set_takeWhileD)

lemma strtod_double: "is_double (fst (strtod s))"
proof -
  have h: "hexadecimal_part t = Some (a, b, j) \<Longrightarrow> is_double (fl_make Double g a b)"
    and d: "decimal_part t = Some (a, b, j) \<Longrightarrow> is_double (fl_make Double g a b)" for t a b j g
    using hexadecimal_part_pos decimal_part_pos fl_make_double by blast+
  have i: "is_double (Inf g)" "is_double NaN" "is_double fl_zero" for g
    by (simp_all add: is_double_def fl_zero_def)
  have part: "is_double (fst (case decimal_part t of Some (a, b, j) \<Rightarrow> (fl_make Double g a b, k + j) | None \<Rightarrow> (fl_zero, 0)))"
    for t g k using d i(3) by (auto split: option.split)
  have ifI: "is_double (fst x) \<Longrightarrow> is_double (fst y) \<Longrightarrow> is_double (fst (if c then x else y))"
    for c and x y :: "fl \<times> nat" by simp
  have hex: "is_double (fst (case (if c then hexadecimal_part t else None) of
      Some (a, b, j) \<Rightarrow> (fl_make Double g a b, k + 2 + j) | None \<Rightarrow> y))" if "is_double (fst y)" for c t g k y
    using h that by (auto split: option.split)
  show ?thesis unfolding strtod_def Let_def by (intro ifI hex part) (simp_all add: i)
qed

end
