(* ===== verification/CJsonParse.thy ===== *)
theory CJsonParse
  imports CFloat
begin

text \<open>
  The JSON reader of \<open>cjson/cJSON.c\<close>: the item type, \<open>parse_number\<close>,
  \<open>parse_hex4\<close>, \<open>utf16_literal_to_utf8\<close>, \<open>parse_string\<close>,
  \<open>buffer_skip_whitespace\<close>, \<open>skip_utf8_bom\<close>, \<open>parse_value\<close>,
  \<open>parse_array\<close>, \<open>parse_object\<close> and the entry points, together with the read
  accessors the request handlers use. An item is the tree its \<open>child\<close>/\<open>next\<close>
  chains span; the pointer structure of these chains is the subject of \<open>CJsonStore\<close>.
  Reads are checked against the buffer (\<open>OutOfBounds\<close>), writes to the output string
  against its allocation (\<open>BufferOverflow\<close>). Memory allocation succeeds here.
\<close>

unbundle bit_operations_syntax

section \<open>Items\<close>

definition cJSON_Invalid :: int where "cJSON_Invalid = 0"
definition cJSON_False :: int where "cJSON_False = 1"
definition cJSON_True :: int where "cJSON_True = 2"
definition cJSON_NULL :: int where "cJSON_NULL = 4"
definition cJSON_Number :: int where "cJSON_Number = 8"
definition cJSON_String :: int where "cJSON_String = 16"
definition cJSON_Array :: int where "cJSON_Array = 32"
definition cJSON_Object :: int where "cJSON_Object = 64"
definition cJSON_Raw :: int where "cJSON_Raw = 128"
definition cJSON_IsReference :: int where "cJSON_IsReference = 256"
definition cJSON_StringIsConst :: int where "cJSON_StringIsConst = 512"

lemmas cJSON_types = cJSON_Invalid_def cJSON_False_def cJSON_True_def cJSON_NULL_def
  cJSON_Number_def cJSON_String_def cJSON_Array_def cJSON_Object_def cJSON_Raw_def
  cJSON_IsReference_def cJSON_StringIsConst_def

definition CJSON_NESTING_LIMIT :: int where "CJSON_NESTING_LIMIT = 1000"

text \<open>
  \<open>valuestring\<close> and \<open>string\<close> hold the bytes of their allocation before the
  terminator; a reader of the C string sees \<open>cstr\<close> of them.
\<close>

datatype cJSON = CJSON
  (jtype: int)
  (valuestring: "string option")
  (valueint: int)
  (valuedouble: fl)
  (jstring: "string option")
  (child: "cJSON list")

definition cJSON_New_Item :: cJSON where
  "cJSON_New_Item = CJSON 0 None 0 (Fin False 0 0) None []"

definition set_name :: "string option \<Rightarrow> cJSON \<Rightarrow> cJSON" where
  "set_name n it = CJSON (jtype it) (valuestring it) (valueint it) (valuedouble it) n (child it)"

section \<open>The parse buffer\<close>

record parse_buffer =
  content :: string
  offset :: nat
  depth :: int

text \<open>
  The buffer holds exactly \<open>length\<close> bytes; \<open>byte_at b i\<close> is
  \<open>buffer_at_offset(b)[i]\<close>.
\<close>

definition pb_length :: "parse_buffer \<Rightarrow> nat" where "pb_length b = length (content b)"

definition can_read :: "parse_buffer \<Rightarrow> nat \<Rightarrow> bool" where
  "can_read b n = (offset b + n \<le> pb_length b)"

definition can_access_at_index :: "parse_buffer \<Rightarrow> nat \<Rightarrow> bool" where
  "can_access_at_index b i = (offset b + i < pb_length b)"

definition byte_at :: "parse_buffer \<Rightarrow> nat \<Rightarrow> char" where
  "byte_at b i = content b ! (offset b + i)"

text \<open>\<open>strncmp(buffer_at_offset(b), lit, n) == 0\<close> for a literal of length \<open>n\<close>.\<close>

definition starts_with :: "parse_buffer \<Rightarrow> string \<Rightarrow> bool" where
  "starts_with b lit = (take (length lit) (drop (offset b) (content b)) = lit)"

definition buffer_skip_whitespace :: "parse_buffer \<Rightarrow> parse_buffer" where
  "buffer_skip_whitespace b =
     (if \<not> can_access_at_index b 0 then b
      else let k = length (takeWhile (\<lambda>c. byte_of c \<le> 32) (drop (offset b) (content b)));
               o' = offset b + k
           in b\<lparr>offset := (if o' = pb_length b then o' - 1 else o')\<rparr>)"

definition skip_utf8_bom :: "parse_buffer \<Rightarrow> parse_buffer" where
  "skip_utf8_bom b =
     (if can_access_at_index b 4 \<and> starts_with b [CHR 0xEF, CHR 0xBB, CHR 0xBF]
      then b\<lparr>offset := offset b + 3\<rparr> else b)"

section \<open>Numbers\<close>

definition number_char :: "char \<Rightarrow> bool" where
  "number_char c = (is_digit c \<or> c \<in> {CHR ''+'', CHR ''-'', CHR ''e'', CHR ''E'', CHR ''.''})"

text \<open>The saturating conversion shared by \<open>parse_number\<close>, \<open>cJSON_SetNumberHelper\<close>
  and \<open>cJSON_CreateNumber\<close>.\<close>

definition saturate_int :: "fl \<Rightarrow> int cres" where
  "saturate_int d =
     (if fl_le (fl_of_int Double INT_MAX) d then Inr INT_MAX
      else if fl_le d (fl_of_int Double INT_MIN) then Inr INT_MIN
      else fl_to_int d)"

definition parse_number :: "parse_buffer \<Rightarrow> (cJSON option \<times> parse_buffer) cres" where
  "parse_number b =
     (let number_c_string = takeWhile number_char (take 63 (drop (offset b) (content b)));
          (number, n) = strtod number_c_string
      in if n = 0 then Inr (None, b)
         else cbind (saturate_int number) (\<lambda>vi.
           Inr (Some (CJSON cJSON_Number None vi number None []), b\<lparr>offset := offset b + n\<rparr>)))"

section \<open>Strings\<close>

definition hex_digit_value :: "char \<Rightarrow> int option" where
  "hex_digit_value c =
     (if 48 \<le> byte_of c \<and> byte_of c \<le> 57 then Some (byte_of c - 48)
      else if 65 \<le> byte_of c \<and> byte_of c \<le> 70 then Some (10 + byte_of c - 65)
      else if 97 \<le> byte_of c \<and> byte_of c \<le> 102 then Some (10 + byte_of c - 97)
      else None)"

fun parse_hex4_loop :: "nat \<Rightarrow> int \<Rightarrow> string \<Rightarrow> int" where
  "parse_hex4_loop i h [] = h"
| "parse_hex4_loop i h (c # cs) =
     (case hex_digit_value c of
        None \<Rightarrow> 0
      | Some v \<Rightarrow> let h1 = h + v; h2 = (if i < 3 then push_bit 4 h1 else h1)
                 in parse_hex4_loop (Suc i) h2 cs)"

text \<open>Four bytes are read; any byte that is not a hex digit makes the result 0.\<close>

definition parse_hex4 :: "string \<Rightarrow> int" where
  "parse_hex4 s = parse_hex4_loop 0 0 (take 4 s)"

text \<open>The continuation bytes are written last to first while the code point is shifted.\<close>

fun utf8_tail :: "nat \<Rightarrow> int \<Rightarrow> string \<Rightarrow> int \<times> string" where
  "utf8_tail 0 cp acc = (cp, acc)"
| "utf8_tail (Suc n) cp acc = utf8_tail n (drop_bit 6 cp) (char_of ((cp OR 0x80) AND 0xBF) # acc)"

definition utf8_length :: "int \<Rightarrow> (nat \<times> int) option" where
  "utf8_length cp =
     (if cp < 0x80 then Some (1, 0)
      else if cp < 0x800 then Some (2, 0xC0)
      else if cp < 0x10000 then Some (3, 0xE0)
      else if cp \<le> 0x10FFFF then Some (4, 0xF0)
      else None)"

definition utf8_encode :: "int \<Rightarrow> string option" where
  "utf8_encode cp =
     (case utf8_length cp of
        None \<Rightarrow> None
      | Some (n, first_byte_mark) \<Rightarrow>
          let (cp', tail_bytes) = utf8_tail (n - 1) cp []
          in Some ((if n > 1 then char_of ((cp' OR first_byte_mark) AND 0xFF)
                    else char_of (cp' AND 0x7F)) # tail_bytes))"

text \<open>
  The argument is the text from \<open>input_pointer\<close> to \<open>input_end\<close>; the result is the
  sequence length and the bytes written, \<open>None\<close> for the return value 0.
\<close>

definition utf16_literal_to_utf8 :: "string \<Rightarrow> (nat \<times> string) option" where
  "utf16_literal_to_utf8 inp =
     (if length inp < 6 then None
      else let first_code = parse_hex4 (drop 2 inp)
           in if 0xDC00 \<le> first_code \<and> first_code \<le> 0xDFFF then None
              else if 0xD800 \<le> first_code \<and> first_code \<le> 0xDBFF then
                let second = drop 6 inp
                in if length second < 6 then None
                   else if second ! 0 \<noteq> CHR 0x5C \<or> second ! 1 \<noteq> CHR ''u'' then None
                   else let second_code = parse_hex4 (drop 2 second)
                        in if second_code < 0xDC00 \<or> 0xDFFF < second_code then None
                           else map_option (Pair 12)
                             (utf8_encode (0x10000 + ((push_bit 10 (first_code AND 0x3FF)) OR (second_code AND 0x3FF))))
              else map_option (Pair 6) (utf8_encode first_code))"

text \<open>
  First pass of \<open>parse_string\<close>: distance to the closing quote and number of escapes.
\<close>

fun string_scan :: "string \<Rightarrow> (nat \<times> nat) option" where
  "string_scan [] = None"
| "string_scan (c # cs) =
     (if c = CHR 0x22 then Some (0, 0)
      else if c = CHR 0x5C then
        (case cs of
           [] \<Rightarrow> None
         | _ # r \<Rightarrow> map_option (\<lambda>(n, k). (n + 2, k + 1)) (string_scan r))
      else map_option (\<lambda>(n, k). (n + 1, k)) (string_scan cs))"

definition simple_escape :: "char \<Rightarrow> char option" where
  "simple_escape c =
     (if c = CHR ''b'' then Some (CHR 0x08)
      else if c = CHR ''f'' then Some (CHR 0x0C)
      else if c = CHR ''n'' then Some (CHR 0x0A)
      else if c = CHR ''r'' then Some (CHR 0x0D)
      else if c = CHR ''t'' then Some (CHR 0x09)
      else if c = CHR 0x22 \<or> c = CHR 0x5C \<or> c = CHR ''/'' then Some c
      else None)"

text \<open>
  Second pass. The argument is the text between \<open>input_pointer\<close> and \<open>input_end\<close>,
  which is followed by the closing quote. The result is the output written and, if the
  conversion failed, the number of bytes that were left before \<open>input_end\<close>.
\<close>

function string_convert :: "string \<Rightarrow> string \<Rightarrow> string \<times> nat option" where
  "string_convert out inp =
     (case inp of
        [] \<Rightarrow> (out, None)
      | c # cs \<Rightarrow>
          if c \<noteq> CHR 0x5C then string_convert (out @ [c]) cs
          else let e = (case cs of [] \<Rightarrow> CHR 0x22 | e # _ \<Rightarrow> e)
               in if e = CHR ''u'' then
                    (case utf16_literal_to_utf8 inp of
                       None \<Rightarrow> (out, Some (length inp))
                     | Some (n, bytes) \<Rightarrow>
                         if n = 0 then (out, Some (length inp))
                         else string_convert (out @ bytes) (drop n inp))
                  else (case simple_escape e of
                          None \<Rightarrow> (out, Some (length inp))
                        | Some b \<Rightarrow> string_convert (out @ [b]) (drop 2 inp)))"
  by pat_completeness auto
termination
  by (relation "measure (\<lambda>(out, inp). length inp)") auto

declare string_convert.simps [simp del]

definition parse_string :: "parse_buffer \<Rightarrow> (cJSON option \<times> parse_buffer) cres" where
  "parse_string b =
     (if \<not> can_access_at_index b 0 then Inl OutOfBounds
      else let start = offset b + 1; failed = b\<lparr>offset := start\<rparr>
           in if byte_at b 0 \<noteq> CHR 0x22 then Inr (None, failed)
              else (case string_scan (drop start (content b)) of
                      None \<Rightarrow> Inr (None, failed)
                    | Some (n, skipped_bytes) \<Rightarrow>
                        let allocation_length = n + 1 - skipped_bytes;
                            (out, failure) = string_convert [] (take n (drop start (content b)))
                        in if length out + 1 > allocation_length + 1 then Inl BufferOverflow
                           else (case failure of
                                   Some k \<Rightarrow> Inr (None, b\<lparr>offset := start + n - k\<rparr>)
                                 | None \<Rightarrow>
                                     Inr (Some (CJSON cJSON_String (Some out) 0 (Fin False 0 0) None []),
                                          b\<lparr>offset := start + n + 1\<rparr>))))"

section \<open>Values, arrays, objects\<close>

text \<open>
  The recursive descent carries a fuel counter, spent by one on every call and every turn
  of the two element loops; \<open>None\<close> means it ran out. \<open>parse_fuel_enough\<close> below shows
  that \<open>3 * n + 4\<close> is enough for a buffer of \<open>n\<close> bytes.
\<close>

type_synonym parse_result = "(cJSON option \<times> parse_buffer) cres option"

definition byte_is :: "parse_buffer \<Rightarrow> char \<Rightarrow> bool" where
  "byte_is b c = (can_access_at_index b 0 \<and> byte_at b 0 = c)"

definition advance :: "nat \<Rightarrow> parse_buffer \<Rightarrow> parse_buffer" where
  "advance n b = b\<lparr>offset := offset b + n\<rparr>"

definition step_back :: "parse_buffer \<Rightarrow> parse_buffer" where
  "step_back b = b\<lparr>offset := offset b - 1\<rparr>"

definition plain_item :: "int \<Rightarrow> int \<Rightarrow> cJSON" where
  "plain_item t vi = CJSON t None vi (Fin False 0 0) None []"

text \<open>The label \<open>success\<close> of \<open>parse_array\<close> and \<open>parse_object\<close>.\<close>

definition close_container :: "int \<Rightarrow> cJSON list \<Rightarrow> parse_buffer \<Rightarrow> parse_result" where
  "close_container t items b =
     Some (Inr (Some (CJSON t None 0 (Fin False 0 0) None items), advance 1 (b\<lparr>depth := depth b - 1\<rparr>)))"

definition parse_failed :: "parse_buffer \<Rightarrow> parse_result" where
  "parse_failed b = Some (Inr (None, b))"

fun parse_value :: "nat \<Rightarrow> parse_buffer \<Rightarrow> parse_result"
  and parse_array :: "nat \<Rightarrow> parse_buffer \<Rightarrow> parse_result"
  and array_elements :: "nat \<Rightarrow> cJSON list \<Rightarrow> parse_buffer \<Rightarrow> parse_result"
  and parse_object :: "nat \<Rightarrow> parse_buffer \<Rightarrow> parse_result"
  and object_members :: "nat \<Rightarrow> cJSON list \<Rightarrow> parse_buffer \<Rightarrow> parse_result"
where
  "parse_value 0 b = None"
| "parse_value (Suc f) b =
     (if can_read b 4 \<and> starts_with b ''null'' then
        Some (Inr (Some (plain_item cJSON_NULL 0), advance 4 b))
      else if can_read b 5 \<and> starts_with b ''false'' then
        Some (Inr (Some (plain_item cJSON_False 0), advance 5 b))
      else if can_read b 4 \<and> starts_with b ''true'' then
        Some (Inr (Some (plain_item cJSON_True 1), advance 4 b))
      else if byte_is b (CHR 0x22) then Some (parse_string b)
      else if byte_is b (CHR ''-'') \<or> (can_access_at_index b 0 \<and> is_digit (byte_at b 0)) then
        Some (parse_number b)
      else if byte_is b (CHR ''['') then parse_array f b
      else if byte_is b (CHR ''{'') then parse_object f b
      else parse_failed b)"
| "parse_array 0 b = None"
| "parse_array (Suc f) b =
     (if CJSON_NESTING_LIMIT \<le> depth b then parse_failed b
      else let b1 = b\<lparr>depth := depth b + 1\<rparr>
           in if \<not> can_access_at_index b1 0 then Some (Inl OutOfBounds)
              else if byte_at b1 0 \<noteq> CHR ''['' then parse_failed b1
              else let b2 = buffer_skip_whitespace (advance 1 b1)
                   in if byte_is b2 (CHR '']'') then close_container cJSON_Array [] b2
                      else if \<not> can_access_at_index b2 0 then parse_failed (step_back b2)
                      else array_elements f [] (step_back b2))"
| "array_elements 0 acc b = None"
| "array_elements (Suc f) acc b =
     (case parse_value f (buffer_skip_whitespace (advance 1 b)) of
        None \<Rightarrow> None
      | Some (Inl e) \<Rightarrow> Some (Inl e)
      | Some (Inr (None, b1)) \<Rightarrow> parse_failed b1
      | Some (Inr (Some it, b1)) \<Rightarrow>
          (let b2 = buffer_skip_whitespace b1
           in if byte_is b2 (CHR '','') then array_elements f (acc @ [it]) b2
              else if \<not> byte_is b2 (CHR '']'') then parse_failed b2
              else close_container cJSON_Array (acc @ [it]) b2))"
| "parse_object 0 b = None"
| "parse_object (Suc f) b =
     (if CJSON_NESTING_LIMIT \<le> depth b then parse_failed b
      else let b1 = b\<lparr>depth := depth b + 1\<rparr>
           in if \<not> byte_is b1 (CHR ''{'') then parse_failed b1
              else let b2 = buffer_skip_whitespace (advance 1 b1)
                   in if byte_is b2 (CHR ''}'') then close_container cJSON_Object [] b2
                      else if \<not> can_access_at_index b2 0 then parse_failed (step_back b2)
                      else object_members f [] (step_back b2))"
| "object_members 0 acc b = None"
| "object_members (Suc f) acc b =
     (case parse_string (buffer_skip_whitespace (advance 1 b)) of
        Inl e \<Rightarrow> Some (Inl e)
      | Inr (None, b1) \<Rightarrow> parse_failed b1
      | Inr (Some key, b1) \<Rightarrow>
          (let b2 = buffer_skip_whitespace b1
           in if \<not> byte_is b2 (CHR '':'') then parse_failed b2
              else (case parse_value f (buffer_skip_whitespace (advance 1 b2)) of
                      None \<Rightarrow> None
                    | Some (Inl e) \<Rightarrow> Some (Inl e)
                    | Some (Inr (None, b3)) \<Rightarrow> parse_failed b3
                    | Some (Inr (Some it, b3)) \<Rightarrow>
                        (let b4 = buffer_skip_whitespace b3;
                             items = acc @ [set_name (valuestring key) it]
                         in if byte_is b4 (CHR '','') then object_members f items b4
                            else if \<not> byte_is b4 (CHR ''}'') then parse_failed b4
                            else close_container cJSON_Object items b4))))"

section \<open>Entry points\<close>

text \<open>
  \<open>value\<close> is the buffer of \<open>buffer_length\<close> bytes, \<open>None\<close> for the null pointer.
  The result holds the item, \<open>global_error\<close> (the offset recorded on failure,
  \<open>None\<close> while its \<open>json\<close> is null) and the offset stored in \<open>*return_parse_end\<close>.
\<close>

record parse_outcome =
  parsed_item :: "cJSON option"
  global_error :: "nat option"
  return_parse_end :: "nat option"

definition parse_fail_outcome :: "nat \<Rightarrow> nat \<Rightarrow> parse_outcome" where
  "parse_fail_outcome off len =
     (let pos = (if off < len then off else if 0 < len then len - 1 else 0)
      in \<lparr>parsed_item = None, global_error = Some pos, return_parse_end = Some pos\<rparr>)"

definition cJSON_ParseWithLengthOpts :: "string option \<Rightarrow> bool \<Rightarrow> parse_outcome cres option" where
  "cJSON_ParseWithLengthOpts value require_null_terminated =
     (case value of
        None \<Rightarrow> Some (Inr \<lparr>parsed_item = None, global_error = None, return_parse_end = None\<rparr>)
      | Some s \<Rightarrow>
          if s = [] then Some (Inr (parse_fail_outcome 0 0))
          else
            let b = \<lparr>content = s, offset = 0, depth = 0\<rparr>
            in case parse_value (3 * length s + 4) (buffer_skip_whitespace (skip_utf8_bom b)) of
                 None \<Rightarrow> None
               | Some (Inl e) \<Rightarrow> Some (Inl e)
               | Some (Inr (None, b1)) \<Rightarrow> Some (Inr (parse_fail_outcome (offset b1) (length s)))
               | Some (Inr (Some it, b1)) \<Rightarrow>
                   (let b2 = (if require_null_terminated then buffer_skip_whitespace b1 else b1)
                    in if require_null_terminated \<and> \<not> byte_is b2 NUL
                       then Some (Inr (parse_fail_outcome (offset b2) (length s)))
                       else Some (Inr \<lparr>parsed_item = Some it, global_error = None,
                                       return_parse_end = Some (offset b2)\<rparr>)))"

definition cJSON_ParseWithOpts :: "string option \<Rightarrow> bool \<Rightarrow> parse_outcome cres option" where
  "cJSON_ParseWithOpts value require_null_terminated =
     (case value of
        None \<Rightarrow> Some (Inr \<lparr>parsed_item = None, global_error = None, return_parse_end = None\<rparr>)
      | Some s \<Rightarrow> cJSON_ParseWithLengthOpts (Some (cstr s @ [NUL])) require_null_terminated)"

definition cJSON_ParseWithLength :: "string option \<Rightarrow> parse_outcome cres option" where
  "cJSON_ParseWithLength value = cJSON_ParseWithLengthOpts value False"

definition cJSON_Parse :: "string option \<Rightarrow> parse_outcome cres option" where
  "cJSON_Parse value = cJSON_ParseWithOpts value False"

section \<open>Read accessors\<close>

text \<open>An argument of type \<open>cJSON *\<close> is \<open>None\<close> for the null pointer.\<close>

definition type_is :: "int \<Rightarrow> cJSON option \<Rightarrow> bool" where
  "type_is t item = (case item of None \<Rightarrow> False | Some it \<Rightarrow> jtype it AND 0xFF = t)"

definition cJSON_IsInvalid :: "cJSON option \<Rightarrow> bool" where "cJSON_IsInvalid = type_is cJSON_Invalid"
definition cJSON_IsFalse :: "cJSON option \<Rightarrow> bool" where "cJSON_IsFalse = type_is cJSON_False"
definition cJSON_IsTrue :: "cJSON option \<Rightarrow> bool" where "cJSON_IsTrue = type_is cJSON_True"
definition cJSON_IsBool :: "cJSON option \<Rightarrow> bool" where
  "cJSON_IsBool item =
     (case item of None \<Rightarrow> False | Some it \<Rightarrow> jtype it AND (cJSON_True OR cJSON_False) \<noteq> 0)"
definition cJSON_IsNull :: "cJSON option \<Rightarrow> bool" where "cJSON_IsNull = type_is cJSON_NULL"
definition cJSON_IsNumber :: "cJSON option \<Rightarrow> bool" where "cJSON_IsNumber = type_is cJSON_Number"
definition cJSON_IsString :: "cJSON option \<Rightarrow> bool" where "cJSON_IsString = type_is cJSON_String"
definition cJSON_IsArray :: "cJSON option \<Rightarrow> bool" where "cJSON_IsArray = type_is cJSON_Array"
definition cJSON_IsObject :: "cJSON option \<Rightarrow> bool" where "cJSON_IsObject = type_is cJSON_Object"
definition cJSON_IsRaw :: "cJSON option \<Rightarrow> bool" where "cJSON_IsRaw = type_is cJSON_Raw"

lemmas type_tests = cJSON_IsInvalid_def cJSON_IsFalse_def cJSON_IsTrue_def cJSON_IsNull_def
  cJSON_IsNumber_def cJSON_IsString_def cJSON_IsArray_def cJSON_IsObject_def cJSON_IsRaw_def
  type_is_def

definition cJSON_GetStringValue :: "cJSON option \<Rightarrow> string option" where
  "cJSON_GetStringValue item = (if \<not> cJSON_IsString item then None else valuestring (the item))"

definition cJSON_GetNumberValue :: "cJSON option \<Rightarrow> fl" where
  "cJSON_GetNumberValue item = (if \<not> cJSON_IsNumber item then NaN else valuedouble (the item))"

text \<open>Equality test of \<open>case_insensitive_strcmp\<close>; a null pointer equals nothing.\<close>

definition case_insensitive_equal :: "string option \<Rightarrow> string option \<Rightarrow> bool" where
  "case_insensitive_equal s1 s2 =
     (case (s1, s2) of (Some a, Some b) \<Rightarrow> map tolower (cstr a) = map tolower (cstr b) | _ \<Rightarrow> False)"

fun find_member :: "bool \<Rightarrow> string \<Rightarrow> cJSON list \<Rightarrow> cJSON option" where
  "find_member cs name [] = None"
| "find_member cs name (e # es) =
     (if cs then
        (case jstring e of
           None \<Rightarrow> None
         | Some k \<Rightarrow> if cstr name = cstr k then Some e else find_member cs name es)
      else if case_insensitive_equal (Some name) (jstring e) then Some e
      else find_member cs name es)"

definition get_object_item :: "cJSON option \<Rightarrow> string option \<Rightarrow> bool \<Rightarrow> cJSON option" where
  "get_object_item object name case_sensitive =
     (case (object, name) of
        (Some o', Some n) \<Rightarrow> find_member case_sensitive n (child o')
      | _ \<Rightarrow> None)"

definition cJSON_GetObjectItem :: "cJSON option \<Rightarrow> string \<Rightarrow> cJSON option" where
  "cJSON_GetObjectItem object s = get_object_item object (Some s) False"

definition cJSON_GetObjectItemCaseSensitive :: "cJSON option \<Rightarrow> string \<Rightarrow> cJSON option" where
  "cJSON_GetObjectItemCaseSensitive object s = get_object_item object (Some s) True"

definition cJSON_HasObjectItem :: "cJSON option \<Rightarrow> string \<Rightarrow> bool" where
  "cJSON_HasObjectItem object s = (cJSON_GetObjectItem object s \<noteq> None)"

section \<open>Numbers: the scanned text is a decimal numeral\<close>

lemma tolower_number_char:
  assumes "number_char c"
  shows "tolower c \<noteq> CHR ''n'' \<and> tolower c \<noteq> CHR ''i'' \<and> tolower c \<noteq> CHR ''x''"
proof -
  have "c = CHR ''E'' \<or> tolower c = c"
    using assms by (auto simp: number_char_def tolower_def is_digit_def)
  then show ?thesis
    using assms by (auto simp: number_char_def tolower_def is_digit_def char_of_def)
qed

lemma absent_literal:
  assumes "c \<notin> set (map f s)" and "c \<in> set lit"
  shows "map f (take k s) \<noteq> lit" "take j (map f (take k s)) \<noteq> lit"
  using assms by (auto dest!: in_set_takeD)

text \<open>On the characters \<open>parse_number\<close> collects, only the decimal syntax applies.\<close>

lemma take_number_chars:
  assumes "\<forall>c \<in> set s. number_char c"
  shows "map tolower (take k s) \<noteq> ''infinity''" "take 3 (map tolower (take k s)) \<noteq> ''inf''"
    "take 3 (map tolower (take k s)) \<noteq> ''nan''" "take 2 (map tolower (take k s)) \<noteq> ''0x''"
proof -
  have "CHR ''n'' \<notin> set (map tolower s)" "CHR ''i'' \<notin> set (map tolower s)" "CHR ''x'' \<notin> set (map tolower s)"
    using assms tolower_number_char by force+
  then show "map tolower (take k s) \<noteq> ''infinity''" "take 3 (map tolower (take k s)) \<noteq> ''inf''"
    "take 3 (map tolower (take k s)) \<noteq> ''nan''" "take 2 (map tolower (take k s)) \<noteq> ''0x''"
    using absent_literal by (metis list.set_intros(1) list.set_intros(2))+
qed

lemma strtod_number_chars:
  assumes "\<forall>c \<in> set s. number_char c"
  shows "fst (strtod s) \<noteq> NaN" "snd (strtod s) \<le> length s"
proof -
  have sub: "\<forall>c \<in> set (drop k (cstr s)). number_char c" for k
    using assms by (auto simp: cstr_def dest!: in_set_dropD set_takeWhileD)
  note nc = take_number_chars[OF sub]
  show "fst (strtod s) \<noteq> NaN"
    using nc by (simp add: strtod_def Let_def fl_zero_def split: option.splits prod.splits)
  have w: "length (takeWhile isspace (cstr s)) \<le> length (cstr s)"
    by (rule length_takeWhile_le)
  have ne: "drop (length (takeWhile isspace (cstr s))) (cstr s) \<noteq> [] \<Longrightarrow>
      Suc (length (takeWhile isspace (cstr s))) \<le> length (cstr s)"
    by simp
  have "snd (strtod s) \<le> length (cstr s)"
    using nc w ne
    by (auto simp: strtod_def Let_def fl_zero_def split: option.splits prod.splits
        dest!: decimal_part_le)
  then show "snd (strtod s) \<le> length s"
    using length_cstr_le[of s] by linarith
qed


lemma fl_rat_int_limits:
  "fl_of_int Double INT_MAX = Fin False 9007199250546688 (- 22)"
  "fl_of_int Double INT_MIN = Fin True 4503599627370496 (- 21)"
  by code_simp+

lemma saturate_int_total:
  assumes "d \<noteq> NaN"
  shows "\<exists>v. saturate_int d = Inr v \<and> INT_MIN \<le> v \<and> v \<le> INT_MAX"
proof (cases d)
  case NaN
  with assms show ?thesis by simp
next
  case (Inf s)
  then show ?thesis
    by (cases s) (simp_all add: saturate_int_def fl_rat_int_limits, simp_all add: limit_defs)
next
  case (Fin s n k)
  define x where "x = (of_int n :: rat) * 2 powi k"
  have v: "fl_rat d = (if s then - x else x)"
    by (simp add: Fin x_def signed_def)
  have lim: "fl_rat (Fin False 9007199250546688 (- 22)) = of_int INT_MAX"
    "fl_rat (Fin True 4503599627370496 (- 21)) = of_int INT_MIN"
    by (simp_all add: signed_def power_int_def limit_defs power_one_over)
  show ?thesis
  proof (cases "fl_le (fl_of_int Double INT_MAX) d \<or> fl_le d (fl_of_int Double INT_MIN)")
    case True
    then show ?thesis by (auto simp: saturate_int_def limit_defs)
  next
    case False
    then have b: "fl_rat d < of_int INT_MAX" "of_int INT_MIN < fl_rat d"
      unfolding fl_rat_int_limits Fin fl_le_rat using lim by (simp_all add: Fin)
    let ?m = "signed s \<lfloor>x\<rfloor>"
    have "INT_MIN \<le> ?m \<and> ?m \<le> INT_MAX"
    proof (cases s)
      case True
      with b v have "- of_int INT_MAX < x" "x < - of_int INT_MIN" by auto
      then have "- INT_MAX \<le> \<lfloor>x\<rfloor>" "\<lfloor>x\<rfloor> < - INT_MIN"
        by (simp add: le_floor_iff, simp add: floor_less_iff)
      with True show ?thesis by (simp add: signed_def)
    next
      case False
      with b v have "of_int INT_MIN < x" "x < of_int INT_MAX" by auto
      then have "INT_MIN \<le> \<lfloor>x\<rfloor>" "\<lfloor>x\<rfloor> < INT_MAX"
        by (simp add: le_floor_iff, simp add: floor_less_iff)
      with False show ?thesis by (simp add: signed_def)
    qed
    with False show ?thesis
      by (simp add: saturate_int_def Fin trunc_floor x_def Let_def)
  qed
qed

section \<open>The token count of a string literal\<close>

text \<open>
  \<open>literal_tokens\<close> counts an escape pair as one; it bounds what the second pass of
  \<open>parse_string\<close> writes, also when a malformed \<open>\u\<close> escape makes the two passes
  disagree on where escapes start.
\<close>

fun literal_tokens :: "string \<Rightarrow> nat" where
  "literal_tokens [] = 0"
| "literal_tokens [c] = 1"
| "literal_tokens (c # d # cs) =
     (if c = CHR 0x5C then Suc (literal_tokens cs) else Suc (literal_tokens (d # cs)))"

lemma literal_tokens_Cons: "literal_tokens cs \<le> literal_tokens (c # cs) \<and> literal_tokens (c # cs) \<le> Suc (literal_tokens cs)"
proof (induction cs arbitrary: c rule: literal_tokens.induct)
  case 1
  then show ?case by simp
next
  case (2 d)
  then show ?case by simp
next
  case (3 d e cs)
  then show ?case
  proof (cases "d = CHR 0x5C")
    case True
    with 3(1) have "literal_tokens cs \<le> literal_tokens (e # cs)" "literal_tokens (e # cs) \<le> Suc (literal_tokens cs)"
      by blast+
    with True show ?thesis by simp
  next
    case False
    with 3(2) have "literal_tokens (e # cs) \<le> literal_tokens (d # e # cs)" 
      by blast
    with False show ?thesis by simp
  qed
qed

lemma literal_tokens_drop: "literal_tokens (drop n cs) \<le> literal_tokens cs"
proof (induction n arbitrary: cs)
  case 0
  then show ?case by simp
next
  case (Suc n)
  show ?case
  proof (cases cs)
    case Nil
    then show ?thesis by simp
  next
    case (Cons c r)
    then show ?thesis using Suc[of r] literal_tokens_Cons[of r c] by simp
  qed
qed

lemma literal_tokens_no_escape:
  "CHR 0x5C \<notin> set xs \<Longrightarrow> literal_tokens (xs @ ys) = length xs + literal_tokens ys"
proof (induction xs)
  case Nil
  then show ?case by simp
next
  case (Cons x xs)
  then show ?case by (cases "xs @ ys") auto
qed

lemma string_scan_Some:
  "string_scan s = Some (n, k) \<Longrightarrow>
     n < length s \<and> s ! n = CHR 0x22 \<and> literal_tokens (take n s) = n - k \<and> k \<le> n"
proof (induction s arbitrary: n k rule: string_scan.induct)
  case 1
  then show ?case by simp
next
  case (2 c cs)
  consider "c = CHR 0x22" | "c = CHR 0x5C" | "c \<noteq> CHR 0x22" "c \<noteq> CHR 0x5C" by blast
  then show ?case
  proof cases
    case 1
    with 2(3) show ?thesis by simp
  next
    case 2
    with "2.prems" obtain d r n' k' where r: "cs = d # r" and sc: "string_scan r = Some (n', k')"
      and nk: "n = n' + 2" "k = k' + 1"
      by (auto split: list.splits)
    from "2.IH"(1)[OF _ 2 r sc] 2 have "n' < length r \<and> r ! n' = CHR 0x22 \<and>
        literal_tokens (take n' r) = n' - k' \<and> k' \<le> n'" by simp
    with 2 r nk show ?thesis by auto
  next
    case 3
    with "2.prems" obtain n' k' where sc: "string_scan cs = Some (n', k')" and nk: "n = n' + 1" "k = k'"
      by (auto)
    from "2.IH"(2)[OF 3 sc] have IH: "n' < length cs \<and> cs ! n' = CHR 0x22 \<and>
        literal_tokens (take n' cs) = n' - k' \<and> k' \<le> n'" .
    have "literal_tokens (c # take n' cs) = Suc (literal_tokens (take n' cs))"
      using literal_tokens_no_escape[of "[c]" "take n' cs"] 3 by simp
    with IH nk show ?thesis by auto
  qed
qed

lemma parse_hex4_loop_nonzero:
  "parse_hex4_loop i h cs \<noteq> 0 \<Longrightarrow> c \<in> set cs \<Longrightarrow> hex_digit_value c \<noteq> None"
proof (induction cs arbitrary: i h)
  case Nil
  then show ?case by simp
next
  case (Cons d cs)
  from Cons.prems(1) obtain v i' h' where v: "hex_digit_value d = Some v"
    and r: "parse_hex4_loop i' h' cs \<noteq> 0"
    by (auto simp: Let_def split: option.splits)
  show ?case
  proof (cases "c = d")
    case True
    with v show ?thesis by simp
  next
    case False
    with Cons.prems(2) have "c \<in> set cs" by simp
    with r show ?thesis by (rule Cons.IH)
  qed
qed

lemma hex_no_backslash: "parse_hex4 s \<noteq> 0 \<Longrightarrow> CHR 0x5C \<notin> set (take 4 s)"
  using parse_hex4_loop_nonzero[of 0 0 "take 4 s" "CHR 0x5C"]
  by (auto simp: parse_hex4_def hex_digit_value_def)

lemma length_utf8_tail: "length (snd (utf8_tail n cp acc)) = n + length acc"
  by (induction n cp acc rule: utf8_tail.induct) auto

lemma length_utf8_encode_eq:
  assumes "utf8_length cp = Some (n, m)" and "utf8_encode cp = Some bs"
  shows "length bs = n"
proof -
  have "1 \<le> n" using assms(1) by (auto simp: utf8_length_def split: if_splits)
  with assms length_utf8_tail[of "n - 1" cp "[]"] show ?thesis
    by (auto simp: utf8_encode_def split: prod.splits)
qed

lemma length_utf8_encode:
  assumes "utf8_encode cp = Some bs"
  shows "length bs \<le> 4" "cp < 0x80 \<Longrightarrow> length bs = 1"
proof -
  from assms obtain n m where n: "utf8_length cp = Some (n, m)"
    by (auto simp: utf8_encode_def split: option.splits)
  then have "n \<le> 4" "cp < 0x80 \<Longrightarrow> n = 1"
    by (auto simp: utf8_length_def split: if_splits)
  with length_utf8_encode_eq[OF n assms] show "length bs \<le> 4" "cp < 0x80 \<Longrightarrow> length bs = 1"
    by auto
qed

text \<open>What one \<open>\u\<close> escape writes is covered by the tokens it consumes.\<close>

lemma utf16_literal_tokens:
  assumes "utf16_literal_to_utf8 inp = Some (n, bs)" and "inp = CHR 0x5C # CHR ''u'' # r"
  shows "n \<in> {6, 12}" "length bs + literal_tokens (drop n inp) \<le> literal_tokens inp" "n \<le> length inp"
proof -
  let ?fc = "parse_hex4 (drop 2 inp)"
  from assms(1) have len: "6 \<le> length inp"
    by (auto simp: utf16_literal_to_utf8_def split: if_splits)
  have tk: "literal_tokens inp = Suc (literal_tokens r)" using assms(2) by simp
  have tk4: "?fc \<noteq> 0 \<Longrightarrow> literal_tokens r = 4 + literal_tokens (drop 6 inp)"
    using literal_tokens_no_escape[OF hex_no_backslash[of r], of "drop 4 r"] assms(2) len
    by (simp add: append_take_drop_id)
  from assms(1) consider
      "n = 6" "utf8_encode ?fc = Some bs"
    | cp where "n = 12" "0xD800 \<le> ?fc" "utf8_encode cp = Some bs" "12 \<le> length inp"
    by (auto simp: utf16_literal_to_utf8_def Let_def split: if_splits)
  then have "n \<in> {6, 12} \<and> length bs + literal_tokens (drop n inp) \<le> literal_tokens inp \<and> n \<le> length inp"
  proof cases
    case 1
    have "literal_tokens (drop 6 inp) \<le> literal_tokens r"
      using literal_tokens_drop[of 4 r] assms(2) by simp
    then show ?thesis
      using 1 tk tk4 length_utf8_encode[OF 1(2)] len by (cases "?fc = 0") auto
  next
    case 2
    then have "literal_tokens r = 4 + literal_tokens (drop 6 inp)" using tk4 by simp
    moreover have "literal_tokens (drop 12 inp) \<le> literal_tokens (drop 6 inp)"
      using literal_tokens_drop[of 6 "drop 6 inp"] by simp
    ultimately show ?thesis using 2 tk length_utf8_encode(1)[OF 2(3)] by simp
  qed
  then show "n \<in> {6, 12}" "length bs + literal_tokens (drop n inp) \<le> literal_tokens inp" "n \<le> length inp"
    by auto
qed

lemma string_convert_bound:
  "length (fst (string_convert out inp)) \<le> length out + literal_tokens inp"
proof (induction out inp rule: string_convert.induct)
  case (1 out inp)
  show ?case
  proof (cases inp)
    case Nil
    then show ?thesis by (simp add: string_convert.simps)
  next
    case (Cons c cs)
    show ?thesis
    proof (cases "c = CHR 0x5C")
      case False
      then have "literal_tokens inp = Suc (literal_tokens cs)"
        using literal_tokens_no_escape[of "[c]" cs] Cons by simp
      with 1(1)[OF Cons False] False Cons show ?thesis
        by (subst string_convert.simps) simp
    next
      case True
      let ?e = "case cs of [] \<Rightarrow> CHR 0x22 | e # _ \<Rightarrow> e"
      have pos: "1 + literal_tokens (drop 2 inp) \<le> literal_tokens inp"
        using Cons True by (cases cs) auto
      show ?thesis
      proof (cases "?e = CHR ''u''")
        case u: True
        then obtain r where r: "inp = CHR 0x5C # CHR ''u'' # r"
          using Cons True by (cases cs) auto
        show ?thesis
        proof (cases "utf16_literal_to_utf8 inp")
          case None
          with Cons True u show ?thesis by (subst string_convert.simps) simp
        next
          case (Some nb)
          obtain n bs where nb: "nb = (n, bs)" by (cases nb)
          note U = utf16_literal_tokens[OF Some[unfolded nb] r]
          from U(1) have n0: "n \<noteq> 0" by auto
          have "length (fst (string_convert (out @ bs) (drop n inp)))
              \<le> length (out @ bs) + literal_tokens (drop n inp)"
            using 1(2)[OF Cons _ refl u Some nb[symmetric] n0] True by simp
          with U(2) Cons True u Some nb n0 show ?thesis
            by (subst string_convert.simps) simp
        qed
      next
        case nu: False
        show ?thesis
        proof (cases "simple_escape ?e")
          case None
          with Cons True nu show ?thesis by (subst string_convert.simps) simp
        next
          case (Some b)
          have "length (fst (string_convert (out @ [b]) (drop 2 inp)))
              \<le> length (out @ [b]) + literal_tokens (drop 2 inp)"
            using 1(3)[OF Cons _ refl nu Some] True by simp
          with pos Cons True nu Some show ?thesis by (subst string_convert.simps) simp
        qed
      qed
    qed
  qed
qed

lemma parse_string_writes_fit: "parse_string b \<noteq> Inl BufferOverflow"
proof
  assume *: "parse_string b = Inl BufferOverflow"
  let ?s = "drop (offset b + 1) (content b)"
  from * obtain n k where sc: "string_scan ?s = Some (n, k)"
    and big: "n + 1 - k < length (fst (string_convert [] (take n ?s)))"
    by (auto simp: parse_string_def Let_def split: if_splits option.splits prod.splits)
  from string_scan_Some[OF sc] have "literal_tokens (take n ?s) = n - k" "k \<le> n" by auto
  with string_convert_bound[of "[]" "take n ?s"] big show False by simp
qed


section \<open>Memory safety and termination of the parser\<close>

text \<open>A buffer that ends with a NUL byte and has an offset inside it.\<close>

definition nul_terminated :: "parse_buffer \<Rightarrow> bool" where
  "nul_terminated b = (content b \<noteq> [] \<and> last (content b) = NUL \<and> offset b < length (content b))"

lemma nul_terminated_prefix:
  assumes "nul_terminated b" and "n \<le> length (drop (offset b) (content b))"
    and "NUL \<notin> set (take n (drop (offset b) (content b)))"
  shows "offset b + n < length (content b)"
proof (rule ccontr)
  assume "\<not> ?thesis"
  with assms(1,2) have n: "n = length (drop (offset b) (content b))"
    by (simp add: nul_terminated_def)
  moreover have "last (content b) = last (drop (offset b) (content b))"
    using assms(1) by (simp add: nul_terminated_def)
  moreover have "drop (offset b) (content b) \<noteq> []"
    using assms(1) by (simp add: nul_terminated_def)
  ultimately have "NUL \<in> set (take n (drop (offset b) (content b)))"
    using assms(1) by (metis last_in_set nul_terminated_def order_refl take_all)
  with assms(3) show False by simp
qed

lemma nul_terminated_accessible [simp]: "nul_terminated b \<Longrightarrow> can_access_at_index b 0"
  by (simp add: nul_terminated_def can_access_at_index_def pb_length_def)

lemma nul_terminated_advance:
  assumes "nul_terminated b" and "n \<le> length (drop (offset b) (content b))"
    and "NUL \<notin> set (take n (drop (offset b) (content b)))"
  shows "nul_terminated (advance n b)"
  using nul_terminated_prefix[OF assms] assms(1) by (simp add: nul_terminated_def advance_def)

lemma byte_is_take1: "byte_is b c \<Longrightarrow> take 1 (drop (offset b) (content b)) = [c]"
  by (simp add: byte_is_def byte_at_def can_access_at_index_def pb_length_def take_Suc_conv_app_nth hd_drop_conv_nth take_Suc)

lemma nul_terminated_advance1:
  assumes "nul_terminated b" and "byte_is b c" and "c \<noteq> NUL"
  shows "nul_terminated (advance 1 b)"
  using assms byte_is_take1[OF assms(2)]
  by (intro nul_terminated_advance) (auto simp: nul_terminated_def)

lemma nul_terminated_skip:
  assumes "nul_terminated b"
  shows "nul_terminated (buffer_skip_whitespace b)" "offset b \<le> offset (buffer_skip_whitespace b)"
    "content (buffer_skip_whitespace b) = content b" "depth (buffer_skip_whitespace b) = depth b"
proof -
  let ?w = "takeWhile (\<lambda>c. byte_of c \<le> 32) (drop (offset b) (content b))"
  have l: "length ?w \<le> length (content b) - offset b"
    using length_takeWhile_le[of "\<lambda>c. byte_of c \<le> 32" "drop (offset b) (content b)"] by simp
  have "byte_of NUL \<le> 32" by (simp add: NUL_def)
  show "nul_terminated (buffer_skip_whitespace b)" "offset b \<le> offset (buffer_skip_whitespace b)"
    using assms l by (auto simp: nul_terminated_def buffer_skip_whitespace_def Let_def pb_length_def)
  show "content (buffer_skip_whitespace b) = content b" "depth (buffer_skip_whitespace b) = depth b"
    by (auto simp: buffer_skip_whitespace_def Let_def)
qed

lemma starts_with_advance:
  assumes "nul_terminated b" and "can_read b (length lit)" and "starts_with b lit" and "NUL \<notin> set lit"
  shows "nul_terminated (advance (length lit) b)"
  using assms by (intro nul_terminated_advance)
    (auto simp: can_read_def pb_length_def starts_with_def)

lemma parse_number_total:
  assumes "nul_terminated b"
  shows "\<exists>r b'. parse_number b = Inr (r, b') \<and>
     (r \<noteq> None \<longrightarrow> nul_terminated b' \<and> offset b < offset b' \<and> content b' = content b)"
proof -
  let ?s = "takeWhile number_char (take 63 (drop (offset b) (content b)))"
  obtain x n where xn: "strtod ?s = (x, n)" by (cases "strtod ?s")
  have nc: "\<forall>c \<in> set ?s. number_char c" by (auto dest: set_takeWhileD)
  from strtod_number_chars[OF nc] xn have x: "x \<noteq> NaN" and n: "n \<le> length ?s" by auto
  obtain v where v: "saturate_int x = Inr v" using saturate_int_total[OF x] by blast
  have pre: "take n ?s = take n (drop (offset b) (content b))"
  proof -
    have "?s = take (length ?s) (take 63 (drop (offset b) (content b)))"
      by (metis takeWhile_eq_take)
    then have "take n ?s = take n (take (min (length ?s) 63) (drop (offset b) (content b)))"
      by (metis take_take)
    also have "\<dots> = take n (drop (offset b) (content b))"
      using n length_takeWhile_le[of number_char "take 63 (drop (offset b) (content b))"] by simp
    finally show ?thesis .
  qed
  have "NUL \<notin> set (take n ?s)"
    using nc by (auto dest!: in_set_takeD set_takeWhileD simp: number_char_def is_digit_def NUL_def)
  moreover have "n \<le> length (drop (offset b) (content b))"
    using n length_takeWhile_le[of number_char "take 63 (drop (offset b) (content b))"] by simp
  ultimately have "nul_terminated (advance n b)"
    using nul_terminated_advance[OF assms] pre by simp
  with xn v show ?thesis
    by (auto simp: parse_number_def Let_def advance_def)
qed

lemma parse_string_total:
  assumes "nul_terminated b"
  shows "\<exists>r b'. parse_string b = Inr (r, b') \<and>
     (r \<noteq> None \<longrightarrow> nul_terminated b' \<and> offset b < offset b' \<and> content b' = content b)"
proof (cases "parse_string b")
  case (Inl e)
  with assms parse_string_writes_fit[of b] show ?thesis
    by (auto simp: parse_string_def Let_def split: if_splits option.splits prod.splits)
next
  case (Inr rb)
  obtain r b' where rb: "rb = (r, b')" by (cases rb)
  have "nul_terminated b' \<and> offset b < offset b' \<and> content b' = content b" if "r \<noteq> None"
  proof -
    let ?s = "drop (offset b + 1) (content b)"
    from that Inr rb obtain n k where sc: "string_scan ?s = Some (n, k)"
      and b': "b' = b\<lparr>offset := offset b + 1 + n + 1\<rparr>"
      by (auto simp: parse_string_def Let_def split: if_splits option.splits prod.splits)
    from string_scan_Some[OF sc] have n: "n < length ?s" "?s ! n = CHR 0x22" by auto
    let ?bq = "advance (1 + n) b"
    have "byte_is ?bq (CHR 0x22)"
      using n by (simp add: byte_is_def byte_at_def can_access_at_index_def pb_length_def advance_def add.assoc)
    moreover have "nul_terminated ?bq"
      using assms n by (simp add: nul_terminated_def advance_def)
    ultimately have "nul_terminated (advance 1 ?bq)"
      by (intro nul_terminated_advance1[where c = "CHR 0x22"]) (auto simp: NUL_def)
    then show ?thesis by (simp add: b' advance_def add.assoc)
  qed
  with Inr rb show ?thesis by auto
qed


text \<open>
  \<open>safe_result b r\<close>: the call returned, without undefined behaviour; if it succeeded it
  consumed at least one byte and left the offset inside the buffer.
\<close>

definition safe_result :: "parse_buffer \<Rightarrow> parse_result \<Rightarrow> bool" where
  "safe_result b r = (\<exists>it b'. r = Some (Inr (it, b')) \<and>
     (it \<noteq> None \<longrightarrow> nul_terminated b' \<and> offset b < offset b' \<and> content b' = content b))"

definition room :: "parse_buffer \<Rightarrow> nat" where
  "room b = length (content b) - offset b"

lemma safe_failed [simp]: "safe_result b (parse_failed b')"
  by (simp add: safe_result_def parse_failed_def)

lemma safe_close:
  assumes "nul_terminated b'" "byte_is b' c" "c \<noteq> NUL" "offset b \<le> offset b'" "content b' = content b"
  shows "safe_result b (close_container t items b')"
  using nul_terminated_advance1[OF assms(1-3)] assms(4,5)
  by (simp add: safe_result_def close_container_def nul_terminated_def advance_def)

lemma safe_trans:
  "safe_result b1 r \<Longrightarrow> offset b \<le> offset b1 \<Longrightarrow> content b1 = content b \<Longrightarrow> safe_result b r"
  by (fastforce simp: safe_result_def)

lemma not_NUL [simp]:
  "CHR 0x22 \<noteq> NUL" "CHR ''['' \<noteq> NUL" "CHR '']'' \<noteq> NUL" "CHR ''{'' \<noteq> NUL" "CHR ''}'' \<noteq> NUL"
  "CHR '','' \<noteq> NUL" "CHR '':'' \<noteq> NUL"
  by (simp_all add: NUL_def)

lemma skip_after:
  assumes "nul_terminated b" "byte_is b c" "c \<noteq> NUL"
  shows "nul_terminated (buffer_skip_whitespace (advance 1 b))"
    "offset b < offset (buffer_skip_whitespace (advance 1 b))"
    "content (buffer_skip_whitespace (advance 1 b)) = content b"
    "room (buffer_skip_whitespace (advance 1 b)) < room b"
proof -
  note s = nul_terminated_skip[OF nul_terminated_advance1[OF assms]]
  show "nul_terminated (buffer_skip_whitespace (advance 1 b))" by (rule s(1))
  show o: "offset b < offset (buffer_skip_whitespace (advance 1 b))" using s(2) by (simp add: advance_def)
  show c: "content (buffer_skip_whitespace (advance 1 b)) = content b" using s(3) by (simp add: advance_def)
  show "room (buffer_skip_whitespace (advance 1 b)) < room b"
    using assms(1) o c by (auto simp: room_def nul_terminated_def intro: diff_less_mono2)
qed


text \<open>One level of the recursion, given that the calls with one unit less are safe.\<close>

definition value_safe :: "nat \<Rightarrow> bool" where
  "value_safe f = (\<forall>b. nul_terminated b \<longrightarrow> 3 * room b + 1 \<le> f \<longrightarrow> safe_result b (parse_value f b))"

definition array_safe :: "nat \<Rightarrow> bool" where
  "array_safe f = (\<forall>b. nul_terminated b \<longrightarrow> 3 * room b \<le> f \<longrightarrow> safe_result b (parse_array f b))"

definition object_safe :: "nat \<Rightarrow> bool" where
  "object_safe f = (\<forall>b. nul_terminated b \<longrightarrow> 3 * room b \<le> f \<longrightarrow> safe_result b (parse_object f b))"

definition elements_safe :: "nat \<Rightarrow> bool" where
  "elements_safe f = (\<forall>acc b. nul_terminated (advance 1 b) \<longrightarrow> 3 * room (advance 1 b) + 2 \<le> f \<longrightarrow>
     safe_result (advance 1 b) (array_elements f acc b))"

definition members_safe :: "nat \<Rightarrow> bool" where
  "members_safe f = (\<forall>acc b. nul_terminated (advance 1 b) \<longrightarrow> 3 * room (advance 1 b) + 2 \<le> f \<longrightarrow>
     safe_result (advance 1 b) (object_members f acc b))"

lemma room_pos: "nul_terminated b \<Longrightarrow> 0 < room b"
  by (simp add: room_def nul_terminated_def)

lemma room_mono: "content b' = content b \<Longrightarrow> offset b \<le> offset b' \<Longrightarrow> room b' \<le> room b"
  by (simp add: room_def)

lemma room_less: "nul_terminated b \<Longrightarrow> content b' = content b \<Longrightarrow> offset b < offset b' \<Longrightarrow> room b' < room b"
  by (simp add: room_def nul_terminated_def diff_less_mono2)

lemma literal_safe:
  assumes "nul_terminated b" "can_read b (length lit)" "starts_with b lit" "NUL \<notin> set lit" "lit \<noteq> []"
  shows "safe_result b (Some (Inr (it, advance (length lit) b)))"
  using starts_with_advance[OF assms(1-4)] assms(5) by (simp add: safe_result_def advance_def)

lemma value_safe_step: "array_safe f \<Longrightarrow> object_safe f \<Longrightarrow> value_safe (Suc f)"
proof -
  assume a: "array_safe f" and o: "object_safe f"
  have "safe_result b (parse_value (Suc f) b)" if nt: "nul_terminated b" and rm: "3 * room b + 1 \<le> Suc f" for b
  proof -
    have l1: "can_read b 4 \<and> starts_with b ''null'' \<Longrightarrow> safe_result b (Some (Inr (it, advance 4 b)))"
      and l2: "can_read b 5 \<and> starts_with b ''false'' \<Longrightarrow> safe_result b (Some (Inr (it, advance 5 b)))"
      and l3: "can_read b 4 \<and> starts_with b ''true'' \<Longrightarrow> safe_result b (Some (Inr (it, advance 4 b)))" for it
      using literal_safe[OF nt, of "''null''"] literal_safe[OF nt, of "''false''"] literal_safe[OF nt, of "''true''"]
      by (simp_all add: NUL_def eval_nat_numeral)
    have "safe_result b (parse_array f b)" "safe_result b (parse_object f b)"
      using a o nt rm by (simp_all add: array_safe_def object_safe_def)
    moreover have "safe_result b (Some (parse_string b))" "safe_result b (Some (parse_number b))"
      using parse_string_total[OF nt] parse_number_total[OF nt] by (fastforce simp: safe_result_def)+
    ultimately show ?thesis
      using l1 l2 l3 by (simp only: parse_value.simps split: if_split) simp
  qed
  then show ?thesis by (simp add: value_safe_def)
qed

lemma container_start:
  assumes "nul_terminated b" "byte_is b c" "c \<noteq> NUL" "b2 = buffer_skip_whitespace (advance 1 b)"
  shows "advance 1 (step_back b2) = b2" "nul_terminated b2" "room b2 < room b" "offset b < offset b2" "content b2 = content b"
  using skip_after[OF assms(1-3)] assms(4) by (auto simp: advance_def step_back_def)

lemma array_safe_step: "elements_safe f \<Longrightarrow> array_safe (Suc f)"
proof -
  assume e: "elements_safe f"
  have "safe_result b (parse_array (Suc f) b)" if nt: "nul_terminated b" and rm: "3 * room b \<le> Suc f" for b
  proof (cases "CJSON_NESTING_LIMIT \<le> depth b \<or> byte_at b 0 \<noteq> CHR ''[''")
    case True
    with nt show ?thesis by (auto simp: Let_def byte_at_def can_access_at_index_def pb_length_def nul_terminated_def)
  next
    case False
    let ?b1 = "b\<lparr>depth := depth b + 1\<rparr>" let ?b2 = "buffer_skip_whitespace (advance 1 ?b1)"
    have nt1: "nul_terminated ?b1" "byte_is ?b1 (CHR ''['')" "room ?b1 = room b"
      using nt False by (simp_all add: nul_terminated_def byte_is_def byte_at_def can_access_at_index_def pb_length_def room_def)
    note c = container_start[OF nt1(1,2) not_NUL(2) refl]
    have "3 * room ?b2 + 2 \<le> f" using c(3) rm nt1(3) by linarith
    with e c(1,2) have "safe_result ?b2 (array_elements f [] (step_back ?b2))"
      unfolding elements_safe_def by metis
    then have "safe_result b (array_elements f [] (step_back ?b2))"
      by (rule safe_trans) (use c in simp_all)
    moreover have "byte_is ?b2 (CHR '']'') \<Longrightarrow> safe_result b (close_container cJSON_Array [] ?b2)"
      by (rule safe_close[OF c(2)]) (use c in auto)
    ultimately show ?thesis
      using False nt1 c(2) by (simp add: Let_def)
  qed
  then show ?thesis by (simp add: array_safe_def)
qed


lemma object_safe_step: "members_safe f \<Longrightarrow> object_safe (Suc f)"
proof -
  assume e: "members_safe f"
  have "safe_result b (parse_object (Suc f) b)" if nt: "nul_terminated b" and rm: "3 * room b \<le> Suc f" for b
  proof (cases "CJSON_NESTING_LIMIT \<le> depth b \<or> byte_at b 0 \<noteq> CHR ''{''")
    case True
    with nt show ?thesis
      by (auto simp: Let_def byte_is_def byte_at_def can_access_at_index_def pb_length_def nul_terminated_def)
  next
    case False
    let ?b1 = "b\<lparr>depth := depth b + 1\<rparr>" let ?b2 = "buffer_skip_whitespace (advance 1 ?b1)"
    have nt1: "nul_terminated ?b1" "byte_is ?b1 (CHR ''{'')" "room ?b1 = room b"
      using nt False by (simp_all add: nul_terminated_def byte_is_def byte_at_def can_access_at_index_def pb_length_def room_def)
    note c = container_start[OF nt1(1,2) not_NUL(4) refl]
    have "3 * room ?b2 + 2 \<le> f" using c(3) rm nt1(3) by linarith
    with e c(1,2) have "safe_result ?b2 (object_members f [] (step_back ?b2))"
      unfolding members_safe_def by metis
    then have "safe_result b (object_members f [] (step_back ?b2))"
      by (rule safe_trans) (use c in simp_all)
    moreover have "byte_is ?b2 (CHR ''}'') \<Longrightarrow> safe_result b (close_container cJSON_Object [] ?b2)"
      by (rule safe_close[OF c(2)]) (use c in auto)
    ultimately show ?thesis
      using False nt1 c(2) by (simp add: Let_def)
  qed
  then show ?thesis by (simp add: object_safe_def)
qed

text \<open>After an element: skip blanks, then a comma continues the loop and the bracket closes.\<close>

lemma after_element:
  assumes nt: "nul_terminated b1" and off: "offset b0 < offset b1" and con: "content b1 = content b0"
    and loop: "\<And>b2. nul_terminated (advance 1 b2) \<Longrightarrow> room (advance 1 b2) < room b0 \<Longrightarrow>
                 safe_result (advance 1 b2) (next_turn b2)"
    and c: "c \<noteq> NUL" and nt0: "nul_terminated b0"
  shows "safe_result b0 (let b2 = buffer_skip_whitespace b1
           in if byte_is b2 (CHR '','') then next_turn b2
              else if \<not> byte_is b2 c then parse_failed b2 else close_container t items b2)"
proof -
  let ?b2 = "buffer_skip_whitespace b1"
  note s = nul_terminated_skip[OF nt]
  have o2: "offset b0 < offset ?b2" "content ?b2 = content b0" using s off con by auto
  have "safe_result b0 (next_turn ?b2)" if cm: "byte_is ?b2 (CHR '','')"
  proof -
    have nta: "nul_terminated (advance 1 ?b2)"
      by (rule nul_terminated_advance1[OF s(1) cm not_NUL(6)])
    have "room (advance 1 ?b2) < room b0"
      by (rule room_less[OF nt0]) (use o2 in \<open>simp_all add: advance_def\<close>)
    with loop[OF nta] have "safe_result (advance 1 ?b2) (next_turn ?b2)" by simp
    then show ?thesis by (rule safe_trans) (use o2 in \<open>simp_all add: advance_def\<close>)
  qed
  moreover have "safe_result b0 (close_container t items ?b2)" if "byte_is ?b2 c"
    by (rule safe_close[OF s(1) that c]) (use o2 in auto)
  ultimately show ?thesis by (simp add: Let_def)
qed

lemma elements_safe_step: "value_safe f \<Longrightarrow> elements_safe f \<Longrightarrow> elements_safe (Suc f)"
proof -
  assume v: "value_safe f" and e: "elements_safe f"
  have "safe_result (advance 1 b) (array_elements (Suc f) acc b)"
    if nt: "nul_terminated (advance 1 b)" and rm: "3 * room (advance 1 b) + 2 \<le> Suc f" for acc b
  proof -
    let ?a = "advance 1 b" let ?b0 = "buffer_skip_whitespace ?a"
    note s = nul_terminated_skip[OF nt]
    have r0: "room ?b0 \<le> room ?a" using room_mono s by simp
    then have "3 * room ?b0 + 1 \<le> f" using rm by linarith
    with v s(1) obtain it b1 where pv: "parse_value f ?b0 = Some (Inr (it, b1))"
      and ok: "it \<noteq> None \<Longrightarrow> nul_terminated b1 \<and> offset ?b0 < offset b1 \<and> content b1 = content ?b0"
      by (auto simp: value_safe_def safe_result_def)
    show ?thesis
    proof (cases it)
      case None
      with pv show ?thesis by simp
    next
      case (Some i)
      with ok have o: "nul_terminated b1" "offset ?a < offset b1" "content b1 = content ?a" using s by auto
      have loop: "safe_result (advance 1 b2) (array_elements f (acc @ [i]) b2)"
        if "nul_terminated (advance 1 b2)" "room (advance 1 b2) < room ?a" for b2
        using e that rm by (auto simp: elements_safe_def)
      show ?thesis
        using after_element[OF o loop not_NUL(3) nt, of cJSON_Array "acc @ [i]"] pv Some by simp
    qed
  qed
  then show ?thesis by (simp add: elements_safe_def)
qed

lemma members_safe_step: "value_safe f \<Longrightarrow> members_safe f \<Longrightarrow> members_safe (Suc f)"
proof -
  assume v: "value_safe f" and e: "members_safe f"
  have "safe_result (advance 1 b) (object_members (Suc f) acc b)"
    if nt: "nul_terminated (advance 1 b)" and rm: "3 * room (advance 1 b) + 2 \<le> Suc f" for acc b
  proof -
    let ?a = "advance 1 b" let ?b0 = "buffer_skip_whitespace ?a"
    note s = nul_terminated_skip[OF nt]
    from parse_string_total[OF s(1)] obtain key b1 where ps: "parse_string ?b0 = Inr (key, b1)"
      and k: "key \<noteq> None \<Longrightarrow> nul_terminated b1 \<and> offset ?b0 < offset b1 \<and> content b1 = content ?b0"
      by blast
    let ?b2 = "buffer_skip_whitespace b1"
    show ?thesis
    proof (cases "key = None \<or> \<not> byte_is ?b2 (CHR '':'')")
      case True
      with ps show ?thesis by (auto simp: Let_def split: option.splits)
    next
      case False
      then obtain ky where ky: "key = Some ky" and colon: "byte_is ?b2 (CHR '':'')" by auto
      from k ky have b1: "nul_terminated b1" "offset ?a < offset b1" "content b1 = content ?a" using s by auto
      note s2 = nul_terminated_skip[OF b1(1)]
      let ?b3 = "buffer_skip_whitespace (advance 1 ?b2)"
      note s3 = skip_after[OF s2(1) colon not_NUL(7)]
      have b3: "offset ?a < offset ?b3" "content ?b3 = content ?a" using s2 s3 b1 by auto
      have "room ?b3 < room ?a" by (rule room_less[OF nt b3(2,1)])
      then have "3 * room ?b3 + 1 \<le> f" using rm by linarith
      with v s3(1) obtain it b4 where pv: "parse_value f ?b3 = Some (Inr (it, b4))"
        and ok: "it \<noteq> None \<Longrightarrow> nul_terminated b4 \<and> offset ?b3 < offset b4 \<and> content b4 = content ?b3"
        by (auto simp: value_safe_def safe_result_def)
      show ?thesis
      proof (cases it)
        case None
        with pv ps ky colon show ?thesis by (simp add: Let_def)
      next
        case (Some i)
        let ?items = "acc @ [set_name (valuestring ky) i]"
        from Some ok b3 have o: "nul_terminated b4" "offset ?a < offset b4" "content b4 = content ?a" by auto
        have loop: "safe_result (advance 1 b2) (object_members f ?items b2)"
          if "nul_terminated (advance 1 b2)" "room (advance 1 b2) < room ?a" for b2
          using e that rm by (auto simp: members_safe_def)
        show ?thesis
          using after_element[OF o loop not_NUL(5) nt, of cJSON_Object ?items] pv ps ky colon Some
          by (simp add: Let_def)
      qed
    qed
  qed
  then show ?thesis by (simp add: members_safe_def)
qed

lemma all_safe: "value_safe f \<and> array_safe f \<and> object_safe f \<and> elements_safe f \<and> members_safe f"
proof (induction f)
  case 0
  have "nul_terminated b \<Longrightarrow> room b = 0 \<Longrightarrow> False" for b using room_pos[of b] by simp
  then show ?case
    by (auto simp: value_safe_def array_safe_def object_safe_def elements_safe_def members_safe_def)
next
  case (Suc f)
  then show ?case
    using value_safe_step array_safe_step object_safe_step elements_safe_step members_safe_step by blast
qed

lemma parse_entry_safe:
  assumes "s \<noteq> []" "last s = NUL"
  shows "\<exists>r. cJSON_ParseWithLengthOpts (Some s) rnt = Some (Inr r)"
proof -
  let ?b = "\<lparr>content = s, offset = 0, depth = 0\<rparr>"
  have nt: "nul_terminated ?b" using assms by (simp add: nul_terminated_def)
  have nt1: "nul_terminated (skip_utf8_bom ?b)"
    using assms by (auto simp: nul_terminated_def skip_utf8_bom_def can_access_at_index_def pb_length_def)
  note s = nul_terminated_skip[OF nt1]
  let ?b0 = "buffer_skip_whitespace (skip_utf8_bom ?b)"
  have "room ?b0 \<le> length s" using s(3) by (simp add: room_def skip_utf8_bom_def split: if_splits)
  then have "3 * room ?b0 + 1 \<le> 3 * length s + 4" by linarith
  with all_safe[of "3 * length s + 4"] s(1) have "safe_result ?b0 (parse_value (3 * length s + 4) ?b0)"
    by (simp add: value_safe_def)
  then obtain it b' where "parse_value (3 * length s + 4) ?b0 = Some (Inr (it, b'))"
    by (auto simp: safe_result_def)
  with assms(1) show ?thesis
    by (cases it) (simp_all add: cJSON_ParseWithLengthOpts_def Let_def)
qed


section \<open>Well-formed results\<close>

text \<open>
  What the parser promises of the items it builds: one of the seven types, the value
  fields its type uses, a name exactly on the members of objects.
\<close>

fun wf_item :: "cJSON \<Rightarrow> bool" where
  "wf_item (CJSON t vs vi d nm cs) =
     (INT_MIN \<le> vi \<and> vi \<le> INT_MAX \<and> is_double d \<and>
      (if t = cJSON_String then vs \<noteq> None \<and> cs = []
       else if t = cJSON_Array then vs = None \<and> (\<forall>c \<in> set cs. jstring c = None \<and> wf_item c)
       else if t = cJSON_Object then vs = None \<and> (\<forall>c \<in> set cs. jstring c \<noteq> None \<and> wf_item c)
       else t \<in> {cJSON_False, cJSON_True, cJSON_NULL, cJSON_Number} \<and> vs = None \<and> cs = []))"

text \<open>How deep arrays and objects nest in an item.\<close>

fun nesting :: "cJSON \<Rightarrow> int" where
  "nesting (CJSON t vs vi d nm cs) =
     (if t = cJSON_Array \<or> t = cJSON_Object then 1 + foldr max (map nesting cs) 0 else 0)"

lemma foldr_max_le: "(0::int) \<le> m \<Longrightarrow> foldr max xs 0 \<le> m \<longleftrightarrow> (\<forall>x \<in> set xs. x \<le> m)"
  by (induction xs) auto

lemma wf_set_name [simp]: "wf_item (set_name n it) = wf_item it" "nesting (set_name n it) = nesting it"
  "jstring (set_name n it) = n"
  by (cases it; simp add: set_name_def)+

definition good_result :: "parse_buffer \<Rightarrow> parse_result \<Rightarrow> bool" where
  "good_result b r = (\<forall>it b'. r = Some (Inr (Some it, b')) \<longrightarrow>
     wf_item it \<and> jstring it = None \<and> depth b' = depth b \<and> nesting it + depth b \<le> CJSON_NESTING_LIMIT)"

lemma good_simps [simp]:
  "good_result b None" "good_result b (Some (Inl e))" "good_result b (Some (Inr (None, b')))"
  "good_result b (parse_failed b')"
  "good_result b (Some (Inr (Some it, b'))) \<longleftrightarrow>
     wf_item it \<and> jstring it = None \<and> depth b' = depth b \<and> nesting it + depth b \<le> CJSON_NESTING_LIMIT"
  by (simp_all add: good_result_def parse_failed_def)

lemma depth_simps [simp]: "depth (advance n b) = depth b" "depth (step_back b) = depth b"
  "depth (buffer_skip_whitespace b) = depth b"
  by (simp_all add: advance_def step_back_def buffer_skip_whitespace_def Let_def)

lemma container_types [simp]: "cJSON_Array \<noteq> cJSON_Object" "cJSON_Object \<noteq> cJSON_Array"
  by (simp_all add: cJSON_types)

lemma good_leaf:
  assumes "depth b \<le> CJSON_NESTING_LIMIT"
  shows "good_result b (Some (Inr (Some (plain_item cJSON_NULL 0), advance n b)))"
    "good_result b (Some (Inr (Some (plain_item cJSON_False 0), advance n b)))"
    "good_result b (Some (Inr (Some (plain_item cJSON_True 1), advance n b)))"
    "good_result b (Some (parse_string b))" "good_result b (Some (parse_number b))"
proof -
  show "good_result b (Some (parse_number b))"
  proof -
    have "INT_MIN \<le> vi \<and> vi \<le> INT_MAX" if "saturate_int d = Inr vi" for d vi
    proof (cases d)
      case NaN
      with that show ?thesis by (simp add: saturate_int_def fl_rat_int_limits)
    qed (use that saturate_int_total[of d] in force)+
    moreover have "is_double d" if "strtod t = (d, n)" for t d n
      using that strtod_double[of t] by simp
    ultimately show ?thesis
      using assms by (fastforce simp: good_result_def parse_number_def Let_def cbind_Inr_iff cJSON_types
          split: prod.splits if_splits)
  qed
qed (use assms in \<open>auto simp: good_result_def plain_item_def cJSON_types limit_defs parse_string_def Let_def
      split: if_splits option.splits prod.splits\<close>)

definition all_good :: "nat \<Rightarrow> bool" where
  "all_good f = (\<forall>b. 0 \<le> depth b \<and> depth b \<le> CJSON_NESTING_LIMIT \<longrightarrow> good_result b (parse_value f b))"

text \<open>The element lists under construction.\<close>

definition good_elems :: "bool \<Rightarrow> int \<Rightarrow> cJSON list \<Rightarrow> bool" where
  "good_elems named d cs = (\<forall>c \<in> set cs. wf_item c \<and> (jstring c \<noteq> None) = named \<and> nesting c + d \<le> CJSON_NESTING_LIMIT)"

lemma good_elems_simps [simp]:
  "good_elems nm d []" "good_elems nm d (cs @ [c]) \<longleftrightarrow>
     good_elems nm d cs \<and> wf_item c \<and> (jstring c \<noteq> None) = nm \<and> nesting c + d \<le> CJSON_NESTING_LIMIT"
  by (auto simp: good_elems_def)

lemma good_close:
  assumes "good_elems (t = cJSON_Object) (depth b + 1) cs" "t \<in> {cJSON_Array, cJSON_Object}"
    "depth b2 = depth b + 1" "depth b < CJSON_NESTING_LIMIT"
  shows "good_result b (close_container t cs b2)"
proof -
  have "foldr max (map nesting cs) 0 \<le> CJSON_NESTING_LIMIT - depth b - 1"
    using assms(1,4) by (subst foldr_max_le) (auto simp: good_elems_def)
  then show ?thesis
    using assms by (auto simp: good_result_def close_container_def good_elems_def cJSON_types limit_defs)
qed

lemma elements_good:
  assumes "\<And>g. g < f \<Longrightarrow> all_good g" "good_elems False (depth b) acc" "depth b = depth b0 + 1"
    "0 \<le> depth b0" "depth b0 < CJSON_NESTING_LIMIT"
  shows "good_result b0 (array_elements f acc b)"
  using assms(1-3)
proof (induction f arbitrary: acc b)
  case 0
  then show ?case by simp
next
  case (Suc f)
  have "good_result (buffer_skip_whitespace (advance 1 b)) (parse_value f (buffer_skip_whitespace (advance 1 b)))"
    using Suc.prems(1)[of f] Suc.prems(3) assms(4,5) by (simp add: all_good_def)
  then show ?case
    using Suc.prems Suc.IH assms(4,5)
    by (auto simp: Let_def split: option.splits sum.splits intro!: good_close)
qed

lemma members_good:
  assumes "\<And>g. g < f \<Longrightarrow> all_good g" "good_elems True (depth b) acc" "depth b = depth b0 + 1"
    "0 \<le> depth b0" "depth b0 < CJSON_NESTING_LIMIT"
  shows "good_result b0 (object_members f acc b)"
  using assms(1-3)
proof (induction f arbitrary: acc b)
  case 0
  then show ?case by simp
next
  case (Suc f)
  have ps: "valuestring key \<noteq> None \<and> depth b1 = depth b"
    if "parse_string (buffer_skip_whitespace (advance 1 b)) = Inr (Some key, b1)" for key b1
    using that by (auto simp: parse_string_def Let_def split: if_splits option.splits prod.splits)
  have pv: "good_result b3 (parse_value f b3)" if "depth b3 = depth b" for b3
    using Suc.prems(1)[of f] Suc.prems(3) assms(4,5) that by (simp add: all_good_def)
  show ?case
  proof (cases "parse_string (buffer_skip_whitespace (advance 1 b))")
    case (Inl e)
    then show ?thesis by simp
  next
    case (Inr kb)
    obtain key b1 where kb: "kb = (key, b1)" by (cases kb)
    show ?thesis
    proof (cases key)
      case None
      with Inr kb show ?thesis by simp
    next
      case (Some ky)
      let ?b3 = "buffer_skip_whitespace (advance 1 (buffer_skip_whitespace b1))"
      from ps Inr kb Some have k: "valuestring ky \<noteq> None" "depth ?b3 = depth b" by auto
      from pv[OF k(2)] show ?thesis
        using Suc.prems Suc.IH assms(4,5) Inr kb Some k
        by (auto simp: Let_def split: option.splits sum.splits intro!: good_close)
    qed
  qed
qed

lemma parse_good: "all_good f"
proof (induction f rule: less_induct)
  case (less f)
  have el: "good_result b (array_elements g [] b')" "good_result b (object_members g [] b')"
    if "g < f" "depth b' = depth b + 1" "0 \<le> depth b" "depth b < CJSON_NESTING_LIMIT" for g b b'
    using that less.IH by (auto intro!: elements_good members_good)
  have ar: "good_result b (parse_array g b)" "good_result b (parse_object g b)"
    if "g < f" "0 \<le> depth b" for g b
    using that el by (cases g; force simp: Let_def intro!: good_close)+
  show ?case
  proof (cases f)
    case 0
    then show ?thesis by (simp add: all_good_def)
  next
    case (Suc g)
    then show ?thesis
      using ar[of g] good_leaf by (auto simp: all_good_def)
  qed
qed

lemma parsed_item_good:
  assumes "cJSON_ParseWithLengthOpts v rnt = Some (Inr r)" and "parsed_item r = Some it"
  shows "wf_item it \<and> nesting it \<le> CJSON_NESTING_LIMIT"
proof -
  from assms obtain s where s: "v = Some s" "s \<noteq> []"
    by (cases v) (auto simp: cJSON_ParseWithLengthOpts_def parse_fail_outcome_def split: if_splits)
  let ?b = "buffer_skip_whitespace (skip_utf8_bom \<lparr>content = s, offset = 0, depth = 0\<rparr>)"
  from assms s obtain b1 where pv: "parse_value (3 * length s + 4) ?b = Some (Inr (Some it, b1))"
    by (auto simp: cJSON_ParseWithLengthOpts_def parse_fail_outcome_def Let_def
        split: if_splits option.splits sum.splits)
  have d: "depth ?b = 0" by (simp add: skip_utf8_bom_def)
  from parse_good[of "3 * length s + 4"] d have "good_result ?b (parse_value (3 * length s + 4) ?b)"
    by (simp add: all_good_def CJSON_NESTING_LIMIT_def)
  with pv d show ?thesis by (simp add: good_result_def)
qed

section \<open>Properties\<close>

text \<open>C7: \<open>cJSON_Parse\<close> terminates without undefined behaviour on every argument, the
  null pointer included: it never reads outside the NUL-terminated text, never writes
  past the end of a string it allocated, and never converts a number out of range.\<close>

theorem cJSON_Parse_total: "\<exists>r. cJSON_Parse v = Some (Inr r)"
proof (cases v)
  case None
  then show ?thesis by (simp add: cJSON_Parse_def cJSON_ParseWithOpts_def)
next
  case (Some s)
  then show ?thesis
    using parse_entry_safe[of "cstr s @ [NUL]" False]
    by (simp add: cJSON_Parse_def cJSON_ParseWithOpts_def)
qed

text \<open>C29: an item built by the parser is well formed (every value has the fields of its
  type, exactly the members of objects have names, \<open>valueint\<close> fits an \<open>int\<close> and
  \<open>valuedouble\<close> is a \<open>double\<close>) and
  nests no deeper than \<open>CJSON_NESTING_LIMIT\<close>.\<close>

theorem cJSON_Parse_wf:
  assumes "cJSON_Parse v = Some (Inr r)" and "parsed_item r = Some it"
  shows "wf_item it \<and> nesting it \<le> CJSON_NESTING_LIMIT"
proof (cases v)
  case None
  with assms show ?thesis by (auto simp: cJSON_Parse_def cJSON_ParseWithOpts_def)
next
  case (Some s)
  with assms parsed_item_good show ?thesis
    by (simp add: cJSON_Parse_def cJSON_ParseWithOpts_def)
qed

definition sample_array :: cJSON where
  "sample_array = CJSON 32 None 0 (Fin False 0 0) None [CJSON 2 None 1 (Fin False 0 0) None []]"

theorem cJSON_Parse_wf_witness: "wf_item sample_array \<and> nesting sample_array \<le> CJSON_NESTING_LIMIT"
proof (rule cJSON_Parse_wf)
  show "cJSON_Parse (Some ''[true]'') =
      Some (Inr \<lparr>parsed_item = Some sample_array, global_error = None, return_parse_end = Some 6\<rparr>)"
    by code_simp
  show "parsed_item \<lparr>parsed_item = Some sample_array, global_error = None, return_parse_end = Some 6\<rparr>
      = Some sample_array"
    by simp
qed

text \<open>C34: the second pass of \<open>parse_string\<close> fits the allocation the first pass computed,
  for every buffer, also when malformed \<open>\u\<close> escapes make the passes disagree on where
  the escapes are.\<close>

theorem parse_string_fits: "parse_string b \<noteq> Inl BufferOverflow"
  by (rule parse_string_writes_fit)

end
