(* ===== verification/CJsonPrint.thy ===== *)
theory CJsonPrint
  imports CJsonParse
begin

text \<open>
  The JSON writer of \<open>cjson/cJSON.c\<close>, at the level of the growing output buffer:
  \<open>ensure\<close>, \<open>update_offset\<close>, \<open>print_number\<close>, \<open>print_string_ptr\<close>,
  \<open>print_value\<close>, \<open>print_array\<close>, \<open>print_object\<close>, \<open>print\<close> and the entry points.
  A buffer is the list of the bytes allocated for it; every write is checked against it.
  \<open>render\<close> is the abstract text; the refinement lemma says that the buffer code writes
  exactly that text, inside the buffer, whenever it succeeds.
\<close>

section \<open>The output buffer\<close>

text \<open>
  The allocator is a parameter: whether a request of a given size is granted, whether
  \<open>realloc\<close> is available, and what fresh memory holds.
\<close>

record hooks =
  allocate_ok :: "int \<Rightarrow> bool"
  reallocate :: bool
  fresh :: char

record printbuffer =
  buffer :: "string option"
  poffset :: int
  pdepth :: nat
  noalloc :: bool
  pformat :: bool
  phooks :: hooks

definition buf_size :: "printbuffer \<Rightarrow> int" where
  "buf_size p = (case buffer p of None \<Rightarrow> 0 | Some bs \<Rightarrow> int (length bs))"

definition grow :: "char \<Rightarrow> int \<Rightarrow> string \<Rightarrow> string" where
  "grow c n bs = bs @ replicate (nat n - length bs) c"

text \<open>\<open>ensure\<close>: the index of the output pointer, or \<open>None\<close> for the null pointer.\<close>

definition ensure :: "printbuffer \<Rightarrow> int \<Rightarrow> (int option \<times> printbuffer) cres" where
  "ensure p needed =
     (case buffer p of
        None \<Rightarrow> Inr (None, p)
      | Some bs \<Rightarrow>
          if 0 < buf_size p \<and> buf_size p \<le> poffset p then Inr (None, p)
          else if INT_MAX < needed then Inr (None, p)
          else
            let n = needed + (poffset p + 1)
            in if n \<le> buf_size p then Inr (Some (poffset p), p)
               else if noalloc p then Inr (None, p)
               else if INT_MAX div 2 < n \<and> INT_MAX < n then Inr (None, p)
               else
                 let newsize = (if INT_MAX div 2 < n then INT_MAX else n * 2)
                 in if \<not> allocate_ok (phooks p) newsize then Inr (None, p\<lparr>buffer := None\<rparr>)
                    else if reallocate (phooks p) then
                      Inr (Some (poffset p), p\<lparr>buffer := Some (grow (fresh (phooks p)) newsize bs)\<rparr>)
                    else if buf_size p < poffset p + 1 then Inl OutOfBounds
                    else
                      Inr (Some (poffset p),
                           p\<lparr>buffer := Some (grow (fresh (phooks p)) newsize (take (nat (poffset p + 1)) bs))\<rparr>))"

text \<open>Bytes stored from index \<open>i\<close> on.\<close>

definition put :: "int \<Rightarrow> string \<Rightarrow> printbuffer \<Rightarrow> printbuffer cres" where
  "put i txt p =
     (case buffer p of
        None \<Rightarrow> Inl NullDereference
      | Some bs \<Rightarrow>
          if 0 \<le> i \<and> i + int (length txt) \<le> int (length bs)
          then Inr (p\<lparr>buffer := Some (take (nat i) bs @ txt @ drop (nat i + length txt) bs)\<rparr>)
          else Inl BufferOverflow)"

text \<open>\<open>strlen\<close> from the offset runs to the next NUL of the buffer.\<close>

definition update_offset :: "printbuffer \<Rightarrow> printbuffer cres" where
  "update_offset p =
     (case buffer p of
        None \<Rightarrow> Inr p
      | Some bs \<Rightarrow>
          let rest = drop (nat (poffset p)) bs
          in if NUL \<notin> set rest then Inl OutOfBounds
             else Inr (p\<lparr>poffset := poffset p + int (length (takeWhile (\<lambda>c. c \<noteq> NUL) rest))\<rparr>))"

definition add_offset :: "int \<Rightarrow> printbuffer \<Rightarrow> printbuffer" where
  "add_offset n p = p\<lparr>poffset := poffset p + n\<rparr>"

text \<open>The recurring pattern: reserve, fail if there is no room, store the bytes, go on.\<close>

definition emit :: "int \<Rightarrow> string \<Rightarrow> printbuffer \<Rightarrow> (bool \<times> printbuffer) cres" where
  "emit needed txt p =
     cbind (ensure p needed) (\<lambda>(o', p1).
       case o' of
         None \<Rightarrow> Inr (False, p1)
       | Some i \<Rightarrow> cbind (put i txt p1) (\<lambda>p2. Inr (True, p2)))"

text \<open>Continue only after success, as the early returns of the source do.\<close>

definition on_true :: "(bool \<times> printbuffer) cres \<Rightarrow> (printbuffer \<Rightarrow> (bool \<times> printbuffer) cres)
    \<Rightarrow> (bool \<times> printbuffer) cres" where
  "on_true m f = cbind m (\<lambda>(ok, p). if ok then f p else Inr (False, p))"

section \<open>Numbers\<close>

definition DBL_EPSILON :: fl where "DBL_EPSILON = Fin False 1 (- 52)"

definition compare_double :: "fl \<Rightarrow> fl \<Rightarrow> bool" where
  "compare_double a b =
     (let maxVal = (if fl_less (fl_abs b) (fl_abs a) then fl_abs a else fl_abs b)
      in fl_le (fl_abs (fl_sub Double a b)) (fl_mult Double maxVal DBL_EPSILON))"

definition is_finite :: "fl \<Rightarrow> bool" where
  "is_finite d = (case d of Fin _ _ _ \<Rightarrow> True | _ \<Rightarrow> False)"

definition number_text :: "fl \<Rightarrow> string" where
  "number_text d =
     (if \<not> is_finite d then ''null''
      else let t15 = fmt_g 15 d; (test, n) = strtod t15
           in if n = 0 \<or> \<not> compare_double test d then fmt_g 17 d else t15)"

definition print_number :: "cJSON \<Rightarrow> printbuffer \<Rightarrow> (bool \<times> printbuffer) cres" where
  "print_number item p =
     (let number_buffer = number_text (valuedouble item); n = int (length number_buffer)
      in if 26 < n + 1 then Inl BufferOverflow
         else on_true (emit (n + 1) (number_buffer @ [NUL]) p) (\<lambda>p1. Inr (True, add_offset n p1)))"

section \<open>Strings\<close>

definition hex_char :: "int \<Rightarrow> char" where
  "hex_char v = (if v < 10 then char_of (48 + v) else char_of (87 + v))"

text \<open>The escape of one byte; the other bytes are copied.\<close>

definition escape_char :: "char \<Rightarrow> string" where
  "escape_char c =
     (if 31 < byte_of c \<and> c \<noteq> CHR 0x22 \<and> c \<noteq> CHR 0x5C then [c]
      else CHR 0x5C #
        (if c = CHR 0x5C then [CHR 0x5C]
         else if c = CHR 0x22 then [CHR 0x22]
         else if c = CHR 0x08 then ''b''
         else if c = CHR 0x0C then ''f''
         else if c = CHR 0x0A then ''n''
         else if c = CHR 0x0D then ''r''
         else if c = CHR 0x09 then ''t''
         else [CHR ''u'', CHR ''0'', CHR ''0'', hex_char (byte_of c div 16), hex_char (byte_of c mod 16)]))"

text \<open>The additional characters the counting loop reserves for one byte.\<close>

definition escape_extra :: "char \<Rightarrow> nat" where
  "escape_extra c =
     (if c \<in> {CHR 0x22, CHR 0x5C, CHR 0x08, CHR 0x0C, CHR 0x0A, CHR 0x0D, CHR 0x09} then 1
      else if byte_of c < 32 then 5 else 0)"

text \<open>
  The copy loop and the closing quote at the computed length. (The \<open>sprintf("u%04x")\<close> of
  the source also stores a NUL after its digits, which the next store replaces.)
\<close>

definition print_string_ptr :: "string option \<Rightarrow> printbuffer \<Rightarrow> (bool \<times> printbuffer) cres" where
  "print_string_ptr inp p =
     (case inp of
        None \<Rightarrow> emit 3 [CHR 0x22, CHR 0x22, NUL] p
      | Some raw \<Rightarrow>
          let s = cstr raw;
              escape_characters = sum_list (map escape_extra s);
              output_length = int (length s + escape_characters)
          in cbind (ensure p (output_length + 3)) (\<lambda>(o', p1).
               case o' of
                 None \<Rightarrow> Inr (False, p1)
               | Some i \<Rightarrow>
                   cbind (put i (CHR 0x22 # (if escape_characters = 0 then s else concat (map escape_char s))) p1)
                     (\<lambda>p2. cbind (put (i + output_length + 1) [CHR 0x22, NUL] p2)
                       (\<lambda>p3. Inr (True, p3)))))"

definition print_string :: "cJSON \<Rightarrow> printbuffer \<Rightarrow> (bool \<times> printbuffer) cres" where
  "print_string item p = print_string_ptr (valuestring item) p"

section \<open>Values, arrays, objects\<close>

definition set_depth :: "nat \<Rightarrow> printbuffer \<Rightarrow> printbuffer" where
  "set_depth d p = p\<lparr>pdepth := d\<rparr>"

definition then_update :: "(bool \<times> printbuffer) cres \<Rightarrow> (bool \<times> printbuffer) cres" where
  "then_update m = on_true m (\<lambda>p. cbind (update_offset p) (\<lambda>p'. Inr (True, p')))"

text \<open>\<open>emit\<close> followed by advancing the offset over the bytes stored.\<close>

definition emit_adv :: "int \<Rightarrow> string \<Rightarrow> int \<Rightarrow> printbuffer \<Rightarrow> (bool \<times> printbuffer) cres" where
  "emit_adv needed txt n p = on_true (emit needed txt p) (\<lambda>p1. Inr (True, add_offset n p1))"

definition tabs :: "nat \<Rightarrow> string" where "tabs n = replicate n (CHR 0x09)"

definition newline :: string where "newline = [CHR 0x0A]"

text \<open>The separator after an array element, the colon after a key, the end of a member.\<close>

definition element_separator :: "bool \<Rightarrow> printbuffer \<Rightarrow> (bool \<times> printbuffer) cres" where
  "element_separator hasnext p =
     (if \<not> hasnext then Inr (True, p)
      else if pformat p then emit_adv 3 ('', '' @ [NUL]) 2 p
      else emit_adv 2 ('','' @ [NUL]) 1 p)"

definition member_indent :: "printbuffer \<Rightarrow> (bool \<times> printbuffer) cres" where
  "member_indent p =
     (if pformat p then emit_adv (int (pdepth p)) (tabs (pdepth p)) (int (pdepth p)) p else Inr (True, p))"

definition member_colon :: "printbuffer \<Rightarrow> (bool \<times> printbuffer) cres" where
  "member_colon p =
     (if pformat p then emit_adv 2 [CHR '':'', CHR 0x09] 2 p else emit_adv 1 '':'' 1 p)"

definition member_end :: "bool \<Rightarrow> printbuffer \<Rightarrow> (bool \<times> printbuffer) cres" where
  "member_end hasnext p =
     (let n = (if pformat p then 1 else 0) + (if hasnext then 1 else 0)
      in emit_adv (n + 1) ((if hasnext then '','' else []) @ (if pformat p then newline else []) @ [NUL]) n p)"

fun print_value :: "cJSON \<Rightarrow> printbuffer \<Rightarrow> (bool \<times> printbuffer) cres"
  and print_elements :: "cJSON list \<Rightarrow> printbuffer \<Rightarrow> (bool \<times> printbuffer) cres"
  and print_members :: "cJSON list \<Rightarrow> printbuffer \<Rightarrow> (bool \<times> printbuffer) cres"
where
  "print_value (CJSON t vs vi d nm cs) p =
     (let ty = t AND 0xFF; item = CJSON t vs vi d nm cs
      in if ty = cJSON_NULL then emit 5 (''null'' @ [NUL]) p
         else if ty = cJSON_False then emit 6 (''false'' @ [NUL]) p
         else if ty = cJSON_True then emit 5 (''true'' @ [NUL]) p
         else if ty = cJSON_Number then print_number item p
         else if ty = cJSON_Raw then
           (case vs of
              None \<Rightarrow> Inr (False, p)
            | Some raw \<Rightarrow> emit (int (length (cstr raw)) + 1) (cstr raw @ [NUL]) p)
         else if ty = cJSON_String then print_string item p
         else if ty = cJSON_Array then
           on_true (emit_adv 1 ''['' 1 p) (\<lambda>p1.
             on_true (print_elements cs (set_depth (pdepth p1 + 1) p1)) (\<lambda>p2.
               on_true (emit 2 ('']'' @ [NUL]) p2) (\<lambda>p3.
                 Inr (True, set_depth (pdepth p3 - 1) p3))))
         else if ty = cJSON_Object then
           on_true (if pformat p then emit_adv 3 (''{'' @ newline) 2 p else emit_adv 2 ''{'' 1 p) (\<lambda>p1.
             on_true (print_members cs (set_depth (pdepth p1 + 1) p1)) (\<lambda>p2.
               on_true (if pformat p2
                        then emit (int (pdepth p2) + 1) (tabs (pdepth p2 - 1) @ ''}'' @ [NUL]) p2
                        else emit 2 (''}'' @ [NUL]) p2) (\<lambda>p3.
                 Inr (True, set_depth (pdepth p3 - 1) p3))))
         else Inr (False, p))"
| "print_elements [] p = Inr (True, p)"
| "print_elements (c # cs) p =
     on_true (then_update (print_value c p)) (\<lambda>p1.
       on_true (element_separator (cs \<noteq> []) p1) (\<lambda>p2. print_elements cs p2))"
| "print_members [] p = Inr (True, p)"
| "print_members (c # cs) p =
     on_true (member_indent p) (\<lambda>p1.
       on_true (then_update (print_string_ptr (jstring c) p1)) (\<lambda>p2.
         on_true (member_colon p2) (\<lambda>p3.
           on_true (then_update (print_value c p3)) (\<lambda>p4.
             on_true (member_end (cs \<noteq> []) p4) (\<lambda>p5. print_members cs p5)))))"

section \<open>Entry points\<close>

definition fresh_buffer :: "hooks \<Rightarrow> int \<Rightarrow> bool \<Rightarrow> bool \<Rightarrow> string \<Rightarrow> printbuffer" where
  "fresh_buffer h n na fmt bs =
     \<lparr>buffer = Some bs, poffset = 0, pdepth = 0, noalloc = na, pformat = fmt, phooks = h\<rparr>"

text \<open>\<open>print\<close>: the printed C string, \<open>None\<close> for the null pointer.\<close>

definition print :: "hooks \<Rightarrow> bool \<Rightarrow> cJSON option \<Rightarrow> string option cres" where
  "print h format item =
     (if \<not> allocate_ok h 256 then Inr None
      else case item of
        None \<Rightarrow> Inr None
      | Some it \<Rightarrow>
          cbind (then_update (print_value it (fresh_buffer h 256 False format (replicate 256 (fresh h)))))
            (\<lambda>(ok, p).
               if \<not> ok then Inr None
               else if \<not> allocate_ok h (poffset p + 1) then Inr None
               else case buffer p of
                 None \<Rightarrow> Inr None
               | Some bs \<Rightarrow> Inr (Some (take (nat (poffset p)) bs))))"

definition cJSON_Print :: "hooks \<Rightarrow> cJSON option \<Rightarrow> string option cres" where
  "cJSON_Print h item = print h True item"

definition cJSON_PrintUnformatted :: "hooks \<Rightarrow> cJSON option \<Rightarrow> string option cres" where
  "cJSON_PrintUnformatted h item = print h False item"

definition cJSON_PrintBuffered :: "hooks \<Rightarrow> cJSON option \<Rightarrow> int \<Rightarrow> bool \<Rightarrow> string option cres" where
  "cJSON_PrintBuffered h item prebuffer fmt =
     (if prebuffer < 0 \<or> \<not> allocate_ok h prebuffer then Inr None
      else case item of
        None \<Rightarrow> Inr None
      | Some it \<Rightarrow>
          cbind (print_value it (fresh_buffer h prebuffer False fmt (replicate (nat prebuffer) (fresh h))))
            (\<lambda>(ok, p). Inr (if ok then map_option cstr (buffer p) else None)))"

text \<open>The buffer is the caller's, of \<open>n\<close> bytes; the result is the return value and its contents.\<close>

definition cJSON_PrintPreallocated :: "hooks \<Rightarrow> cJSON option \<Rightarrow> string option \<Rightarrow> bool \<Rightarrow> (bool \<times> string option) cres" where
  "cJSON_PrintPreallocated h item buf format =
     (case (buf, item) of
        (Some bs, Some it) \<Rightarrow>
          cbind (print_value it (fresh_buffer h (int (length bs)) True format bs))
            (\<lambda>(ok, p). Inr (ok, buffer p))
      | _ \<Rightarrow> Inr (False, buf))"

section \<open>The abstract text\<close>

definition quoted :: "string option \<Rightarrow> string" where
  "quoted s = (case s of None \<Rightarrow> [CHR 0x22, CHR 0x22]
     | Some raw \<Rightarrow> CHR 0x22 # concat (map escape_char (cstr raw)) @ [CHR 0x22])"

fun render :: "bool \<Rightarrow> nat \<Rightarrow> cJSON \<Rightarrow> string option"
  and render_elements :: "bool \<Rightarrow> nat \<Rightarrow> cJSON list \<Rightarrow> string option"
  and render_members :: "bool \<Rightarrow> nat \<Rightarrow> cJSON list \<Rightarrow> string option"
where
  "render fmt d (CJSON t vs vi x nm cs) =
     (let ty = t AND 0xFF
      in if ty = cJSON_NULL then Some ''null''
         else if ty = cJSON_False then Some ''false''
         else if ty = cJSON_True then Some ''true''
         else if ty = cJSON_Number then Some (number_text x)
         else if ty = cJSON_Raw then map_option cstr vs
         else if ty = cJSON_String then Some (quoted vs)
         else if ty = cJSON_Array then
           map_option (\<lambda>t. ''['' @ t @ '']'') (render_elements fmt (d + 1) cs)
         else if ty = cJSON_Object then
           map_option (\<lambda>t. ''{'' @ (if fmt then newline else []) @ t @ (if fmt then tabs d else []) @ ''}'')
             (render_members fmt (d + 1) cs)
         else None)"
| "render_elements fmt d [] = Some []"
| "render_elements fmt d (c # cs) =
     (case (render fmt d c, render_elements fmt d cs) of
        (Some t, Some ts) \<Rightarrow> Some (t @ (if cs = [] then [] else if fmt then '', '' else '','') @ ts)
      | _ \<Rightarrow> None)"
| "render_members fmt d [] = Some []"
| "render_members fmt d (c # cs) =
     (case (render fmt d c, render_members fmt d cs) of
        (Some t, Some ts) \<Rightarrow>
          Some ((if fmt then tabs d else []) @ quoted (jstring c) @ '':'' @ (if fmt then [CHR 0x09] else []) @ t
                @ (if cs = [] then [] else '','') @ (if fmt then newline else []) @ ts)
      | _ \<Rightarrow> None)"

section \<open>What the buffer operations guarantee\<close>

text \<open>The offset points into the buffer.\<close>

definition valid_buffer :: "printbuffer \<Rightarrow> bool" where
  "valid_buffer p = (case buffer p of None \<Rightarrow> True | Some bs \<Rightarrow> 0 \<le> poffset p \<and> poffset p < int (length bs))"

text \<open>No allocation fails and the sizes stay within \<open>INT_MAX\<close>.\<close>

definition roomy :: "printbuffer \<Rightarrow> nat \<Rightarrow> bool" where
  "roomy p n = (buffer p \<noteq> None \<and> \<not> noalloc p \<and> (\<forall>k. allocate_ok (phooks p) k) \<and> poffset p + int n + 6 \<le> INT_MAX)"

definition same_frame :: "printbuffer \<Rightarrow> printbuffer \<Rightarrow> bool" where
  "same_frame p q = (pformat q = pformat p \<and> phooks q = phooks p \<and> noalloc q = noalloc p)"

text \<open>
  \<open>holds_text p txt q\<close>: after the bytes before the offset of \<open>p\<close>, the buffer of \<open>q\<close> holds
  \<open>txt\<close>, and the earlier bytes are those of \<open>p\<close>.
\<close>

definition holds_text :: "printbuffer \<Rightarrow> string \<Rightarrow> printbuffer \<Rightarrow> bool" where
  "holds_text p txt q =
     (case (buffer p, buffer q) of
        (Some bs, Some cs) \<Rightarrow>
          nat (poffset p) + length txt < length cs \<and>
          take (nat (poffset p) + length txt) cs = take (nat (poffset p)) bs @ txt
      | _ \<Rightarrow> False)"

text \<open>\<open>wrote\<close>: text stored and the offset advanced past it. \<open>pending\<close>: text stored with its
  terminator, the offset somewhere inside it, as \<open>update_offset\<close> expects it.\<close>

definition wrote :: "string \<Rightarrow> printbuffer \<Rightarrow> printbuffer \<Rightarrow> bool" where
  "wrote txt p q = (valid_buffer p \<and> same_frame p q \<and> pdepth q = pdepth p \<and> NUL \<notin> set txt \<and>
     poffset q = poffset p + int (length txt) \<and> holds_text p txt q)"

definition pending :: "string \<Rightarrow> printbuffer \<Rightarrow> printbuffer \<Rightarrow> bool" where
  "pending txt p q = (valid_buffer p \<and> same_frame p q \<and> pdepth q = pdepth p \<and> NUL \<notin> set txt \<and>
     poffset p \<le> poffset q \<and> poffset q \<le> poffset p + int (length txt) \<and> holds_text p (txt @ [NUL]) q)"

lemma wrote_valid: "wrote txt p q \<Longrightarrow> valid_buffer q"
  by (auto simp: wrote_def valid_buffer_def holds_text_def split: option.splits)

lemma ensure_null: "buffer p = None \<Longrightarrow> ensure p needed = Inr (None, p) \<and> \<not> roomy p k"
  by (simp add: ensure_def roomy_def)

lemma ensure_spec:
  assumes "valid_buffer p" "buffer p = Some bs" "0 \<le> needed"
  shows "(\<exists>q. ensure p needed = Inr (None, q) \<and> (\<forall>k. roomy p k \<longrightarrow> int k + 5 < needed)) \<or>
     (\<exists>cs. ensure p needed = Inr (Some (poffset p), p\<lparr>buffer := Some cs\<rparr>) \<and>
        take (nat (poffset p)) cs = take (nat (poffset p)) bs \<and> poffset p + needed + 1 \<le> int (length cs))"
proof -
  let ?o = "poffset p" let ?n = "needed + (?o + 1)"
  have o: "0 \<le> ?o" "?o < int (length bs)" using assms by (auto simp: valid_buffer_def)
  have small: "\<not> roomy p k" if "\<not> (\<forall>m. allocate_ok (phooks p) m) \<or> noalloc p" for k
    using that by (auto simp: roomy_def)
  have big: "int k + 5 < needed" if "roomy p k" "INT_MAX < ?n" for k
    using that by (simp add: roomy_def)
  let ?new = "if INT_MAX div 2 < ?n then INT_MAX else ?n * 2"
  have grow: "take (nat ?o) (grow c ?new bs') = take (nat ?o) bs \<and> ?o + needed + 1 \<le> int (length (grow c ?new bs'))"
    if "bs' = bs \<or> bs' = take (nat (?o + 1)) bs" "?n \<le> INT_MAX" for c bs'
    using that o assms(3) by (auto simp: grow_def min_def)
  have self: "p\<lparr>buffer := Some bs\<rparr> = p" using assms(2) by (cases p) simp
  consider "INT_MAX < needed" | "needed \<le> INT_MAX" "?n \<le> int (length bs)"
    | "needed \<le> INT_MAX" "int (length bs) < ?n" "noalloc p \<or> INT_MAX < ?n"
    | "int (length bs) < ?n" "\<not> noalloc p" "?n \<le> INT_MAX" "\<not> allocate_ok (phooks p) ?new"
    | "int (length bs) < ?n" "\<not> noalloc p" "?n \<le> INT_MAX" "allocate_ok (phooks p) ?new"
    by linarith
  then show ?thesis
  proof cases
    case 1
    then show ?thesis using o assms big by (auto simp: ensure_def buf_size_def)
  next
    case 2
    then have "ensure p needed = Inr (Some ?o, p)" using o assms by (simp add: ensure_def buf_size_def Let_def)
    then show ?thesis using 2 self by (metis add.assoc add.commute)
  next
    case 3
    then have "ensure p needed = Inr (None, p)"
      using o assms by (auto simp: ensure_def buf_size_def Let_def limit_defs)
    then show ?thesis using 3 small big by blast
  next
    case 4
    then have "ensure p needed = Inr (None, p\<lparr>buffer := None\<rparr>)"
      using o assms by (auto simp: ensure_def buf_size_def Let_def)
    then show ?thesis using 4 small by blast
  next
    case 5
    then have "ensure p needed = Inr (Some ?o, p\<lparr>buffer := Some (grow (fresh (phooks p)) ?new
        (if reallocate (phooks p) then bs else take (nat (?o + 1)) bs))\<rparr>)"
      using o assms by (auto simp: ensure_def buf_size_def Let_def)
    then show ?thesis using grow 5(3) by auto
  qed
qed

lemma holds_put:
  assumes "take (nat (poffset p)) cs = take (nat (poffset p)) bs" "buffer p = Some bs" "0 \<le> poffset p"
    "nat (poffset p) + length txt < length cs"
    "q = p\<lparr>buffer := Some (take (nat (poffset p)) cs @ txt @ drop (nat (poffset p) + length txt) cs)\<rparr>"
  shows "holds_text p txt q"
proof -
  let ?o = "nat (poffset p)"
  have l: "length (take ?o cs) = ?o" using assms(4) by simp
  have "take (?o + length txt) (take ?o cs @ txt @ drop (?o + length txt) cs) = take ?o cs @ txt"
    using l by simp
  moreover have "length (take ?o cs @ txt @ drop (?o + length txt) cs) = length cs"
    using assms(4) by simp
  ultimately show ?thesis using assms by (simp add: holds_text_def)
qed

lemma emit_spec:
  assumes "valid_buffer p" "int (length txt) \<le> needed"
  shows "(\<exists>q. emit needed txt p = Inr (False, q) \<and> (\<forall>k. roomy p k \<longrightarrow> int k + 5 < needed)) \<or>
     (\<exists>q. emit needed txt p = Inr (True, q) \<and> poffset q = poffset p \<and> pdepth q = pdepth p \<and>
        same_frame p q \<and> holds_text p txt q)"
proof (cases "buffer p")
  case None
  then show ?thesis using ensure_null by (auto simp: emit_def)
next
  case (Some bs)
  have o: "0 \<le> poffset p" using assms Some by (simp add: valid_buffer_def)
  have "0 \<le> needed" using assms(2) by linarith
  from ensure_spec[OF assms(1) Some this] show ?thesis
  proof (elim disjE exE conjE)
    fix cs assume c: "ensure p needed = Inr (Some (poffset p), p\<lparr>buffer := Some cs\<rparr>)"
      "take (nat (poffset p)) cs = take (nat (poffset p)) bs" "poffset p + needed + 1 \<le> int (length cs)"
    let ?q = "p\<lparr>buffer := Some (take (nat (poffset p)) cs @ txt @ drop (nat (poffset p) + length txt) cs)\<rparr>"
    have "emit needed txt p = Inr (True, ?q)"
      using c o assms by (simp add: emit_def put_def)
    moreover have "holds_text p txt ?q" using c(3) o assms(2) by (intro holds_put[OF c(2) Some o _ refl]) linarith
    ultimately show ?thesis by (simp add: same_frame_def)
  qed (auto simp: emit_def)
qed

section \<open>Programs over the buffer\<close>

text \<open>
  \<open>writes t p m\<close>: \<open>m\<close> runs without undefined behaviour; success means it wrote the text
  \<open>t\<close>; and with room it succeeds. \<open>stores\<close> is the same with \<open>pending\<close>.
\<close>

definition runs :: "(string \<Rightarrow> printbuffer \<Rightarrow> printbuffer \<Rightarrow> bool) \<Rightarrow> string option \<Rightarrow> printbuffer
    \<Rightarrow> (bool \<times> printbuffer) cres \<Rightarrow> bool" where
  "runs R t p m =
     (case m of Inl _ \<Rightarrow> False
      | Inr (ok, q) \<Rightarrow>
          if ok then (case t of None \<Rightarrow> False | Some txt \<Rightarrow> R txt p q)
          else (case t of None \<Rightarrow> True | Some txt \<Rightarrow> \<not> roomy p (length txt)))"

abbreviation writes :: "string option \<Rightarrow> printbuffer \<Rightarrow> (bool \<times> printbuffer) cres \<Rightarrow> bool" where
  "writes \<equiv> runs wrote"

abbreviation stores :: "string option \<Rightarrow> printbuffer \<Rightarrow> (bool \<times> printbuffer) cres \<Rightarrow> bool" where
  "stores \<equiv> runs pending"

lemma runs_simps [simp]:
  "runs R (Some txt) p (Inr (True, q)) = R txt p q"
  "runs R t p (Inr (False, q)) = (\<forall>txt. t = Some txt \<longrightarrow> \<not> roomy p (length txt))"
  "runs R None p (Inr (True, q)) = False"
  "runs R t p (Inl e) = False"
  by (auto simp: runs_def split: option.splits)

lemma runsE:
  assumes "runs R t p m"
  obtains (ok) q x where "m = Inr (True, q)" "t = Some x" "R x p q"
  | (fail) q where "m = Inr (False, q)" "\<And>txt. t = Some txt \<Longrightarrow> \<not> roomy p (length txt)"
  using assms by (auto simp: runs_def split: sum.splits if_splits option.splits)

definition oappend :: "string option \<Rightarrow> string option \<Rightarrow> string option" where
  "oappend a b = (case (a, b) of (Some x, Some y) \<Rightarrow> Some (x @ y) | _ \<Rightarrow> None)"

lemma oappend_simps [simp]:
  "oappend (Some x) (Some y) = Some (x @ y)" "oappend None b = None" "oappend a None = None"
  by (auto simp: oappend_def split: option.splits)

lemma oappend_Some: "oappend a b = Some t \<longleftrightarrow> (\<exists>x y. a = Some x \<and> b = Some y \<and> t = x @ y)"
  by (auto simp: oappend_def split: option.splits)

lemma holds_text_append:
  assumes "holds_text p a q" "holds_text q b r" "nat (poffset q) = nat (poffset p) + length a"
  shows "holds_text p (a @ b) r"
  using assms by (auto simp: holds_text_def add.assoc split: option.splits)

lemma wrote_append: "wrote a p q \<Longrightarrow> wrote b q r \<Longrightarrow> wrote (a @ b) p r"
  using holds_text_append[of p a q b r]
  by (auto simp: wrote_def same_frame_def holds_text_def valid_buffer_def nat_add_distrib split: option.splits)

lemma wrote_pending: "wrote a p q \<Longrightarrow> pending b q r \<Longrightarrow> pending (a @ b) p r"
  using holds_text_append[of p a q "b @ [NUL]" r]
  by (auto simp: wrote_def pending_def same_frame_def holds_text_def valid_buffer_def nat_add_distrib split: option.splits)

lemma wrote_roomy: "wrote a p q \<Longrightarrow> roomy p (length a + n) \<Longrightarrow> roomy q n"
  by (auto simp: wrote_def roomy_def same_frame_def holds_text_def split: option.splits)

lemma roomy_less: "roomy p n \<Longrightarrow> m \<le> n \<Longrightarrow> roomy p m"
  by (simp add: roomy_def)

lemma runs_seq:
  assumes app: "\<And>x y q r. wrote x p q \<Longrightarrow> R y q r \<Longrightarrow> R (x @ y) p r"
    and m: "writes a p m" and f: "\<And>x q. a = Some x \<Longrightarrow> wrote x p q \<Longrightarrow> runs R b q (f q)"
  shows "runs R (oappend a b) p (on_true m f)"
  using m
proof (cases rule: runsE)
  case (fail q)
  have "\<not> roomy p (length t)" if "oappend a b = Some t" for t
    using that fail(2) roomy_less[of p "length t"] by (fastforce simp: oappend_Some)
  then show ?thesis using fail(1) by (simp add: on_true_def)
next
  case (ok q x)
  have w: "wrote x p q" by (rule ok(3))
  from f[OF ok(2) w] show ?thesis
  proof (cases rule: runsE)
    case o2: (ok r y)
    then show ?thesis using ok app[OF w o2(3)] by (simp add: on_true_def)
  next
    case f2: (fail r)
    have "\<not> roomy p (length t)" if "oappend a b = Some t" for t
      using that f2(2) wrote_roomy[OF w] ok(2) by (fastforce simp: oappend_Some)
    then show ?thesis using ok(1) f2(1) by (simp add: on_true_def)
  qed
qed

lemmas writes_seq = runs_seq[where R = wrote, OF wrote_append]
lemmas stores_seq = runs_seq[where R = pending, OF wrote_pending]

lemma writes_empty: "valid_buffer p \<Longrightarrow> buffer p \<noteq> None \<Longrightarrow> writes (Some []) p (Inr (True, p))"
  by (auto simp: wrote_def same_frame_def holds_text_def valid_buffer_def)

lemma holds_text_prefix: "holds_text p (a @ b) q \<Longrightarrow> holds_text p a q"
proof -
  assume h: "holds_text p (a @ b) q"
  then obtain bs cs where b: "buffer p = Some bs" "buffer q = Some cs"
    and l: "nat (poffset p) + length (a @ b) < length cs"
    and t: "take (nat (poffset p) + length (a @ b)) cs = take (nat (poffset p)) bs @ a @ b"
    by (auto simp: holds_text_def split: option.splits)
  have n: "nat (poffset p) \<le> length bs" using arg_cong[OF t, of length] l by auto
  have "take (nat (poffset p) + length a) (take (nat (poffset p) + length (a @ b)) cs)
      = take (nat (poffset p) + length a) (take (nat (poffset p)) bs @ a @ b)" by (simp only: t)
  then show ?thesis using b l n by (simp add: holds_text_def min_def)
qed

lemma emit_adv_writes:
  assumes "valid_buffer p" "NUL \<notin> set txt" "int (length (txt @ rest)) \<le> needed" "needed \<le> int (length txt) + 5"
    "n = int (length txt)"
  shows "writes (Some txt) p (emit_adv needed (txt @ rest) n p)"
  using emit_spec[OF assms(1,3)]
proof (elim disjE exE conjE)
  fix q assume "emit needed (txt @ rest) p = Inr (False, q)" "\<forall>k. roomy p k \<longrightarrow> int k + 5 < needed"
  then show ?thesis using assms by (force simp: emit_adv_def on_true_def)
next
  fix q assume q: "emit needed (txt @ rest) p = Inr (True, q)" "poffset q = poffset p" "pdepth q = pdepth p"
    "same_frame p q" "holds_text p (txt @ rest) q"
  have "holds_text p txt (add_offset n q)"
    using holds_text_prefix[OF q(5)] by (simp add: holds_text_def add_offset_def)
  then show ?thesis using q assms
    by (auto simp: emit_adv_def on_true_def wrote_def add_offset_def same_frame_def)
qed

lemma emit_stores:
  assumes "valid_buffer p" "NUL \<notin> set txt" "needed = int (length txt) + 1"
  shows "stores (Some txt) p (emit needed (txt @ [NUL]) p)"
proof -
  have "int (length (txt @ [NUL])) \<le> needed" using assms(3) by simp
  from emit_spec[OF assms(1) this] show ?thesis
    using assms by (force simp: pending_def)
qed

lemma then_update_writes:
  assumes "stores t p m"
  shows "writes t p (then_update m)"
  using assms
proof (cases rule: runsE)
  case (fail q)
  then show ?thesis by (simp add: then_update_def on_true_def)
next
  case (ok q x)
    then obtain bs cs where b: "buffer p = Some bs" "buffer q = Some cs"
      and h: "nat (poffset p) + length x + 1 < length cs"
        "take (nat (poffset p) + length x + 1) cs = take (nat (poffset p)) bs @ x @ [NUL]"
      and o: "poffset p \<le> poffset q" "poffset q \<le> poffset p + int (length x)" "0 \<le> poffset p"
        "poffset p < int (length bs)" and nx: "NUL \<notin> set x"
      by (auto simp: pending_def holds_text_def valid_buffer_def add.assoc split: option.splits)
    let ?d = "nat (poffset q) - nat (poffset p)"
    let ?tail = "drop (nat (poffset p) + length x + 1) cs"
    have cs: "cs = take (nat (poffset p)) bs @ x @ [NUL] @ ?tail"
      using append_take_drop_id[of "nat (poffset p) + length x + 1" cs] unfolding h(2) by simp
    have "drop (nat (poffset q)) cs = drop ?d (x @ [NUL] @ ?tail)"
      using o by (subst cs) (simp add: min_def)
    also have "\<dots> = drop ?d x @ [NUL] @ ?tail" using o by simp
    finally have rest: "drop (nat (poffset q)) cs = drop ?d x @ NUL # ?tail" by simp
    have nd: "NUL \<notin> set (drop ?d x)" using nx by (auto dest: in_set_dropD)
    have tw: "takeWhile (\<lambda>c. c \<noteq> NUL) (drop ?d x @ NUL # ?tail) = drop ?d x"
      using nd by (simp add: takeWhile_append takeWhile_eq_all_conv)
    let ?r = "q\<lparr>poffset := poffset p + int (length x)\<rparr>"
    have "poffset q + int (length (drop ?d x)) = poffset p + int (length x)" using o by simp
    then have "update_offset q = Inr ?r"
      using b by (simp only: update_offset_def rest tw option.case Let_def) simp
    moreover have "wrote x p ?r"
      using ok(3) holds_text_prefix[of p x "[NUL]" q] by (auto simp: wrote_def pending_def same_frame_def holds_text_def)
    ultimately show ?thesis using ok by (simp add: then_update_def on_true_def)
qed

section \<open>The writer refines the abstract text\<close>

lemma number_text_bounds:
  assumes "is_double d"
  shows "length (number_text d) \<le> 24 \<and> NUL \<notin> set (number_text d)"
proof (cases "is_finite d")
  case False
  then show ?thesis by (simp add: number_text_def NUL_def)
next
  case True
  then obtain s m k where d: "d = Fin s m k" by (auto simp: is_finite_def split: fl.splits)
  have "\<not> numeral_char NUL" by (simp add: numeral_char_def is_digit_def NUL_def)
  then have nul: "NUL \<notin> set (fmt_g P d)" if "0 < P" for P
    using fmt_g_chars[of s m k P NUL] that assms d by blast
  show ?thesis
    using True nul[of 15] nul[of 17] fmt_g_length[OF assms, of 15] fmt_g_length[OF assms, of 17]
    by (auto simp: number_text_def Let_def split: prod.splits)
qed

lemma print_number_stores:
  assumes "valid_buffer p" "is_double (valuedouble item)"
  shows "stores (Some (number_text (valuedouble item))) p (print_number item p)"
proof -
  let ?t = "number_text (valuedouble item)"
  have b: "length ?t \<le> 24" "NUL \<notin> set ?t" using number_text_bounds[OF assms(2)] by auto
  have "int (length (?t @ [NUL])) \<le> int (length ?t) + 1" by simp
  from emit_spec[OF assms(1) this] show ?thesis
  proof (elim disjE exE conjE)
    fix q assume q: "emit (int (length ?t) + 1) (?t @ [NUL]) p = Inr (True, q)" "poffset q = poffset p"
      "pdepth q = pdepth p" "same_frame p q" "holds_text p (?t @ [NUL]) q"
    then have "pending ?t p (add_offset (int (length ?t)) q)"
      using assms b by (simp add: pending_def add_offset_def same_frame_def holds_text_def)
    then show ?thesis using q(1) b by (simp add: print_number_def on_true_def Let_def)
  qed (use b in \<open>force simp: print_number_def on_true_def Let_def\<close>)
qed

lemma escape_char_length: "length (escape_char c) = 1 + escape_extra c"
  by (auto simp: escape_char_def escape_extra_def)

lemma escape_length: "length (concat (map escape_char s)) = length s + sum_list (map escape_extra s)"
  by (induction s) (auto simp: escape_char_length)

lemma escape_none: "sum_list (map escape_extra s) = 0 \<Longrightarrow> concat (map escape_char s) = s"
  by (induction s) (auto simp: escape_char_def escape_extra_def split: if_splits)

lemma hex_char_not_NUL: "0 \<le> v \<Longrightarrow> v < 16 \<Longrightarrow> hex_char v \<noteq> NUL"
proof
  assume v: "0 \<le> v" "v < 16" "hex_char v = NUL"
  have "byte_of (char_of (48 + v)) \<noteq> byte_of NUL" "byte_of (char_of (87 + v)) \<noteq> byte_of NUL"
    using v(1,2) by (simp_all only: of_char_of) (simp_all add: NUL_def)
  then show False using v(3) by (metis hex_char_def)
qed

lemma escape_NUL:
  assumes "c \<noteq> NUL"
  shows "NUL \<notin> set (escape_char c)"
proof -
  have "hex_char (byte_of c div 16) \<noteq> NUL" "hex_char (byte_of c mod 16) \<noteq> NUL"
    using byte_of_less[of c] byte_of_nonneg[of c] by (simp_all add: hex_char_not_NUL div_less_power pos_imp_zdiv_nonneg_iff)
  with assms show ?thesis by (auto simp: escape_char_def NUL_def)
qed

lemma quoted_NUL: "NUL \<notin> set (quoted s)"
proof (cases s)
  case (Some raw)
  have "NUL \<notin> set (escape_char c)" if "c \<in> set (cstr raw)" for c
    using that NUL_notin_cstr[of raw] by (intro escape_NUL) auto
  moreover have "NUL \<noteq> CHR 0x22" by (simp add: NUL_def)
  ultimately show ?thesis using Some by (auto simp: quoted_def)
qed (simp add: quoted_def NUL_def)

lemma holds_textI:
  assumes "buffer p = Some bs" "nat (poffset p) + length t < length cs"
    "take (nat (poffset p) + length t) cs = take (nat (poffset p)) bs @ t"
  shows "holds_text p t (p\<lparr>buffer := Some cs\<rparr>)"
  using assms by (simp add: holds_text_def)

lemma two_puts:
  assumes "i + length a + length b < length cs" "take i cs = take i bs"
    "cs1 = take i cs @ a @ drop (i + length a) cs"
    "cs2 = take (i + length a) cs1 @ b @ drop (i + length a + length b) cs1"
  shows "take (i + length a + length b) cs2 = take i bs @ a @ b" "length cs2 = length cs"
proof -
  have l: "length (take i cs) = i" "length cs1 = length cs" using assms(1) by (simp_all add: assms(3))
  have "take (i + length a) cs1 = take i bs @ a" using l(1) by (simp add: assms(2,3))
  moreover from this have "length (take i bs @ a) = i + length a" using l assms(1) by (metis length_take min.absorb4 trans_less_add1 add_lessD1)
  ultimately show "take (i + length a + length b) cs2 = take i bs @ a @ b"
    unfolding assms(4) by (metis append.assoc append_eq_conv_conj length_append)
  show "length cs2 = length cs" using l assms(1) by (simp add: assms(4))
qed

lemma print_string_stores:
  assumes "valid_buffer p"
  shows "stores (Some (quoted s)) p (print_string_ptr s p)"
proof (cases s)
  case None
  have "stores (Some [CHR 0x22, CHR 0x22]) p (emit 3 ([CHR 0x22, CHR 0x22] @ [NUL]) p)"
    by (rule emit_stores[OF assms]) (auto simp: NUL_def)
  then show ?thesis using None by (simp add: print_string_ptr_def quoted_def)
next
  case (Some raw)
  let ?s = "cstr raw" let ?esc = "sum_list (map escape_extra ?s)" let ?out = "int (length ?s + ?esc)"
  let ?body = "concat (map escape_char ?s)"
  have body: "(if ?esc = 0 then ?s else ?body) = ?body" using escape_none[of ?s] by simp
  have lb: "length ?body = length ?s + ?esc" by (rule escape_length)
  have q: "quoted s = CHR 0x22 # ?body @ [CHR 0x22]" using Some by (simp add: quoted_def)
  show ?thesis
  proof (cases "buffer p")
    case None
    then show ?thesis using Some ensure_null[OF None] by (simp add: print_string_ptr_def Let_def)
  next
    case b: (Some bs)
    have o: "0 \<le> poffset p" using assms b by (simp add: valid_buffer_def)
    have "0 \<le> ?out + 3" by simp
    from ensure_spec[OF assms b this] show ?thesis
    proof (elim disjE exE conjE)
      fix r assume r: "ensure p (?out + 3) = Inr (None, r)" "\<forall>k. roomy p k \<longrightarrow> int k + 5 < ?out + 3"
      have "\<not> roomy p (length (quoted s))" using r(2)[rule_format, of "length (quoted s)"] lb q by auto
      then show ?thesis using Some r(1) by (simp add: print_string_ptr_def Let_def)
    next
      fix cs assume c: "ensure p (?out + 3) = Inr (Some (poffset p), p\<lparr>buffer := Some cs\<rparr>)"
        "take (nat (poffset p)) cs = take (nat (poffset p)) bs" "poffset p + (?out + 3) + 1 \<le> int (length cs)"
      let ?o = "nat (poffset p)" let ?a = "CHR 0x22 # ?body" let ?b = "[CHR 0x22, NUL]"
      let ?cs1 = "take ?o cs @ ?a @ drop (?o + length ?a) cs"
      let ?i = "nat (poffset p + ?out + 1)"
      let ?r = "p\<lparr>buffer := Some (take ?i ?cs1 @ ?b @ drop (?i + 2) ?cs1)\<rparr>"
      have i: "?i = ?o + length ?a" using lb o by simp
      have l: "?o + length ?a + 2 < length cs" using c(3) lb o by simp
      have run: "print_string_ptr s p = Inr (True, ?r)"
        using Some c(1) body lb o l by (simp add: print_string_ptr_def Let_def put_def min_def)
      have l': "?o + length ?a + length ?b < length cs" using l by simp
      have "take (?o + length ?a + length ?b) (take ?i ?cs1 @ ?b @ drop (?i + 2) ?cs1) = take ?o bs @ ?a @ ?b"
        "length (take ?i ?cs1 @ ?b @ drop (?i + 2) ?cs1) = length cs"
        using two_puts[OF l' c(2) refl refl] by (simp_all only: i list.size One_nat_def add_Suc_right add_0_right numeral_2_eq_2)
      moreover have "?o + length ?a + length ?b = ?o + length (quoted s @ [NUL])" by (simp add: q)
      moreover have "?a @ ?b = quoted s @ [NUL]" by (simp add: q)
      ultimately have "holds_text p (quoted s @ [NUL]) ?r"
        using b l' by (intro holds_textI) (simp_all only:)
      then show ?thesis using run assms quoted_NUL[of s] by (simp add: pending_def same_frame_def)
    qed
  qed
qed


lemma wrote_buffer: "wrote txt p q \<Longrightarrow> buffer q \<noteq> None"
  by (auto simp: wrote_def holds_text_def split: option.splits)

lemma wrote_frame: "wrote txt p q \<Longrightarrow> pformat q = pformat p \<and> pdepth q = pdepth p"
  by (simp add: wrote_def same_frame_def)

lemma tabs_NUL [simp]: "NUL \<notin> set (tabs n)" by (simp add: tabs_def NUL_def)

lemma length_tabs [simp]: "length (tabs n) = n" by (simp add: tabs_def)

lemma NUL_consts [simp]:
  "NUL \<noteq> CHR '',''" "NUL \<noteq> CHR '' ''" "NUL \<noteq> CHR '':''" "NUL \<noteq> CHR 0x09" "NUL \<noteq> CHR 0x0A"
  "NUL \<noteq> CHR ''{''" "NUL \<noteq> CHR ''}''" "NUL \<noteq> CHR ''[''" "NUL \<noteq> CHR '']''"
  "NUL \<notin> set ''null''" "NUL \<notin> set ''true''" "NUL \<notin> set ''false''"
  by (simp_all add: NUL_def)

lemma length_newline [simp]: "length newline = 1" "NUL \<notin> set newline"
  by (simp_all add: newline_def)

text \<open>A usable buffer, with the format and level the text depends on.\<close>

definition ready :: "bool \<Rightarrow> nat \<Rightarrow> printbuffer \<Rightarrow> bool" where
  "ready f d p = (valid_buffer p \<and> buffer p \<noteq> None \<and> pformat p = f \<and> pdepth p = d)"

lemma readyD: "ready f d p \<Longrightarrow> valid_buffer p"
  by (simp add: ready_def)

lemma wrote_ready: "wrote x p q \<Longrightarrow> ready f d p \<Longrightarrow> ready f d q"
  using wrote_valid[of x p q] wrote_buffer[of x p q] wrote_frame[of x p q] by (simp add: ready_def)

lemma writes_seq_ready:
  "ready f d p \<Longrightarrow> writes a p m \<Longrightarrow> (\<And>q. ready f d q \<Longrightarrow> writes b q (g q)) \<Longrightarrow> writes (oappend a b) p (on_true m g)"
  by (rule writes_seq) (auto intro: wrote_ready)

lemma stores_seq_ready:
  "ready f d p \<Longrightarrow> writes a p m \<Longrightarrow> (\<And>q. ready f d q \<Longrightarrow> stores b q (g q)) \<Longrightarrow> stores (oappend a b) p (on_true m g)"
  by (rule stores_seq) (auto intro: wrote_ready)

lemma writes_empty_ready: "ready f d p \<Longrightarrow> writes (Some []) p (Inr (True, p))"
  using writes_empty by (simp add: ready_def)

lemma element_separator_writes:
  assumes "ready f d p"
  shows "writes (Some (if \<not> hasnext then [] else if f then '', '' else '','')) p (element_separator hasnext p)"
proof -
  have "writes (Some '', '') p (emit_adv 3 ('', '' @ [NUL]) 2 p)"
    by (rule emit_adv_writes[OF readyD[OF assms]]) auto
  moreover have "writes (Some '','') p (emit_adv 2 ('','' @ [NUL]) 1 p)"
    by (rule emit_adv_writes[OF readyD[OF assms]]) auto
  ultimately show ?thesis using writes_empty_ready[OF assms] assms by (simp add: element_separator_def ready_def)
qed

lemma member_indent_writes:
  assumes "ready f d p"
  shows "writes (Some (if f then tabs d else [])) p (member_indent p)"
proof -
  have "writes (Some (tabs d)) p (emit_adv (int d) (tabs d @ []) (int d) p)"
    by (rule emit_adv_writes[OF readyD[OF assms]]) auto
  then show ?thesis using writes_empty_ready[OF assms] assms by (simp add: member_indent_def ready_def)
qed

lemma member_colon_writes:
  assumes "ready f d p"
  shows "writes (Some ('':'' @ (if f then [CHR 0x09] else []))) p (member_colon p)"
proof -
  have "writes (Some [CHR '':'', CHR 0x09]) p (emit_adv 2 ([CHR '':'', CHR 0x09] @ []) 2 p)"
    by (rule emit_adv_writes[OF readyD[OF assms]]) auto
  moreover have "writes (Some '':'') p (emit_adv 1 ('':'' @ []) 1 p)"
    by (rule emit_adv_writes[OF readyD[OF assms]]) auto
  ultimately show ?thesis using assms by (simp add: member_colon_def ready_def)
qed

lemma member_end_writes:
  assumes "ready f d p"
  shows "writes (Some ((if hasnext then '','' else []) @ (if f then newline else []))) p (member_end hasnext p)"
proof -
  let ?t = "(if hasnext then '','' else []) @ (if f then newline else [])"
  let ?n = "(if f then 1 else 0) + (if hasnext then 1 else 0) :: int"
  have "writes (Some ?t) p (emit_adv (?n + 1) (?t @ [NUL]) ?n p)"
    by (rule emit_adv_writes[OF readyD[OF assms]]) auto
  then show ?thesis using assms by (simp add: member_end_def Let_def ready_def)
qed

lemma set_depth_simps [simp]:
  "buffer (set_depth d p) = buffer p" "poffset (set_depth d p) = poffset p" "pdepth (set_depth d p) = d"
  "pformat (set_depth d p) = pformat p" "phooks (set_depth d p) = phooks p" "noalloc (set_depth d p) = noalloc p"
  by (simp_all add: set_depth_def)

lemma depth_frame [simp]:
  "valid_buffer (set_depth d p) = valid_buffer p" "roomy (set_depth d p) n = roomy p n"
  "same_frame (set_depth d p) q = same_frame p q" "same_frame p (set_depth d q) = same_frame p q"
  "holds_text (set_depth d p) x q = holds_text p x q" "holds_text p x (set_depth d q) = holds_text p x q"
  by (simp_all add: valid_buffer_def roomy_def same_frame_def holds_text_def split: option.splits)

text \<open>A container: its elements are printed one level deeper, the level is restored at the end.\<close>

lemma ready_depth [simp]: "ready f d (set_depth e p) = (ready f (pdepth p) p \<and> e = d)"
  by (auto simp: ready_def)

lemma stores_nested:
  assumes p: "ready f d p" and m: "writes b (set_depth (pdepth p + 1) p) m"
    and h: "\<And>q. ready f (d + 1) q \<Longrightarrow> stores c q (h q)"
  shows "stores (oappend b c) p (on_true m (\<lambda>q. on_true (h q) (\<lambda>r. Inr (True, set_depth (pdepth r - 1) r))))"
  using m
proof (cases rule: runsE)
  case (fail q)
  have "\<not> roomy p (length t)" if "oappend b c = Some t" for t
    using that fail(2) roomy_less[of p "length t"] by (fastforce simp: oappend_Some)
  then show ?thesis using fail(1) by (simp add: on_true_def)
next
  case (ok q x)
  have w: "wrote x p (set_depth (pdepth p) q)" using ok(3) by (auto simp: wrote_def)
  have "ready f (d + 1) q" using wrote_ready[OF ok(3), of f "d + 1"] p by (simp add: ready_def)
  from h[OF this] show ?thesis
  proof (cases rule: runsE)
    case o2: (ok r y)
    have "pending y (set_depth (pdepth p) q) (set_depth (pdepth r - 1) r)"
      using o2(3) ok(3) by (auto simp: pending_def wrote_def)
    then show ?thesis using ok o2 wrote_pending[OF w] by (simp add: on_true_def)
  next
    case f2: (fail r)
    have "\<not> roomy p (length t)" if "oappend b c = Some t" for t
      using that f2(2) wrote_roomy[OF w] ok(2) by (fastforce simp: oappend_Some)
    then show ?thesis using ok(1) f2(1) by (simp add: on_true_def)
  qed
qed

text \<open>Items whose numbers are values of type \<open>double\<close>.\<close>

fun doubles :: "cJSON \<Rightarrow> bool" where
  "doubles (CJSON t vs vi d nm cs) = (is_double d \<and> (\<forall>c \<in> set cs. doubles c))"

lemma render_elements_Cons:
  "render_elements fmt d (c # cs) = oappend (render fmt d c)
     (oappend (Some (if cs = [] then [] else if fmt then '', '' else '','')) (render_elements fmt d cs))"
  by (cases "render fmt d c"; cases "render_elements fmt d cs") simp_all

lemma render_members_Cons:
  "render_members fmt d (c # cs) =
     oappend (Some (if fmt then tabs d else [])) (oappend (Some (quoted (jstring c)))
       (oappend (Some ('':'' @ (if fmt then [CHR 0x09] else []))) (oappend (render fmt d c)
         (oappend (Some ((if cs = [] then [] else '','') @ (if fmt then newline else []))) (render_members fmt d cs)))))"
  by (cases "render fmt d c"; cases "render_members fmt d cs") simp_all

declare render_elements.simps(2) [simp del] render_members.simps(2) [simp del]

text \<open>Printing of one item, as the loops over children use it.\<close>

definition prints :: "cJSON \<Rightarrow> bool" where
  "prints it = (\<forall>f d p. ready f d p \<longrightarrow> stores (render f d it) p (print_value it p))"

lemma print_elements_writes:
  "\<forall>c \<in> set cs. prints c \<Longrightarrow> ready f d p \<Longrightarrow> writes (render_elements f d cs) p (print_elements cs p)"
proof (induction cs arbitrary: p)
  case Nil
  then show ?case by (simp only: render_elements.simps print_elements.simps writes_empty_ready)
next
  case (Cons c cs)
  show ?case unfolding render_elements_Cons print_elements.simps
    using element_separator_writes[of f d _ "cs \<noteq> []"] Cons.IH Cons.prems
    by (intro writes_seq_ready[where f = f and d = d] then_update_writes) (simp_all add: prints_def)
qed

lemma print_members_writes:
  "\<forall>c \<in> set cs. prints c \<Longrightarrow> ready f d p \<Longrightarrow> writes (render_members f d cs) p (print_members cs p)"
proof (induction cs arbitrary: p)
  case Nil
  then show ?case by (simp only: render_members.simps print_members.simps writes_empty_ready)
next
  case (Cons c cs)
  have e: "ready f d q \<Longrightarrow> writes (Some ((if cs = [] then [] else '','') @ (if f then newline else []))) q
      (member_end (cs \<noteq> []) q)" for q
    using member_end_writes[of f d q "cs \<noteq> []"] by (cases cs) simp_all
  show ?case unfolding render_members_Cons print_members.simps
    using Cons.IH Cons.prems
    by (intro writes_seq_ready[where f = f and d = d] then_update_writes member_indent_writes
        member_colon_writes e print_string_stores)
      (simp_all add: prints_def readyD)
qed

lemma print_array_stores:
  assumes "\<forall>c \<in> set cs. prints c" "ready f d p"
  shows "stores (oappend (Some ''['') (oappend (render_elements f (d + 1) cs) (Some '']''))) p
     (on_true (emit_adv 1 ''['' 1 p) (\<lambda>p1.
        on_true (print_elements cs (set_depth (pdepth p1 + 1) p1)) (\<lambda>p2.
          on_true (emit 2 ('']'' @ [NUL]) p2) (\<lambda>p3. Inr (True, set_depth (pdepth p3 - 1) p3)))))"
proof (rule stores_seq_ready[OF assms(2)])
  show "writes (Some ''['') p (emit_adv 1 ''['' 1 p)"
    using emit_adv_writes[OF readyD[OF assms(2)], of "''[''" "[]" 1 1] by simp
next
  fix q assume q: "ready f d q"
  have "writes (render_elements f (d + 1) cs) (set_depth (pdepth q + 1) q) (print_elements cs (set_depth (pdepth q + 1) q))"
    using q by (intro print_elements_writes[OF assms(1)]) (simp add: ready_def)
  then show "stores (oappend (render_elements f (d + 1) cs) (Some '']'')) q
      (on_true (print_elements cs (set_depth (pdepth q + 1) q)) (\<lambda>p2.
         on_true (emit 2 ('']'' @ [NUL]) p2) (\<lambda>p3. Inr (True, set_depth (pdepth p3 - 1) p3))))"
    by (rule stores_nested[OF q]) (intro emit_stores; simp add: readyD)
qed

lemma print_object_stores:
  assumes "\<forall>c \<in> set cs. prints c" "ready f d p"
  shows "stores (oappend (Some (''{'' @ (if f then newline else []))) (oappend (render_members f (d + 1) cs)
       (Some ((if f then tabs d else []) @ ''}'')))) p
     (on_true (if pformat p then emit_adv 3 (''{'' @ newline) 2 p else emit_adv 2 ''{'' 1 p) (\<lambda>p1.
        on_true (print_members cs (set_depth (pdepth p1 + 1) p1)) (\<lambda>p2.
          on_true (if pformat p2 then emit (int (pdepth p2) + 1) (tabs (pdepth p2 - 1) @ ''}'' @ [NUL]) p2
                   else emit 2 (''}'' @ [NUL]) p2) (\<lambda>p3. Inr (True, set_depth (pdepth p3 - 1) p3)))))"
proof (rule stores_seq_ready[OF assms(2)])
  note v = readyD[OF assms(2)]
  show "writes (Some (''{'' @ (if f then newline else []))) p
      (if pformat p then emit_adv 3 (''{'' @ newline) 2 p else emit_adv 2 ''{'' 1 p)"
  proof (cases f)
    case True
    have "writes (Some (''{'' @ newline)) p (emit_adv 3 ((''{'' @ newline) @ []) 2 p)"
      by (rule emit_adv_writes[OF v]) simp_all
    then show ?thesis using True assms(2) by (simp add: ready_def)
  next
    case False
    have "writes (Some ''{'') p (emit_adv 2 (''{'' @ []) 1 p)"
      by (rule emit_adv_writes[OF v]) simp_all
    then show ?thesis using False assms(2) by (simp add: ready_def)
  qed
next
  fix q assume q: "ready f d q"
  have "writes (render_members f (d + 1) cs) (set_depth (pdepth q + 1) q) (print_members cs (set_depth (pdepth q + 1) q))"
    using q by (intro print_members_writes[OF assms(1)]) (simp add: ready_def)
  moreover have "stores (Some ((if f then tabs d else []) @ ''}'')) r
      (if pformat r then emit (int (pdepth r) + 1) (tabs (pdepth r - 1) @ ''}'' @ [NUL]) r else emit 2 (''}'' @ [NUL]) r)"
    if r: "ready f (d + 1) r" for r
    using emit_stores[OF readyD[OF r], of "tabs d @ ''}''" "2 + int d"] emit_stores[OF readyD[OF r], of "''}''" 2] r
    by (simp add: ready_def)
  ultimately show "stores (oappend (render_members f (d + 1) cs) (Some ((if f then tabs d else []) @ ''}''))) q
      (on_true (print_members cs (set_depth (pdepth q + 1) q)) (\<lambda>p2.
         on_true (if pformat p2 then emit (int (pdepth p2) + 1) (tabs (pdepth p2 - 1) @ ''}'' @ [NUL]) p2
                  else emit 2 (''}'' @ [NUL]) p2) (\<lambda>p3. Inr (True, set_depth (pdepth p3 - 1) p3))))"
    by (rule stores_nested[OF q])
qed

lemma render_container:
  "map_option (\<lambda>t. a @ t @ c) b = oappend (Some a) (oappend b (Some c))"
  by (cases b) simp_all

lemma print_value_prints: "doubles it \<Longrightarrow> prints it"
proof (induction it)
  case (CJSON t vs vi x nm cs)
  have kids: "\<forall>c \<in> set cs. prints c" using CJSON by auto
  show ?case unfolding prints_def
  proof (intro allI impI)
    fix f d p assume r: "ready f d p"
    note v = readyD[OF r]
    have lits: "stores (Some ''null'') p (emit 5 (''null'' @ [NUL]) p)"
      "stores (Some ''false'') p (emit 6 (''false'' @ [NUL]) p)"
      "stores (Some ''true'') p (emit 5 (''true'' @ [NUL]) p)"
      by (rule emit_stores[OF v]; simp add: NUL_def)+
    have num: "stores (Some (number_text x)) p (print_number (CJSON t vs vi x nm cs) p)"
      using print_number_stores[OF v, of "CJSON t vs vi x nm cs"] CJSON.prems by simp
    have raw: "stores (Some (cstr r)) p (emit (int (length (cstr r)) + 1) (cstr r @ [NUL]) p)" for r
      by (rule emit_stores[OF v]) auto
    have str: "stores (Some (quoted vs)) p (print_string (CJSON t vs vi x nm cs) p)"
      using print_string_stores[OF v, of vs] by (simp add: print_string_def)
    note arr = print_array_stores[OF kids r] and obj = print_object_stores[OF kids r]
    show "stores (render f d (CJSON t vs vi x nm cs)) p (print_value (CJSON t vs vi x nm cs) p)"
      using lits num raw str arr[folded render_container] obj[folded render_container]
      by (simp add: Let_def split: option.splits)
  qed
qed

lemma print_value_stores:
  "doubles it \<Longrightarrow> ready f d p \<Longrightarrow> stores (render f d it) p (print_value it p)"
  using print_value_prints[of it] by (simp add: prints_def)

lemma fresh_ready: "bs \<noteq> [] \<Longrightarrow> ready f 0 (fresh_buffer h n na f bs)"
  by (simp add: ready_def fresh_buffer_def valid_buffer_def)

lemma print_refines:
  assumes "doubles it"
  shows "\<exists>r. print h f (Some it) = Inr r \<and> (\<forall>t. r = Some t \<longrightarrow> render f 0 it = Some t) \<and>
    (\<forall>t. (\<forall>k. allocate_ok h k) \<and> render f 0 it = Some t \<and> int (length t) + 6 \<le> INT_MAX \<longrightarrow> r = Some t)"
proof (cases "allocate_ok h 256")
  case False
  then show ?thesis by (auto simp: print_def)
next
  case True
  let ?p = "fresh_buffer h 256 False f (replicate 256 (fresh h))"
  have roomy: "roomy ?p n = ((\<forall>k. allocate_ok h k) \<and> int n + 6 \<le> INT_MAX)" for n
    by (simp add: roomy_def fresh_buffer_def)
  have "writes (render f 0 it) ?p (then_update (print_value it ?p))"
    using assms by (intro then_update_writes print_value_stores fresh_ready) simp_all
  then show ?thesis
  proof (cases rule: runsE)
    case (ok q x)
    then obtain cs where cs: "buffer q = Some cs" "poffset q = int (length x)" "take (length x) cs = x"
      by (auto simp: wrote_def holds_text_def fresh_buffer_def split: option.splits)
    have "print h f (Some it) = Inr (if allocate_ok h (int (length x) + 1) then Some x else None)"
      using True ok(1) cs by (simp add: print_def)
    then show ?thesis using ok(2) by (auto split: if_splits)
  next
    case (fail q)
    then have "print h f (Some it) = Inr None" using True by (simp add: print_def)
    then show ?thesis using fail(2) roomy by auto
  qed
qed

section \<open>Strings survive printing and parsing\<close>

lemma scan_escaped:
  assumes "c \<noteq> NUL" "string_scan r = Some (n, k)"
  shows "\<exists>k'. string_scan (escape_char c @ r) = Some (length (escape_char c) + n, k')"
proof -
  have hex: "hex_char v \<noteq> CHR 0x22 \<and> hex_char v \<noteq> CHR 0x5C" if "0 \<le> v" "v < 16" for v
  proof -
    have "byte_of (hex_char v) = (if v < 10 then 48 + v else 87 + v)"
      using that by (simp add: hex_char_def split: if_split)
    then have "byte_of (hex_char v) \<noteq> byte_of (CHR 0x22)" "byte_of (hex_char v) \<noteq> byte_of (CHR 0x5C)"
      using that by auto
    then show ?thesis by (metis (full_types))
  qed
  have "0 \<le> byte_of c div 16" "byte_of c div 16 < 16" "0 \<le> byte_of c mod 16" "byte_of c mod 16 < 16"
    by (simp_all add: pos_imp_zdiv_nonneg_iff div_less_power)
  then show ?thesis using assms hex[of "byte_of c div 16"] hex[of "byte_of c mod 16"]
    by (auto simp: escape_char_def)
qed

lemma scan_quoted:
  "NUL \<notin> set s \<Longrightarrow>
   \<exists>k. string_scan (concat (map escape_char s) @ CHR 0x22 # rest) = Some (length (concat (map escape_char s)), k)"
proof (induction s)
  case (Cons c s)
  then obtain k where k: "string_scan (concat (map escape_char s) @ CHR 0x22 # rest) = Some (length (concat (map escape_char s)), k)"
    by auto
  show ?case using scan_escaped[OF _ k, of c] Cons.prems by (metis append.assoc concat.simps(2) length_append list.set_intros(1) list.simps(9))
qed simp

lemma control_escape:
  assumes "c \<noteq> NUL" "byte_of c < 32"
  shows "utf16_literal_to_utf8 (CHR 0x5C # CHR ''u'' # CHR ''0'' # CHR ''0'' #
     hex_char (byte_of c div 16) # hex_char (byte_of c mod 16) # r) = Some (6, [c])"
proof -
  obtain b0 b1 b2 b3 b4 b5 b6 b7 where c: "c = Char b0 b1 b2 b3 b4 b5 b6 b7" by (cases c)
  have "\<not> b5" "\<not> b6" "\<not> b7" using assms(2) by (auto simp: c of_bool_def split: if_splits)
  then show ?thesis using assms(1) unfolding c
    by (cases b0; cases b1; cases b2; cases b3; cases b4)
      (simp_all add: utf16_literal_to_utf8_def parse_hex4_def hex_char_def char_of_def Let_def
        hex_digit_value_def utf8_encode_def utf8_length_def NUL_def numeral_2_eq_2 numeral_3_eq_3)
qed
lemma convert_plain: "c \<noteq> CHR 0x5C \<Longrightarrow> string_convert out (c # r) = string_convert (out @ [c]) r"
  by (subst string_convert.simps) simp

lemma convert_simple:
  "simple_escape e = Some b \<Longrightarrow> string_convert out (CHR 0x5C # e # r) = string_convert (out @ [b]) r"
  by (subst string_convert.simps) (auto simp: simple_escape_def split: if_splits)

lemma convert_escaped:
  assumes "c \<noteq> NUL"
  shows "string_convert out (escape_char c @ r) = string_convert (out @ [c]) r"
proof (cases "byte_of c < 32 \<and> c \<notin> {CHR 0x08, CHR 0x0C, CHR 0x0A, CHR 0x0D, CHR 0x09}")
  case True
  let ?u = "CHR 0x5C # CHR ''u'' # CHR ''0'' # CHR ''0'' # hex_char (byte_of c div 16) # hex_char (byte_of c mod 16) # r"
  have ne: "c \<noteq> CHR 0x22" "c \<noteq> CHR 0x5C" "\<not> 31 < byte_of c"
    by (rule notI, use True in simp)+
  have "escape_char c @ r = ?u" using True ne by (simp add: escape_char_def)
  moreover have "string_convert out ?u = string_convert (out @ [c]) r"
    using control_escape[OF assms, of r] True by (subst string_convert.simps) simp
  ultimately show ?thesis by (simp only:)
next
  case False
  then consider "c \<in> {CHR 0x08, CHR 0x0C, CHR 0x0A, CHR 0x0D, CHR 0x09, CHR 0x22, CHR 0x5C}"
    | "31 < byte_of c" "c \<noteq> CHR 0x22" "c \<noteq> CHR 0x5C" by force
  then have "(escape_char c = [c] \<and> c \<noteq> CHR 0x5C) \<or> (\<exists>e. escape_char c = [CHR 0x5C, e] \<and> simple_escape e = Some c)"
    by cases (auto simp: escape_char_def simple_escape_def)
  then consider "escape_char c = [c]" "c \<noteq> CHR 0x5C"
    | e where "escape_char c = [CHR 0x5C, e]" "simple_escape e = Some c" by blast
  then show ?thesis by cases (simp_all add: convert_plain convert_simple)
qed

lemma convert_quoted:
  "NUL \<notin> set s \<Longrightarrow> string_convert out (concat (map escape_char s)) = (out @ s, None)"
proof (induction s arbitrary: out)
  case Nil
  then show ?case by (simp add: string_convert.simps)
next
  case (Cons c s)
  then show ?case by (auto simp: convert_escaped)
qed

lemma parse_quoted:
  assumes "drop (offset b) (content b) = quoted (Some s) @ rest" "offset b \<le> length (content b)"
  shows "parse_string b = Inr (Some (CJSON cJSON_String (Some (cstr s)) 0 (Fin False 0 0) None []),
      b\<lparr>offset := offset b + length (quoted (Some s))\<rparr>)"
proof -
  let ?e = "concat (map escape_char (cstr s))"
  have d0: "drop (offset b) (content b) = CHR 0x22 # ?e @ CHR 0x22 # rest"
    using assms(1) by (simp add: quoted_def)
  then have acc: "can_access_at_index b 0" "byte_at b 0 = CHR 0x22"
    by (auto simp: can_access_at_index_def pb_length_def byte_at_def nth_via_drop dest: arg_cong[of _ _ length])
  have d: "drop (Suc (offset b)) (content b) = ?e @ CHR 0x22 # rest"
    using d0 by (metis drop_Suc list.sel(3) tl_drop)
  obtain k where k: "string_scan (?e @ CHR 0x22 # rest) = Some (length ?e, k)"
    using scan_quoted[of "cstr s" rest] by auto
  have c: "string_convert [] ?e = (cstr s, None)" using convert_quoted[of "cstr s" "[]"] by simp
  have "\<not> length (cstr s) + 1 > length ?e + 1 - k + 1"
    using parse_string_writes_fit[of b] acc d k c by (auto simp: parse_string_def Let_def split: if_splits)
  then show ?thesis using acc d k c by (simp add: parse_string_def Let_def quoted_def)
qed

lemma quoted_parse_value:
  assumes "content b = quoted (Some s) @ rest" "offset b = 0"
  shows "parse_value (Suc f) b = Some (parse_string b)"
  using assms by (simp add: starts_with_def quoted_def byte_is_def can_access_at_index_def pb_length_def byte_at_def)

lemma quoted_no_prefix:
  assumes "b = \<lparr>content = quoted (Some s) @ rest, offset = 0, depth = 0\<rparr>"
  shows "buffer_skip_whitespace (skip_utf8_bom b) = b"
  using assms by (simp add: skip_utf8_bom_def starts_with_def quoted_def buffer_skip_whitespace_def Let_def pb_length_def)

lemma parse_printed_string:
  "\<exists>r. cJSON_Parse (Some (quoted (Some s))) = Some (Inr r) \<and>
     parsed_item r = Some (CJSON cJSON_String (Some (cstr s)) 0 (Fin False 0 0) None [])"
proof -
  let ?b = "\<lparr>content = quoted (Some s) @ [NUL], offset = 0, depth = 0\<rparr>"
  have c: "cstr (quoted (Some s)) = quoted (Some s)" by (rule cstr_id) (rule quoted_NUL)
  have e: "3 * length (quoted (Some s) @ [NUL]) + 4 = Suc (3 * length (quoted (Some s) @ [NUL]) + 3)" by simp
  have "parse_value (3 * length (quoted (Some s) @ [NUL]) + 4) (buffer_skip_whitespace (skip_utf8_bom ?b)) =
      Some (Inr (Some (CJSON cJSON_String (Some (cstr s)) 0 (Fin False 0 0) None []),
        ?b\<lparr>offset := 0 + length (quoted (Some s))\<rparr>))"
    unfolding e quoted_no_prefix[OF refl]
    using parse_quoted[of ?b s "[NUL]"] by (subst quoted_parse_value) simp_all
  then show ?thesis
    by (simp add: cJSON_Parse_def cJSON_ParseWithOpts_def cJSON_ParseWithLengthOpts_def c)
qed

section \<open>A buffer that ends after a comma\<close>

text \<open>
  The members of an object, each followed by a comma: names and values as the printer writes them.
\<close>

definition plain_value :: "string \<Rightarrow> bool" where
  "plain_value v = (v \<in> {''null'', ''true'', ''false''} \<or> (\<exists>s. v = quoted (Some s)))"

definition members_text :: "(string \<times> string) list \<Rightarrow> string" where
  "members_text ms = concat (map (\<lambda>(k, v). quoted (Some k) @ CHR '':'' # v @ [CHR '','']) ms)"

lemma drop_head:
  assumes "drop (offset b) (content b) = c # r"
  shows "can_access_at_index b 0" "byte_at b 0 = c" "offset b < length (content b)"
  using assms by (auto simp: can_access_at_index_def pb_length_def byte_at_def nth_via_drop dest: arg_cong[of _ _ length])

lemma no_blank:
  assumes "drop (offset b) (content b) = c # r" "32 < byte_of c"
  shows "buffer_skip_whitespace b = b"
  using drop_head[OF assms(1)] assms by (simp add: buffer_skip_whitespace_def pb_length_def Let_def)

lemma drop_advance:
  "drop (offset b) (content b) = xs @ r \<Longrightarrow> drop (offset (advance (length xs) b)) (content (advance (length xs) b)) = r"
  by (simp add: advance_def) (metis add.commute append_eq_conv_conj drop_drop)

lemma quote_no_blank: "32 < byte_of (CHR 0x22)"
  by code_simp

lemma quoted_head: "quoted (Some s) = CHR 0x22 # concat (map escape_char (cstr s)) @ [CHR 0x22]"
  by (simp add: quoted_def)

lemma parse_plain_value:
  assumes "drop (offset b) (content b) = v @ CHR '','' # r" "plain_value v"
  shows "\<exists>it. parse_value (Suc f) b = Some (Inr (Some it, advance (length v) b))"
proof (cases "\<exists>s. v = quoted (Some s)")
  case True
  then obtain s where s: "v = quoted (Some s)" by blast
  have d: "drop (offset b) (content b) = CHR 0x22 # concat (map escape_char (cstr s)) @ CHR 0x22 # CHR '','' # r"
    using assms(1) s by (simp add: quoted_def)
  note h = drop_head[OF d]
  have "parse_value (Suc f) b = Some (parse_string b)" using h d by (simp add: starts_with_def byte_is_def)
  moreover have "parse_string b = Inr (Some (CJSON cJSON_String (Some (cstr s)) 0 (Fin False 0 0) None []), advance (length v) b)"
    using parse_quoted[of b s "CHR '','' # r"] assms(1) s h(3) by (simp add: advance_def)
  ultimately show ?thesis by simp
next
  case False
  then have "v = ''null'' \<or> v = ''true'' \<or> v = ''false''" using assms(2) by (simp add: plain_value_def)
  moreover have "length (drop (offset b) (content b)) = length v + 1 + length r" using assms(1) by simp
  then have "offset b + length v \<le> length (content b)" by simp
  ultimately show ?thesis using assms(1)
    by (elim disjE) (simp_all add: starts_with_def can_read_def pb_length_def advance_def)
qed

lemma plain_value_head: "plain_value v \<Longrightarrow> \<exists>c t. v = c # t \<and> 32 < byte_of c"
proof (cases "\<exists>s. v = quoted (Some s)")
  case False
  assume "plain_value v"
  with False have "v = ''null'' \<or> v = ''true'' \<or> v = ''false''" by (simp add: plain_value_def)
  then show ?thesis by (elim disjE) simp_all
next
  case True
  then obtain s where "v = CHR 0x22 # concat (map escape_char (cstr s)) @ [CHR 0x22]" by (auto simp only: quoted_head)
  then show ?thesis using quote_no_blank by blast
qed

text \<open>The loop over the members runs off the buffer when its last byte is the comma.\<close>

lemma object_members_overread:
  assumes "drop (offset b + 1) (content b) = members_text ms" "\<forall>(k, v) \<in> set ms. plain_value v" "length ms < f"
  shows "object_members f acc b = Some (Inl OutOfBounds)"
  using assms
proof (induction ms arbitrary: acc b f)
  case Nil
  then obtain g where g: "f = Suc g" by (cases f) auto
  have "\<not> can_access_at_index (advance 1 b) 0"
    using Nil(1) by (simp add: members_text_def can_access_at_index_def pb_length_def advance_def)
  then show ?case using g by (simp add: buffer_skip_whitespace_def parse_string_def)
next
  case (Cons m ms)
  obtain k v where m: "m = (k, v)" by force
  have "f = Suc (Suc (f - 2))" using Cons.prems(3) by simp
  then obtain g where g: "f = Suc (Suc g)" by blast
  have v: "plain_value v" and vs: "\<forall>(k, v) \<in> set ms. plain_value v" using Cons.prems(2) m by auto
  obtain c t where vc: "v = c # t" "32 < byte_of c" using plain_value_head[OF v] by blast
  let ?b1 = "advance 1 b"
  have d1: "drop (offset ?b1) (content ?b1) = quoted (Some k) @ CHR '':'' # v @ CHR '','' # members_text ms"
    using Cons.prems(1) m by (simp add: advance_def members_text_def)
  have s1: "buffer_skip_whitespace ?b1 = ?b1"
    by (rule no_blank[OF _ quote_no_blank]) (use d1 in \<open>simp add: quoted_def\<close>)
  let ?b2 = "advance (length (quoted (Some k))) ?b1"
  have le: "offset ?b1 \<le> length (content ?b1)" using drop_head(3)[of ?b1] d1 quoted_head by fastforce
  have p1: "parse_string ?b1 = Inr (Some (CJSON cJSON_String (Some (cstr k)) 0 (Fin False 0 0) None []), ?b2)"
    using parse_quoted[OF d1 le] by (simp add: advance_def)
  have d2: "drop (offset ?b2) (content ?b2) = CHR '':'' # v @ CHR '','' # members_text ms" by (rule drop_advance[OF d1])
  have s2: "buffer_skip_whitespace ?b2 = ?b2" by (rule no_blank[OF d2]) simp
  let ?b3 = "advance 1 ?b2"
  have d3: "drop (offset ?b3) (content ?b3) = v @ CHR '','' # members_text ms" using drop_advance[of ?b2 "[CHR '':'']"] d2 by simp
  have s3: "buffer_skip_whitespace ?b3 = ?b3" by (rule no_blank) (use d3 vc in simp_all)
  let ?b4 = "advance (length v) ?b3"
  obtain it where p3: "parse_value (Suc g) ?b3 = Some (Inr (Some it, ?b4))" using parse_plain_value[OF d3 v] by blast
  have d4: "drop (offset ?b4) (content ?b4) = CHR '','' # members_text ms" by (rule drop_advance[OF d3])
  have s4: "buffer_skip_whitespace ?b4 = ?b4" by (rule no_blank[OF d4]) simp
  have d5: "drop (offset ?b4 + 1) (content ?b4) = members_text ms"
    using drop_advance[of ?b4 "[CHR '','']"] d4 by (simp add: advance_def)
  have "object_members f acc b = object_members (Suc g) (acc @ [set_name (Some (cstr k)) it]) ?b4"
    using g s1 p1 s2 s3 p3 s4 drop_head[OF d2] drop_head[OF d4] by (simp add: Let_def byte_is_def)
  also have "\<dots> = Some (Inl OutOfBounds)"
    by (rule Cons.IH[OF d5 vs]) (use Cons.prems(3) g in simp)
  finally show ?case .
qed

lemma length_members: "length ms \<le> length (members_text ms)"
  by (induction ms) (auto simp: members_text_def)

section \<open>Properties\<close>

text \<open>C6: the writer refines the abstract text. On an item whose numbers are doubles
  \<open>cJSON_Print\<close> never writes outside its buffer, whatever the allocator does; what it
  returns is \<open>render\<close>; and when no allocation fails and the text stays below
  \<open>INT_MAX\<close> bytes it does return it.\<close>

theorem cJSON_Print_refines:
  assumes "doubles it"
  shows "\<exists>r. cJSON_Print h (Some it) = Inr r \<and>
     (\<forall>t. r = Some t \<longrightarrow> render True 0 it = Some t) \<and>
     (\<forall>t. (\<forall>k. allocate_ok h k) \<and> render True 0 it = Some t \<and> int (length t) + 6 \<le> INT_MAX \<longrightarrow> r = Some t)"
  unfolding cJSON_Print_def by (rule print_refines[OF assms])

definition generous :: hooks where
  "generous = \<lparr>allocate_ok = (\<lambda>_. True), reallocate = True, fresh = CHR ''?''\<rparr>"

definition sample_object :: cJSON where
  "sample_object = CJSON cJSON_Object None 0 (Fin False 0 0) None
     [CJSON cJSON_Number None 1 (Fin False 1 0) (Some ''a'') [],
      CJSON cJSON_Array None 0 (Fin False 0 0) (Some ''b'') [CJSON cJSON_String (Some [CHR 0x22]) 0 (Fin False 0 0) None []]]"

theorem cJSON_Print_refines_witness:
  "doubles sample_object \<and> cJSON_Print generous (Some sample_object) = Inr (render True 0 sample_object)
     \<and> render True 0 sample_object \<noteq> None"
proof -
  have d: "doubles sample_object" by code_simp
  have "render True 0 sample_object \<noteq> None" "length (the (render True 0 sample_object)) < 100" by code_simp+
  then obtain t where t: "render True 0 sample_object = Some t" "length t < 100" by auto
  then show ?thesis using cJSON_Print_refines[OF d, of generous] d
    by (auto simp: generous_def limit_defs)
qed

text \<open>C33: printing into a caller's buffer stays inside that buffer, and success means that
  the buffer starts with the rendered text and its terminator.\<close>

theorem cJSON_PrintPreallocated_fits:
  assumes "doubles it" "bs \<noteq> []"
  shows "\<exists>ok out. cJSON_PrintPreallocated h (Some it) (Some bs) fmt = Inr (ok, out) \<and>
     (ok \<longrightarrow> (\<exists>t cs. render fmt 0 it = Some t \<and> out = Some cs \<and> take (length t + 1) cs = t @ [NUL]))"
proof -
  let ?p = "fresh_buffer h (int (length bs)) True fmt bs"
  have "stores (render fmt 0 it) ?p (print_value it ?p)"
    using assms by (intro print_value_stores fresh_ready)
  then show ?thesis
  proof (cases rule: runsE)
    case (ok q x)
    then show ?thesis
      by (fastforce simp: cJSON_PrintPreallocated_def pending_def holds_text_def fresh_buffer_def split: option.splits)
  qed (auto simp: cJSON_PrintPreallocated_def)
qed

theorem cJSON_PrintPreallocated_fits_witness:
  "cJSON_PrintPreallocated generous (Some sample_array) (Some ''??????????'') False = Inr (True, Some (''[true]'' @ [NUL] @ ''???''))
   \<and> (\<exists>t cs. render False 0 sample_array = Some t \<and> Some (''[true]'' @ [NUL] @ ''???'') = Some cs \<and> take (length t + 1) cs = t @ [NUL])"
proof -
  have "doubles sample_array" "''??????????'' \<noteq> []" by code_simp+
  moreover have "cJSON_PrintPreallocated generous (Some sample_array) (Some ''??????????'') False
      = Inr (True, Some (''[true]'' @ [NUL] @ ''???''))" by code_simp
  ultimately show ?thesis
    using cJSON_PrintPreallocated_fits[of sample_array "''??????????''" generous False] by auto
qed

text \<open>C35: no number overflows the 26-byte \<open>number_buffer\<close> of \<open>print_number\<close>: the text
  of a double, terminator included, takes at most 25 bytes.\<close>

theorem print_number_fits:
  assumes "is_double d"
  shows "length (number_text d) + 1 \<le> 25"
  using number_text_bounds[OF assms] by simp

theorem print_number_fits_witness: "is_double (dconst (-1) 3) \<and> length (number_text (dconst (-1) 3)) + 1 \<le> 25"
proof -
  have "is_double (dconst (-1) 3)" by code_simp
  with print_number_fits[OF this] show ?thesis by simp
qed

text \<open>C25: a string survives printing and parsing: whatever bytes it holds before its
  terminator (quotes, backslashes and control bytes included), \<open>cJSON_Parse\<close> reads back
  from the output of \<open>cJSON_PrintUnformatted\<close> exactly these bytes.\<close>

theorem string_roundtrip:
  assumes "is_double d" "cJSON_PrintUnformatted h (Some (CJSON cJSON_String (Some s) vi d nm [])) = Inr (Some t)"
  shows "\<exists>r. cJSON_Parse (Some t) = Some (Inr r) \<and>
     parsed_item r = Some (CJSON cJSON_String (Some (cstr s)) 0 (Fin False 0 0) None [])"
proof -
  have "render False 0 (CJSON cJSON_String (Some s) vi d nm []) = Some (quoted (Some s))"
    by (simp add: cJSON_types)
  then have "t = quoted (Some s)"
    using print_refines[of "CJSON cJSON_String (Some s) vi d nm []" h False] assms
    by (auto simp: cJSON_PrintUnformatted_def)
  then show ?thesis using parse_printed_string by simp
qed

theorem string_roundtrip_witness:
  "\<exists>r. cJSON_Parse (Some [CHR 0x22, CHR ''a'', CHR 0x5C, CHR 0x22, CHR 0x5C, CHR ''n'', CHR 0x22]) = Some (Inr r) \<and>
     parsed_item r = Some (CJSON cJSON_String (Some (cstr [CHR ''a'', CHR 0x22, CHR 0x0A])) 0 (Fin False 0 0) None [])"
proof (rule string_roundtrip)
  show "is_double (Fin False 0 0)" by simp
  show "cJSON_PrintUnformatted generous
      (Some (CJSON cJSON_String (Some [CHR ''a'', CHR 0x22, CHR 0x0A]) 0 (Fin False 0 0) None []))
      = Inr (Some [CHR 0x22, CHR ''a'', CHR 0x5C, CHR 0x22, CHR 0x5C, CHR ''n'', CHR 0x22])"
    by code_simp
qed

text \<open>C38: without a terminating NUL the parser is not safe: \<open>cJSON_ParseWithLength\<close> reads the byte
  after the buffer whenever the text is an object cut off right after the comma of a member. The
  members are any number of names with strings, \<open>null\<close>, \<open>true\<close> or \<open>false\<close> as values, as
  \<open>cJSON_PrintUnformatted\<close> writes them: \<open>parse_object\<close> calls \<open>parse_string\<close> after a comma without
  checking that a byte is left.\<close>

theorem cJSON_ParseWithLength_overread:
  assumes "ms \<noteq> []" "\<forall>(k, v) \<in> set ms. plain_value v"
  shows "cJSON_ParseWithLength (Some (CHR ''{'' # members_text ms)) = Some (Inl OutOfBounds)"
proof -
  let ?s = "CHR ''{'' # members_text ms" and ?b = "\<lparr>content = CHR ''{'' # members_text ms, offset = 0, depth = 0\<rparr>"
  let ?b1 = "\<lparr>content = ?s, offset = 0, depth = 1\<rparr>"
  obtain k v r where ms: "ms = (k, v) # r" using assms(1) by (metis list.exhaust surj_pair)
  obtain t where t: "members_text ms = CHR 0x22 # t" by (simp add: ms members_text_def quoted_def)
  have d: "drop (offset ?b) (content ?b) = CHR ''{'' # CHR 0x22 # t" by (simp add: t)
  have s0: "buffer_skip_whitespace (skip_utf8_bom ?b) = ?b"
    using no_blank[OF d] by (simp add: skip_utf8_bom_def starts_with_def)
  have d1: "drop (offset (advance 1 ?b1)) (content (advance 1 ?b1)) = CHR 0x22 # t" by (simp add: advance_def t)
  have s1: "buffer_skip_whitespace (advance 1 ?b1) = advance 1 ?b1" by (rule no_blank[OF d1 quote_no_blank])
  have fu: "3 * length ?s + 4 = Suc (Suc (3 * length ?s + 2))" by simp
  have bk: "step_back (advance 1 ?b1) = ?b1" by (simp add: step_back_def advance_def)
  have om: "object_members (3 * length ?s + 2) [] ?b1 = Some (Inl OutOfBounds)"
  proof (rule object_members_overread)
    have "m \<le> x \<Longrightarrow> m < 3 * Suc x + 2" for m x :: nat by simp
    from this[OF length_members[of ms]] show "length ms < 3 * length ?s + 2" by (simp only: list.size add_0_right add_Suc_right)
  qed (use assms(2) in simp_all)
  have pv: "parse_value (Suc (Suc n)) ?b = parse_object (Suc n) ?b" for n
    using drop_head[OF d] by (simp add: starts_with_def byte_is_def is_digit_def del: parse_object.simps)
  have po: "parse_object (Suc n) ?b = object_members n [] (step_back (advance 1 ?b1))" for n
    using s1 drop_head[OF d1]
    by (simp add: CJSON_NESTING_LIMIT_def byte_is_def Let_def can_access_at_index_def byte_at_def pb_length_def
        advance_def del: object_members.simps)
  have "parse_value (3 * length ?s + 4) (buffer_skip_whitespace (skip_utf8_bom ?b)) = Some (Inl OutOfBounds)"
    unfolding s0 fu pv po bk by (rule om)
  then show ?thesis by (simp add: cJSON_ParseWithLength_def cJSON_ParseWithLengthOpts_def Let_def)
qed

theorem cJSON_ParseWithLength_overread_witness:
  "cJSON_ParseWithLength (Some [CHR ''{'', CHR 0x22, CHR ''a'', CHR 0x22, CHR '':'', CHR ''n'', CHR ''u'', CHR ''l'', CHR ''l'', CHR '',''])
     = Some (Inl OutOfBounds)"
proof -
  have "members_text [(''a'', ''null'')] =
      [CHR 0x22, CHR ''a'', CHR 0x22, CHR '':'', CHR ''n'', CHR ''u'', CHR ''l'', CHR ''l'', CHR '','']" by code_simp
  then show ?thesis using cJSON_ParseWithLength_overread[of "[(''a'', ''null'')]"] by (simp add: plain_value_def)
qed

end
