(* ===== verification/CJsonStore.thy ===== *)
theory CJsonStore
  imports CJsonPrint
begin

text \<open>
  The editing functions of \<open>cjson/cJSON.c\<close> on an explicit store: items are cells linked by
  \<open>child\<close>, \<open>next\<close> and \<open>prev\<close> (the \<open>prev\<close> of a first child is the last one). Every
  dereference is checked: of the null pointer and of a cell that has been freed. Strings are
  held by value. The allocator grants a given number of further requests. A loop along a chain
  carries the number of cells as fuel; a chain longer than that has a cycle.
\<close>

section \<open>The store\<close>

record node =
  nnext :: "nat option"
  nprev :: "nat option"
  nchild :: "nat option"
  ntype :: int
  nvaluestring :: "string option"
  nvalueint :: int
  nvaluedouble :: fl
  nstring :: "string option"

record heap =
  cells :: "nat \<Rightarrow> node option"
  top :: nat
  avail :: nat

type_synonym ptr = "nat option"
type_synonym 'a hp = "heap \<Rightarrow> ('a \<times> heap) cres"

definition hret :: "'a \<Rightarrow> 'a hp" where "hret x h = Inr (x, h)"

definition hbind :: "'a hp \<Rightarrow> ('a \<Rightarrow> 'b hp) \<Rightarrow> 'b hp" where
  "hbind m f h = cbind (m h) (\<lambda>(x, h'). f x h')"

definition hthen :: "unit hp \<Rightarrow> 'b hp \<Rightarrow> 'b hp" where
  "hthen m k = hbind m (\<lambda>_. k)"

definition hfail :: "ub \<Rightarrow> 'a hp" where "hfail e h = Inl e"

definition deref :: "ptr \<Rightarrow> node hp" where
  "deref p h = (case p of None \<Rightarrow> Inl NullDereference
     | Some a \<Rightarrow> (case cells h a of None \<Rightarrow> Inl OutOfBounds | Some n \<Rightarrow> Inr (n, h)))"

definition modify :: "ptr \<Rightarrow> (node \<Rightarrow> node) \<Rightarrow> unit hp" where
  "modify p f h = (case p of None \<Rightarrow> Inl NullDereference
     | Some a \<Rightarrow> (case cells h a of None \<Rightarrow> Inl OutOfBounds
         | Some n \<Rightarrow> Inr ((), h\<lparr>cells := (cells h)(a \<mapsto> f n)\<rparr>)))"

definition set_next :: "ptr \<Rightarrow> ptr \<Rightarrow> unit hp" where "set_next p v = modify p (\<lambda>n. n\<lparr>nnext := v\<rparr>)"
definition set_prev :: "ptr \<Rightarrow> ptr \<Rightarrow> unit hp" where "set_prev p v = modify p (\<lambda>n. n\<lparr>nprev := v\<rparr>)"
definition set_child :: "ptr \<Rightarrow> ptr \<Rightarrow> unit hp" where "set_child p v = modify p (\<lambda>n. n\<lparr>nchild := v\<rparr>)"

text \<open>One request to the allocator (a cell or a copied string).\<close>

definition request :: "bool hp" where
  "request h = (if avail h = 0 then Inr (False, h) else Inr (True, h\<lparr>avail := avail h - 1\<rparr>))"

definition blank :: node where
  "blank = \<lparr>nnext = None, nprev = None, nchild = None, ntype = 0, nvaluestring = None, nvalueint = 0,
     nvaluedouble = Fin False 0 0, nstring = None\<rparr>"

definition new_item :: "ptr hp" where
  "new_item = hbind request (\<lambda>ok. if \<not> ok then hret None
     else (\<lambda>h. Inr (Some (top h), h\<lparr>cells := (cells h)(top h \<mapsto> blank), top := top h + 1\<rparr>)))"

definition cJSON_strdup :: "string \<Rightarrow> string option hp" where
  "cJSON_strdup s = hbind request (\<lambda>ok. hret (if ok then Some (cstr s) else None))"

definition free_cell :: "ptr \<Rightarrow> unit hp" where
  "free_cell p = hbind (deref p) (\<lambda>_ h. Inr ((), h\<lparr>cells := (cells h)(the p := None)\<rparr>))"

definition has_flag :: "int \<Rightarrow> int \<Rightarrow> bool" where "has_flag t f = (t AND f \<noteq> 0)"

section \<open>Deletion\<close>

fun delete_loop :: "nat \<Rightarrow> ptr \<Rightarrow> unit hp" where
  "delete_loop fuel None = hret ()"
| "delete_loop 0 (Some a) = hfail Diverges"
| "delete_loop (Suc fuel) (Some a) =
     hbind (deref (Some a)) (\<lambda>n.
       hthen (if \<not> has_flag (ntype n) cJSON_IsReference \<and> nchild n \<noteq> None then delete_loop fuel (nchild n) else hret ())
         (hthen (free_cell (Some a)) (delete_loop fuel (nnext n))))"

definition cJSON_Delete :: "ptr \<Rightarrow> unit hp" where
  "cJSON_Delete item h = delete_loop (Suc (top h)) item h"

section \<open>Reading\<close>

fun size_loop :: "nat \<Rightarrow> ptr \<Rightarrow> nat \<Rightarrow> nat hp" where
  "size_loop fuel None k = hret k"
| "size_loop 0 (Some a) k = hfail Diverges"
| "size_loop (Suc fuel) (Some a) k = hbind (deref (Some a)) (\<lambda>n. size_loop fuel (nnext n) (k + 1))"

definition cJSON_GetArraySize :: "ptr \<Rightarrow> int hp" where
  "cJSON_GetArraySize arr =
     (if arr = None then hret 0
      else hbind (deref arr) (\<lambda>n h. cbind (size_loop (Suc (top h)) (nchild n) 0 h) (\<lambda>(k, h'). Inr (wrap32 (int k), h'))))"

fun item_loop :: "nat \<Rightarrow> ptr \<Rightarrow> ptr hp" where
  "item_loop index None = hret None"
| "item_loop 0 (Some a) = hret (Some a)"
| "item_loop (Suc index) (Some a) = hbind (deref (Some a)) (\<lambda>n. item_loop index (nnext n))"

definition get_array_item :: "ptr \<Rightarrow> nat \<Rightarrow> ptr hp" where
  "get_array_item arr index =
     (if arr = None then hret None else hbind (deref arr) (\<lambda>n. item_loop index (nchild n)))"

definition cJSON_GetArrayItem :: "ptr \<Rightarrow> int \<Rightarrow> ptr hp" where
  "cJSON_GetArrayItem arr index = (if index < 0 then hret None else get_array_item arr (nat index))"

definition name_matches :: "bool \<Rightarrow> string \<Rightarrow> string option \<Rightarrow> bool" where
  "name_matches case_sensitive name s =
     (if case_sensitive then (case s of None \<Rightarrow> True | Some t \<Rightarrow> cstr name = cstr t)
      else case_insensitive_equal (Some name) s)"

text \<open>With \<open>case_sensitive\<close> the loop also stops at an item without a name.\<close>

fun object_loop :: "nat \<Rightarrow> bool \<Rightarrow> string \<Rightarrow> ptr \<Rightarrow> ptr hp" where
  "object_loop fuel cs name None = hret None"
| "object_loop 0 cs name (Some a) = hfail Diverges"
| "object_loop (Suc fuel) cs name (Some a) =
     hbind (deref (Some a)) (\<lambda>n.
       if name_matches cs name (nstring n) then hret (if nstring n = None then None else Some a)
       else object_loop fuel cs name (nnext n))"

definition get_object_item_ptr :: "ptr \<Rightarrow> string option \<Rightarrow> bool \<Rightarrow> ptr hp" where
  "get_object_item_ptr obj name cs =
     (case (obj, name) of
        (Some a, Some nm) \<Rightarrow> hbind (deref obj) (\<lambda>n h. object_loop (Suc (top h)) cs nm (nchild n) h)
      | _ \<Rightarrow> hret None)"

section \<open>Adding\<close>

definition suffix_object :: "ptr \<Rightarrow> ptr \<Rightarrow> unit hp" where
  "suffix_object p item = hthen (set_next p item) (set_prev item p)"

definition create_reference :: "ptr \<Rightarrow> ptr hp" where
  "create_reference item =
     (if item = None then hret None
      else hbind new_item (\<lambda>r.
        if r = None then hret None
        else hbind (deref item) (\<lambda>n.
          hthen (modify r (\<lambda>_. n\<lparr>nstring := None, ntype := ntype n OR cJSON_IsReference, nnext := None, nprev := None\<rparr>))
            (hret r))))"

definition add_item_to_array :: "ptr \<Rightarrow> ptr \<Rightarrow> bool hp" where
  "add_item_to_array arr item =
     (if item = None \<or> arr = None \<or> arr = item then hret False
      else hbind (deref arr) (\<lambda>an.
        if nchild an = None then
          hthen (set_child arr item) (hthen (set_prev item item) (hthen (set_next item None) (hret True)))
        else hbind (deref (nchild an)) (\<lambda>cn.
          if nprev cn \<noteq> None then
            hthen (suffix_object (nprev cn) item)
              (hbind (deref arr) (\<lambda>an2. hthen (set_prev (nchild an2) item) (hret True)))
          else hret True)))"

definition cJSON_AddItemToArray :: "ptr \<Rightarrow> ptr \<Rightarrow> bool hp" where
  "cJSON_AddItemToArray arr item = add_item_to_array arr item"

definition add_item_to_object :: "ptr \<Rightarrow> string option \<Rightarrow> ptr \<Rightarrow> bool \<Rightarrow> bool hp" where
  "add_item_to_object obj str item constant_key =
     (if obj = None \<or> str = None \<or> item = None \<or> obj = item then hret False
      else hbind (if constant_key then hret str else cJSON_strdup (the str)) (\<lambda>new_key.
        if new_key = None then hret False
        else hthen (modify item (\<lambda>n. n\<lparr>nstring := new_key,
                 ntype := (if constant_key then ntype n OR cJSON_StringIsConst else ntype n AND NOT cJSON_StringIsConst)\<rparr>))
               (add_item_to_array obj item)))"

definition cJSON_AddItemToObject :: "ptr \<Rightarrow> string option \<Rightarrow> ptr \<Rightarrow> bool hp" where
  "cJSON_AddItemToObject obj str item = add_item_to_object obj str item False"

definition cJSON_AddItemToObjectCS :: "ptr \<Rightarrow> string option \<Rightarrow> ptr \<Rightarrow> bool hp" where
  "cJSON_AddItemToObjectCS obj str item = add_item_to_object obj str item True"

definition cJSON_AddItemReferenceToArray :: "ptr \<Rightarrow> ptr \<Rightarrow> bool hp" where
  "cJSON_AddItemReferenceToArray arr item =
     (if arr = None then hret False else hbind (create_reference item) (\<lambda>r. add_item_to_array arr r))"

definition cJSON_AddItemReferenceToObject :: "ptr \<Rightarrow> string option \<Rightarrow> ptr \<Rightarrow> bool hp" where
  "cJSON_AddItemReferenceToObject obj str item =
     (if obj = None \<or> str = None then hret False
      else hbind (create_reference item) (\<lambda>r. add_item_to_object obj str r False))"

section \<open>Creating items\<close>

definition create_with :: "(node \<Rightarrow> node) \<Rightarrow> ptr hp" where
  "create_with f = hbind new_item (\<lambda>p. if p = None then hret None else hthen (modify p f) (hret p))"

definition create_typed :: "int \<Rightarrow> ptr hp" where
  "create_typed t = create_with (\<lambda>n. n\<lparr>ntype := t\<rparr>)"

definition cJSON_CreateNull :: "ptr hp" where "cJSON_CreateNull = create_typed cJSON_NULL"
definition cJSON_CreateTrue :: "ptr hp" where "cJSON_CreateTrue = create_typed cJSON_True"
definition cJSON_CreateFalse :: "ptr hp" where "cJSON_CreateFalse = create_typed cJSON_False"
definition cJSON_CreateBool :: "bool \<Rightarrow> ptr hp" where
  "cJSON_CreateBool b = create_typed (if b then cJSON_True else cJSON_False)"
definition cJSON_CreateArray :: "ptr hp" where "cJSON_CreateArray = create_typed cJSON_Array"
definition cJSON_CreateObject :: "ptr hp" where "cJSON_CreateObject = create_typed cJSON_Object"

definition cJSON_CreateNumber :: "fl \<Rightarrow> ptr hp" where
  "cJSON_CreateNumber num = hbind new_item (\<lambda>p. if p = None then hret None
     else (\<lambda>h. cbind (saturate_int num) (\<lambda>vi.
       hthen (modify p (\<lambda>n. n\<lparr>ntype := cJSON_Number, nvaluedouble := num, nvalueint := vi\<rparr>)) (hret p) h)))"

text \<open>\<open>cJSON_CreateString\<close> and \<open>cJSON_CreateRaw\<close> differ in the type only.\<close>

definition create_string :: "int \<Rightarrow> string \<Rightarrow> ptr hp" where
  "create_string t s = hbind new_item (\<lambda>p. if p = None then hret None
     else hbind (cJSON_strdup s) (\<lambda>v.
       hthen (modify p (\<lambda>n. n\<lparr>ntype := t, nvaluestring := v\<rparr>))
         (if v = None then hthen (cJSON_Delete p) (hret None) else hret p)))"

definition cJSON_CreateString :: "string \<Rightarrow> ptr hp" where "cJSON_CreateString s = create_string cJSON_String s"
definition cJSON_CreateRaw :: "string \<Rightarrow> ptr hp" where "cJSON_CreateRaw s = create_string cJSON_Raw s"

definition cJSON_CreateStringReference :: "string \<Rightarrow> ptr hp" where
  "cJSON_CreateStringReference s =
     create_with (\<lambda>n. n\<lparr>ntype := cJSON_String OR cJSON_IsReference, nvaluestring := Some s\<rparr>)"
definition cJSON_CreateObjectReference :: "ptr \<Rightarrow> ptr hp" where
  "cJSON_CreateObjectReference c = create_with (\<lambda>n. n\<lparr>ntype := cJSON_Object OR cJSON_IsReference, nchild := c\<rparr>)"
definition cJSON_CreateArrayReference :: "ptr \<Rightarrow> ptr hp" where
  "cJSON_CreateArrayReference c = create_with (\<lambda>n. n\<lparr>ntype := cJSON_Array OR cJSON_IsReference, nchild := c\<rparr>)"

text \<open>The nine \<open>cJSON_Add...ToObject\<close>: create, add, delete again if that fails.\<close>

definition add_created :: "ptr hp \<Rightarrow> ptr \<Rightarrow> string option \<Rightarrow> ptr hp" where
  "add_created create obj name =
     hbind create (\<lambda>item. hbind (add_item_to_object obj name item False) (\<lambda>ok.
       if ok then hret item else hthen (cJSON_Delete item) (hret None)))"

definition cJSON_AddNullToObject where "cJSON_AddNullToObject = add_created cJSON_CreateNull"
definition cJSON_AddTrueToObject where "cJSON_AddTrueToObject = add_created cJSON_CreateTrue"
definition cJSON_AddFalseToObject where "cJSON_AddFalseToObject = add_created cJSON_CreateFalse"
definition cJSON_AddBoolToObject where "cJSON_AddBoolToObject obj name b = add_created (cJSON_CreateBool b) obj name"
definition cJSON_AddNumberToObject where "cJSON_AddNumberToObject obj name x = add_created (cJSON_CreateNumber x) obj name"
definition cJSON_AddStringToObject where "cJSON_AddStringToObject obj name s = add_created (cJSON_CreateString s) obj name"
definition cJSON_AddRawToObject where "cJSON_AddRawToObject obj name s = add_created (cJSON_CreateRaw s) obj name"
definition cJSON_AddObjectToObject where "cJSON_AddObjectToObject = add_created cJSON_CreateObject"
definition cJSON_AddArrayToObject where "cJSON_AddArrayToObject = add_created cJSON_CreateArray"

text \<open>The loop of the four \<open>cJSON_Create...Array\<close>; \<open>n\<close> is the last item made.\<close>

fun create_array_loop :: "ptr \<Rightarrow> ptr hp list \<Rightarrow> ptr \<Rightarrow> (bool \<times> ptr) hp" where
  "create_array_loop a [] n = hret (True, n)"
| "create_array_loop a (mk # mks) p =
     hbind mk (\<lambda>n.
       if n = None then hthen (cJSON_Delete a) (hret (False, None))
       else hthen (if p = None then set_child a n else suffix_object p n) (create_array_loop a mks n))"

definition create_array_of :: "int \<Rightarrow> ptr hp list option \<Rightarrow> ptr hp" where
  "create_array_of count numbers =
     (if count < 0 \<or> numbers = None then hret None
      else hbind cJSON_CreateArray (\<lambda>a.
        if a = None then hret None
        else hbind (create_array_loop a (take (nat count) (the numbers)
               @ (if length (the numbers) < nat count then [hfail OutOfBounds] else [])) None) (\<lambda>(ok, n).
          if \<not> ok then hret None
          else hbind (deref a) (\<lambda>an.
            hthen (if nchild an \<noteq> None then set_prev (nchild an) n else hret ()) (hret a)))))"

definition cJSON_CreateIntArray :: "int list option \<Rightarrow> int \<Rightarrow> ptr hp" where
  "cJSON_CreateIntArray numbers count =
     create_array_of count (map_option (map (\<lambda>i. cJSON_CreateNumber (fl_of_int Double i))) numbers)"
definition cJSON_CreateFloatArray :: "fl list option \<Rightarrow> int \<Rightarrow> ptr hp" where
  "cJSON_CreateFloatArray numbers count = create_array_of count (map_option (map cJSON_CreateNumber) numbers)"
definition cJSON_CreateDoubleArray :: "fl list option \<Rightarrow> int \<Rightarrow> ptr hp" where
  "cJSON_CreateDoubleArray numbers count = create_array_of count (map_option (map cJSON_CreateNumber) numbers)"
definition cJSON_CreateStringArray :: "string list option \<Rightarrow> int \<Rightarrow> ptr hp" where
  "cJSON_CreateStringArray strings count = create_array_of count (map_option (map cJSON_CreateString) strings)"

section \<open>Detaching, inserting, replacing\<close>

definition cJSON_DetachItemViaPointer :: "ptr \<Rightarrow> ptr \<Rightarrow> ptr hp" where
  "cJSON_DetachItemViaPointer parent item =
     (if parent = None \<or> item = None then hret None
      else hbind (deref parent) (\<lambda>pn. hbind (deref item) (\<lambda>n.
        hthen (if item \<noteq> nchild pn then set_next (nprev n) (nnext n) else hret ())
        (hthen (if nnext n \<noteq> None then set_prev (nnext n) (nprev n) else hret ())
        (hthen (if item = nchild pn then set_child parent (nnext n)
                else if nnext n = None then set_prev (nchild pn) (nprev n) else hret ())
        (hthen (set_prev item None) (hthen (set_next item None) (hret item))))))))"

definition cJSON_DetachItemFromArray :: "ptr \<Rightarrow> int \<Rightarrow> ptr hp" where
  "cJSON_DetachItemFromArray arr which =
     (if which < 0 then hret None
      else hbind (get_array_item arr (nat which)) (\<lambda>item. cJSON_DetachItemViaPointer arr item))"

definition cJSON_DeleteItemFromArray :: "ptr \<Rightarrow> int \<Rightarrow> unit hp" where
  "cJSON_DeleteItemFromArray arr which = hbind (cJSON_DetachItemFromArray arr which) cJSON_Delete"

definition detach_from_object :: "bool \<Rightarrow> ptr \<Rightarrow> string option \<Rightarrow> ptr hp" where
  "detach_from_object cs obj str =
     hbind (get_object_item_ptr obj str cs) (\<lambda>item. cJSON_DetachItemViaPointer obj item)"

definition cJSON_DetachItemFromObject where "cJSON_DetachItemFromObject = detach_from_object False"
definition cJSON_DetachItemFromObjectCaseSensitive where
  "cJSON_DetachItemFromObjectCaseSensitive = detach_from_object True"
definition cJSON_DeleteItemFromObject where
  "cJSON_DeleteItemFromObject obj str = hbind (cJSON_DetachItemFromObject obj str) cJSON_Delete"
definition cJSON_DeleteItemFromObjectCaseSensitive where
  "cJSON_DeleteItemFromObjectCaseSensitive obj str = hbind (cJSON_DetachItemFromObjectCaseSensitive obj str) cJSON_Delete"

definition cJSON_InsertItemInArray :: "ptr \<Rightarrow> int \<Rightarrow> ptr \<Rightarrow> bool hp" where
  "cJSON_InsertItemInArray arr which newitem =
     (if which < 0 then hret False
      else hbind (get_array_item arr (nat which)) (\<lambda>after.
        if after = None then add_item_to_array arr newitem
        else hthen (set_next newitem after)
          (hbind (deref after) (\<lambda>an.
            hthen (set_prev newitem (nprev an))
            (hthen (set_prev after newitem)
            (hbind (deref arr) (\<lambda>pn.
              hthen (if after = nchild pn then set_child arr newitem
                     else hbind (deref newitem) (\<lambda>nn. set_next (nprev nn) newitem))
                (hret True))))))))"

definition cJSON_ReplaceItemViaPointer :: "ptr \<Rightarrow> ptr \<Rightarrow> ptr \<Rightarrow> bool hp" where
  "cJSON_ReplaceItemViaPointer parent item replacement =
     (if parent = None \<or> replacement = None \<or> item = None then hret False
      else if replacement = item then hret True
      else hbind (deref item) (\<lambda>n.
        hthen (set_next replacement (nnext n))
        (hthen (set_prev replacement (nprev n))
        (hthen (if nnext n \<noteq> None then set_prev (nnext n) replacement else hret ())
        (hbind (deref parent) (\<lambda>pn. hbind (deref replacement) (\<lambda>rn.
          hthen
            (if nchild pn = item then
               hbind (deref (nchild pn)) (\<lambda>cn.
                 hthen (if nprev cn = nchild pn then set_prev replacement replacement else hret ())
                   (set_child parent replacement))
             else
               hthen (if nprev rn \<noteq> None then set_next (nprev rn) replacement else hret ())
                 (hbind (deref replacement) (\<lambda>rn2.
                    if nnext rn2 = None then set_prev (nchild pn) replacement else hret ())))
            (hthen (set_next item None) (hthen (set_prev item None) (hthen (cJSON_Delete item) (hret True)))))))))))"

definition cJSON_ReplaceItemInArray :: "ptr \<Rightarrow> int \<Rightarrow> ptr \<Rightarrow> bool hp" where
  "cJSON_ReplaceItemInArray arr which newitem =
     (if which < 0 then hret False
      else hbind (get_array_item arr (nat which)) (\<lambda>item. cJSON_ReplaceItemViaPointer arr item newitem))"

definition replace_item_in_object :: "ptr \<Rightarrow> string option \<Rightarrow> ptr \<Rightarrow> bool \<Rightarrow> bool hp" where
  "replace_item_in_object obj str replacement cs =
     (if replacement = None \<or> str = None then hret False
      else hbind (cJSON_strdup (the str)) (\<lambda>key.
        hthen (modify replacement (\<lambda>n. n\<lparr>nstring := key, ntype := ntype n AND NOT cJSON_StringIsConst\<rparr>))
          (hbind (get_object_item_ptr obj str cs) (\<lambda>item. cJSON_ReplaceItemViaPointer obj item replacement))))"

definition cJSON_ReplaceItemInObject where
  "cJSON_ReplaceItemInObject obj str newitem = replace_item_in_object obj str newitem False"
definition cJSON_ReplaceItemInObjectCaseSensitive where
  "cJSON_ReplaceItemInObjectCaseSensitive obj str newitem = replace_item_in_object obj str newitem True"

section \<open>Setting values\<close>

definition cJSON_SetNumberHelper :: "ptr \<Rightarrow> fl \<Rightarrow> fl hp" where
  "cJSON_SetNumberHelper obj number h =
     cbind (saturate_int number) (\<lambda>vi.
       hthen (modify obj (\<lambda>n. n\<lparr>nvalueint := vi, nvaluedouble := number\<rparr>)) (hret number) h)"

definition cJSON_SetValuestring :: "ptr \<Rightarrow> string \<Rightarrow> string option hp" where
  "cJSON_SetValuestring obj s =
     hbind (deref obj) (\<lambda>n.
       if \<not> has_flag (ntype n) cJSON_String \<or> has_flag (ntype n) cJSON_IsReference then hret None
       else case nvaluestring n of
         None \<Rightarrow> hfail NullDereference
       | Some old \<Rightarrow>
           if length (cstr s) \<le> length (cstr old) then
             hthen (modify obj (\<lambda>n. n\<lparr>nvaluestring := Some (cstr s)\<rparr>)) (hret (Some (cstr s)))
           else hbind (cJSON_strdup s) (\<lambda>copy.
             if copy = None then hret None
             else hthen (modify obj (\<lambda>n. n\<lparr>nvaluestring := copy\<rparr>)) (hret copy)))"

section \<open>Duplicating and comparing\<close>

text \<open>\<open>fuel\<close> bounds the depth of the recursion and the length of the chains together.\<close>

fun duplicate :: "nat \<Rightarrow> ptr \<Rightarrow> bool \<Rightarrow> ptr hp"
  and duplicate_children :: "nat \<Rightarrow> ptr \<Rightarrow> ptr \<Rightarrow> ptr \<Rightarrow> (bool \<times> ptr) hp"
where
  "duplicate fuel None recurse = hret None"
| "duplicate 0 (Some a) recurse = hfail Diverges"
| "duplicate (Suc fuel) (Some a) recurse =
     hbind new_item (\<lambda>newitem.
       if newitem = None then hret None
       else hbind (deref (Some a)) (\<lambda>n.
         hbind (case nvaluestring n of None \<Rightarrow> hret (Some None)
                | Some s \<Rightarrow> hbind (cJSON_strdup s) (\<lambda>v. hret (if v = None then None else Some v))) (\<lambda>vs.
         hbind (if vs = None then hret None
                else case nstring n of None \<Rightarrow> hret (Some None)
                | Some s \<Rightarrow> if has_flag (ntype n) cJSON_StringIsConst then hret (Some (Some s))
                           else hbind (cJSON_strdup s) (\<lambda>v. hret (if v = None then None else Some v))) (\<lambda>nm.
         hthen (modify newitem (\<lambda>x. x\<lparr>ntype := ntype n AND NOT cJSON_IsReference, nvalueint := nvalueint n,
                  nvaluedouble := nvaluedouble n, nvaluestring := (case vs of Some v \<Rightarrow> v | None \<Rightarrow> None),
                  nstring := (case nm of Some v \<Rightarrow> v | None \<Rightarrow> None)\<rparr>))
           (if vs = None \<or> nm = None then hthen (cJSON_Delete newitem) (hret None)
            else if \<not> recurse then hret newitem
            else hbind (duplicate_children fuel newitem (nchild n) None) (\<lambda>(ok, newchild).
              if \<not> ok then hthen (cJSON_Delete newitem) (hret None)
              else hbind (deref newitem) (\<lambda>x.
                hthen (if nchild x \<noteq> None then set_prev (nchild x) newchild else hret ()) (hret newitem))))))))"
| "duplicate_children fuel newitem None nxt = hret (True, nxt)"
| "duplicate_children 0 newitem (Some c) nxt = hfail Diverges"
| "duplicate_children (Suc fuel) newitem (Some c) nxt =
     hbind (duplicate fuel (Some c) True) (\<lambda>newchild.
       if newchild = None then hret (False, None)
       else hthen (if nxt \<noteq> None then hthen (set_next nxt newchild) (set_prev newchild nxt)
                   else set_child newitem newchild)
         (hbind (deref (Some c)) (\<lambda>cn. duplicate_children fuel newitem (nnext cn) newchild)))"

definition cJSON_Duplicate :: "ptr \<Rightarrow> bool \<Rightarrow> ptr hp" where
  "cJSON_Duplicate item recurse h = duplicate (2 * top h + 2) item recurse h"

definition valid_type :: "int \<Rightarrow> bool" where
  "valid_type t = (t \<in> {cJSON_False, cJSON_True, cJSON_NULL, cJSON_Number, cJSON_String, cJSON_Raw,
     cJSON_Array, cJSON_Object})"

fun compare_items :: "nat \<Rightarrow> bool \<Rightarrow> ptr \<Rightarrow> ptr \<Rightarrow> bool hp"
  and compare_elements :: "nat \<Rightarrow> bool \<Rightarrow> ptr \<Rightarrow> ptr \<Rightarrow> bool hp"
  and compare_members :: "nat \<Rightarrow> bool \<Rightarrow> ptr \<Rightarrow> ptr \<Rightarrow> bool hp"
where
  "compare_items fuel cs None b = hret False"
| "compare_items fuel cs (Some a) None = hret False"
| "compare_items 0 cs (Some a) (Some b) = hfail Diverges"
| "compare_items (Suc fuel) cs (Some a) (Some b) =
     hbind (deref (Some a)) (\<lambda>an. hbind (deref (Some b)) (\<lambda>bn.
       let t = ntype an AND 0xFF
       in if t \<noteq> ntype bn AND 0xFF \<or> \<not> valid_type t then hret False
          else if a = b then hret True
          else if t = cJSON_Number then hret (compare_double (nvaluedouble an) (nvaluedouble bn))
          else if t = cJSON_String \<or> t = cJSON_Raw then
            hret (case (nvaluestring an, nvaluestring bn) of (Some x, Some y) \<Rightarrow> cstr x = cstr y | _ \<Rightarrow> False)
          else if t = cJSON_Array then compare_elements fuel cs (nchild an) (nchild bn)
          else if t = cJSON_Object then
            hbind (compare_members fuel cs (nchild an) (Some b)) (\<lambda>ok.
              if \<not> ok then hret False else compare_members fuel cs (nchild bn) (Some a))
          else hret True))"
| "compare_elements fuel cs None b = hret (b = None)"
| "compare_elements fuel cs (Some a) None = hret False"
| "compare_elements 0 cs (Some a) (Some b) = hfail Diverges"
| "compare_elements (Suc fuel) cs (Some a) (Some b) =
     hbind (compare_items fuel cs (Some a) (Some b)) (\<lambda>ok.
       if \<not> ok then hret False
       else hbind (deref (Some a)) (\<lambda>an. hbind (deref (Some b)) (\<lambda>bn.
         compare_elements fuel cs (nnext an) (nnext bn))))"
| "compare_members fuel cs None other = hret True"
| "compare_members 0 cs (Some x) other = hfail Diverges"
| "compare_members (Suc fuel) cs (Some x) other =
     hbind (deref (Some x)) (\<lambda>xn. hbind (get_object_item_ptr other (nstring xn) cs) (\<lambda>y.
       if y = None then hret False
       else hbind (compare_items fuel cs (Some x) y) (\<lambda>ok.
         if \<not> ok then hret False else compare_members fuel cs (nnext xn) other)))"

definition cJSON_Compare :: "ptr \<Rightarrow> ptr \<Rightarrow> bool \<Rightarrow> bool hp" where
  "cJSON_Compare a b case_sensitive h = compare_items (2 * top h + 2) case_sensitive a b h"

end
