(* ===== verification/CJsonChain.thy ===== *)
theory CJsonChain
  imports CJsonStore "HOL-Library.Tree"
begin

text \<open>
  The chains of children that \<open>cjson/cJSON.c\<close> keeps. \<open>kids h a xs\<close> says that the children of
  \<open>a\<close> are the cells \<open>xs\<close>, linked in both directions, the first one pointing back to the last.
  Under this representation insertion, detachment and replacement are the list operations, and
  deletion frees exactly the tree it is given.
\<close>

section \<open>Chains of children\<close>

text \<open>The three links of a cell, and updates of them on allocated cells.\<close>

definition alive :: "heap \<Rightarrow> nat \<Rightarrow> bool" where "alive h a = (cells h a \<noteq> None)"
definition nx :: "heap \<Rightarrow> nat \<Rightarrow> ptr" where "nx h a = (case cells h a of Some n \<Rightarrow> nnext n | None \<Rightarrow> None)"
definition pv :: "heap \<Rightarrow> nat \<Rightarrow> ptr" where "pv h a = (case cells h a of Some n \<Rightarrow> nprev n | None \<Rightarrow> None)"
definition ch :: "heap \<Rightarrow> nat \<Rightarrow> ptr" where "ch h a = (case cells h a of Some n \<Rightarrow> nchild n | None \<Rightarrow> None)"

definition upd :: "nat \<Rightarrow> (node \<Rightarrow> node) \<Rightarrow> heap \<Rightarrow> heap" where
  "upd a f h = h\<lparr>cells := (cells h)(a := map_option f (cells h a))\<rparr>"

abbreviation "upd_next a v \<equiv> upd a (\<lambda>n. n\<lparr>nnext := v\<rparr>)"
abbreviation "upd_prev a v \<equiv> upd a (\<lambda>n. n\<lparr>nprev := v\<rparr>)"
abbreviation "upd_child a v \<equiv> upd a (\<lambda>n. n\<lparr>nchild := v\<rparr>)"

lemma upd_links [simp]:
  "nx (upd_next a v h) b = (if b = a \<and> alive h a then v else nx h b)"
  "pv (upd_next a v h) b = pv h b" "ch (upd_next a v h) b = ch h b"
  "pv (upd_prev a v h) b = (if b = a \<and> alive h a then v else pv h b)"
  "nx (upd_prev a v h) b = nx h b" "ch (upd_prev a v h) b = ch h b"
  "ch (upd_child a v h) b = (if b = a \<and> alive h a then v else ch h b)"
  "nx (upd_child a v h) b = nx h b" "pv (upd_child a v h) b = pv h b"
  "alive (upd a f h) b = alive h b" "top (upd a f h) = top h"
  by (auto simp: upd_def nx_def pv_def ch_def alive_def split: option.splits)

lemma run_modify [simp]: "alive h a \<Longrightarrow> modify (Some a) f h = Inr ((), upd a f h)"
  by (auto simp: modify_def upd_def alive_def split: option.splits)

lemma run_set [simp]:
  "alive h a \<Longrightarrow> set_next (Some a) v h = Inr ((), upd_next a v h)"
  "alive h a \<Longrightarrow> set_prev (Some a) v h = Inr ((), upd_prev a v h)"
  "alive h a \<Longrightarrow> set_child (Some a) v h = Inr ((), upd_child a v h)"
  by (simp_all add: set_next_def set_prev_def set_child_def)

lemma run_hbind [simp]: "m h = Inr (x, h') \<Longrightarrow> hbind m f h = f x h'"
  by (simp add: hbind_def)

lemma run_hthen [simp]: "m h = Inr ((), h') \<Longrightarrow> hthen m k h = k h'"
  by (simp add: hthen_def)

lemma run_hret [simp]: "hret x h = Inr (x, h)"
  by (simp add: hret_def)

lemma run_deref:
  assumes "alive h a"
  obtains n where "deref (Some a) h = Inr (n, h)" "nnext n = nx h a" "nprev n = pv h a" "nchild n = ch h a"
  using assms by (auto simp: alive_def deref_def nx_def pv_def ch_def split: option.splits)

text \<open>
  The representation: neighbours point at each other, the last cell ends the chain and the
  first one points back to the last.
\<close>

definition hdp :: "nat list \<Rightarrow> ptr" where "hdp xs = (if xs = [] then None else Some (hd xs))"

lemma hdp_simps [simp]: "hdp [] = None" "hdp (x # xs) = Some x"
  by (simp_all add: hdp_def)

fun seg :: "heap \<Rightarrow> nat list \<Rightarrow> bool" where
  "seg h (x # y # r) = (nx h x = Some y \<and> pv h y = Some x \<and> seg h (y # r))"
| "seg h xs = True"

definition links :: "heap \<Rightarrow> nat list \<Rightarrow> bool" where
  "links h xs = (distinct xs \<and> (\<forall>x \<in> set xs. alive h x) \<and> seg h xs
     \<and> (xs \<noteq> [] \<longrightarrow> nx h (last xs) = None \<and> pv h (hd xs) = Some (last xs)))"

definition kids :: "heap \<Rightarrow> nat \<Rightarrow> nat list \<Rightarrow> bool" where
  "kids h a xs = (alive h a \<and> a \<notin> set xs \<and> ch h a = hdp xs \<and> links h xs)"

lemma seg_append:
  "seg h (ys @ zs) \<longleftrightarrow> seg h ys \<and> seg h zs
     \<and> (ys \<noteq> [] \<and> zs \<noteq> [] \<longrightarrow> nx h (last ys) = Some (hd zs) \<and> pv h (hd zs) = Some (last ys))"
proof (induction ys)
  case (Cons y ys)
  then show ?case by (cases ys; cases zs) auto
qed simp

lemma seg_Cons: "seg h (y # zs) \<longleftrightarrow> seg h zs \<and> (zs \<noteq> [] \<longrightarrow> nx h y = Some (hd zs) \<and> pv h (hd zs) = Some y)"
  by (cases zs) auto

lemma butlast_not_last: "distinct xs \<Longrightarrow> x \<in> set (butlast xs) \<Longrightarrow> x \<noteq> last xs"
  by (metis append_butlast_last_id distinct_append disjoint_iff butlast.simps(1) empty_iff list.set(1) list.set_intros(1))

lemma tl_not_hd: "distinct xs \<Longrightarrow> x \<in> set (tl xs) \<Longrightarrow> x \<noteq> hd xs"
  by (cases xs) auto

lemma disjointI_ends:
  assumes "set ys \<inter> set zs = {}"
  shows "ys \<noteq> [] \<Longrightarrow> last ys \<notin> set zs" "ys \<noteq> [] \<Longrightarrow> hd ys \<notin> set zs" "zs \<noteq> [] \<Longrightarrow> hd zs \<notin> set ys"
  using assms last_in_set hd_in_set by blast+

lemma seg_frame:
  assumes "\<forall>b \<in> set (butlast xs). nx h' b = nx h b" "\<forall>b \<in> set (tl xs). pv h' b = pv h b"
  shows "seg h' xs = seg h xs"
  using assms
proof (induction xs)
  case (Cons x xs)
  then show ?case by (cases xs; cases "tl xs") auto
qed simp

text \<open>What a forward walk of the chain needs.\<close>

fun chain :: "heap \<Rightarrow> nat list \<Rightarrow> bool" where
  "chain h [] = True"
| "chain h (x # xs) = (alive h x \<and> nx h x = hdp xs \<and> chain h xs)"

lemma seg_chain: "seg h xs \<Longrightarrow> \<forall>x \<in> set xs. alive h x \<Longrightarrow> xs \<noteq> [] \<longrightarrow> nx h (last xs) = None \<Longrightarrow> chain h xs"
proof (induction xs)
  case (Cons x xs)
  then show ?case by (cases xs) auto
qed simp

lemma kids_chain: "kids h a xs \<Longrightarrow> chain h xs"
  by (auto simp: kids_def links_def intro: seg_chain)

lemma item_loop_nth: "chain h xs \<Longrightarrow> item_loop i (hdp xs) h = Inr (if i < length xs then Some (xs ! i) else None, h)"
proof (induction i arbitrary: xs)
  case 0
  then show ?case by (cases xs) auto
next
  case (Suc i)
  show ?case
  proof (cases xs)
    case (Cons x r)
    with Suc.prems have "alive h x" "nx h x = hdp r" "chain h r" by auto
    from run_deref[OF this(1)] obtain n where "deref (Some x) h = Inr (n, h)" "nnext n = nx h x" by metis
    then show ?thesis using Cons Suc.IH[of r] \<open>nx h x = hdp r\<close> \<open>chain h r\<close> by simp
  qed simp
qed

lemma size_loop_length: "chain h xs \<Longrightarrow> length xs \<le> fuel \<Longrightarrow> size_loop fuel (hdp xs) k h = Inr (k + length xs, h)"
proof (induction xs arbitrary: k fuel)
  case (Cons x r)
  then obtain f where f: "fuel = Suc f" by (cases fuel) auto
  from Cons.prems have al: "alive h x" "nx h x = hdp r" "chain h r" by auto
  from run_deref[OF this(1)] obtain n where "deref (Some x) h = Inr (n, h)" "nnext n = nx h x" by metis
  then show ?case using f Cons.IH[of f "k + 1"] al Cons.prems by simp
qed simp

lemma kids_child:
  assumes "kids h a xs"
  obtains n where "deref (Some a) h = Inr (n, h)" "nchild n = hdp xs"
  using run_deref[of h a] assms unfolding kids_def by metis

lemma get_array_item_nth:
  assumes "kids h a xs"
  shows "get_array_item (Some a) i h = Inr (if i < length xs then Some (xs ! i) else None, h)"
proof -
  from kids_child[OF assms] obtain n where "deref (Some a) h = Inr (n, h)" "nchild n = hdp xs" .
  then show ?thesis using item_loop_nth[OF kids_chain[OF assms], of i] by (simp add: get_array_item_def)
qed

text \<open>A cell that can be added to the children of \<open>a\<close>.\<close>

definition loose :: "heap \<Rightarrow> nat \<Rightarrow> nat list \<Rightarrow> nat \<Rightarrow> bool" where
  "loose h a xs x = (alive h x \<and> x \<noteq> a \<and> x \<notin> set xs \<and> nx h x = None)"

lemma add_item_kids:
  assumes k: "kids h a xs" and x: "loose h a xs x"
  shows "\<exists>h'. add_item_to_array (Some a) (Some x) h = Inr (True, h') \<and> kids h' a (xs @ [x])"
proof (cases "xs = []")
  case True
  have x': "alive h x" "x \<noteq> a" "alive h a" using x k by (auto simp: loose_def kids_def)
  from kids_child[OF k] obtain n where n: "deref (Some a) h = Inr (n, h)" "nchild n = hdp xs" .
  let ?h = "upd_next x None (upd_prev x (Some x) (upd_child a (Some x) h))"
  have "add_item_to_array (Some a) (Some x) h = Inr (True, ?h)"
    using True n x' by (simp add: add_item_to_array_def)
  then show ?thesis using True x' by (intro exI[of _ ?h]) (simp add: kids_def links_def)
next
  case False
  let ?l = "last xs" and ?c = "hd xs"
  have x': "alive h x" "x \<noteq> a" "x \<notin> set xs" and nx: "nx h x = None" using x by (auto simp: loose_def)
  have al: "alive h a" "alive h ?c" "alive h ?l" "?c \<in> set xs" "?l \<in> set xs" "a \<notin> set xs"
      "pv h ?c = Some ?l" "hdp xs = Some ?c" "distinct xs" "seg h xs"
    using k False by (auto simp: kids_def links_def hdp_def)
  have ne: "x \<noteq> ?l" "x \<noteq> ?c" "?l \<noteq> a" "?c \<noteq> a" using x' al by auto
  from kids_child[OF k] obtain n where n: "deref (Some a) h = Inr (n, h)" "nchild n = Some ?c" using al by auto
  from run_deref[OF al(2)] obtain cn where cn: "deref (Some ?c) h = Inr (cn, h)" "nprev cn = Some ?l" using al by metis
  let ?h1 = "upd_prev x (Some ?l) (upd_next ?l (Some x) h)"
  have "alive ?h1 a" using al by simp
  from run_deref[OF this] obtain n2 where n2: "deref (Some a) ?h1 = Inr (n2, ?h1)" "nchild n2 = ch ?h1 a" by metis
  have ch: "ch ?h1 a = Some ?c" using k al by (simp add: kids_def)
  let ?h = "upd_prev ?c (Some x) ?h1"
  have run: "add_item_to_array (Some a) (Some x) h = Inr (True, ?h)"
    using n cn n2 x' al ch by (simp add: add_item_to_array_def suffix_object_def)
  have "seg ?h xs = seg h xs"
  proof (rule seg_frame)
    show "\<forall>b \<in> set (butlast xs). nx ?h b = nx h b"
      using butlast_not_last[OF al(9)] by auto
    show "\<forall>b \<in> set (tl xs). pv ?h b = pv h b"
      using tl_not_hd[OF al(9)] x'(3) by (auto dest: in_set_tlD)
  qed
  then have "links ?h (xs @ [x])"
    using False al x' ne nx k by (simp add: links_def seg_append kids_def)
  then have "kids ?h a (xs @ [x])" using al x' False ch by (simp add: kids_def hdp_def)
  then show ?thesis using run by blast
qed


lemma kids_cells:
  assumes "kids h a xs" "x \<in> set xs"
  shows "alive h x" "x \<noteq> a"
  using assms by (auto simp: kids_def links_def)

lemma kids_split_next:
  assumes "kids h a (ys @ x # zs)"
  shows "nx h x = hdp zs" "pv h x = Some (if ys = [] then last (x # zs) else last ys)"
proof -
  have s: "seg h (ys @ x # zs)" and l: "nx h (last (x # zs)) = None"
    and p: "pv h (hd (ys @ x # zs)) = Some (last (x # zs))"
    using assms by (auto simp: kids_def links_def)
  show "nx h x = hdp zs" using s l by (cases zs) (auto simp: seg_append)
  show "pv h x = Some (if ys = [] then last (x # zs) else last ys)"
    using s p by (cases "ys = []") (auto simp: seg_append)
qed

lemma insert_item_kids:
  assumes k: "kids h a (ys @ z # zs)" and x: "loose h a (ys @ z # zs) x"
  shows "\<exists>h'. cJSON_InsertItemInArray (Some a) (int (length ys)) (Some x) h = Inr (True, h')
     \<and> kids h' a (ys @ x # z # zs)"
proof -
  have x': "alive h x" "x \<noteq> a" "x \<notin> set ys" "x \<noteq> z" "x \<notin> set zs" using x by (auto simp: loose_def)
  have az: "alive h a" "alive h z" "z \<noteq> a" "a \<notin> set ys" "a \<notin> set zs"
    and d: "distinct ys" "distinct zs" "z \<notin> set ys" "z \<notin> set zs" "set ys \<inter> set zs = {}"
    and s: "seg h ys" "seg h (z # zs)" and al: "\<forall>b \<in> set (ys @ z # zs). alive h b"
    using k by (auto simp: kids_def links_def seg_append)
  note nxt = kids_split_next[OF k]
  let ?p = "if ys = [] then last (z # zs) else last ys"
  let ?h1 = "upd_next x (Some z) h"
  let ?h2 = "upd_prev z (Some x) (upd_prev x (Some ?p) ?h1)"
  let ?h3 = "if ys = [] then upd_child a (Some x) ?h2 else upd_next (last ys) (Some x) ?h2"
  have g: "get_array_item (Some a) (length ys) h = Inr (Some z, h)" by (simp add: get_array_item_nth[OF k])
  have "alive ?h1 z" using az by simp
  from run_deref[OF this] obtain zn where zn: "deref (Some z) ?h1 = Inr (zn, ?h1)" "nprev zn = Some ?p"
    using nxt(2) by auto
  have "alive ?h2 a" "alive ?h2 x" using az x' by simp_all
  from run_deref[OF this(1)] run_deref[OF this(2)] obtain an xn where
    an: "deref (Some a) ?h2 = Inr (an, ?h2)" "nchild an = hdp (ys @ z # zs)"
    and xn: "deref (Some x) ?h2 = Inr (xn, ?h2)" "nprev xn = Some ?p"
    using k x' by (simp add: kids_def) metis
  have fst: "hdp (ys @ z # zs) = Some z \<longleftrightarrow> ys = []" using d by (cases ys) auto
  have run: "cJSON_InsertItemInArray (Some a) (int (length ys)) (Some x) h = Inr (True, ?h3)"
    using g zn an xn x' az al fst by (cases "ys = []") (simp_all add: cJSON_InsertItemInArray_def)
  have l: "ys \<noteq> [] \<Longrightarrow> last ys \<in> set ys" "ys \<noteq> [] \<Longrightarrow> last ys \<notin> set zs"
    using disjointI_ends[OF d(5)] by auto
  have "seg ?h3 ys = seg h ys"
    using butlast_not_last[OF d(1)] x' d(3) by (intro seg_frame) (auto dest: in_set_tlD in_set_butlastD)
  moreover have "seg ?h3 (z # zs) = seg h (z # zs)"
    using x' d l by (intro seg_frame) (auto dest: in_set_butlastD split: if_splits)
  ultimately have "seg ?h3 (ys @ x # z # zs)"
    using s x' al az d l by (auto simp: seg_append)
  moreover have "nx ?h3 (last (z # zs)) = None" "pv ?h3 (hd (ys @ x # z # zs)) = Some (last (z # zs))"
  proof -
    have e: "nx h (last (z # zs)) = None" "pv h (hd (ys @ z # zs)) = Some (last (z # zs))"
      using k by (simp_all add: kids_def links_def)
    have "last (z # zs) \<in> set (z # zs)" by (rule last_in_set) simp
    then have n: "last (z # zs) \<noteq> x" "ys \<noteq> [] \<Longrightarrow> last (z # zs) \<noteq> last ys" using x' d l by auto
    show "nx ?h3 (last (z # zs)) = None" using e(1) n by (cases "ys = []") (simp_all split del: if_split)
    have "ys \<noteq> [] \<Longrightarrow> hd ys \<noteq> x \<and> hd ys \<noteq> z" using x' d hd_in_set[of ys] by auto
    then show "pv ?h3 (hd (ys @ x # z # zs)) = Some (last (z # zs))"
      using e(2) x' by (cases "ys = []") simp_all
  qed
  ultimately have "links ?h3 (ys @ x # z # zs)" using al x' d by (simp add: links_def)
  then have "kids ?h3 a (ys @ x # z # zs)" using az x' k by (cases ys) (auto simp: kids_def)
  then show ?thesis using run by blast
qed


lemma detach_item_kids:
  assumes k: "kids h a (ys @ x # zs)"
  shows "\<exists>h'. cJSON_DetachItemViaPointer (Some a) (Some x) h = Inr (Some x, h')
     \<and> kids h' a (ys @ zs) \<and> loose h' a (ys @ zs) x"
proof -
  have ax: "alive h a" "alive h x" "x \<noteq> a" "a \<notin> set ys" "a \<notin> set zs"
    and d: "distinct ys" "distinct zs" "x \<notin> set ys" "x \<notin> set zs" "set ys \<inter> set zs = {}"
    and s: "seg h ys" "seg h zs" and al: "\<forall>b \<in> set (ys @ x # zs). alive h b"
    and c: "ch h a = hdp (ys @ x # zs)"
    using k by (auto simp: kids_def links_def seg_append seg_Cons)
  note nxt = kids_split_next[OF k]
  let ?p = "if ys = [] then last (x # zs) else last ys"
  let ?h1 = "if ys = [] then h else upd_next (last ys) (hdp zs) h"
  let ?h2 = "if zs = [] then ?h1 else upd_prev (hd zs) (Some ?p) ?h1"
  let ?h3 = "if ys = [] then upd_child a (hdp zs) ?h2 else if zs = [] then upd_prev (hd ys) (Some ?p) ?h2 else ?h2"
  let ?h = "upd_next x None (upd_prev x None ?h3)"
  have fst: "hdp (ys @ x # zs) = Some x \<longleftrightarrow> ys = []" using d by (cases ys) auto
  have l: "ys \<noteq> [] \<Longrightarrow> last ys \<in> set ys" "ys \<noteq> [] \<Longrightarrow> last ys \<notin> set zs" "ys \<noteq> [] \<Longrightarrow> hd ys \<in> set ys"
    "zs \<noteq> [] \<Longrightarrow> hd zs \<in> set zs" "zs \<noteq> [] \<Longrightarrow> hd zs \<notin> set ys" "ys \<noteq> [] \<Longrightarrow> hd ys \<notin> set zs"
    using disjointI_ends[OF d(5)] by auto
  from run_deref[OF ax(1)] run_deref[OF ax(2)] obtain an xn where
    an: "deref (Some a) h = Inr (an, h)" "nchild an = hdp (ys @ x # zs)"
    and xn: "deref (Some x) h = Inr (xn, h)" "nnext xn = hdp zs" "nprev xn = Some ?p"
    using c nxt by metis
  have alz: "zs \<noteq> [] \<Longrightarrow> alive h (hd zs)" "ys \<noteq> [] \<Longrightarrow> alive h (last ys)" "ys \<noteq> [] \<Longrightarrow> alive h (hd ys)"
    using al l by auto
  have run: "cJSON_DetachItemViaPointer (Some a) (Some x) h = Inr (Some x, ?h)"
    using an xn ax alz fst unfolding cJSON_DetachItemViaPointer_def
    by (cases "ys = []"; cases "zs = []") (simp_all add: hdp_def)
  have "seg ?h ys = seg h ys"
    using butlast_not_last[OF d(1)] tl_not_hd[OF d(1)] d(3) l
    by (intro seg_frame) (auto dest: in_set_tlD in_set_butlastD)
  moreover have "seg ?h zs = seg h zs"
    using tl_not_hd[OF d(2)] d(4) l by (intro seg_frame) (auto dest: in_set_tlD in_set_butlastD)
  ultimately have "seg ?h (ys @ zs)"
    using s alz d l by (auto simp: seg_append hdp_def)
  moreover have n: "last zs \<noteq> last ys" if "ys \<noteq> []" "zs \<noteq> []" using that l(2) last_in_set[of zs] by metis
  moreover have "ys @ zs \<noteq> [] \<longrightarrow> nx ?h (last (ys @ zs)) = None \<and> pv ?h (hd (ys @ zs)) = Some (last (ys @ zs))"
    using k d alz l n by (cases "ys = []"; cases "zs = []") (auto simp: kids_def links_def)
  ultimately have "links ?h (ys @ zs)" using al d by (simp add: links_def)
  then have "kids ?h a (ys @ zs)" using ax c by (cases "ys = []") (auto simp: kids_def hdp_def)
  then show ?thesis using run ax d by (intro exI[of _ ?h]) (simp add: loose_def)
qed


section \<open>Deletion frees a tree\<close>

text \<open>
  What \<open>cJSON_Delete\<close> owns, as a binary tree over addresses: on the left the children of a cell,
  on the right its later siblings. The children of a reference are not owned.
\<close>

definition rootp :: "nat tree \<Rightarrow> ptr" where
  "rootp t = (case t of Leaf \<Rightarrow> None | Node _ a _ \<Rightarrow> Some a)"

definition is_ref :: "heap \<Rightarrow> nat \<Rightarrow> bool" where
  "is_ref h a = (case cells h a of Some n \<Rightarrow> has_flag (ntype n) cJSON_IsReference | None \<Rightarrow> False)"

fun owns :: "heap \<Rightarrow> nat tree \<Rightarrow> bool" where
  "owns h Leaf = True"
| "owns h (Node l a r) = (alive h a \<and> nx h a = rootp r \<and> (if is_ref h a then l = Leaf else ch h a = rootp l)
     \<and> owns h l \<and> owns h r)"

definition kill :: "nat set \<Rightarrow> heap \<Rightarrow> heap" where
  "kill A h = h\<lparr>cells := (\<lambda>b. if b \<in> A then None else cells h b)\<rparr>"

lemma kill_simps [simp]:
  "kill {} h = h" "kill A (kill B h) = kill (A \<union> B) h" "top (kill A h) = top h" "avail (kill A h) = avail h"
  "h\<lparr>cells := (cells h)(a := None)\<rparr> = kill {a} h"
  by (auto simp: kill_def fun_eq_iff)

lemma kill_cells: "cells (kill A h) b = (if b \<in> A then None else cells h b)"
  by (simp add: kill_def)

lemma owns_kill: "A \<inter> set_tree t = {} \<Longrightarrow> owns (kill A h) t = owns h t"
  by (induction t) (auto simp: alive_def nx_def ch_def is_ref_def kill_cells)

lemma free_cell_run: "alive h a \<Longrightarrow> free_cell (Some a) h = Inr ((), kill {a} h)"
  by (auto simp: free_cell_def alive_def deref_def hbind_def split: option.splits)

lemma delete_loop_owns:
  "owns h t \<Longrightarrow> distinct (preorder t) \<Longrightarrow> size t \<le> fuel \<Longrightarrow>
     delete_loop fuel (rootp t) h = Inr ((), kill (set_tree t) h)"
proof (induction t arbitrary: h fuel)
  case Leaf
  then show ?case by (simp add: rootp_def)
next
  case (Node l a r)
  obtain f where f: "fuel = Suc f" using Node.prems(3) by (cases fuel) auto
  from Node.prems have al: "alive h a" "nx h a = rootp r" "owns h l" "owns h r"
    and c: "if is_ref h a then l = Leaf else ch h a = rootp l"
    and d: "a \<notin> set_tree l" "a \<notin> set_tree r" "set_tree l \<inter> set_tree r = {}" "distinct (preorder l)" "distinct (preorder r)"
    and sz: "size l \<le> f" "size r \<le> f" using f by auto
  from al(1) obtain n where n: "cells h a = Some n" by (auto simp: alive_def)
  let ?h1 = "kill (set_tree l) h" and ?h2 = "kill (insert a (set_tree l)) h"
  have l: "hthen (if \<not> has_flag (ntype n) cJSON_IsReference \<and> nchild n \<noteq> None then delete_loop f (nchild n) else hret ()) k h
      = k ?h1" for k :: "unit hp"
  proof (cases "is_ref h a")
    case True
    then show ?thesis using c n by (simp add: is_ref_def)
  next
    case False
    then have "nchild n = rootp l" "\<not> has_flag (ntype n) cJSON_IsReference" using c n by (auto simp: is_ref_def ch_def)
    then show ?thesis using Node.IH(1)[OF al(3) d(4) sz(1)] by (cases l) (simp_all add: rootp_def)
  qed
  have fr: "free_cell (Some a) ?h1 = Inr ((), ?h2)"
    using free_cell_run[of ?h1 a] al(1) d(1) by (simp add: alive_def kill_cells)
  have r: "delete_loop f (rootp r) ?h2 = Inr ((), kill (set_tree r \<union> insert a (set_tree l)) h)"
    using Node.IH(2)[of ?h2 f] al(4) d sz(2) owns_kill[of "insert a (set_tree l)" r h] by simp
  have "deref (Some a) h = Inr (n, h)" "nnext n = rootp r" using n al(2) by (auto simp: deref_def nx_def)
  then have "delete_loop fuel (Some a) h = delete_loop f (rootp r) ?h2"
    using fr f by (simp add: l del: not_None_eq split del: if_split)
  then show ?case using r by (simp add: rootp_def Un_ac insert_commute Un_insert_left)
qed

text \<open>The store allocates upwards, so a tree cannot have more cells than \<open>top\<close>.\<close>

definition heap_ok :: "heap \<Rightarrow> bool" where "heap_ok h = (\<forall>a. alive h a \<longrightarrow> a < top h)"

lemma owns_alive: "owns h t \<Longrightarrow> a \<in> set_tree t \<Longrightarrow> alive h a"
  by (induction t) auto

lemma owns_size:
  assumes "heap_ok h" "owns h t" "distinct (preorder t)"
  shows "size t \<le> top h"
proof -
  have "set (preorder t) \<subseteq> {..< top h}" using assms owns_alive by (auto simp: heap_ok_def)
  then have "card (set (preorder t)) \<le> top h" using card_mono[of "{..< top h}"] by simp
  then show ?thesis using distinct_card[OF assms(3)] by simp
qed

lemma cJSON_Delete_run:
  assumes "heap_ok h" "owns h t" "distinct (preorder t)"
  shows "cJSON_Delete (rootp t) h = Inr ((), kill (set_tree t) h)"
  unfolding cJSON_Delete_def using owns_size[OF assms] assms(2,3) by (intro delete_loop_owns) auto

text \<open>What a tree owns is decided by the links and the type of its cells alone.\<close>

lemma owns_frame:
  "(\<And>b. b \<in> set_tree t \<Longrightarrow> alive h' b = alive h b \<and> nx h' b = nx h b \<and> ch h' b = ch h b \<and> is_ref h' b = is_ref h b)
    \<Longrightarrow> owns h' t = owns h t"
  by (induction t) auto

lemma is_ref_upd [simp]:
  "is_ref (upd_next a v h) b = is_ref h b" "is_ref (upd_prev a v h) b = is_ref h b" "is_ref (upd_child a v h) b = is_ref h b"
  by (auto simp: is_ref_def upd_def split: option.splits)

lemma kill_links:
  "alive (kill A h) b = (b \<notin> A \<and> alive h b)"
  "b \<notin> A \<Longrightarrow> nx (kill A h) b = nx h b" "b \<notin> A \<Longrightarrow> pv (kill A h) b = pv h b" "b \<notin> A \<Longrightarrow> ch (kill A h) b = ch h b"
  by (simp_all add: alive_def nx_def pv_def ch_def kill_cells)

text \<open>The subtree below an item: what \<open>cJSON_Delete\<close> of the item frees with it.\<close>

definition below :: "heap \<Rightarrow> nat \<Rightarrow> nat tree \<Rightarrow> bool" where
  "below h x t = (owns h t \<and> distinct (preorder t) \<and> (if is_ref h x then t = Leaf else ch h x = rootp t))"

section \<open>Replacing an item\<close>

lemma kids_frame:
  assumes k: "kids h a xs" and a: "alive h' a" "ch h' a = ch h a"
    and same: "\<And>b. b \<in> set xs \<Longrightarrow> alive h' b \<and> nx h' b = nx h b \<and> pv h' b = pv h b"
  shows "kids h' a xs"
proof -
  have "seg h' xs = seg h xs" using same by (intro seg_frame) (auto dest: in_set_tlD in_set_butlastD)
  then show ?thesis using k a same by (cases "xs = []") (auto simp: kids_def links_def)
qed

lemma replace_item_kids:
  assumes k: "kids h a (ys @ x # zs)" and r: "loose h a (ys @ x # zs) r"
    and t: "heap_ok h" "below h x t" "set_tree t \<inter> ({a, r} \<union> set (ys @ x # zs)) = {}"
  shows "\<exists>h'. cJSON_ReplaceItemViaPointer (Some a) (Some x) (Some r) h = Inr (True, h')
     \<and> kids h' a (ys @ r # zs) \<and> (\<forall>b. alive h' b = (alive h b \<and> b \<noteq> x \<and> b \<notin> set_tree t))"
proof -
  have ax: "alive h a" "alive h x" "x \<noteq> a" "a \<notin> set ys" "a \<notin> set zs"
    and d: "distinct ys" "distinct zs" "x \<notin> set ys" "x \<notin> set zs" "set ys \<inter> set zs = {}"
    and s: "seg h ys" "seg h zs" and al: "\<forall>b \<in> set (ys @ x # zs). alive h b"
    and c: "ch h a = hdp (ys @ x # zs)"
    using k by (auto simp: kids_def links_def seg_append seg_Cons)
  have r': "alive h r" "r \<noteq> a" "r \<notin> set ys" "r \<noteq> x" "r \<notin> set zs" using r by (auto simp: loose_def)
  define p where "p = (if ys = [] then last (x # zs) else last ys)"
  note nxt = kids_split_next[OF k, folded p_def]
  have fst: "hdp (ys @ x # zs) = Some x \<longleftrightarrow> ys = []" using d by (cases ys) auto
  have px: "ys = [] \<Longrightarrow> p = x \<longleftrightarrow> zs = []" using d by (auto simp: p_def)
  have l: "ys \<noteq> [] \<Longrightarrow> last ys \<in> set ys" "ys \<noteq> [] \<Longrightarrow> last ys \<notin> set zs" "ys \<noteq> [] \<Longrightarrow> hd ys \<in> set ys"
    "zs \<noteq> [] \<Longrightarrow> hd zs \<in> set zs" "zs \<noteq> [] \<Longrightarrow> hd zs \<notin> set ys" "ys \<noteq> [] \<Longrightarrow> hd ys \<notin> set zs"
    using disjointI_ends[OF d(5)] by auto
  have alz: "zs \<noteq> [] \<Longrightarrow> alive h (hd zs)" "ys \<noteq> [] \<Longrightarrow> alive h (last ys)" "ys \<noteq> [] \<Longrightarrow> alive h (hd ys)"
    using al l by auto
  have neq: "zs \<noteq> [] \<Longrightarrow> hd zs \<noteq> r" "ys \<noteq> [] \<Longrightarrow> last ys \<noteq> r" "ys \<noteq> [] \<Longrightarrow> hd ys \<noteq> r"
      "zs \<noteq> [] \<Longrightarrow> hd zs \<noteq> x" "ys \<noteq> [] \<Longrightarrow> last ys \<noteq> x" "ys \<noteq> [] \<Longrightarrow> hd ys \<noteq> x"
    using r' d l by auto
  from run_deref[OF ax(2)] obtain xn where xn: "deref (Some x) h = Inr (xn, h)" "nnext xn = hdp zs" "nprev xn = Some p"
    using nxt by metis
  define h1 where "h1 = upd_prev r (Some p) (upd_next r (hdp zs) h)"
  define h2 where "h2 = (if zs = [] then h1 else upd_prev (hd zs) (Some r) h1)"
  have h2: "\<And>b. alive h2 b = alive h b" "\<And>b. ch h2 b = ch h b" "top h2 = top h"
    "\<And>b. nx h2 b = (if b = r then hdp zs else nx h b)"
    "\<And>b. pv h2 b = (if b = r then Some p else if zs \<noteq> [] \<and> b = hd zs then Some r else pv h b)"
    using r' neq alz by (auto simp: h2_def h1_def)
  have set2: "hthen (if nnext xn \<noteq> None then set_prev (nnext xn) (Some r) else hret ()) m h1 = m h2" for m :: "bool hp"
    using alz xn by (cases "zs = []") (simp_all add: h2_def h1_def hdp_def)
  define h3 where "h3 = (if ys = [] then upd_child a (Some r) (if zs = [] then upd_prev r (Some r) h2 else h2)
     else if zs = [] then upd_prev (hd ys) (Some r) (upd_next (last ys) (Some r) h2) else upd_next (last ys) (Some r) h2)"
  have h3: "\<And>b. alive h3 b = alive h b" "top h3 = top h"
    "\<And>b. ch h3 b = (if b = a \<and> ys = [] then Some r else ch h b)"
    "\<And>b. nx h3 b = (if ys \<noteq> [] \<and> b = last ys then Some r else nx h2 b)"
    "\<And>b. pv h3 b = (if zs = [] \<and> b = (if ys = [] then r else hd ys) then Some r else pv h2 b)"
    using h2 ax r' alz by (auto simp: h3_def)
  have a2: "alive h2 a" "alive h2 r" "alive h2 x" using ax r' h2 by simp_all
  from run_deref[OF a2(1)] obtain an where an: "deref (Some a) h2 = Inr (an, h2)" "nchild an = hdp (ys @ x # zs)"
    using c h2(2) by metis
  from run_deref[OF a2(2)] obtain rn where rn: "deref (Some r) h2 = Inr (rn, h2)" "nprev rn = Some p" "nnext rn = hdp zs"
    using h2 by metis
  from run_deref[OF a2(3)] obtain x2 where x2: "deref (Some x) h2 = Inr (x2, h2)" "nprev x2 = Some p"
    using h2(5)[of x] nxt neq r' by metis
  have mid: "hthen (if nchild an = Some x then
       hbind (deref (nchild an)) (\<lambda>cn. hthen (if nprev cn = nchild an then set_prev (Some r) (Some r) else hret ())
         (set_child (Some a) (Some r)))
     else hthen (if nprev rn \<noteq> None then set_next (nprev rn) (Some r) else hret ())
         (hbind (deref (Some r)) (\<lambda>rn2. if nnext rn2 = None then set_prev (nchild an) (Some r) else hret ()))) m h2
     = m h3" for m :: "bool hp"
  proof (cases "ys = []")
    case True
    then show ?thesis using an x2 px a2 fst by (cases "zs = []") (simp_all add: h3_def)
  next
    case False
    let ?h = "upd_next (last ys) (Some r) h2"
    have "alive ?h r" using a2 by simp
    from run_deref[OF this] obtain r2 where r2: "deref (Some r) ?h = Inr (r2, ?h)" "nnext r2 = hdp zs"
      using h2(4)[of r] neq(2)[OF False] by simp metis
    have "hdp (ys @ x # zs) = Some (hd ys)" "p = last ys" using False by (simp_all add: hdp_def p_def)
    then show ?thesis using False an rn r2 a2 fst alz h2(1) neq by (cases "zs = []") (simp_all add: h3_def hdp_def)
  qed
  define h4 where "h4 = upd_prev x None (upd_next x None h3)"
  have h4: "\<And>b. alive h4 b = alive h b" "top h4 = top h" "\<And>b. ch h4 b = ch h3 b"
    "\<And>b. b \<noteq> x \<Longrightarrow> nx h4 b = nx h3 b \<and> pv h4 b = pv h3 b" "nx h4 x = None"
    using h3 ax by (simp_all add: h4_def)
  let ?A = "insert x (set_tree t)"
  let ?h = "kill ?A h4"
  have del: "cJSON_Delete (Some x) h4 = Inr ((), ?h)"
  proof -
    have ref: "is_ref h4 b = is_ref h b" for b by (simp add: h4_def h3_def h2_def h1_def)
    have "owns h4 t = owns h t"
    proof (rule owns_frame)
      fix b assume "b \<in> set_tree t"
      then have b: "b \<noteq> a" "b \<noteq> r" "b \<noteq> x" "b \<notin> set ys" using t(3) by auto
      then have "nx h4 b = nx h b" using h4(4)[OF b(3)] h3(4)[of b] h2(4)[of b] l(1) by auto
      then show "alive h4 b = alive h b \<and> nx h4 b = nx h b \<and> ch h4 b = ch h b \<and> is_ref h4 b = is_ref h b"
        using h4(1,3) h3(3)[of b] b(1) ref by simp
    qed
    then have "owns h4 (Node t x Leaf)"
      using t(2) ax h4(1,3,5) h3(3)[of x] ref by (auto simp: below_def rootp_def)
    moreover have "heap_ok h4" using t(1) h4(1,2) by (simp add: heap_ok_def)
    moreover have "distinct (preorder (Node t x Leaf))" using t(2,3) by (auto simp: below_def)
    ultimately have "cJSON_Delete (rootp (Node t x Leaf)) h4 = Inr ((), kill (set_tree (Node t x Leaf)) h4)"
      by (intro cJSON_Delete_run)
    then show ?thesis by (simp add: rootp_def)
  qed
  have run: "cJSON_ReplaceItemViaPointer (Some a) (Some x) (Some r) h = Inr (True, ?h)"
    using xn(1) an(1) rn(1) h3(1) ax r' del
    by (simp add: cJSON_ReplaceItemViaPointer_def h1_def[folded xn(2,3), symmetric] h4_def[symmetric]
          set2 mid del: not_None_eq split del: if_split)
  have k3: "kids h3 a (ys @ r # zs)"
  proof -
    have "seg h3 ys = seg h ys" "seg h3 zs = seg h zs"
      using h3(4,5) h2(4,5) butlast_not_last[OF d(1)] tl_not_hd[OF d(1)] tl_not_hd[OF d(2)] r' d l
      by (intro seg_frame; auto dest: in_set_tlD in_set_butlastD)+
    then have "seg h3 (ys @ r # zs)" using s h3(4,5) h2(4,5) neq r' l by (auto simp: seg_append seg_Cons p_def hdp_def)
    moreover have "nx h3 (last (ys @ r # zs)) = None"
    proof -
      have "zs \<noteq> [] \<Longrightarrow> last zs \<noteq> r \<and> (ys \<noteq> [] \<longrightarrow> last zs \<noteq> last ys)" using r'(5) l(2) last_in_set[of zs] by metis
      then show ?thesis using k h3(4) h2(4) neq(2) by (cases "zs = []") (auto simp: kids_def links_def)
    qed
    moreover have "pv h3 (hd (ys @ r # zs)) = Some (last (ys @ r # zs))"
      using k h3(5) h2(5) l r' neq by (cases "zs = []"; cases "ys = []") (auto simp: kids_def links_def p_def)
    ultimately have "links h3 (ys @ r # zs)" using al r' d h3(1) by (simp add: links_def)
    then show ?thesis using ax r' c h3(1,3) by (cases "ys = []") (auto simp: kids_def hdp_def)
  qed
  have "kids ?h a (ys @ r # zs)"
  proof (rule kids_frame[OF k3])
    fix b assume "b \<in> set (ys @ r # zs)"
    then have "b \<notin> ?A" "alive h b" using d r' al t(3) by auto
    then show "alive ?h b \<and> nx ?h b = nx h3 b \<and> pv ?h b = pv h3 b" using h4 by (simp add: kill_links)
  qed (use ax h4 t(3) in \<open>simp_all add: kill_links\<close>)
  moreover have "\<forall>b. alive ?h b = (alive h b \<and> b \<noteq> x \<and> b \<notin> set_tree t)" using h4(1) by (auto simp: kill_links)
  ultimately show ?thesis using run by blast
qed


section \<open>The children of an item as a sequence\<close>

text \<open>
  The contract of the array functions: the children form a sequence, read, extended and shortened
  by position. \<open>spare\<close> says of an item that it can be added.
\<close>

locale child_sequence =
  fixes rep :: "'s \<Rightarrow> 'p \<Rightarrow> 'c list \<Rightarrow> bool"
    and spare :: "'s \<Rightarrow> 'p \<Rightarrow> 'c list \<Rightarrow> 'c \<Rightarrow> bool"
    and get :: "'p \<Rightarrow> int \<Rightarrow> 's \<Rightarrow> ('c option \<times> 's) cres"
    and insert_at :: "'p \<Rightarrow> int \<Rightarrow> 'c \<Rightarrow> 's \<Rightarrow> (bool \<times> 's) cres"
    and detach_at :: "'p \<Rightarrow> int \<Rightarrow> 's \<Rightarrow> ('c option \<times> 's) cres"
  assumes get_rep: "rep s a xs \<Longrightarrow> 0 \<le> i \<Longrightarrow>
      get a i s = Inr (if nat i < length xs then Some (xs ! nat i) else None, s)"
    and insert_rep: "rep s a xs \<Longrightarrow> spare s a xs x \<Longrightarrow> 0 \<le> i \<Longrightarrow>
      \<exists>s'. insert_at a i x s = Inr (True, s') \<and> rep s' a (take (nat i) xs @ x # drop (nat i) xs)"
    and detach_rep: "rep s a xs \<Longrightarrow> 0 \<le> i \<Longrightarrow> nat i < length xs \<Longrightarrow>
      \<exists>s'. detach_at a i s = Inr (Some (xs ! nat i), s') \<and> rep s' a (take (nat i) xs @ drop (Suc (nat i)) xs)
        \<and> spare s' a (take (nat i) xs @ drop (Suc (nat i)) xs) (xs ! nat i)"
begin

lemma insert_then_get:
  assumes "rep s a xs" "spare s a xs x" "0 \<le> i" "nat i \<le> length xs"
  shows "\<exists>s'. insert_at a i x s = Inr (True, s') \<and> get a i s' = Inr (Some x, s')"
proof -
  from insert_rep[OF assms(1-3)] obtain s' where
    s': "insert_at a i x s = Inr (True, s')" "rep s' a (take (nat i) xs @ x # drop (nat i) xs)" by blast
  then show ?thesis using get_rep[OF s'(2) assms(3)] assms(4) by (simp add: nth_append min_def)
qed

lemma insert_then_detach:
  assumes "rep s a xs" "spare s a xs x" "0 \<le> i" "nat i \<le> length xs"
  shows "\<exists>s' s''. insert_at a i x s = Inr (True, s') \<and> detach_at a i s' = Inr (Some x, s'') \<and> rep s'' a xs"
proof -
  let ?ys = "take (nat i) xs @ x # drop (nat i) xs"
  from insert_rep[OF assms(1-3)] obtain s' where s': "insert_at a i x s = Inr (True, s')" "rep s' a ?ys" by blast
  have "nat i < length ?ys" "?ys ! nat i = x" "take (nat i) ?ys @ drop (Suc (nat i)) ?ys = xs"
    using assms(4) by (simp_all add: nth_append min_def)
  with detach_rep[OF s'(2) assms(3)] s'(1) show ?thesis by metis
qed

text \<open>Moving an item: every other item keeps its place relative to the rest.\<close>

lemma detach_then_insert:
  assumes "rep s a xs" "0 \<le> i" "nat i < length xs" "0 \<le> j"
  shows "\<exists>s' s''. detach_at a i s = Inr (Some (xs ! nat i), s') \<and> insert_at a j (xs ! nat i) s' = Inr (True, s'')
    \<and> (let ys = take (nat i) xs @ drop (Suc (nat i)) xs in rep s'' a (take (nat j) ys @ xs ! nat i # drop (nat j) ys))"
proof -
  let ?ys = "take (nat i) xs @ drop (Suc (nat i)) xs"
  from detach_rep[OF assms(1-3)] obtain s' where
    s': "detach_at a i s = Inr (Some (xs ! nat i), s')" "rep s' a ?ys" "spare s' a ?ys (xs ! nat i)" by blast
  from insert_rep[OF s'(2,3) assms(4)] obtain s'' where
    "insert_at a j (xs ! nat i) s' = Inr (True, s'')" "rep s'' a (take (nat j) ?ys @ xs ! nat i # drop (nat j) ?ys)" by blast
  then show ?thesis using s'(1) unfolding Let_def by blast
qed

end

lemma insert_in_array:
  assumes "kids h a xs" "loose h a xs x" "0 \<le> i"
  shows "\<exists>h'. cJSON_InsertItemInArray (Some a) i (Some x) h = Inr (True, h') \<and> kids h' a (take (nat i) xs @ x # drop (nat i) xs)"
proof (cases "nat i < length xs")
  case True
  then have "xs = take (nat i) xs @ xs ! nat i # drop (Suc (nat i)) xs" by (rule id_take_nth_drop)
  moreover have "int (length (take (nat i) xs)) = i" using True assms(3) by simp
  moreover have "drop (nat i) xs = xs ! nat i # drop (Suc (nat i)) xs" using True by (simp add: Cons_nth_drop_Suc)
  ultimately show ?thesis using insert_item_kids[of h a "take (nat i) xs" "xs ! nat i" "drop (Suc (nat i)) xs" x] assms
    by metis
next
  case False
  then have "get_array_item (Some a) (nat i) h = Inr (None, h)" using get_array_item_nth[OF assms(1)] by simp
  then show ?thesis using False assms add_item_kids[OF assms(1,2)] by (simp add: cJSON_InsertItemInArray_def)
qed

lemma detach_from_array:
  assumes "kids h a xs" "0 \<le> i" "nat i < length xs"
  shows "\<exists>h'. cJSON_DetachItemFromArray (Some a) i h = Inr (Some (xs ! nat i), h')
    \<and> kids h' a (take (nat i) xs @ drop (Suc (nat i)) xs)
    \<and> loose h' a (take (nat i) xs @ drop (Suc (nat i)) xs) (xs ! nat i)"
proof -
  have "xs = take (nat i) xs @ xs ! nat i # drop (Suc (nat i)) xs" using assms(3) by (rule id_take_nth_drop)
  with assms(1) have "kids h a (take (nat i) xs @ xs ! nat i # drop (Suc (nat i)) xs)" by simp
  from detach_item_kids[OF this] assms get_array_item_nth[OF assms(1), of "nat i"] show ?thesis
    by (simp add: cJSON_DetachItemFromArray_def)
qed

interpretation children: child_sequence kids loose
  "\<lambda>a. cJSON_GetArrayItem (Some a)" "\<lambda>a i x. cJSON_InsertItemInArray (Some a) i (Some x)"
  "\<lambda>a. cJSON_DetachItemFromArray (Some a)"
proof unfold_locales
  show "cJSON_GetArrayItem (Some a) i h = Inr (if nat i < length xs then Some (xs ! nat i) else None, h)"
    if "kids h a xs" "0 \<le> i" for h a xs i
    using that get_array_item_nth by (simp add: cJSON_GetArrayItem_def)
qed (rule insert_in_array detach_from_array; assumption)+

section \<open>Properties\<close>

text \<open>A store for the witnesses: an array at 0 with the items 1, 2 and 3, and a loose item at 4.\<close>

definition sample_cell :: "ptr \<Rightarrow> ptr \<Rightarrow> ptr \<Rightarrow> int \<Rightarrow> node" where
  "sample_cell n p c t = \<lparr>nnext = n, nprev = p, nchild = c, ntype = t, nvaluestring = None, nvalueint = 0,
     nvaluedouble = Fin False 0 0, nstring = None\<rparr>"

definition sample_heap :: heap where
  "sample_heap = \<lparr>cells = [0 \<mapsto> sample_cell None None (Some 1) cJSON_Array,
     1 \<mapsto> sample_cell (Some 2) (Some 3) None cJSON_True, 2 \<mapsto> sample_cell (Some 3) (Some 1) None cJSON_False,
     3 \<mapsto> sample_cell None (Some 2) None cJSON_NULL, 4 \<mapsto> sample_cell None None None cJSON_True],
     top = 5, avail = 9\<rparr>"

lemma sample_heap_kids: "kids sample_heap 0 [1, 2, 3]" "loose sample_heap 0 [1, 2, 3] 4"
  by (simp_all add: kids_def links_def loose_def alive_def nx_def pv_def ch_def sample_heap_def sample_cell_def)

text \<open>C14: \<open>cJSON_InsertItemInArray\<close> refines insertion into the list of children: at every position
  from 0 on the item stands before the one that had the position, or at the end if there is none, and
  the chain is linked correctly in both directions.\<close>

theorem insert_refines:
  assumes "kids h a xs" "loose h a xs x" "0 \<le> i"
  shows "\<exists>h'. cJSON_InsertItemInArray (Some a) i (Some x) h = Inr (True, h')
     \<and> kids h' a (take (nat i) xs @ x # drop (nat i) xs)"
  using assms by (rule children.insert_rep)

theorem insert_refines_witness:
  "\<exists>h'. cJSON_InsertItemInArray (Some 0) 1 (Some 4) sample_heap = Inr (True, h') \<and> kids h' 0 [1, 4, 2, 3]"
  using insert_refines[OF sample_heap_kids, of 1] by (simp add: numeral_2_eq_2 numeral_3_eq_3)

text \<open>\<open>cJSON_DetachItemFromArray\<close> returns the child at the position and leaves the others, in
  their order and correctly linked; the item no longer points into the chain and can be added again.
  At a position past the end it returns NULL and changes nothing.\<close>

theorem detach_refines:
  assumes "kids h a xs" "0 \<le> i"
  shows "if nat i < length xs
    then \<exists>h'. cJSON_DetachItemFromArray (Some a) i h = Inr (Some (xs ! nat i), h')
        \<and> kids h' a (take (nat i) xs @ drop (Suc (nat i)) xs)
        \<and> loose h' a (take (nat i) xs @ drop (Suc (nat i)) xs) (xs ! nat i)
    else cJSON_DetachItemFromArray (Some a) i h = Inr (None, h)"
proof (cases "nat i < length xs")
  case True
  then show ?thesis using children.detach_rep[OF assms] by simp
next
  case False
  then show ?thesis using get_array_item_nth[OF assms(1), of "nat i"] assms(2)
    by (simp add: cJSON_DetachItemFromArray_def cJSON_DetachItemViaPointer_def)
qed

theorem detach_refines_witness:
  "\<exists>h'. cJSON_DetachItemFromArray (Some 0) 2 sample_heap = Inr (Some 3, h') \<and> kids h' 0 [1, 2]"
  using detach_refines[OF sample_heap_kids(1), of 2] by (auto simp: numeral_2_eq_2 numeral_3_eq_3)

text \<open>An item inserted into an array and detached from the same position leaves the array with
  exactly the children it had.\<close>

theorem insert_detach_roundtrip:
  assumes "kids h a xs" "loose h a xs x" "0 \<le> i" "nat i \<le> length xs"
  shows "\<exists>h' h''. cJSON_InsertItemInArray (Some a) i (Some x) h = Inr (True, h')
     \<and> cJSON_DetachItemFromArray (Some a) i h' = Inr (Some x, h'') \<and> kids h'' a xs"
  using assms by (rule children.insert_then_detach)

theorem insert_detach_roundtrip_witness:
  "\<exists>h' h''. cJSON_InsertItemInArray (Some 0) 3 (Some 4) sample_heap = Inr (True, h')
     \<and> cJSON_DetachItemFromArray (Some 0) 3 h' = Inr (Some 4, h'') \<and> kids h'' 0 [1, 2, 3]"
  using insert_detach_roundtrip[OF sample_heap_kids, of 3] by simp

text \<open>C28: \<open>cJSON_ReplaceItemInArray\<close> puts the new item in the place of the old one, keeps the chain
  linked in both directions (at the first, a middle, the last and the only position), and frees exactly
  the old item with the subtree below it, whatever that is: nothing for a scalar or a reference, all
  descendants of an array or an object. The hypotheses say that the items are linked as the library
  links them: the children of the array form a chain, the new item is in no chain, and the subtree is
  a tree that does not reach the array, its children or the new item.\<close>

theorem replace_refines:
  assumes "kids h a xs" "loose h a xs r" "0 \<le> i" "nat i < length xs"
    "heap_ok h" "below h (xs ! nat i) t" "set_tree t \<inter> ({a, r} \<union> set xs) = {}"
  shows "\<exists>h'. cJSON_ReplaceItemInArray (Some a) i (Some r) h = Inr (True, h')
     \<and> kids h' a (xs[nat i := r])
     \<and> (\<forall>b. cells h' b = None \<longleftrightarrow> cells h b = None \<or> b = xs ! nat i \<or> b \<in> set_tree t)"
proof -
  have e: "xs = take (nat i) xs @ xs ! nat i # drop (Suc (nat i)) xs" using assms(4) by (rule id_take_nth_drop)
  have u: "xs[nat i := r] = take (nat i) xs @ r # drop (Suc (nat i)) xs" using assms(4) by (rule upd_conv_take_nth_drop)
  from replace_item_kids[of h a "take (nat i) xs" "xs ! nat i" "drop (Suc (nat i)) xs" r t] assms e
  obtain h' where h': "cJSON_ReplaceItemViaPointer (Some a) (Some (xs ! nat i)) (Some r) h = Inr (True, h')"
    "kids h' a (xs[nat i := r])" "\<forall>b. alive h' b = (alive h b \<and> b \<noteq> xs ! nat i \<and> b \<notin> set_tree t)" unfolding u by metis
  have "cJSON_ReplaceItemInArray (Some a) i (Some r) h = Inr (True, h')"
    using get_array_item_nth[OF assms(1), of "nat i"] assms(3,4) h'(1) by (simp add: cJSON_ReplaceItemInArray_def)
  moreover have "\<forall>b. cells h' b = None \<longleftrightarrow> cells h b = None \<or> b = xs ! nat i \<or> b \<in> set_tree t"
    using h'(3) unfolding alive_def by blast
  ultimately show ?thesis using h'(2) by blast
qed

text \<open>A store with a nested array: the array at 0 has the items 1 and 2, and 1 is an array of 5 and 6.\<close>

definition nested_heap :: heap where
  "nested_heap = \<lparr>cells = [0 \<mapsto> sample_cell None None (Some 1) cJSON_Array,
     1 \<mapsto> sample_cell (Some 2) (Some 2) (Some 5) cJSON_Array, 2 \<mapsto> sample_cell None (Some 1) None cJSON_False,
     4 \<mapsto> sample_cell None None None cJSON_True, 5 \<mapsto> sample_cell (Some 6) (Some 6) None cJSON_True,
     6 \<mapsto> sample_cell None (Some 5) None cJSON_NULL],
     top = 7, avail = 9\<rparr>"

theorem replace_refines_witness:
  "\<exists>h'. cJSON_ReplaceItemInArray (Some 0) 0 (Some 4) nested_heap = Inr (True, h')
     \<and> kids h' 0 [4, 2] \<and> (\<forall>b \<in> {1, 5, 6}. cells h' b = None) \<and> (\<forall>b \<in> {0, 2, 4}. cells h' b \<noteq> None)"
proof -
  let ?t = "Node Leaf (5::nat) (Node Leaf 6 Leaf)"
  have "kids nested_heap 0 [1, 2]" "loose nested_heap 0 [1, 2] 4"
    by (simp_all add: kids_def links_def loose_def alive_def nx_def pv_def ch_def nested_heap_def sample_cell_def)
  moreover have "heap_ok nested_heap"
    by (auto simp: heap_ok_def alive_def nested_heap_def split: if_splits)
  moreover have "below nested_heap ([1, 2] ! nat 0) ?t"
    by (simp add: below_def alive_def nx_def ch_def is_ref_def rootp_def nested_heap_def sample_cell_def has_flag_def
      cJSON_Array_def cJSON_True_def cJSON_False_def cJSON_NULL_def cJSON_IsReference_def)
  moreover have "set_tree ?t \<inter> ({0, 4} \<union> set [1, 2]) = {}" by simp
  ultimately have "\<exists>h'. cJSON_ReplaceItemInArray (Some 0) 0 (Some 4) nested_heap = Inr (True, h')
     \<and> kids h' 0 ([1, 2][nat 0 := 4])
     \<and> (\<forall>b. cells h' b = None \<longleftrightarrow> cells nested_heap b = None \<or> b = [1, 2] ! nat 0 \<or> b \<in> set_tree ?t)"
    by (intro replace_refines) simp_all
  then obtain h' where h': "cJSON_ReplaceItemInArray (Some 0) 0 (Some 4) nested_heap = Inr (True, h')" "kids h' 0 [4, 2]"
    "\<And>b. cells h' b = None \<longleftrightarrow> cells nested_heap b = None \<or> b = 1 \<or> b \<in> set_tree ?t" by auto
  have "\<forall>b \<in> {0, 2, 4}. cells nested_heap b \<noteq> None" by (simp add: nested_heap_def)
  with h' show ?thesis by (intro exI[of _ h']) auto
qed

text \<open>C24: \<open>cJSON_Delete\<close> of an item whose cells form a tree terminates, never touches a freed cell
  and frees exactly the cells of the tree; what only a reference points at is kept.\<close>

theorem cJSON_Delete_frees:
  assumes "heap_ok h" "owns h t" "distinct (preorder t)"
  shows "cJSON_Delete (rootp t) h = Inr ((), kill (set_tree t) h)"
  using assms by (rule cJSON_Delete_run)

theorem cJSON_Delete_frees_witness:
  "cJSON_Delete (Some 0) sample_heap = Inr ((), kill {0, 1, 2, 3} sample_heap)"
proof -
  let ?t = "Node (Node Leaf 1 (Node Leaf 2 (Node Leaf 3 Leaf))) (0::nat) Leaf"
  have "heap_ok sample_heap"
    by (auto simp: heap_ok_def alive_def sample_heap_def split: if_splits)
  moreover have "owns sample_heap ?t"
    by (simp add: alive_def nx_def ch_def is_ref_def rootp_def sample_heap_def sample_cell_def has_flag_def
      cJSON_Array_def cJSON_True_def cJSON_False_def cJSON_NULL_def cJSON_IsReference_def)
  moreover have "distinct (preorder ?t)" by simp
  ultimately have "cJSON_Delete (rootp ?t) sample_heap = Inr ((), kill (set_tree ?t) sample_heap)"
    by (rule cJSON_Delete_frees)
  moreover have "set_tree ?t = {0, 1, 2, 3}" by auto
  ultimately show ?thesis by (simp add: rootp_def)
qed

text \<open>\<open>cJSON_InsertItemInArray\<close> does not check its new item: at an occupied position a NULL
  item is dereferenced, where \<open>cJSON_AddItemToArray\<close> and the same call past the end answer false.\<close>

theorem insert_null_crash:
  assumes "kids h a xs" "0 \<le> i"
  shows "cJSON_InsertItemInArray (Some a) i None h =
    (if nat i < length xs then Inl NullDereference else Inr (False, h))"
  using get_array_item_nth[OF assms(1), of "nat i"] assms(2)
  by (simp add: cJSON_InsertItemInArray_def add_item_to_array_def set_next_def modify_def hthen_def hbind_def)

theorem insert_null_crash_witness: "cJSON_InsertItemInArray (Some 0) 2 None sample_heap = Inl NullDereference"
  using insert_null_crash[OF sample_heap_kids(1), of 2] by simp

end
