(* ===== verification/CJsonMinify.thy ===== *)
theory CJsonMinify
  imports Prelude
begin

text \<open>
  \<open>cJSON_Minify\<close> of \<open>cjson/cJSON.c\<close>: the routine works in place, reading and writing one buffer
  through two indices; every access is checked against its bounds. It is compared with a reference
  definition on texts.
\<close>

section \<open>\<open>cJSON_Minify\<close> in place\<close>

function oneline_loop :: "string \<Rightarrow> nat \<Rightarrow> nat cres" where
  "oneline_loop buf i = cbind (rd buf i) (\<lambda>c.
     if c = NUL then Inr i
     else if c = CHR 0x0A then Inr (i + 1)
     else oneline_loop buf (i + 1))"
  by pat_completeness auto
termination by (relation "measure (\<lambda>(buf, i). length buf - i)") (auto dest: rd_Inr)

definition skip_oneline_comment :: "string \<Rightarrow> nat \<Rightarrow> nat cres" where
  "skip_oneline_comment buf i = oneline_loop buf (i + 2)"

function multiline_loop :: "string \<Rightarrow> nat \<Rightarrow> nat cres" where
  "multiline_loop buf i = cbind (rd buf i) (\<lambda>c.
     if c = NUL then Inr i
     else if c = CHR ''*'' then cbind (rd buf (i + 1)) (\<lambda>d.
       if d = CHR ''/'' then Inr (i + 2) else multiline_loop buf (i + 1))
     else multiline_loop buf (i + 1))"
  by pat_completeness auto
termination by (relation "measure (\<lambda>(buf, i). length buf - i)") (auto dest: rd_Inr)

definition skip_multiline_comment :: "string \<Rightarrow> nat \<Rightarrow> nat cres" where
  "skip_multiline_comment buf i = multiline_loop buf (i + 2)"

text \<open>The loop of \<open>minify_string\<close>; every byte is read again after the write before it.\<close>

function string_loop :: "string \<Rightarrow> nat \<Rightarrow> nat \<Rightarrow> (string \<times> nat \<times> nat) cres" where
  "string_loop buf i out = cbind (rd buf i) (\<lambda>c.
     if c = NUL then Inr (buf, i, out)
     else cbind (wr buf out c) (\<lambda>buf1. cbind (rd buf1 i) (\<lambda>c1.
       if c1 = CHR 0x22 then cbind (wr buf1 out (CHR 0x22)) (\<lambda>buf2. Inr (buf2, i + 1, out + 1))
       else if c1 = CHR 0x5C then cbind (rd buf1 (i + 1)) (\<lambda>d.
         if d = CHR 0x22 then cbind (wr buf1 (out + 1) d) (\<lambda>buf2. string_loop buf2 (i + 2) (out + 2))
         else string_loop buf1 (i + 1) (out + 1))
       else string_loop buf1 (i + 1) (out + 1))))"
  by pat_completeness auto
termination by (relation "measure (\<lambda>(buf, i, out). length buf - i)") (auto dest!: rd_Inr wr_Inr)

definition minify_string :: "string \<Rightarrow> nat \<Rightarrow> nat \<Rightarrow> (string \<times> nat \<times> nat) cres" where
  "minify_string buf i out =
     cbind (rd buf i) (\<lambda>c. cbind (wr buf out c) (\<lambda>buf1. string_loop buf1 (i + 1) (out + 1)))"

declare oneline_loop.simps [simp del] multiline_loop.simps [simp del] string_loop.simps [simp del]

lemma oneline_forward: "oneline_loop buf i = Inr j \<Longrightarrow> i \<le> j"
proof (induction buf i rule: oneline_loop.induct)
  case (1 buf i)
  then show ?case by (subst (asm) oneline_loop.simps) (auto simp: cbind_Inr_iff split: if_splits)
qed

lemma multiline_forward: "multiline_loop buf i = Inr j \<Longrightarrow> i \<le> j"
proof (induction buf i rule: multiline_loop.induct)
  case (1 buf i)
  then show ?case by (subst (asm) multiline_loop.simps) (fastforce simp: cbind_Inr_iff split: if_splits)
qed

lemma string_loop_forward: "string_loop buf i out = Inr (buf', j, out') \<Longrightarrow> i \<le> j \<and> length buf' = length buf"
proof (induction buf i out rule: string_loop.induct)
  case (1 buf i out)
  from 1(4) obtain c where c: "rd buf i = Inr c"
    by (subst (asm) string_loop.simps) (auto simp: cbind_Inr_iff)
  show ?case
  proof (cases "c = NUL")
    case True
    then show ?thesis using 1(4) c by (subst (asm) string_loop.simps) simp
  next
    case False
    with 1(4) c obtain b1 c1 where b1: "wr buf out c = Inr b1" "rd b1 i = Inr c1"
      by (subst (asm) string_loop.simps) (auto simp: cbind_Inr_iff)
    note prem = 1(4)[unfolded string_loop.simps[of buf i out] c cbind_simps b1 if_not_P[OF False]]
    note IH = 1(1-3)[OF c False b1] and len = wr_Inr[OF b1(1)]
    show ?thesis
    proof (cases "c1 = CHR 0x22")
      case True
      then show ?thesis using prem len by (auto simp: cbind_Inr_iff dest: wr_Inr)
    next
      case q: False
      note prem = prem[unfolded if_not_P[OF q]]
      show ?thesis
      proof (cases "c1 = CHR 0x5C")
        case True
        with prem obtain d where d: "rd b1 (i + 1) = Inr d" by (auto simp: cbind_Inr_iff)
        note prem = prem[unfolded if_P[OF True] d cbind_simps]
        show ?thesis
        proof (cases "d = CHR 0x22")
          case dq: True
          with prem obtain b2 where b2: "wr b1 (out + 1) d = Inr b2" "string_loop b2 (i + 2) (out + 2) = Inr (buf', j, out')"
            by (auto simp: cbind_Inr_iff)
          then show ?thesis using IH(1)[OF q True d dq] len wr_Inr[OF b2(1)] by force
        next
          case dq: False
          then show ?thesis using IH(2)[OF q True d dq] prem len by simp
        qed
      next
        case False
        then show ?thesis using IH(3)[OF q False] prem len by simp
      qed
    qed
  qed
qed

function minify_loop :: "string \<Rightarrow> nat \<Rightarrow> nat \<Rightarrow> (string \<times> nat) cres" where
  "minify_loop buf i out = cbind (rd buf i) (\<lambda>c.
     if c = NUL then Inr (buf, out)
     else if c \<in> {CHR '' '', CHR 0x09, CHR 0x0D, CHR 0x0A} then minify_loop buf (i + 1) out
     else if c = CHR ''/'' then cbind (rd buf (i + 1)) (\<lambda>d.
       if d = CHR ''/'' then cbind (skip_oneline_comment buf i) (\<lambda>j. minify_loop buf j out)
       else if d = CHR ''*'' then cbind (skip_multiline_comment buf i) (\<lambda>j. minify_loop buf j out)
       else minify_loop buf (i + 1) out)
     else if c = CHR 0x22 then cbind (minify_string buf i out) (\<lambda>(buf1, j, out1). minify_loop buf1 j out1)
     else cbind (wr buf out c) (\<lambda>buf1. minify_loop buf1 (i + 1) (out + 1)))"
  by pat_completeness auto
termination
  by (relation "measure (\<lambda>(buf, i, out). length buf - i)")
    (auto dest!: rd_Inr wr_Inr oneline_forward multiline_forward string_loop_forward
      simp: skip_oneline_comment_def skip_multiline_comment_def minify_string_def cbind_Inr_iff)

declare minify_loop.simps [simp del]

definition cJSON_Minify :: "string option \<Rightarrow> string option cres" where
  "cJSON_Minify json = (case json of None \<Rightarrow> Inr None
     | Some buf \<Rightarrow> cbind (minify_loop buf 0 0) (\<lambda>(buf1, out). cbind (wr buf1 out NUL) (\<lambda>buf2. Inr (Some buf2))))"

section \<open>The text it computes\<close>

fun after_line :: "string \<Rightarrow> string" where
  "after_line [] = []"
| "after_line (c # s) = (if c = CHR 0x0A then s else after_line s)"

fun after_block :: "string \<Rightarrow> string" where
  "after_block [] = []"
| "after_block (c # s) = (if c = CHR ''*'' \<and> s \<noteq> [] \<and> hd s = CHR ''/'' then tl s else after_block s)"

fun string_part :: "string \<Rightarrow> string \<times> string" where
  "string_part [] = ([], [])"
| "string_part (c # s) =
     (if c = CHR 0x22 then ([c], s)
      else if c = CHR 0x5C \<and> s \<noteq> [] \<and> hd s = CHR 0x22 then
        (c # CHR 0x22 # fst (string_part (tl s)), snd (string_part (tl s)))
      else (c # fst (string_part s), snd (string_part s)))"

lemma after_line_length: "length (after_line s) \<le> length s"
  by (induction s) auto

lemma after_block_length: "length (after_block s) \<le> length s"
  by (induction s) auto

lemma string_part_length: "length (snd (string_part s)) \<le> length s"
proof (induction s rule: string_part.induct)
  case (2 c s)
  show ?case
  proof (cases "c = CHR 0x22")
    case True
    then show ?thesis by simp
  next
    case q: False
    show ?thesis
    proof (cases "c = CHR 0x5C \<and> s \<noteq> [] \<and> hd s = CHR 0x22")
      case True
      then show ?thesis using 2(1)[OF q True] q by simp
    next
      case False
      then show ?thesis using 2(3)[OF q False] q by auto
    qed
  qed
qed simp

function minified :: "string \<Rightarrow> string" where
  "minified [] = []"
| "minified (c # s) =
     (if c \<in> {CHR '' '', CHR 0x09, CHR 0x0D, CHR 0x0A} then minified s
      else if c = CHR ''/'' then
        (if s \<noteq> [] \<and> hd s = CHR ''/'' then minified (after_line (tl s))
         else if s \<noteq> [] \<and> hd s = CHR ''*'' then minified (after_block (tl s))
         else minified s)
      else if c = CHR 0x22 then c # fst (string_part s) @ minified (snd (string_part s))
      else c # minified s)"
  by pat_completeness auto
termination
proof (relation "measure length", goal_cases)
  case (3 c s)
  then show ?case using after_line_length[of "tl s"] by (cases s) auto
next
  case (4 c s)
  then show ?case using after_block_length[of "tl s"] by (cases s) auto
qed (auto simp: less_Suc_eq_le string_part_length)

declare minified.simps(2) [simp del]

section \<open>The buffer holds the text\<close>

lemma rd_drop2: "drop i buf = c # d # t \<Longrightarrow> rd buf (Suc i) = Inr d \<and> drop (Suc (Suc i)) buf = t"
  using rd_drop by blast

lemma wr_take:
  assumes "out < length buf"
  shows "wr buf out c = Inr (buf[out := c])" "take (Suc out) (buf[out := c]) = take out buf @ [c]"
  using assms by (simp_all add: wr_def take_Suc_conv_app_nth)

lemma rd_upd: "rd buf i = Inr c \<Longrightarrow> out \<le> i \<Longrightarrow> rd (buf[out := c]) i = Inr c"
  by (auto simp: rd_def nth_list_update split: if_splits)

lemma oneline_text:
  "drop i buf = s @ NUL # r \<Longrightarrow> NUL \<notin> set s \<Longrightarrow> \<exists>j. oneline_loop buf i = Inr j \<and> drop j buf = after_line s @ NUL # r \<and> i \<le> j"
proof (induction s arbitrary: i)
  case Nil
  then show ?case using rd_drop[of i buf] by (subst oneline_loop.simps) simp
next
  case (Cons c s)
  then have c: "rd buf i = Inr c" "drop (Suc i) buf = s @ NUL # r" "c \<noteq> NUL" "NUL \<notin> set s" using rd_drop[of i buf] by auto
  show ?case
  proof (cases "c = CHR 0x0A")
    case True
    then show ?thesis using c by (subst oneline_loop.simps) simp
  next
    case False
    from Cons.IH[OF c(2,4)] obtain j where "oneline_loop buf (Suc i) = Inr j" "drop j buf = after_line s @ NUL # r" "Suc i \<le> j" by blast
    then show ?thesis using False c by (subst oneline_loop.simps) auto
  qed
qed

lemma multiline_text:
  "drop i buf = s @ NUL # r \<Longrightarrow> NUL \<notin> set s \<Longrightarrow> \<exists>j. multiline_loop buf i = Inr j \<and> drop j buf = after_block s @ NUL # r \<and> i \<le> j"
proof (induction s arbitrary: i)
  case Nil
  then show ?case using rd_drop[of i buf] by (subst multiline_loop.simps) simp
next
  case (Cons c s)
  then have c: "rd buf i = Inr c" "drop (Suc i) buf = s @ NUL # r" "c \<noteq> NUL" "NUL \<notin> set s" using rd_drop[of i buf] by auto
  from Cons.IH[OF c(2,4)] obtain j where
    j: "multiline_loop buf (Suc i) = Inr j" "drop j buf = after_block s @ NUL # r" "Suc i \<le> j" by blast
  show ?case
  proof (cases "c = CHR ''*''")
    case True
    obtain d t where dt: "s @ NUL # r = d # t" by (cases s) auto
    then have d: "rd buf (Suc i) = Inr d" "drop (Suc (Suc i)) buf = t" using rd_drop[of "Suc i" buf d t] c(2) by simp_all
    have hd: "(s \<noteq> [] \<and> hd s = CHR ''/'') = (d = CHR ''/'')" "s \<noteq> [] \<Longrightarrow> t = tl s @ NUL # r"
      using dt by (cases s; auto simp: NUL_def)+
    show ?thesis
    proof (cases "d = CHR ''/''")
      case sl: True
      then have "s \<noteq> []" using hd by blast
      then show ?thesis using True sl c d hd by (subst multiline_loop.simps) simp
    next
      case False
      then show ?thesis using True c d hd j by (subst multiline_loop.simps) auto
    qed
  next
    case False
    then show ?thesis using c j by (subst multiline_loop.simps) auto
  qed
qed


lemma string_text:
  "drop i buf = s @ NUL # r \<Longrightarrow> NUL \<notin> set s \<Longrightarrow> out \<le> i \<Longrightarrow>
   \<exists>buf' j out'. string_loop buf i out = Inr (buf', j, out') \<and> drop j buf' = snd (string_part s) @ NUL # r
     \<and> take out' buf' = take out buf @ fst (string_part s) \<and> out' \<le> j"
proof (induction s arbitrary: buf i out rule: string_part.induct)
  case 1
  then show ?case using rd_drop[of i buf] by (subst string_loop.simps) simp
next
  case (2 c s)
  then have c: "rd buf i = Inr c" "drop (Suc i) buf = s @ NUL # r" "c \<noteq> NUL" "NUL \<notin> set s" "i < length buf"
    using rd_drop[of i buf] drop_lt[of i buf] by auto
  let ?b = "buf[out := c]"
  have o: "out < length buf" using c(5) 2(7) by simp
  have b: "wr buf out c = Inr ?b" "take (Suc out) ?b = take out buf @ [c]" "rd ?b i = Inr c"
    "drop (Suc i) ?b = s @ NUL # r"
    using wr_take[OF o] rd_upd[OF c(1) 2(7)] c(2) 2(7) by simp_all
  show ?case
  proof (cases "c = CHR 0x22")
    case True
    moreover have "wr ?b out (CHR 0x22) = Inr ?b" using True o by (simp add: wr_def)
    ultimately have "string_loop buf i out = Inr (?b, Suc i, Suc out)" using c(1,3) b(1,3)
      by (simp add: string_loop.simps[of buf i out])
    then show ?thesis using b True 2(7) by simp
  next
    case q: False
    show ?thesis
    proof (cases "c = CHR 0x5C \<and> s \<noteq> [] \<and> hd s = CHR 0x22")
      case True
      then obtain t where t: "s = CHR 0x22 # t" by (cases s) auto
      have d: "rd ?b (Suc i) = Inr (CHR 0x22)" "drop (Suc (Suc i)) ?b = t @ NUL # r" "Suc i < length ?b"
        using rd_drop[of "Suc i" ?b "CHR 0x22" "t @ NUL # r"] drop_lt[of "Suc i" ?b] b(4) t by simp_all
      let ?b2 = "?b[Suc out := CHR 0x22]"
      have o2: "Suc out < length ?b" using d(3) 2(7) by simp
      have w: "wr ?b (Suc out) (CHR 0x22) = Inr ?b2" "take (Suc (Suc out)) ?b2 = take (Suc out) ?b @ [CHR 0x22]"
        "drop (Suc (Suc i)) ?b2 = tl s @ NUL # r"
        using wr_take[OF o2] d(2) 2(7) t by simp_all
      have run: "string_loop buf i out = string_loop ?b2 (Suc (Suc i)) (Suc (Suc out))"
        using True q c(1,3) b(1,3) d(1) w(1) by (simp add: string_loop.simps[of buf i out])
      have "\<exists>buf' j out'. string_loop ?b2 (Suc (Suc i)) (Suc (Suc out)) = Inr (buf', j, out')
          \<and> drop j buf' = snd (string_part (tl s)) @ NUL # r
          \<and> take out' buf' = take (Suc (Suc out)) ?b2 @ fst (string_part (tl s)) \<and> out' \<le> j"
        using 2(1)[OF q True w(3)] c(4) t 2(7) by simp
      then show ?thesis using run w(2) b(2) True q by simp
    next
      case False
      have run: "string_loop buf i out = string_loop ?b (Suc i) (Suc out)"
      proof (cases "c = CHR 0x5C")
        case True
        obtain d t where dt: "s @ NUL # r = d # t" by (cases s) auto
        then have d: "rd ?b (Suc i) = Inr d" using rd_drop[of "Suc i" ?b d t] b(4) by simp
        have "d \<noteq> CHR 0x22" using False True dt by (cases s) (auto simp: NUL_def)
        then show ?thesis using True q c(1,3) b(1,3) d by (simp add: string_loop.simps[of buf i out])
      next
        case False
        then show ?thesis using q c(1,3) b(1,3) by (simp add: string_loop.simps[of buf i out])
      qed
      have "\<exists>buf' j out'. string_loop ?b (Suc i) (Suc out) = Inr (buf', j, out')
          \<and> drop j buf' = snd (string_part s) @ NUL # r
          \<and> take out' buf' = take (Suc out) ?b @ fst (string_part s) \<and> out' \<le> j"
        using 2(3)[OF q False b(4) c(4)] 2(7) by simp
      then show ?thesis using run b(2) q False by auto
    qed
  qed
qed

lemma after_set: "set (after_line s) \<subseteq> set s" "set (after_block s) \<subseteq> set s"
  by (induction s) (auto dest: list.set_sel(2))

lemma string_part_append: "fst (string_part s) @ snd (string_part s) = s"
proof (induction s rule: string_part.induct)
  case (2 c s)
  show ?case
  proof (cases "c = CHR 0x22")
    case q: False
    show ?thesis
    proof (cases "c = CHR 0x5C \<and> s \<noteq> [] \<and> hd s = CHR 0x22")
      case True
      then have "s = CHR 0x22 # tl s" by (metis list.collapse)
      then show ?thesis using 2(1)[OF q True] q True by simp
    next
      case False
      then show ?thesis using 2(3)[OF q False] q by auto
    qed
  qed simp
qed simp


lemma string_part_set: "set (snd (string_part s)) \<subseteq> set s"
  by (metis string_part_append set_append Un_upper2)

lemma minify_text:
  "drop i buf = s @ NUL # r \<Longrightarrow> NUL \<notin> set s \<Longrightarrow> out \<le> i \<Longrightarrow>
   \<exists>buf' out'. minify_loop buf i out = Inr (buf', out') \<and> take out' buf' = take out buf @ minified s
     \<and> out' < length buf' \<and> length buf' = length buf"
proof (induction s arbitrary: buf i out rule: minified.induct)
  case 1
  then show ?case using rd_drop[of i buf] drop_lt[of i buf] by (subst minify_loop.simps) auto
next
  case (2 c s)
  note nul = 2(8) and le = 2(9)
  from 2(7) nul have c: "rd buf i = Inr c" "drop (Suc i) buf = s @ NUL # r" "c \<noteq> NUL" "NUL \<notin> set s" "i < length buf"
    using rd_drop[of i buf] drop_lt[of i buf] by auto
  have o: "out < length buf" using c(5) le by simp
  note step = minify_loop.simps[of buf i out] c(1)
  show ?case
  proof (cases "c \<in> {CHR '' '', CHR 0x09, CHR 0x0D, CHR 0x0A}")
    case True
    then show ?thesis using 2(1)[OF True c(2,4)] le c(3) by (simp add: step minified.simps(2))
  next
    case w: False
    show ?thesis
    proof (cases "c = CHR ''/''")
      case sl: True
      obtain d t where dt: "s @ NUL # r = d # t" by (cases s) auto
      then have d: "rd buf (Suc i) = Inr d" "drop (Suc (Suc i)) buf = t" using rd_drop[of "Suc i" buf d t] c(2) by simp_all
      have hd: "\<And>x. x \<noteq> NUL \<Longrightarrow> (s \<noteq> [] \<and> hd s = x) = (d = x)" "s \<noteq> [] \<Longrightarrow> t = tl s @ NUL # r \<and> NUL \<notin> set (tl s)"
        using dt c(4) by (cases s; auto)+
      have ne: "CHR ''/'' \<noteq> NUL" "CHR ''*'' \<noteq> NUL" by (simp_all add: NUL_def)
      show ?thesis
      proof (cases "d = CHR ''/''")
        case True
        then have h: "s \<noteq> [] \<and> hd s = CHR ''/''" using hd(1)[OF ne(1)] by simp
        then have t: "drop (i + 2) buf = tl s @ NUL # r" "NUL \<notin> set (tl s)" using d hd(2) by simp_all
        from oneline_text[OF t] obtain j where
          j: "skip_oneline_comment buf i = Inr j" "drop j buf = after_line (tl s) @ NUL # r" "i + 2 \<le> j"
          unfolding skip_oneline_comment_def by blast
        have n: "NUL \<notin> set (after_line (tl s))" using after_set(1)[of "tl s"] t(2) by blast
        have le2: "out \<le> j" using j(3) le by simp
        show ?thesis using 2(2)[OF w sl h j(2) n le2] w sl h c(3) d(1) j(1) True by (simp add: step minified.simps(2))
      next
        case False
        then have nh: "\<not> (s \<noteq> [] \<and> hd s = CHR ''/'')" using hd(1)[OF ne(1)] by simp
        show ?thesis
        proof (cases "d = CHR ''*''")
          case True
          then have h: "s \<noteq> [] \<and> hd s = CHR ''*''" using hd(1)[OF ne(2)] by simp
          then have t: "drop (i + 2) buf = tl s @ NUL # r" "NUL \<notin> set (tl s)" using d hd(2) by simp_all
          from multiline_text[OF t] obtain j where
            j: "skip_multiline_comment buf i = Inr j" "drop j buf = after_block (tl s) @ NUL # r" "i + 2 \<le> j"
            unfolding skip_multiline_comment_def by blast
          have n: "NUL \<notin> set (after_block (tl s))" using after_set(2)[of "tl s"] t(2) by blast
          have le2: "out \<le> j" using j(3) le by simp
          show ?thesis using 2(3)[OF w sl nh h j(2) n le2] w sl h c(3) d(1) j(1) True by (simp add: step minified.simps(2))
        next
          case ns: False
          then have nh2: "\<not> (s \<noteq> [] \<and> hd s = CHR ''*'')" using hd(1)[OF ne(2)] by simp
          have le2: "out \<le> Suc i" using le by simp
          show ?thesis using 2(4)[OF w sl nh nh2 c(2,4) le2] w sl nh nh2 c(3) d(1) False ns by (auto simp: step minified.simps(2))
        qed
      qed
    next
      case ns: False
      show ?thesis
      proof (cases "c = CHR 0x22")
        case q: True
        let ?b = "buf[out := c]"
        have b: "wr buf out c = Inr ?b" "take (Suc out) ?b = take out buf @ [c]" "drop (Suc i) ?b = s @ NUL # r"
          using wr_take[OF o] c(2) le by simp_all
        from string_text[OF b(3) c(4), of "Suc out"] le obtain b2 j o2 where
          b2: "string_loop ?b (Suc i) (Suc out) = Inr (b2, j, o2)" "drop j b2 = snd (string_part s) @ NUL # r"
            "take o2 b2 = take (Suc out) ?b @ fst (string_part s)" "o2 \<le> j" by auto
        have ms: "minify_string buf i out = Inr (b2, j, o2)" using c(1) b b2(1) by (simp add: minify_string_def)
        have n: "NUL \<notin> set (snd (string_part s))" using string_part_set[of s] c(4) by blast
        have len: "length b2 = length buf" using string_loop_forward[OF b2(1)] by simp
        show ?thesis using 2(5)[OF w ns q b2(2) n b2(4)] ms w ns q c(3) b(2) b2(3) len by (simp add: step minified.simps(2))
      next
        case q: False
        let ?b = "buf[out := c]"
        have b: "wr buf out c = Inr ?b" "take (Suc out) ?b = take out buf @ [c]" "drop (Suc i) ?b = s @ NUL # r"
          using wr_take[OF o] c(2) le by simp_all
        show ?thesis using 2(6)[OF w ns q b(3) c(4), of "Suc out"] w ns q c(3) b le by (simp add: step minified.simps(2))
      qed
    qed
  qed
qed


section \<open>Minified text stays the same\<close>

text \<open>What \<open>string_part\<close> copies is read back as one string, whatever follows a closed one.\<close>

lemma string_part_again: "string_part (fst (string_part s)) = (fst (string_part s), [])"
proof (induction s rule: string_part.induct)
  case (2 c s)
  show ?case
  proof (cases "c = CHR 0x22")
    case q: False
    show ?thesis
    proof (cases "c = CHR 0x5C \<and> s \<noteq> [] \<and> hd s = CHR 0x22")
      case True
      then show ?thesis using 2(1)[OF q True] q by simp
    next
      case False
      have "fst (string_part s) \<noteq> [] \<Longrightarrow> hd (fst (string_part s)) = hd s" by (cases s) auto
      moreover have "fst (string_part s) \<noteq> [] \<Longrightarrow> s \<noteq> []" by (cases s) auto
      ultimately show ?thesis using 2(3)[OF q False] q False by auto
    qed
  qed simp
qed simp

lemma string_part_prefix: "snd (string_part s) \<noteq> [] \<Longrightarrow> string_part (fst (string_part s) @ t) = (fst (string_part s), t)"
proof (induction s rule: string_part.induct)
  case (2 c s)
  show ?case
  proof (cases "c = CHR 0x22")
    case q: False
    show ?thesis
    proof (cases "c = CHR 0x5C \<and> s \<noteq> [] \<and> hd s = CHR 0x22")
      case True
      then show ?thesis using 2(1)[OF q True] 2(5) q by simp
    next
      case False
      have ne: "snd (string_part s) \<noteq> []" using 2(5) q False by auto
      then have "fst (string_part s) \<noteq> [] \<and> s \<noteq> []" by (cases s) (auto split: if_splits)
      moreover have "hd (fst (string_part s)) = hd s" using calculation by (cases s) auto
      ultimately show ?thesis using 2(3)[OF q False ne] q False by auto
    qed
  qed simp
qed simp


abbreviation blank_char :: "char \<Rightarrow> bool" where
  "blank_char c \<equiv> c \<in> {CHR '' '', CHR 0x09, CHR 0x0D, CHR 0x0A}"

lemma minified_cases:
  "blank_char c \<Longrightarrow> minified (c # s) = minified s"
  "\<not> blank_char c \<Longrightarrow> c \<noteq> CHR ''/'' \<Longrightarrow> c = CHR 0x22 \<Longrightarrow>
     minified (c # s) = c # fst (string_part s) @ minified (snd (string_part s))"
  "\<not> blank_char c \<Longrightarrow> c \<noteq> CHR ''/'' \<Longrightarrow> c \<noteq> CHR 0x22 \<Longrightarrow> minified (c # s) = c # minified s"
  by (simp_all only: minified.simps(2) if_True if_False simp_thms)

text \<open>After a slash the scan goes on with what one of the three cases leaves.\<close>

lemma minified_slash:
  assumes "\<not> blank_char c" "c = CHR ''/''"
  obtains t where "minified (c # s) = minified t" "set t \<subseteq> set s"
    "(s \<noteq> [] \<and> hd s = CHR ''/'') \<and> t = after_line (tl s)
     \<or> \<not> (s \<noteq> [] \<and> hd s = CHR ''/'') \<and> (s \<noteq> [] \<and> hd s = CHR ''*'') \<and> t = after_block (tl s)
     \<or> \<not> (s \<noteq> [] \<and> hd s = CHR ''/'') \<and> \<not> (s \<noteq> [] \<and> hd s = CHR ''*'') \<and> t = s"
proof -
  have tl: "set (after_line (tl s)) \<subseteq> set s" "set (after_block (tl s)) \<subseteq> set s"
    using after_set[of "tl s"] in_set_tlD[of _ s] by blast+
  note e = minified.simps(2)[of c s, unfolded if_not_P[OF assms(1)] if_P[OF assms(2)]]
  show thesis
  proof (cases "s \<noteq> [] \<and> hd s = CHR ''/''")
    case True
    then show ?thesis using that[of "after_line (tl s)"] e tl by simp
  next
    case n: False
    show ?thesis
    proof (cases "s \<noteq> [] \<and> hd s = CHR ''*''")
      case True
      then show ?thesis using that[of "after_block (tl s)"] e tl by simp
    next
      case False
      have "minified (c # s) = minified s" using e n False by (simp only: if_False)
      then show ?thesis using that[of s] n False by blast
    qed
  qed
qed

lemma minified_idem: "minified (minified s) = minified s"
proof (induction s rule: minified.induct)
  case (2 c s)
  show ?case
  proof (cases "blank_char c")
    case True
    then show ?thesis using 2(1)[OF True] by (simp only: minified_cases(1))
  next
    case w: False
    show ?thesis
    proof (cases "c = CHR ''/''")
      case True
      obtain t where t: "minified (c # s) = minified t"
        "(s \<noteq> [] \<and> hd s = CHR ''/'') \<and> t = after_line (tl s)
         \<or> \<not> (s \<noteq> [] \<and> hd s = CHR ''/'') \<and> (s \<noteq> [] \<and> hd s = CHR ''*'') \<and> t = after_block (tl s)
         \<or> \<not> (s \<noteq> [] \<and> hd s = CHR ''/'') \<and> \<not> (s \<noteq> [] \<and> hd s = CHR ''*'') \<and> t = s"
        using minified_slash[OF w True] by metis
      then have "minified (minified t) = minified t" using 2(2-4)[OF w True] by blast
      then show ?thesis using t(1) by simp
    next
      case ns: False
      show ?thesis
      proof (cases "c = CHR 0x22")
        case True
        note e = minified_cases(2)[OF w ns True]
        show ?thesis
        proof (cases "snd (string_part s) = []")
          case n: True
          then show ?thesis by (simp add: e string_part_again)
        next
          case False
          then show ?thesis using 2(5)[OF w ns True] by (simp add: e string_part_prefix)
        qed
      next
        case False
        then show ?thesis using 2(6)[OF w ns False] by (simp only: minified_cases(3)[OF w ns False])
      qed
    qed
  qed
qed simp

lemma minified_set: "set (minified s) \<subseteq> set s"
proof (induction "length s" arbitrary: s rule: less_induct)
  case less
  show ?case
  proof (cases s)
    case (Cons c u)
    have q: "set (fst (string_part u)) \<subseteq> set u" "set (snd (string_part u)) \<subseteq> set u" "length (snd (string_part u)) \<le> length u"
      using arg_cong[OF string_part_append[of u], of set] string_part_length[of u] by auto
    have IH: "set (minified t) \<subseteq> set t" if "length t \<le> length u" for t using less[of t] Cons that by simp
    consider "blank_char c" | "\<not> blank_char c" "c = CHR ''/''" | "\<not> blank_char c" "c \<noteq> CHR ''/''" "c = CHR 0x22"
      | "\<not> blank_char c" "c \<noteq> CHR ''/''" "c \<noteq> CHR 0x22" by blast
    then show ?thesis
    proof cases
      case 1
      then show ?thesis using IH[of u] Cons minified_cases(1)[of c u] by auto
    next
      case 2
      from minified_slash[OF 2, of u] obtain t where t: "minified (c # u) = minified t" "set t \<subseteq> set u"
        "t = after_line (tl u) \<or> t = after_block (tl u) \<or> t = u" by metis
      then have "length t \<le> length u"
        using after_line_length[of "tl u"] after_block_length[of "tl u"] by auto
      then show ?thesis using IH[of t] t Cons by auto
    next
      case 3
      then show ?thesis using IH[OF q(3)] q Cons minified_cases(2)[OF 3, of u] by auto
    next
      case 4
      then show ?thesis using IH[of u] Cons minified_cases(3)[OF 4, of u] by auto
    qed
  qed simp
qed

section \<open>Properties\<close>

lemma minify_run:
  assumes "NUL \<notin> set s"
  shows "\<exists>buf. cJSON_Minify (Some (s @ NUL # r)) = Inr (Some buf) \<and> cstr buf = minified s \<and> length buf = Suc (length s + length r)
    \<and> NUL \<in> set buf"
proof -
  from minify_text[of 0 "s @ NUL # r" s r 0] assms obtain b n where
    b: "minify_loop (s @ NUL # r) 0 0 = Inr (b, n)" "take n b = minified s" "n < length b" "length b = length (s @ NUL # r)" by auto
  have e: "b[n := NUL] = minified s @ NUL # drop (Suc n) b" using b by (simp add: upd_conv_take_nth_drop)
  have "NUL \<notin> set (minified s)" using minified_set[of s] assms by blast
  then have "cstr (b[n := NUL]) = minified s" 
    unfolding e cstr_def by (subst takeWhile_append2) auto
  moreover have "cJSON_Minify (Some (s @ NUL # r)) = Inr (Some (b[n := NUL]))"
    using b by (simp add: cJSON_Minify_def wr_def)
  moreover have "length (b[n := NUL]) = Suc (length s + length r)" using b(4) by simp
  moreover have "NUL \<in> set (b[n := NUL])" unfolding e by simp
  ultimately show ?thesis by blast
qed

text \<open>C15: \<open>cJSON_Minify\<close> rewrites every NUL-terminated buffer in place, without reading or writing
  outside it, to the text of the reference definition \<open>minified\<close>: whitespace and comments outside
  of strings are dropped, everything else is kept.\<close>

theorem cJSON_Minify_in_place:
  assumes "NUL \<notin> set s"
  shows "\<exists>buf. cJSON_Minify (Some (s @ NUL # r)) = Inr (Some buf) \<and> cstr buf = minified s
    \<and> length buf = Suc (length s + length r)"
  using minify_run[OF assms] by blast

theorem cJSON_Minify_in_place_witness:
  "\<exists>buf. cJSON_Minify (Some (''[1, /* x */ 2]'' @ [NUL])) = Inr (Some buf) \<and> cstr buf = ''[1,2]''"
proof -
  have "NUL \<notin> set ''[1, /* x */ 2]''" by (simp add: NUL_def)
  moreover have "minified ''[1, /* x */ 2]'' = ''[1,2]''" by code_simp
  ultimately show ?thesis using cJSON_Minify_in_place[of "''[1, /* x */ 2]''" "[]"] by auto
qed

text \<open>Minifying a minified buffer leaves its text as it is.\<close>

theorem cJSON_Minify_idempotent:
  assumes "NUL \<notin> set s"
  shows "\<exists>buf buf'. cJSON_Minify (Some (s @ NUL # r)) = Inr (Some buf) \<and> cJSON_Minify (Some buf) = Inr (Some buf')
    \<and> cstr buf' = cstr buf"
proof -
  from minify_run[OF assms, of r] obtain buf where
    b: "cJSON_Minify (Some (s @ NUL # r)) = Inr (Some buf)" "cstr buf = minified s" "NUL \<in> set buf" by auto
  have "dropWhile (\<lambda>c. c \<noteq> NUL) buf \<noteq> []" using b(3) by (simp add: dropWhile_eq_Nil_conv)
  then obtain r' where r': "dropWhile (\<lambda>c. c \<noteq> NUL) buf = NUL # r'"
    using hd_dropWhile[of "\<lambda>c. c \<noteq> NUL" buf] by (cases "dropWhile (\<lambda>c. c \<noteq> NUL) buf") auto
  have "buf = cstr buf @ NUL # r'" unfolding cstr_def r'[symmetric] by simp
  with minify_run[OF NUL_notin_cstr, of buf r'] obtain buf' where
    "cJSON_Minify (Some buf) = Inr (Some buf')" "cstr buf' = minified (cstr buf)" by auto
  then show ?thesis using b minified_idem by metis
qed

theorem cJSON_Minify_idempotent_witness:
  "\<exists>buf buf'. cJSON_Minify (Some (''{ } // x'' @ [NUL])) = Inr (Some buf) \<and> cJSON_Minify (Some buf) = Inr (Some buf')
    \<and> cstr buf' = cstr buf"
proof -
  have "NUL \<notin> set ''{ } // x''" by (simp add: NUL_def)
  then show ?thesis using cJSON_Minify_idempotent[of "''{ } // x''" "[]"] by simp
qed

text \<open>An escaped backslash at the end of a string is taken for the escape of its closing quote:
  the text after it is then scanned with strings and gaps exchanged, and a blank inside the next
  string is lost. The value of the document changes.\<close>

theorem cJSON_Minify_escaped_backslash:
  "\<exists>buf. cJSON_Minify (Some ([CHR ''['', CHR 0x22, CHR 0x5C, CHR 0x5C, CHR 0x22, CHR '','', CHR 0x22, CHR ''a'',
      CHR '' '', CHR ''b'', CHR 0x22, CHR '']''] @ [NUL])) = Inr (Some buf)
    \<and> cstr buf = [CHR ''['', CHR 0x22, CHR 0x5C, CHR 0x5C, CHR 0x22, CHR '','', CHR 0x22, CHR ''a'', CHR ''b'',
      CHR 0x22, CHR '']'']"
proof -
  let ?s = "[CHR ''['', CHR 0x22, CHR 0x5C, CHR 0x5C, CHR 0x22, CHR '','', CHR 0x22, CHR ''a'', CHR '' '', CHR ''b'',
      CHR 0x22, CHR '']'']"
  have "NUL \<notin> set ?s" by (simp add: NUL_def)
  moreover have "minified ?s = [CHR ''['', CHR 0x22, CHR 0x5C, CHR 0x5C, CHR 0x22, CHR '','', CHR 0x22, CHR ''a'', CHR ''b'',
      CHR 0x22, CHR '']'']" by code_simp
  ultimately show ?thesis using minify_run[of ?s "[]"] by auto
qed

end
