(* ===== verification/BlockHash.thy ===== *)
theory BlockHash
  imports Prelude
begin

text \<open>
  What the two hash functions of \<open>src/utils\<close> share: a state that absorbs blocks of 64 bytes,
  a buffer for the bytes of an unfinished block, and a count of bits. The first
  lemmas are about how a message that comes in pieces is cut into blocks; the interface
  \<open>hash_context\<close> is what an update of a context promises, and what follows from it for a
  message in any number of pieces.
\<close>

section \<open>Octets\<close>

text \<open>
  The two standards read and write numbers as octets: \<open>octets k n\<close> are the \<open>k\<close> lowest of a
  number, the lowest first, and \<open>octets_val\<close> is the number that octets in this order stand for.
  The order with the highest first is the reverse.
\<close>

primrec octets :: "nat \<Rightarrow> nat \<Rightarrow> string" where
  "octets 0 n = []"
| "octets (Suc k) n = char_of (n mod 256) # octets k (n div 256)"

primrec octets_val :: "string \<Rightarrow> nat" where
  "octets_val [] = 0"
| "octets_val (c # cs) = of_char c + 256 * octets_val cs"

lemma length_octets [simp]: "length (octets k n) = k"
  by (induction k arbitrary: n) simp_all

lemma octets_append: "octets (j + k) n = octets j n @ octets k (n div 256 ^ j)"
  by (induction j arbitrary: n) (simp_all add: div_mult2_eq)

lemma octets_mod: "octets k (n mod 256 ^ k) = octets k n"
proof (induction k arbitrary: n)
  case (Suc k)
  have "n mod 256 ^ Suc k mod 256 = n mod 256" by (simp add: mod_mod_cancel)
  moreover have "n mod 256 ^ Suc k div 256 = n div 256 mod 256 ^ k"
    by (simp add: mod_mult2_eq)
  ultimately show ?case using Suc by simp
qed simp

section \<open>Blocks\<close>

text \<open>Absorbing the whole blocks of a message, the rest ignored.\<close>

function blocks :: "('s \<Rightarrow> string \<Rightarrow> 's) \<Rightarrow> 's \<Rightarrow> string \<Rightarrow> 's" where
  "blocks f h msg = (if length msg < 64 then h else blocks f (f h (take 64 msg)) (drop 64 msg))"
  by pat_completeness auto
termination
  by (relation "measure (\<lambda>(f, h, msg). length msg)") auto

declare blocks.simps [simp del]

definition tail_len :: "string \<Rightarrow> nat" where "tail_len msg = length msg mod 64"

definition tail_of :: "string \<Rightarrow> string" where "tail_of msg = drop (64 * (length msg div 64)) msg"

lemma length_tail_of [simp]: "length (tail_of msg) = tail_len msg"
  by (simp add: tail_of_def tail_len_def minus_mult_div_eq_mod)

lemma tail_len_less: "tail_len msg < 64"
  by (simp add: tail_len_def)

lemma tail_of_short: "length msg < 64 \<Longrightarrow> tail_of msg = msg"
  by (simp add: tail_of_def)

lemma tail_of_drop: "64 \<le> length msg \<Longrightarrow> tail_of msg = tail_of (drop 64 msg)"
proof -
  assume "64 \<le> length msg"
  then have "length msg div 64 = Suc ((length msg - 64) div 64)" by (simp add: le_div_geq)
  then show ?thesis by (simp add: tail_of_def add.commute)
qed

lemma blocks_append: "blocks f h (msg @ data) = blocks f (blocks f h msg) (tail_of msg @ data)"
proof (induction f h msg rule: blocks.induct)
  case (1 f h msg)
  show ?case
  proof (cases "length msg < 64")
    case True
    then show ?thesis by (simp add: tail_of_short blocks.simps[of f h msg])
  next
    case False
    then have "blocks f h (msg @ data) = blocks f (f h (take 64 msg)) (drop 64 msg @ data)"
      by (subst blocks.simps) simp
    also have "\<dots> = blocks f (blocks f (f h (take 64 msg)) (drop 64 msg)) (tail_of (drop 64 msg) @ data)"
      using 1 False by blast
    also have "blocks f (f h (take 64 msg)) (drop 64 msg) = blocks f h msg"
      using False by (subst (2) blocks.simps) simp
    also have "tail_of (drop 64 msg) = tail_of msg" using False tail_of_drop[of msg] by simp
    finally show ?thesis .
  qed
qed

lemma tail_of_append: "tail_of (msg @ data) = tail_of (tail_of msg @ data)"
proof (induction msg rule: length_induct)
  case (1 msg)
  show ?case
  proof (cases "length msg < 64")
    case True
    then show ?thesis by (simp add: tail_of_short)
  next
    case False
    then have "tail_of (msg @ data) = tail_of (drop 64 msg @ data)"
      using tail_of_drop[of "msg @ data"] by simp
    also have "\<dots> = tail_of (tail_of (drop 64 msg) @ data)" using 1 False by simp
    finally show ?thesis using False tail_of_drop[of msg] by simp
  qed
qed

lemma tail_len_append: "tail_len (msg @ data) = (tail_len msg + length data) mod 64"
  by (simp add: tail_len_def mod_add_left_eq)

section \<open>The buffered state\<close>

text \<open>The state and buffer of a context that has absorbed \<open>msg\<close>.\<close>

definition absorbed :: "('s \<Rightarrow> string \<Rightarrow> 's) \<Rightarrow> 's \<Rightarrow> string \<Rightarrow> 's \<Rightarrow> string \<Rightarrow> bool" where
  "absorbed f h0 msg st buf = (length buf = 64 \<and> st = blocks f h0 msg \<and> take (tail_len msg) buf = tail_of msg)"

lemma absorbed_short:
  assumes "absorbed f h0 msg st buf" "tail_len msg + length data < 64"
  shows "wr_bytes buf (tail_len msg) data = Inr (take (tail_len msg) buf @ data @ drop (tail_len msg + length data) buf)"
    and "absorbed f h0 (msg @ data) st (take (tail_len msg) buf @ data @ drop (tail_len msg + length data) buf)"
proof -
  have len: "length buf = 64" and tl: "take (tail_len msg) buf = tail_of msg" and st: "st = blocks f h0 msg"
    using assms(1) by (auto simp: absorbed_def)
  show "wr_bytes buf (tail_len msg) data = Inr (take (tail_len msg) buf @ data @ drop (tail_len msg + length data) buf)"
    using assms(2) len by (simp add: wr_bytes_def)
  have short: "length (tail_of msg @ data) < 64" using assms(2) by simp
  have "blocks f h0 (msg @ data) = st"
    using blocks_append[of f h0 msg data] st short blocks.simps[of f st "tail_of msg @ data"] by simp
  moreover have "tail_of (msg @ data) = tail_of msg @ data"
    using tail_of_append[of msg data] tail_of_short[OF short] by simp
  moreover have "tail_len (msg @ data) = tail_len msg + length data"
    using assms(2) by (simp add: tail_len_append)
  ultimately show "absorbed f h0 (msg @ data) st (take (tail_len msg) buf @ data @ drop (tail_len msg + length data) buf)"
    using len assms(2) tl by (simp add: absorbed_def)
qed

lemma absorbed_full:
  assumes "absorbed f h0 msg st buf" "64 \<le> tail_len msg + length data"
  defines "k \<equiv> 64 - tail_len msg"
  shows "wr_bytes buf (tail_len msg) (take k data) = Inr (take (tail_len msg) buf @ take k data)"
    and "blocks f h0 (msg @ data) = blocks f (f st (take (tail_len msg) buf @ take k data)) (drop k data)"
    and "tail_of (msg @ data) = tail_of (drop k data)"
    and "length (take (tail_len msg) buf @ take k data) = 64"
proof -
  have len: "length buf = 64" and tl: "take (tail_len msg) buf = tail_of msg" and st: "st = blocks f h0 msg"
    using assms(1) by (auto simp: absorbed_def)
  have k: "k \<le> length data" "tail_len msg + k = 64" using assms(2) tail_len_less[of msg] by (simp_all add: k_def)
  show "wr_bytes buf (tail_len msg) (take k data) = Inr (take (tail_len msg) buf @ take k data)"
    using len k by (simp add: wr_bytes_def)
  have long: "\<not> length (tail_of msg @ data) < 64" using assms(2) by simp
  have tk: "take 64 (tail_of msg @ data) = tail_of msg @ take k data"
      "drop 64 (tail_of msg @ data) = drop k data"
    using k by (simp_all add: k_def less_imp_le[OF tail_len_less])
  show "blocks f h0 (msg @ data) = blocks f (f st (take (tail_len msg) buf @ take k data)) (drop k data)"
    using blocks_append[of f h0 msg data] blocks.simps[of f st "tail_of msg @ data"] long st
    by (simp only: tk tl if_False)
  show "tail_of (msg @ data) = tail_of (drop k data)"
    using tail_of_append[of msg data] long tk(2) tail_of_drop[of "tail_of msg @ data"] by simp
  show "length (take (tail_len msg) buf @ take k data) = 64" using len k by simp
qed

text \<open>Storing the rest of the data at the front of the buffer.\<close>

lemma absorbed_store:
  assumes "length buf = 64" "st = blocks f h0 (msg @ data)" "tail_of (msg @ data) = t"
  shows "wr_bytes buf 0 t = Inr (t @ drop (length t) buf)" "absorbed f h0 (msg @ data) st (t @ drop (length t) buf)"
proof -
  have "length t = tail_len (msg @ data)" using assms(3) by (metis length_tail_of)
  then show "wr_bytes buf 0 t = Inr (t @ drop (length t) buf)" "absorbed f h0 (msg @ data) st (t @ drop (length t) buf)"
    using assms tail_len_less[of "msg @ data"] by (simp_all add: wr_bytes_def absorbed_def)
qed

section \<open>Contexts\<close>

text \<open>An update appends to the message a context has absorbed; \<open>fits\<close> bounds the message.\<close>

locale hash_context =
  fixes update :: "'c \<Rightarrow> string \<Rightarrow> 'c cres" and absorbs :: "'c \<Rightarrow> string \<Rightarrow> bool" and fits :: "string \<Rightarrow> bool"
  assumes update_absorbs: "absorbs c msg \<Longrightarrow> fits (msg @ data) \<Longrightarrow> \<exists>c'. update c data = Inr c' \<and> absorbs c' (msg @ data)"
    and fits_prefix: "fits (msg @ data) \<Longrightarrow> fits msg"
begin

primrec updates :: "'c \<Rightarrow> string list \<Rightarrow> 'c cres" where
  "updates c [] = Inr c"
| "updates c (d # ds) = cbind (update c d) (\<lambda>c. updates c ds)"

lemma updates_absorb:
  "absorbs c msg \<Longrightarrow> fits (msg @ concat ds) \<Longrightarrow> \<exists>c'. updates c ds = Inr c' \<and> absorbs c' (msg @ concat ds)"
proof (induction ds arbitrary: c msg)
  case (Cons d ds)
  have "fits ((msg @ d) @ concat ds)" using Cons.prems(2) by simp
  then obtain c1 where "update c d = Inr c1" "absorbs c1 (msg @ d)"
    using update_absorbs[OF Cons.prems(1), of d] fits_prefix by blast
  with Cons.IH[of c1 "msg @ d"] Cons.prems(2) show ?case by simp
qed simp

end

end
