(* ===== verification/Sha1.thy ===== *)
theory Sha1
  imports BlockHash
begin

text \<open>
  SHA-1: \<open>src/utils/sha1.c\<close>. The context, the transform of one block with its macros, and
  the functions that use them, on 32-bit words. The transform keeps a window of sixteen
  schedule words and moves the roles of its five variables; it is shown equal to the
  definition of FIPS 180, and the streaming functions to that definition on the padded message.
\<close>

unbundle bit_operations_syntax

type_synonym w32 = "32 word"

section \<open>Macros\<close>

definition rol :: "w32 \<Rightarrow> nat \<Rightarrow> w32" where
  "rol value' bits = push_bit bits value' OR drop_bit (32 - bits) value'"

definition byte_word :: "char \<Rightarrow> w32" where "byte_word c = word_of_int (byte_of c)"

text \<open>A 32-bit load from memory, on a little-endian machine.\<close>

definition le_word :: "string \<Rightarrow> w32" where
  "le_word b = byte_word (b ! 0) OR push_bit 8 (byte_word (b ! 1)) OR push_bit 16 (byte_word (b ! 2))
     OR push_bit 24 (byte_word (b ! 3))"

text \<open>\<open>blk0\<close> and \<open>blk\<close> store the word they give into the block.\<close>

definition blk0 :: "w32 list \<Rightarrow> nat \<Rightarrow> w32 list" where
  "blk0 l i = l[i := (rol (l ! i) 24 AND 0xFF00FF00) OR (rol (l ! i) 8 AND 0x00FF00FF)]"

definition blk :: "w32 list \<Rightarrow> nat \<Rightarrow> w32 list" where
  "blk l i = l[i mod 16 := rol (l ! ((i + 13) mod 16) XOR l ! ((i + 8) mod 16) XOR l ! ((i + 2) mod 16) XOR l ! (i mod 16)) 1]"

text \<open>
  The operations \<open>R0\<close> to \<open>R4\<close>, for the rounds they are used in: the function of
  \<open>w\<close>, \<open>x\<close>, \<open>y\<close> and the constant.
\<close>

definition R_fun :: "nat \<Rightarrow> w32 \<Rightarrow> w32 \<Rightarrow> w32 \<Rightarrow> w32" where
  "R_fun i w x y =
     (if i < 20 then (w AND (x XOR y)) XOR y
      else if i < 40 then w XOR x XOR y
      else if i < 60 then ((w OR x) AND y) OR (w AND x)
      else w XOR x XOR y)"

definition R_const :: "nat \<Rightarrow> w32" where
  "R_const i = (if i < 20 then 0x5A827999 else if i < 40 then 0x6ED9EBA1 else if i < 60 then 0x8F1BBCDC else 0xCA62C1D6)"

text \<open>
  One operation of \<open>SHA1Transform\<close>. The variables \<open>a\<close> to \<open>e\<close> are a list; the arguments
  \<open>v\<close>, \<open>w\<close>, \<open>x\<close>, \<open>y\<close>, \<open>z\<close> of operation \<open>i\<close> are its entries from position \<open>-i\<close> modulo 5 on:
  \<open>R0(a, b, c, d, e, 0)\<close>, \<open>R0(e, a, b, c, d, 1)\<close>, and so on.
\<close>

definition role :: "nat \<Rightarrow> nat \<Rightarrow> nat" where
  "role i k = (80 - i + k) mod 5"

definition R_op :: "w32 list \<times> w32 list \<Rightarrow> nat \<Rightarrow> w32 list \<times> w32 list" where
  "R_op s i =
     (case s of (l, vs) \<Rightarrow>
        let l = (if i < 16 then blk0 l i else blk l i);
            v = vs ! role i 0; w = vs ! role i 1; x = vs ! role i 2; y = vs ! role i 3; z = vs ! role i 4;
            vs = vs[role i 4 := z + (R_fun i w x y + l ! (i mod 16) + R_const i + rol v 5)];
            vs = vs[role i 1 := rol w 30]
        in (l, vs))"

text \<open>The block is the buffer as sixteen words; the state is added to at the end.\<close>

definition load_block :: "string \<Rightarrow> w32 list" where
  "load_block buffer' = map (\<lambda>i. le_word (take 4 (drop (4 * i) buffer'))) [0..<16]"

definition SHA1Transform :: "w32 list \<Rightarrow> string \<Rightarrow> w32 list" where
  "SHA1Transform state buffer' =
     (let (l, vs) = foldl R_op (load_block buffer', state) [0..<80]
      in map2 (+) state vs)"

section \<open>The context\<close>

record SHA1_CTX =
  sha_state :: "w32 list"
  count0 :: w32
  count1 :: w32
  sha_buffer :: string

definition SHA1Init :: "SHA1_CTX \<Rightarrow> SHA1_CTX" where
  "SHA1Init ctx = ctx \<lparr> sha_state := [0x67452301, 0xEFCDAB89, 0x98BADCFE, 0x10325476, 0xC3D2E1F0],
     count0 := 0, count1 := 0 \<rparr>"

text \<open>The loop over whole blocks of the data, from index \<open>i\<close>; \<open>i\<close> and \<open>len\<close> are \<open>uint32_t\<close>.\<close>

function sha1_blocks :: "w32 list \<Rightarrow> string \<Rightarrow> nat \<Rightarrow> nat \<Rightarrow> w32 list \<times> nat" where
  "sha1_blocks st data i len =
     (if i + 63 < len then sha1_blocks (SHA1Transform st (take 64 (drop i data))) data (i + 64) len else (st, i))"
  by pat_completeness auto
termination
  by (relation "measure (\<lambda>(st, data, i, len). len - i)") auto

declare sha1_blocks.simps [simp del]

text \<open>
  \<open>SHA1Update\<close> with all of \<open>data\<close>. \<open>j + len\<close> is computed in 32 bits; for a length of
  \<open>2 ^ 32 - 64\<close> and more it may wrap, and the copy then overruns the buffer.
\<close>

definition SHA1Update :: "SHA1_CTX \<Rightarrow> string \<Rightarrow> SHA1_CTX cres" where
  "SHA1Update ctx data =
     (let len = (word_of_nat (length data) :: w32);
          j0 = count0 ctx;
          c0 = count0 ctx + push_bit 3 len;
          c1 = (if c0 < j0 then count1 ctx + 1 else count1 ctx);
          c1 = c1 + drop_bit 29 len;
          j = drop_bit 3 j0 AND 63;
          ctx = ctx \<lparr> count0 := c0, count1 := c1 \<rparr>
      in if 63 < j + len then
           cbind (wr_bytes (sha_buffer ctx) (unat j) (take (64 - unat j) data)) (\<lambda>buf.
             let (st, i) = sha1_blocks (SHA1Transform (sha_state ctx) buf) data (64 - unat j) (length data)
             in cbind (wr_bytes buf 0 (drop i data)) (\<lambda>buf.
                Inr (ctx \<lparr> sha_state := st, sha_buffer := buf \<rparr>)))
         else
           cbind (wr_bytes (sha_buffer ctx) (unat j) data) (\<lambda>buf. Inr (ctx \<lparr> sha_buffer := buf \<rparr>)))"

text \<open>The bytes of a word, most significant first.\<close>

definition be_bytes :: "w32 \<Rightarrow> string" where
  "be_bytes w = map (\<lambda>i. char_of (uint (drop_bit ((3 - i) * 8) w AND 255))) [0..<4]"

text \<open>The padding loop of \<open>SHA1Final\<close>; fuel bounds it, and 64 is shown to be enough.\<close>

fun sha1_pad :: "nat \<Rightarrow> SHA1_CTX \<Rightarrow> SHA1_CTX cres" where
  "sha1_pad 0 ctx = Inl Diverges"
| "sha1_pad (Suc n) ctx =
     (if count0 ctx AND 504 = 448 then Inr ctx else cbind (SHA1Update ctx [NUL]) (sha1_pad n))"

definition SHA1Final :: "SHA1_CTX \<Rightarrow> string cres" where
  "SHA1Final ctx =
     (let finalcount = be_bytes (count1 ctx) @ be_bytes (count0 ctx) in
      cbind (SHA1Update ctx [CHR 0x80]) (\<lambda>ctx.
      cbind (sha1_pad 64 ctx) (\<lambda>ctx.
      cbind (SHA1Update ctx finalcount) (\<lambda>ctx.
      Inr (concat (map be_bytes (sha_state ctx)))))))"

definition hv_sha1 :: "SHA1_CTX \<Rightarrow> string \<Rightarrow> string cres" where
  "hv_sha1 ctx input = cbind (SHA1Update (SHA1Init ctx) input) SHA1Final"

text \<open>\<open>SHA1\<close> feeds the bytes one by one.\<close>

fun sha1_each :: "SHA1_CTX \<Rightarrow> string \<Rightarrow> SHA1_CTX cres" where
  "sha1_each ctx [] = Inr ctx"
| "sha1_each ctx (c # cs) = cbind (SHA1Update ctx [c]) (\<lambda>ctx. sha1_each ctx cs)"

definition SHA1 :: "SHA1_CTX \<Rightarrow> string \<Rightarrow> string cres" where
  "SHA1 ctx str = cbind (sha1_each (SHA1Init ctx) str) (\<lambda>ctx. cbind (SHA1Final ctx) (\<lambda>d. Inr (d @ [NUL])))"

definition i2hex :: "int \<Rightarrow> char" where
  "i2hex i = (if i < 10 then char_of (i + 48) else char_of (i - 10 + 97))"

definition hv_sha1_hex :: "SHA1_CTX \<Rightarrow> string \<Rightarrow> string \<Rightarrow> string cres" where
  "hv_sha1_hex ctx input output =
     (if length output < 40 then Inr output
      else cbind (hv_sha1 ctx input) (\<lambda>digest.
        let hex = concat (map (\<lambda>c. [i2hex (drop_bit 4 (byte_of c)), i2hex (byte_of c AND 0x0F)]) digest)
        in wr_bytes output 0 (if length output > 40 then hex @ [NUL] else hex)))"

section \<open>FIPS 180\<close>

definition be_word :: "string \<Rightarrow> w32" where
  "be_word b = push_bit 24 (byte_word (b ! 0)) OR push_bit 16 (byte_word (b ! 1)) OR push_bit 8 (byte_word (b ! 2))
     OR byte_word (b ! 3)"

definition fips_f :: "nat \<Rightarrow> w32 \<Rightarrow> w32 \<Rightarrow> w32 \<Rightarrow> w32" where
  "fips_f t x y z =
     (if t < 20 then (x AND y) XOR (NOT x AND z)
      else if t < 40 then x XOR y XOR z
      else if t < 60 then (x AND y) XOR (x AND z) XOR (y AND z)
      else x XOR y XOR z)"

definition fips_K :: "nat \<Rightarrow> w32" where
  "fips_K t = (if t < 20 then 0x5a827999 else if t < 40 then 0x6ed9eba1 else if t < 60 then 0x8f1bbcdc else 0xca62c1d6)"

fun fips_W :: "string \<Rightarrow> nat \<Rightarrow> w32" where
  "fips_W B t = (if t < 16 then be_word (take 4 (drop (4 * t) B))
     else word_rotl 1 (fips_W B (t - 3) XOR fips_W B (t - 8) XOR fips_W B (t - 14) XOR fips_W B (t - 16)))"

declare fips_W.simps [simp del]

definition fips_round :: "string \<Rightarrow> w32 \<times> w32 \<times> w32 \<times> w32 \<times> w32 \<Rightarrow> nat \<Rightarrow> w32 \<times> w32 \<times> w32 \<times> w32 \<times> w32" where
  "fips_round B s t =
     (case s of (a, b, c, d, e) \<Rightarrow>
        (word_rotl 5 a + fips_f t b c d + e + fips_K t + fips_W B t, a, word_rotl 30 b, c, d))"

definition fips_compress :: "w32 list \<Rightarrow> string \<Rightarrow> w32 list" where
  "fips_compress h B =
     (case foldl (fips_round B) (h ! 0, h ! 1, h ! 2, h ! 3, h ! 4) [0..<80] of
        (a, b, c, d, e) \<Rightarrow> [h ! 0 + a, h ! 1 + b, h ! 2 + c, h ! 3 + d, h ! 4 + e])"

text \<open>The padded message: a one bit, zeros up to 56 modulo 64 bytes, and the length in bits.\<close>

definition fips_pad :: "string \<Rightarrow> string" where
  "fips_pad msg = msg @ [CHR 0x80] @ replicate ((119 - length msg mod 64) mod 64) NUL @
     rev (octets 8 (8 * length msg))"

definition fips_H0 :: "w32 list" where
  "fips_H0 = [0x67452301, 0xefcdab89, 0x98badcfe, 0x10325476, 0xc3d2e1f0]"

definition fips_sha1 :: "string \<Rightarrow> string" where
  "fips_sha1 msg = concat (map (\<lambda>h. rev (octets 4 (unat h))) (blocks fips_compress fips_H0 (fips_pad msg)))"

section \<open>Rotations and octets\<close>

lemma rol_is_rotl: "n < 32 \<Longrightarrow> rol x n = word_rotl n x"
proof (rule bit_word_eqI)
  fix i assume n: "n < 32" and i: "i < LENGTH(32)"
  show "bit (rol x n) i = bit (word_rotl n x) i"
  proof (cases "i < n")
    case True
    then have "\<not> bit (push_bit n x) i" by (simp add: bit_push_bit_iff)
    moreover have "(i + (32 - n)) mod 32 = 32 - n + i" using n True by simp
    ultimately show ?thesis using n i True by (simp add: rol_def bit_or_iff bit_drop_bit_eq bit_word_rotl_iff)
  next
    case False
    then have "(i + (32 - n)) mod 32 = i - n" using n i by (simp add: mod_if)
    moreover have "\<not> bit x (32 - n + i)" using False n bit_imp_le_length[of x "32 - n + i"] by auto
    ultimately show ?thesis using n i False by (simp add: rol_def bit_or_iff bit_drop_bit_eq bit_push_bit_iff bit_word_rotl_iff)
  qed
qed

lemma fips_W_rol:
  "fips_W B t = (if t < 16 then be_word (take 4 (drop (4 * t) B))
     else rol (fips_W B (t - 3) XOR fips_W B (t - 8) XOR fips_W B (t - 14) XOR fips_W B (t - 16)) 1)"
  by (subst fips_W.simps) (simp add: rol_is_rotl)

lemma fips_round_rol:
  "fips_round B s t =
     (case s of (a, b, c, d, e) \<Rightarrow> (rol a 5 + fips_f t b c d + e + fips_K t + fips_W B t, a, rol b 30, c, d))"
  by (simp add: fips_round_def rol_is_rotl)

lemma byte_of_word: "char_of (uint (drop_bit m (w :: w32) AND 255)) = (char_of (unat w div 2 ^ m mod 256) :: char)"
proof -
  have "drop_bit m w AND 255 = take_bit 8 (drop_bit m w)" by (simp add: take_bit_eq_mask mask_eq_exp_minus_1)
  moreover have "unat w mod 4294967296 = unat w" using unsigned_less[of w, where ?'a = nat] by simp
  ultimately have "unat (drop_bit m w AND 255) = unat w div 2 ^ m mod 256"
    by (simp only: unsigned_take_bit_eq unsigned_drop_bit_eq) (simp add: take_bit_eq_mod drop_bit_eq_div)
  moreover have "uint x = int (unat x)" for x :: w32 by simp
  ultimately have "uint (drop_bit m w AND 255) = int (unat w div 2 ^ m mod 256)" by metis
  moreover have "char_of (int k) = (char_of k :: char)" for k by (simp add: char_of_def bit_of_nat_iff)
  ultimately show ?thesis by metis
qed

lemma octets_4: "octets 4 n = [char_of (n mod 256), char_of (n div 2 ^ 8 mod 256), char_of (n div 2 ^ 16 mod 256), char_of (n div 2 ^ 24 mod 256)]"
proof -
  have four: "(4 :: nat) = Suc (Suc (Suc (Suc 0)))" by simp
  show ?thesis unfolding four octets.simps by (simp add: div_mult2_eq[symmetric])
qed

lemma be_bytes_octets: "be_bytes w = rev (octets 4 (unat w))"
  unfolding be_bytes_def byte_of_word octets_4 by (simp add: upt_rec)

lemma octets_8: "octets 8 n = octets 4 (unat (word_of_nat n :: w32)) @ octets 4 (unat (word_of_nat (n div 2 ^ 32) :: w32))"
proof -
  have "unat (word_of_nat k :: w32) = k mod 256 ^ 4" for k by (simp add: unsigned_of_nat take_bit_eq_mod)
  then show ?thesis using octets_append[of 4 4 n] octets_mod[of 4] by simp
qed

lemma fips_pad_bytes:
  "fips_pad msg = msg @ [CHR 0x80] @ replicate ((119 - length msg mod 64) mod 64) NUL @
     be_bytes (word_of_nat (8 * length msg div 2 ^ 32)) @ be_bytes (word_of_nat (8 * length msg))"
  by (simp only: fips_pad_def octets_8 rev_append be_bytes_octets)

lemma fips_sha1_bytes:
  "fips_sha1 msg = concat (map be_bytes (blocks fips_compress fips_H0 (fips_pad msg)))"
  by (simp only: fips_sha1_def be_bytes_octets[symmetric])

section \<open>The transform is the compression function\<close>

lemma bit_byte_word: "bit (byte_word c) n \<longleftrightarrow> n < 8 \<and> bit (byte_of c) n"
proof -
  have "byte_of c = take_bit 8 (byte_of c)" by (simp add: take_bit_eq_mod)
  then have "bit (byte_of c) n \<longleftrightarrow> n < 8 \<and> bit (byte_of c) n" by (metis bit_take_bit_iff)
  then show ?thesis by (auto simp: byte_word_def bit_word_of_int_iff)
qed

lemma blk0_masks: "(0xFF00FF00 :: w32) = push_bit 8 (mask 8) OR push_bit 24 (mask 8)"
  "(0x00FF00FF :: w32) = mask 8 OR push_bit 16 (mask 8)"
  by (simp_all add: mask_eq_exp_minus_1 push_bit_eq_mult)

lemma swap_bytes: "(rol (le_word b) 24 AND 0xFF00FF00) OR (rol (le_word b) 8 AND 0x00FF00FF) = be_word b"
proof (rule bit_word_eqI)
  fix n assume "n < LENGTH(32)"
  then consider "n < 8" | "8 \<le> n" "n < 16" | "16 \<le> n" "n < 24" | "24 \<le> n" "n < 32" by fastforce
  then show "bit ((rol (le_word b) 24 AND 0xFF00FF00) OR (rol (le_word b) 8 AND 0x00FF00FF)) n = bit (be_word b) n"
    unfolding blk0_masks
    by cases (simp_all add: rol_def be_word_def bit_or_iff bit_and_iff bit_push_bit_iff bit_drop_bit_eq bit_mask_iff
        bit_byte_word le_word_def less_diff_conv2)
qed

lemma R_fun_fips: "R_fun i w x y = fips_f i w x y"
  unfolding R_fun_def fips_f_def
  by (cases "i < 20"; cases "i < 40"; cases "i < 60") (auto intro!: bit_word_eqI simp: bit_simps)

text \<open>
  After \<open>i\<close> operations the variables, read from the role of \<open>v\<close> on, are the five of FIPS 180,
  and the block holds the last sixteen words of the schedule.
\<close>

definition window :: "string \<Rightarrow> nat \<Rightarrow> w32 list \<Rightarrow> bool" where
  "window B i l \<longleftrightarrow> length l = 16 \<and>
     (\<forall>j < i. i \<le> j + 16 \<longrightarrow> l ! (j mod 16) = fips_W B j) \<and>
     (\<forall>j. i \<le> j \<and> j < 16 \<longrightarrow> l ! j = le_word (take 4 (drop (4 * j) B)))"

definition in_role :: "nat \<Rightarrow> w32 list \<Rightarrow> w32 \<times> w32 \<times> w32 \<times> w32 \<times> w32" where
  "in_role i vs = (vs ! role i 0, vs ! role i 1, vs ! role i 2, vs ! role i 3, vs ! role i 4)"

lemma window_step:
  assumes "window B i l" "i < 80"
  defines "l' \<equiv> if i < 16 then blk0 l i else blk l i"
  shows "window B (Suc i) l'" "l' ! (i mod 16) = fips_W B i"
proof -
  have len: "length l = 16" using assms(1) by (simp add: window_def)
  have old: "l ! (j mod 16) = fips_W B j" if "j < i" "i \<le> j + 16" for j
    using assms(1) that by (simp add: window_def)
  have ini: "l ! j = le_word (take 4 (drop (4 * j) B))" if "i \<le> j" "j < 16" for j
    using assms(1) that by (simp add: window_def)
  obtain w where l': "l' = l[i mod 16 := w]" and w: "w = fips_W B i"
  proof (cases "i < 16")
    case True
    have "(rol (l ! i) 24 AND 0xFF00FF00) OR (rol (l ! i) 8 AND 0x00FF00FF) = fips_W B i"
      unfolding ini[OF le_refl True] swap_bytes using True by (subst fips_W_rol) simp
    then show ?thesis using that[of "fips_W B i"] True by (simp add: l'_def blk0_def)
  next
    case False
    then have idx: "(i + 13) mod 16 = (i - 3) mod 16" "(i + 8) mod 16 = (i - 8) mod 16" "(i + 2) mod 16 = (i - 14) mod 16"
      "i mod 16 = (i - 16) mod 16"
      using mod_add_self2[of "i - 3" 16] mod_add_self2[of "i - 8" 16] mod_add_self2[of "i - 14" 16] mod_add_self2[of "i - 16" 16]
      by (simp_all add: add.commute)
    have "rol (l ! ((i + 13) mod 16) XOR l ! ((i + 8) mod 16) XOR l ! ((i + 2) mod 16) XOR l ! (i mod 16)) 1 = fips_W B i"
      unfolding idx using False old[of "i - 3"] old[of "i - 8"] old[of "i - 14"] old[of "i - 16"]
      by (subst fips_W_rol) simp
    then show ?thesis using that[of "fips_W B i"] False by (simp add: l'_def blk_def)
  qed
  show "l' ! (i mod 16) = fips_W B i" by (simp add: l' w len)
  have keep: "l' ! k = l ! k" if "k \<noteq> i mod 16" for k using that by (simp add: l')
  have "l' ! (j mod 16) = fips_W B j" if "j < Suc i" "Suc i \<le> j + 16" for j
  proof (cases "j = i")
    case False
    then have "j < i" "i < j + 16" using that by auto
    then have "j mod 16 \<noteq> i mod 16"
      using mod_eq_dvd_iff_nat[of j i 16] dvd_imp_le[of 16 "i - j"] by auto
    then show ?thesis using keep old[of j] \<open>j < i\<close> \<open>i < j + 16\<close> by simp
  qed (simp add: l' w len)
  moreover have "l' ! j = le_word (take 4 (drop (4 * j) B))" if "Suc i \<le> j" "j < 16" for j
    using that keep[of j] ini[of j] by simp
  ultimately show "window B (Suc i) l'" using len by (simp add: window_def l')
qed

lemma role_step:
  assumes "i < 80"
  shows "role (Suc i) 0 = role i 4" "role (Suc i) 1 = role i 0" "role (Suc i) 2 = role i 1" "role (Suc i) 3 = role i 2"
    "role (Suc i) 4 = role i 3"
proof -
  define n where "n = 79 - i"
  have n: "80 - i = Suc n" "80 - Suc i = n" using assms by (auto simp: n_def)
  show "role (Suc i) 0 = role i 4" "role (Suc i) 1 = role i 0" "role (Suc i) 2 = role i 1" "role (Suc i) 3 = role i 2"
    "role (Suc i) 4 = role i 3"
    unfolding role_def n by (simp_all add: add.commute)
qed

lemma role_cases:
  obtains "role i 0 = 0" "role i 1 = 1" "role i 2 = 2" "role i 3 = 3" "role i 4 = 4"
  | "role i 0 = 1" "role i 1 = 2" "role i 2 = 3" "role i 3 = 4" "role i 4 = 0"
  | "role i 0 = 2" "role i 1 = 3" "role i 2 = 4" "role i 3 = 0" "role i 4 = 1"
  | "role i 0 = 3" "role i 1 = 4" "role i 2 = 0" "role i 3 = 1" "role i 4 = 2"
  | "role i 0 = 4" "role i 1 = 0" "role i 2 = 1" "role i 3 = 2" "role i 4 = 3"
proof -
  have r: "role i k = (role i 0 + k) mod 5" for k by (simp add: role_def mod_add_left_eq)
  have "role i 0 < 5" by (simp add: role_def)
  then consider "role i 0 = 0" | "role i 0 = 1" | "role i 0 = 2" | "role i 0 = 3" | "role i 0 = 4" by linarith
  then show thesis by cases (use that r[of 1] r[of 2] r[of 3] r[of 4] in simp_all)
qed

lemma R_op_sim:
  assumes "window B i l" "length vs = 5" "i < 80" "R_op (l, vs) i = (l', vs')"
  shows "window B (Suc i) l'" "length vs' = 5" "in_role (Suc i) vs' = fips_round B (in_role i vs) i"
proof -
  note w = window_step[OF assms(1,3)]
  have l': "l' = (if i < 16 then blk0 l i else blk l i)"
    and vs': "vs' = vs[role i 4 := vs ! role i 4 + (R_fun i (vs ! role i 1) (vs ! role i 2) (vs ! role i 3)
        + l' ! (i mod 16) + R_const i + rol (vs ! role i 0) 5), role i 1 := rol (vs ! role i 1) 30]"
    using assms(4) by (auto simp: R_op_def Let_def)
  show "window B (Suc i) l'" using w l' by simp
  show "length vs' = 5" using vs' assms(2) by simp
  have W: "l' ! (i mod 16) = fips_W B i" using w l' by simp
  have K: "R_const i = fips_K i" by (simp add: R_const_def fips_K_def)
  obtain s0 s1 s2 s3 s4 where vs: "vs = [s0, s1, s2, s3, s4]"
    using assms(2) by (auto simp: length_Suc_conv numeral_eq_Suc)
  show "in_role (Suc i) vs' = fips_round B (in_role i vs) i"
    unfolding in_role_def fips_round_rol vs' W K R_fun_fips role_step[OF assms(3)] prod.case
    by (rule role_cases[of i]) (simp_all add: vs algebra_simps)
qed

lemma rounds_sim:
  assumes "length h = 5" "n \<le> 80"
  shows "\<exists>l vs. foldl R_op (load_block B, h) [0..<n] = (l, vs) \<and> window B n l \<and> length vs = 5 \<and>
     in_role n vs = foldl (fips_round B) (in_role 0 h) [0..<n]"
  using assms(2)
proof (induction n)
  case 0
  have "length (load_block B) = 16" by (simp add: load_block_def)
  moreover have "load_block B ! j = le_word (take 4 (drop (4 * j) B))" if "j < 16" for j
    using that by (simp add: load_block_def)
  ultimately show ?case using assms(1) by (simp add: window_def)
next
  case (Suc n)
  then obtain l vs where IH: "foldl R_op (load_block B, h) [0..<n] = (l, vs)" "window B n l" "length vs = 5"
     "in_role n vs = foldl (fips_round B) (in_role 0 h) [0..<n]" by auto
  obtain l' vs' where s: "R_op (l, vs) n = (l', vs')" by (cases "R_op (l, vs) n")
  from R_op_sim[OF IH(2,3) _ s] Suc.prems IH s show ?case by simp
qed

text \<open>The transform, with its window of sixteen words and its moving roles, is the compression function of FIPS 180.\<close>

lemma SHA1Transform_is_compress:
  assumes "length h = 5"
  shows "SHA1Transform h B = fips_compress h B"
proof -
  obtain l vs where f: "foldl R_op (load_block B, h) [0..<80] = (l, vs)" "length vs = 5"
     "in_role 80 vs = foldl (fips_round B) (in_role 0 h) [0..<80]"
    using rounds_sim[OF assms, of 80 B] by auto
  obtain s0 s1 s2 s3 s4 where vs: "vs = [s0, s1, s2, s3, s4]"
    using f(2) by (auto simp: length_Suc_conv numeral_eq_Suc)
  obtain h0 h1 h2 h3 h4 where h: "h = [h0, h1, h2, h3, h4]"
    using assms by (auto simp: length_Suc_conv numeral_eq_Suc)
  have r: "in_role 80 vs = (s0, s1, s2, s3, s4)" "in_role 0 h = (h0, h1, h2, h3, h4)"
    by (simp_all add: in_role_def role_def vs h)
  show ?thesis using f r by (simp add: SHA1Transform_def fips_compress_def h vs)
qed

section \<open>Streaming\<close>

definition sha1_fits :: "string \<Rightarrow> bool" where
  "sha1_fits msg = (length msg + 64 \<le> 2 ^ 32)"

definition sha1_absorbs :: "SHA1_CTX \<Rightarrow> string \<Rightarrow> bool" where
  "sha1_absorbs ctx msg \<longleftrightarrow> absorbed SHA1Transform fips_H0 msg (sha_state ctx) (sha_buffer ctx) \<and>
     count0 ctx = word_of_nat (8 * length msg) \<and> count1 ctx = word_of_nat (8 * length msg div 2 ^ 32)"

lemma sha1_blocks_run:
  "len = length data \<Longrightarrow> i \<le> len \<Longrightarrow> fst (sha1_blocks st data i len) = blocks SHA1Transform st (drop i data) \<and>
     drop (snd (sha1_blocks st data i len)) data = tail_of (drop i data)"
proof (induction st data i len rule: sha1_blocks.induct)
  case (1 st data i len)
  show ?case
  proof (cases "i + 63 < len")
    case True
    have "sha1_blocks st data i len = sha1_blocks (SHA1Transform st (take 64 (drop i data))) data (i + 64) len"
      using True by (subst sha1_blocks.simps) simp
    moreover have "blocks SHA1Transform st (drop i data) =
        blocks SHA1Transform (SHA1Transform st (take 64 (drop i data))) (drop (i + 64) data)"
      using True 1(2) blocks.simps[of SHA1Transform st "drop i data"] by (auto simp: add.commute)
    moreover have "tail_of (drop i data) = tail_of (drop (i + 64) data)"
      using True 1(2) tail_of_drop[of "drop i data"] by (simp add: add.commute)
    ultimately show ?thesis using 1 True by simp
  next
    case False
    then have "sha1_blocks st data i len = (st, i)" by (subst sha1_blocks.simps) simp
    moreover have "length (drop i data) < 64" using False 1(2,3) by simp
    ultimately show ?thesis by (simp add: blocks.simps tail_of_short)
  qed
qed

text \<open>The bit count, in two words with a carry.\<close>

lemma carry_div:
  fixes a b M :: nat
  assumes "0 < M"
  shows "(a + b) div M = a div M + b div M + (if (a + b) mod M < a mod M then 1 else 0)"
proof -
  have "(a mod M + b mod M) div M = (if (a + b) mod M < a mod M then 1 else 0)"
  proof (cases "a mod M + b mod M < M")
    case True
    then have "(a + b) mod M = a mod M + b mod M" by (metis mod_add_eq mod_less)
    then show ?thesis using True by simp
  next
    case False
    have ab: "a mod M < M" "b mod M < M" using assms by simp_all
    then have ab2: "a mod M + b mod M < M + M" by linarith
    have "(a + b) mod M = a mod M + b mod M - M"
    proof -
      have "(a + b) mod M = (a mod M + b mod M) mod M" by (simp add: mod_add_eq)
      also have "\<dots> = (a mod M + b mod M - M) mod M" using False by (simp add: le_mod_geq)
      also have "\<dots> = a mod M + b mod M - M" using False ab by (intro mod_less) linarith
      finally show ?thesis .
    qed
    moreover have "(a mod M + b mod M) div M = 1" using False ab2 by (intro div_nat_eqI) simp_all
    ultimately show ?thesis using False ab by simp
  qed
  then show ?thesis using div_add1_eq[of a b M] by (simp only:)
qed

lemma unat_w32: "unat (word_of_nat n :: w32) = n mod 2 ^ 32"
  by (simp add: unsigned_of_nat take_bit_eq_mod)

lemma sha1_count:
  assumes "n + 64 \<le> 2 ^ 32"
  defines "len \<equiv> (word_of_nat n :: w32)"
  shows "(word_of_nat (8 * m) :: w32) + push_bit 3 len = word_of_nat (8 * (m + n))"
    and "(if (word_of_nat (8 * (m + n)) :: w32) < word_of_nat (8 * m) then word_of_nat (8 * m div 2 ^ 32) + 1
          else word_of_nat (8 * m div 2 ^ 32)) + drop_bit 29 len = (word_of_nat (8 * (m + n) div 2 ^ 32) :: w32)"
    and "unat (drop_bit 3 (word_of_nat (8 * m) :: w32) AND 63) = m mod 64"
    and "(63 < (drop_bit 3 (word_of_nat (8 * m) :: w32) AND 63) + len) = (64 \<le> m mod 64 + n)"
proof -
  have un: "unat len = n" using assms(1) by (simp add: len_def unat_w32)
  show "(word_of_nat (8 * m) :: w32) + push_bit 3 len = word_of_nat (8 * (m + n))"
    by (simp add: push_bit_eq_mult len_def distrib_left)
  have lt: "((word_of_nat (8 * (m + n)) :: w32) < word_of_nat (8 * m)) = ((8 * m + 8 * n) mod 2 ^ 32 < 8 * m mod 2 ^ 32)"
    by (simp only: word_less_nat_alt unat_w32 distrib_left)
  have db: "drop_bit 29 len = (word_of_nat (8 * n div 2 ^ 32) :: w32)"
  proof -
    have "8 * n div 2 ^ 32 = n div 2 ^ 29" by simp
    moreover have "drop_bit 29 len = (word_of_nat (n div 2 ^ 29) :: w32)"
      by (rule word_unat_eq_iff[THEN iffD2]) (use assms(1) un in \<open>simp add: drop_bit_eq_div unat_div unat_w32\<close>)
    ultimately show ?thesis by simp
  qed
  show "(if (word_of_nat (8 * (m + n)) :: w32) < word_of_nat (8 * m) then word_of_nat (8 * m div 2 ^ 32) + 1
          else word_of_nat (8 * m div 2 ^ 32)) + drop_bit 29 len = (word_of_nat (8 * (m + n) div 2 ^ 32) :: w32)"
    unfolding lt db using carry_div[of "2 ^ 32" "8 * m" "8 * n"] by (simp add: distrib_left)
  show j: "unat (drop_bit 3 (word_of_nat (8 * m) :: w32) AND 63) = m mod 64"
  proof -
    have "(8 * m) mod 2 ^ 32 div 8 mod 64 = m mod 64"
    proof -
      have "(8 * m) mod 2 ^ 32 = 8 * (m mod 2 ^ 29)" by (simp add: mult_mod_right)
      then have "(8 * m) mod 2 ^ 32 div 8 = m mod 2 ^ 29" by simp
      then show ?thesis by (simp add: mod_mod_cancel)
    qed
    moreover have "x AND 63 = x mod (64 :: w32)" for x
    proof -
      have "x AND 63 = take_bit 6 x" by (simp add: take_bit_eq_mask mask_eq_exp_minus_1)
      then show ?thesis by (simp add: take_bit_eq_mod)
    qed
    moreover have "unat (drop_bit 3 x mod 64) = unat x div 8 mod 64" for x :: w32
      by (simp add: unat_mod unat_div drop_bit_eq_div)
    ultimately show ?thesis by (simp only: unat_w32)
  qed
  have "m mod 64 + n < 2 ^ 32" using assms(1) mod_less_divisor[of 64 m] by linarith
  then have "unat ((drop_bit 3 (word_of_nat (8 * m) :: w32) AND 63) + len) = m mod 64 + n"
    using j un by (simp add: unat_add_lem[THEN iffD1])
  then show "(63 < (drop_bit 3 (word_of_nat (8 * m) :: w32) AND 63) + len) = (64 \<le> m mod 64 + n)"
    by (simp add: word_less_nat_alt Suc_le_eq[symmetric])
qed

lemma SHA1Update_absorbs:
  assumes ab: "sha1_absorbs ctx msg" and fit: "sha1_fits (msg @ data)"
  shows "\<exists>ctx'. SHA1Update ctx data = Inr ctx' \<and> sha1_absorbs ctx' (msg @ data)"
proof -
  let ?m = "length msg" and ?n = "length data"
  let ?len = "word_of_nat ?n :: w32" and ?j = "drop_bit 3 (word_of_nat (8 * ?m) :: w32) AND 63"
  have A: "absorbed SHA1Transform fips_H0 msg (sha_state ctx) (sha_buffer ctx)"
    and c: "count0 ctx = word_of_nat (8 * ?m)" "count1 ctx = word_of_nat (8 * ?m div 2 ^ 32)"
    using ab by (auto simp: sha1_absorbs_def)
  have n: "?n + 64 \<le> 2 ^ 32" using fit by (simp add: sha1_fits_def)
  note cnt = sha1_count[OF n, of ?m]
  have j: "unat ?j = tail_len msg" using cnt(3) by (simp only: tail_len_def)
  let ?ctx = "ctx \<lparr> count0 := word_of_nat (8 * length (msg @ data)), count1 := word_of_nat (8 * length (msg @ data) div 2 ^ 32) \<rparr>"
  have upd: "SHA1Update ctx data =
      (if 64 \<le> tail_len msg + ?n then
         cbind (wr_bytes (sha_buffer ctx) (tail_len msg) (take (64 - tail_len msg) data)) (\<lambda>buf.
           let (st, i) = sha1_blocks (SHA1Transform (sha_state ctx) buf) data (64 - tail_len msg) ?n
           in cbind (wr_bytes buf 0 (drop i data)) (\<lambda>buf. Inr (?ctx \<lparr> sha_state := st, sha_buffer := buf \<rparr>)))
       else cbind (wr_bytes (sha_buffer ctx) (tail_len msg) data) (\<lambda>buf. Inr (?ctx \<lparr> sha_buffer := buf \<rparr>)))"
    unfolding SHA1Update_def Let_def c cnt(1) cnt(2) cnt(4) j length_append tail_len_def[symmetric] by simp
  show ?thesis
  proof (cases "64 \<le> tail_len msg + ?n")
    case False
    then have "tail_len msg + ?n < 64" by simp
    note s = absorbed_short[OF A this]
    show ?thesis unfolding upd using False s by (simp add: sha1_absorbs_def)
  next
    case True
    let ?k = "64 - tail_len msg" and ?buf = "take (tail_len msg) (sha_buffer ctx) @ take (64 - tail_len msg) data"
    note f = absorbed_full[OF A True]
    obtain st i where b: "sha1_blocks (SHA1Transform (sha_state ctx) ?buf) data ?k ?n = (st, i)"
      by (cases "sha1_blocks (SHA1Transform (sha_state ctx) ?buf) data ?k ?n")
    have st: "st = blocks SHA1Transform fips_H0 (msg @ data)" and t: "tail_of (msg @ data) = drop i data"
      using sha1_blocks_run[of ?n data ?k "SHA1Transform (sha_state ctx) ?buf"] b f(2,3) True by auto
    note s = absorbed_store[OF f(4) st t]
    show ?thesis unfolding upd f(1) using True b s by (simp add: sha1_absorbs_def)
  qed
qed

interpretation sha1: hash_context SHA1Update sha1_absorbs sha1_fits
  by unfold_locales (auto simp: SHA1Update_absorbs, simp add: sha1_fits_def)

lemma SHA1Init_absorbs:
  assumes "length (sha_buffer ctx) = 64"
  shows "sha1_absorbs (SHA1Init ctx) []"
  using assms by (simp add: sha1_absorbs_def absorbed_def SHA1Init_def fips_H0_def blocks.simps tail_len_def tail_of_def)

section \<open>The digest\<close>

lemma pad_test: "((word_of_nat (8 * m) :: w32) AND 504 = 448) = (m mod 64 = 56)"
proof -
  let ?w = "word_of_nat m AND 63 :: w32"
  have "(word_of_nat (8 * m) :: w32) = push_bit 3 (word_of_nat m)" "(504 :: w32) = push_bit 3 63"
    by (simp_all add: push_bit_eq_mult mult.commute)
  then have "(word_of_nat (8 * m) :: w32) AND 504 = push_bit 3 ?w"
    by (simp only: push_bit_and)
  also have "\<dots> = 8 * ?w" by (simp add: push_bit_eq_mult)
  finally have e: "(word_of_nat (8 * m) :: w32) AND 504 = 8 * ?w" .
  have m63: "?w = word_of_nat m mod 64"
  proof -
    have "?w = take_bit 6 (word_of_nat m)" by (simp add: take_bit_eq_mask mask_eq_exp_minus_1)
    then show ?thesis by (simp add: take_bit_eq_mod)
  qed
  have u: "unat ?w = m mod 64" unfolding m63 by (simp add: unat_mod unat_w32 mod_mod_cancel)
  have "unat (8 * ?w) = 8 * (m mod 64)"
    using u mod_less_divisor[of 64 m] by (simp add: unat_word_ariths)
  then show ?thesis unfolding e by (auto simp: word_unat_eq_iff)
qed

lemma pad_length:
  assumes "r < (64::nat)"
  shows "(r + 1 + (119 - r) mod 64) mod 64 = 56"
proof (cases "r \<le> 55")
  case True
  then have "119 - r = (55 - r) + 64" by simp
  then have "(119 - r) mod 64 = 55 - r" by (simp only: mod_add_self2) simp
  then show ?thesis using True by simp
qed (use assms in simp)

lemma sha1_pad_run:
  assumes "sha1_absorbs ctx msg" "k < n" "k < 64" "(length msg + k) mod 64 = 56" "sha1_fits (msg @ replicate k NUL)"
  shows "\<exists>ctx'. sha1_pad n ctx = Inr ctx' \<and> sha1_absorbs ctx' (msg @ replicate k NUL)"
  using assms
proof (induction k arbitrary: n ctx msg)
  case 0
  then have "count0 ctx AND 504 = 448" using pad_test[of "length msg"] by (simp add: sha1_absorbs_def)
  then show ?case using 0 by (cases n) auto
next
  case (Suc k)
  obtain n' where n: "n = Suc n'" using Suc.prems(2) by (cases n) auto
  have "length msg mod 64 \<noteq> 56"
  proof
    assume "length msg mod 64 = 56"
    then have "(56 + Suc k) mod 64 = 56" using Suc.prems(4) by (metis mod_add_left_eq)
    then show False using Suc.prems(3) by presburger
  qed
  then have go: "\<not> count0 ctx AND 504 = 448" using Suc.prems(1) pad_test[of "length msg"] by (simp add: sha1_absorbs_def)
  have eq: "msg @ replicate (Suc k) NUL = (msg @ [NUL]) @ replicate k NUL" by simp
  have "sha1_fits (msg @ [NUL])" using Suc.prems(5) unfolding eq by (rule sha1.fits_prefix)
  from SHA1Update_absorbs[OF Suc.prems(1) this] obtain ctx1
    where u: "SHA1Update ctx [NUL] = Inr ctx1" and a: "sha1_absorbs ctx1 (msg @ [NUL])" by blast
  have "\<exists>ctx'. sha1_pad n' ctx1 = Inr ctx' \<and> sha1_absorbs ctx' ((msg @ [NUL]) @ replicate k NUL)"
    using Suc.prems(2-5) n eq by (intro Suc.IH[OF a]) simp_all
  then show ?case using go u n eq by simp
qed

lemma blocks_compress: "length h = 5 \<Longrightarrow> blocks SHA1Transform h msg = blocks fips_compress h msg"
proof (induction "fips_compress" h msg rule: blocks.induct)
  case (1 h msg)
  show ?case
  proof (cases "length msg < 64")
    case True
    then show ?thesis by (simp add: blocks.simps)
  next
    case False
    have "length (fips_compress h (take 64 msg)) = 5" by (simp add: fips_compress_def split: prod.splits)
    with 1 False show ?thesis
      by (simp add: blocks.simps[of _ h msg] SHA1Transform_is_compress)
  qed
qed

lemma SHA1Final_digest:
  assumes "sha1_absorbs ctx msg" "length msg + 192 \<le> 2 ^ 32"
  shows "SHA1Final ctx = Inr (fips_sha1 msg)"
proof -
  let ?k = "(119 - length msg mod 64) mod 64"
  let ?cnt = "be_bytes (count1 ctx) @ be_bytes (count0 ctx)"
  have cnt: "?cnt = be_bytes (word_of_nat (8 * length msg div 2 ^ 32)) @ be_bytes (word_of_nat (8 * length msg))"
    using assms(1) by (simp add: sha1_absorbs_def)
  have l8: "length ?cnt = 8" by (simp add: be_bytes_def)
  have k: "?k < 64" by simp
  have fit: "sha1_fits (msg @ x)" if "length x \<le> 128" for x using assms(2) that by (simp add: sha1_fits_def)
  obtain c1 where c1: "SHA1Update ctx [CHR 0x80] = Inr c1" "sha1_absorbs c1 (msg @ [CHR 0x80])"
    using SHA1Update_absorbs[OF assms(1) fit[of "[CHR 0x80]"]] by auto
  have "(length (msg @ [CHR 0x80]) + ?k) mod 64 = 56"
  proof -
    have "length msg mod 64 < 64" by simp
    then have "(length msg mod 64 + 1 + (119 - length msg mod 64) mod 64) mod 64 = 56" by (rule pad_length)
    then show ?thesis by (metis add.assoc length_append length_Cons list.size(3) mod_add_left_eq One_nat_def)
  qed
  moreover have "sha1_fits ((msg @ [CHR 0x80]) @ replicate ?k NUL)"
    using fit[of "[CHR 0x80] @ replicate ?k NUL"] k by simp
  ultimately obtain c2 where c2: "sha1_pad 64 c1 = Inr c2" "sha1_absorbs c2 ((msg @ [CHR 0x80]) @ replicate ?k NUL)"
    using sha1_pad_run[OF c1(2), of ?k 64] k by blast
  have "sha1_fits (((msg @ [CHR 0x80]) @ replicate ?k NUL) @ ?cnt)"
    using fit[of "[CHR 0x80] @ replicate ?k NUL @ ?cnt"] k l8 by simp
  from SHA1Update_absorbs[OF c2(2) this] obtain c3 where c3: "SHA1Update c2 ?cnt = Inr c3"
    "sha1_absorbs c3 (((msg @ [CHR 0x80]) @ replicate ?k NUL) @ ?cnt)" by blast
  have "((msg @ [CHR 0x80]) @ replicate ?k NUL) @ ?cnt = fips_pad msg"
    unfolding cnt fips_pad_bytes by simp
  then have "sha_state c3 = blocks fips_compress fips_H0 (fips_pad msg)"
    using c3(2) blocks_compress[of fips_H0] by (simp add: sha1_absorbs_def absorbed_def fips_H0_def)
  then show ?thesis using c1(1) c2(1) c3(1) by (simp add: SHA1Final_def Let_def fips_sha1_bytes)
qed

text \<open>
  C10: the streaming functions on a message of any length up to \<open>2 ^ 32 - 192\<close> bytes, from any content of the
  context, give the SHA-1 digest that FIPS 180 defines.
\<close>

theorem hv_sha1_is_fips:
  assumes "length (sha_buffer ctx) = 64" "length msg + 192 \<le> 2 ^ 32"
  shows "hv_sha1 ctx msg = Inr (fips_sha1 msg)"
proof -
  have "sha1_fits ([] @ msg)" using assms(2) by (simp add: sha1_fits_def)
  from SHA1Update_absorbs[OF SHA1Init_absorbs[OF assms(1)] this] SHA1Final_digest[OF _ assms(2)]
  show ?thesis by (auto simp: hv_sha1_def)
qed

lemma sha1_updates_each: "sha1_each ctx msg = sha1.updates ctx (map (\<lambda>c. [c]) msg)"
  by (induction msg arbitrary: ctx) (simp_all add: cbind_def split: sum.splits)

lemma concat_singletons: "concat (map (\<lambda>c. [c]) xs) = xs"
  by (induction xs) simp_all

text \<open>Byte by byte or at once: the same digest.\<close>

lemma SHA1_is_fips:
  assumes "length (sha_buffer ctx) = 64" "length msg + 192 \<le> 2 ^ 32"
  shows "SHA1 ctx msg = Inr (fips_sha1 msg @ [NUL])"
proof -
  have "sha1_fits ([] @ concat (map (\<lambda>c. [c]) msg))" using assms(2) by (simp add: sha1_fits_def concat_singletons)
  from sha1.updates_absorb[OF SHA1Init_absorbs[OF assms(1)] this] SHA1Final_digest[OF _ assms(2)]
  show ?thesis by (auto simp: SHA1_def sha1_updates_each concat_singletons)
qed

lemma length_fips_sha1: "length (fips_sha1 msg) = 20"
proof -
  have c: "length (fips_compress h B) = 5" for h B by (simp add: fips_compress_def split: prod.splits)
  have "length (blocks fips_compress h msg) = 5" if "length h = 5" for h msg
    using that
  proof (induction "fips_compress" h msg rule: blocks.induct)
    case (1 h msg)
    then show ?case by (subst blocks.simps) (simp add: c)
  qed
  then have "length (blocks fips_compress fips_H0 (fips_pad msg)) = 5" by (simp add: fips_H0_def)
  moreover have "length (concat (map be_bytes ws)) = 4 * length ws" for ws
    by (induction ws) (simp_all add: be_bytes_def)
  ultimately show ?thesis by (simp add: fips_sha1_bytes)
qed

definition any_ctx :: SHA1_CTX where
  "any_ctx = \<lparr> sha_state = [], count0 = 0, count1 = 0, sha_buffer = replicate 64 (CHR ''?'') \<rparr>"

theorem hv_sha1_is_fips_witness: "hv_sha1 any_ctx ''abc'' = Inr (fips_sha1 ''abc'')"
  using hv_sha1_is_fips[of any_ctx "''abc''"] by (simp add: any_ctx_def)

end
