(* ===== verification/Md5.thy ===== *)
theory Md5
  imports Sha1
begin

text \<open>
  MD5: \<open>src/utils/md5.c\<close>. As for SHA-1, the transform of one block is written with the roles
  of its variables moving, and shown equal to the definition of RFC 1321, which shares no
  definition with the code; the streaming functions are shown to be that definition on the
  padded message.
\<close>

section \<open>Macros\<close>

definition md5_F :: "w32 \<Rightarrow> w32 \<Rightarrow> w32 \<Rightarrow> w32" where "md5_F x y z = (x AND y) OR (NOT x AND z)"
definition md5_G :: "w32 \<Rightarrow> w32 \<Rightarrow> w32 \<Rightarrow> w32" where "md5_G x y z = (x AND z) OR (y AND NOT z)"
definition md5_H :: "w32 \<Rightarrow> w32 \<Rightarrow> w32 \<Rightarrow> w32" where "md5_H x y z = x XOR y XOR z"
definition md5_I :: "w32 \<Rightarrow> w32 \<Rightarrow> w32 \<Rightarrow> w32" where "md5_I x y z = y XOR (x OR NOT z)"

definition ROTATE_LEFT :: "w32 \<Rightarrow> nat \<Rightarrow> w32" where
  "ROTATE_LEFT x n = push_bit n x OR drop_bit (32 - n) x"

text \<open>
  The sixty-four operations of \<open>MD5Transform\<close>: the word of the block, the shift and the
  constant of each. The first sixteen are \<open>FF\<close>, then \<open>GG\<close>, \<open>HH\<close> and \<open>II\<close>.
\<close>

definition md5_ops :: "(nat \<times> nat \<times> w32) list" where
  "md5_ops = [
      (0, 7, 0xd76aa478), (1, 12, 0xe8c7b756), (2, 17, 0x242070db), (3, 22, 0xc1bdceee),
      (4, 7, 0xf57c0faf), (5, 12, 0x4787c62a), (6, 17, 0xa8304613), (7, 22, 0xfd469501),
      (8, 7, 0x698098d8), (9, 12, 0x8b44f7af), (10, 17, 0xffff5bb1), (11, 22, 0x895cd7be),
      (12, 7, 0x6b901122), (13, 12, 0xfd987193), (14, 17, 0xa679438e), (15, 22, 0x49b40821),
      (1, 5, 0xf61e2562), (6, 9, 0xc040b340), (11, 14, 0x265e5a51), (0, 20, 0xe9b6c7aa),
      (5, 5, 0xd62f105d), (10, 9, 0x2441453), (15, 14, 0xd8a1e681), (4, 20, 0xe7d3fbc8),
      (9, 5, 0x21e1cde6), (14, 9, 0xc33707d6), (3, 14, 0xf4d50d87), (8, 20, 0x455a14ed),
      (13, 5, 0xa9e3e905), (2, 9, 0xfcefa3f8), (7, 14, 0x676f02d9), (12, 20, 0x8d2a4c8a),
      (5, 4, 0xfffa3942), (8, 11, 0x8771f681), (11, 16, 0x6d9d6122), (14, 23, 0xfde5380c),
      (1, 4, 0xa4beea44), (4, 11, 0x4bdecfa9), (7, 16, 0xf6bb4b60), (10, 23, 0xbebfbc70),
      (13, 4, 0x289b7ec6), (0, 11, 0xeaa127fa), (3, 16, 0xd4ef3085), (6, 23, 0x4881d05),
      (9, 4, 0xd9d4d039), (12, 11, 0xe6db99e5), (15, 16, 0x1fa27cf8), (2, 23, 0xc4ac5665),
      (0, 6, 0xf4292244), (7, 10, 0x432aff97), (14, 15, 0xab9423a7), (5, 21, 0xfc93a039),
      (12, 6, 0x655b59c3), (3, 10, 0x8f0ccc92), (10, 15, 0xffeff47d), (1, 21, 0x85845dd1),
      (8, 6, 0x6fa87e4f), (15, 10, 0xfe2ce6e0), (6, 15, 0xa3014314), (13, 21, 0x4e0811a1),
      (4, 6, 0xf7537e82), (11, 10, 0xbd3af235), (2, 15, 0x2ad7d2bb), (9, 21, 0xeb86d391)]"

definition md5_fun :: "nat \<Rightarrow> w32 \<Rightarrow> w32 \<Rightarrow> w32 \<Rightarrow> w32" where
  "md5_fun i = (if i < 16 then md5_F else if i < 32 then md5_G else if i < 48 then md5_H else md5_I)"

text \<open>
  One operation. The arguments \<open>a\<close>, \<open>b\<close>, \<open>c\<close>, \<open>d\<close> of operation \<open>i\<close> are the variables from
  position \<open>-i\<close> modulo 4 on: \<open>FF(a, b, c, d, ...)\<close>, \<open>FF(d, a, b, c, ...)\<close>, and so on.
\<close>

definition md5_role :: "nat \<Rightarrow> nat \<Rightarrow> nat" where "md5_role i k = (64 - i + k) mod 4"

definition md5_op :: "w32 list \<Rightarrow> w32 list \<Rightarrow> nat \<Rightarrow> w32 list" where
  "md5_op x vs i =
     (let (k, s, ac) = md5_ops ! i;
          a = vs ! md5_role i 0; b = vs ! md5_role i 1; c = vs ! md5_role i 2; d = vs ! md5_role i 3;
          a = a + (md5_fun i b c d + x ! k + ac);
          a = ROTATE_LEFT a s;
          a = a + b
      in vs[md5_role i 0 := a])"

section \<open>Bytes and words\<close>

definition MD5Decode :: "string \<Rightarrow> w32 list" where
  "MD5Decode input = map (\<lambda>i. le_word (take 4 (drop (4 * i) input))) [0..<length input div 4]"

definition le_bytes :: "w32 \<Rightarrow> string" where
  "le_bytes w = map (\<lambda>i. char_of (uint (drop_bit (8 * i) w AND 0xFF))) [0..<4]"

definition MD5Encode :: "w32 list \<Rightarrow> string" where
  "MD5Encode input = concat (map le_bytes input)"

definition MD5Transform :: "w32 list \<Rightarrow> string \<Rightarrow> w32 list" where
  "MD5Transform state block = map2 (+) state (foldl (md5_op (MD5Decode block)) state [0..<64])"

section \<open>The context\<close>

record MD5_CTX =
  md5_count0 :: w32
  md5_count1 :: w32
  md5_state :: "w32 list"
  md5_buffer :: string

definition md5_PADDING :: string where
  "md5_PADDING = CHR 0x80 # replicate 63 NUL"

definition MD5Init :: "MD5_CTX \<Rightarrow> MD5_CTX" where
  "MD5Init ctx = ctx \<lparr> md5_count0 := 0, md5_count1 := 0,
     md5_state := [0x67452301, 0xEFCDAB89, 0x98BADCFE, 0x10325476] \<rparr>"

function md5_blocks :: "w32 list \<Rightarrow> string \<Rightarrow> nat \<Rightarrow> nat \<Rightarrow> w32 list \<times> nat" where
  "md5_blocks st input i inputlen =
     (if i + 64 \<le> inputlen then md5_blocks (MD5Transform st (take 64 (drop i input))) input (i + 64) inputlen
      else (st, i))"
  by pat_completeness auto
termination
  by (relation "measure (\<lambda>(st, input, i, len). len - i)") auto

declare md5_blocks.simps [simp del]

definition MD5Update :: "MD5_CTX \<Rightarrow> string \<Rightarrow> MD5_CTX cres" where
  "MD5Update ctx input =
     (let inputlen = (word_of_nat (length input) :: w32);
          index = drop_bit 3 (md5_count0 ctx) AND 0x3F;
          partlen = 64 - index;
          c0 = md5_count0 ctx + push_bit 3 inputlen;
          c1 = (if c0 < push_bit 3 inputlen then md5_count1 ctx + 1 else md5_count1 ctx);
          c1 = c1 + drop_bit 29 inputlen;
          ctx = ctx \<lparr> md5_count0 := c0, md5_count1 := c1 \<rparr>
      in if partlen \<le> inputlen then
           cbind (wr_bytes (md5_buffer ctx) (unat index) (take (unat partlen) input)) (\<lambda>buf.
             let (st, i) = md5_blocks (MD5Transform (md5_state ctx) buf) input (unat partlen) (length input)
             in cbind (wr_bytes buf 0 (drop i input)) (\<lambda>buf.
                Inr (ctx \<lparr> md5_state := st, md5_buffer := buf \<rparr>)))
         else
           cbind (wr_bytes (md5_buffer ctx) (unat index) input) (\<lambda>buf. Inr (ctx \<lparr> md5_buffer := buf \<rparr>)))"

definition MD5Final :: "MD5_CTX \<Rightarrow> string cres" where
  "MD5Final ctx =
     (let index = drop_bit 3 (md5_count0 ctx) AND 0x3F;
          padlen = (if index < 56 then 56 - index else 120 - index);
          bits = MD5Encode [md5_count0 ctx, md5_count1 ctx]
      in cbind (MD5Update ctx (take (unat padlen) md5_PADDING)) (\<lambda>ctx.
         cbind (MD5Update ctx bits) (\<lambda>ctx. Inr (MD5Encode (md5_state ctx)))))"

definition hv_md5 :: "MD5_CTX \<Rightarrow> string \<Rightarrow> string cres" where
  "hv_md5 ctx input = cbind (MD5Update (MD5Init ctx) input) MD5Final"

definition hv_md5_hex :: "MD5_CTX \<Rightarrow> string \<Rightarrow> string \<Rightarrow> string cres" where
  "hv_md5_hex ctx input output =
     (if length output < 32 then Inr output
      else cbind (hv_md5 ctx input) (\<lambda>digest.
        let hex = concat (map (\<lambda>c. [i2hex (drop_bit 4 (byte_of c)), i2hex (byte_of c AND 0x0F)]) digest)
        in wr_bytes output 0 (if length output > 32 then hex @ [NUL] else hex)))"

section \<open>RFC 1321\<close>

definition rfc_T :: "w32 list" where
  "rfc_T = [
      0xd76aa478, 0xe8c7b756, 0x242070db, 0xc1bdceee, 0xf57c0faf, 0x4787c62a, 0xa8304613, 0xfd469501,
      0x698098d8, 0x8b44f7af, 0xffff5bb1, 0x895cd7be, 0x6b901122, 0xfd987193, 0xa679438e, 0x49b40821,
      0xf61e2562, 0xc040b340, 0x265e5a51, 0xe9b6c7aa, 0xd62f105d, 0x2441453, 0xd8a1e681, 0xe7d3fbc8,
      0x21e1cde6, 0xc33707d6, 0xf4d50d87, 0x455a14ed, 0xa9e3e905, 0xfcefa3f8, 0x676f02d9, 0x8d2a4c8a,
      0xfffa3942, 0x8771f681, 0x6d9d6122, 0xfde5380c, 0xa4beea44, 0x4bdecfa9, 0xf6bb4b60, 0xbebfbc70,
      0x289b7ec6, 0xeaa127fa, 0xd4ef3085, 0x4881d05, 0xd9d4d039, 0xe6db99e5, 0x1fa27cf8, 0xc4ac5665,
      0xf4292244, 0x432aff97, 0xab9423a7, 0xfc93a039, 0x655b59c3, 0x8f0ccc92, 0xffeff47d, 0x85845dd1,
      0x6fa87e4f, 0xfe2ce6e0, 0xa3014314, 0x4e0811a1, 0xf7537e82, 0xbd3af235, 0x2ad7d2bb, 0xeb86d391]"

definition rfc_k :: "nat \<Rightarrow> nat" where
  "rfc_k i = (if i < 16 then i else if i < 32 then (5 * i + 1) mod 16 else if i < 48 then (3 * i + 5) mod 16 else (7 * i) mod 16)"

definition rfc_s :: "nat \<Rightarrow> nat" where
  "rfc_s i = (if i < 16 then [7, 12, 17, 22] ! (i mod 4) else if i < 32 then [5, 9, 14, 20] ! (i mod 4)
     else if i < 48 then [4, 11, 16, 23] ! (i mod 4) else [6, 10, 15, 21] ! (i mod 4))"

text \<open>The four functions and the block read as words, as the RFC writes them.\<close>

definition rfc_F :: "w32 \<Rightarrow> w32 \<Rightarrow> w32 \<Rightarrow> w32" where "rfc_F X Y Z = (X AND Y) OR (NOT X AND Z)"
definition rfc_G :: "w32 \<Rightarrow> w32 \<Rightarrow> w32 \<Rightarrow> w32" where "rfc_G X Y Z = (X AND Z) OR (Y AND NOT Z)"
definition rfc_H :: "w32 \<Rightarrow> w32 \<Rightarrow> w32 \<Rightarrow> w32" where "rfc_H X Y Z = (X XOR Y) XOR Z"
definition rfc_I :: "w32 \<Rightarrow> w32 \<Rightarrow> w32 \<Rightarrow> w32" where "rfc_I X Y Z = Y XOR (X OR NOT Z)"

definition rfc_fun :: "nat \<Rightarrow> w32 \<Rightarrow> w32 \<Rightarrow> w32 \<Rightarrow> w32" where
  "rfc_fun i = [rfc_F, rfc_G, rfc_H, rfc_I] ! (i div 16)"

definition rfc_X :: "string \<Rightarrow> w32 list" where
  "rfc_X B = map (\<lambda>j. word_of_nat (octets_val (take 4 (drop (4 * j) B)))) [0..<16]"

definition rfc_round :: "w32 list \<Rightarrow> w32 \<times> w32 \<times> w32 \<times> w32 \<Rightarrow> nat \<Rightarrow> w32 \<times> w32 \<times> w32 \<times> w32" where
  "rfc_round x s i =
     (case s of (a, b, c, d) \<Rightarrow> (d, b + word_rotl (rfc_s i) (a + rfc_fun i b c d + x ! rfc_k i + rfc_T ! i), b, c))"

definition rfc_compress :: "w32 list \<Rightarrow> string \<Rightarrow> w32 list" where
  "rfc_compress h B =
     (case foldl (rfc_round (rfc_X B)) (h ! 0, h ! 1, h ! 2, h ! 3) [0..<64] of
        (a, b, c, d) \<Rightarrow> [h ! 0 + a, h ! 1 + b, h ! 2 + c, h ! 3 + d])"

definition rfc_H0 :: "w32 list" where
  "rfc_H0 = [0x67452301, 0xefcdab89, 0x98badcfe, 0x10325476]"

definition rfc_pad :: "string \<Rightarrow> string" where
  "rfc_pad msg = msg @ [CHR 0x80] @ replicate ((119 - length msg mod 64) mod 64) NUL @
     octets 8 (8 * length msg)"

definition rfc_md5 :: "string \<Rightarrow> string" where
  "rfc_md5 msg = concat (map (\<lambda>h. octets 4 (unat h)) (blocks rfc_compress rfc_H0 (rfc_pad msg)))"

section \<open>The macros are the functions of the RFC\<close>

lemma md5_fun_rfc: "i < 64 \<Longrightarrow> md5_fun i x y z = rfc_fun i x y z"
proof -
  assume "i < 64"
  then consider "i < 16" "i div 16 = 0" | "16 \<le> i" "i < 32" "i div 16 = 1" | "32 \<le> i" "i < 48" "i div 16 = 2" | "48 \<le> i" "i div 16 = 3"
    by linarith
  then show ?thesis
    by cases (simp_all add: md5_fun_def rfc_fun_def md5_F_def md5_G_def md5_H_def md5_I_def rfc_F_def rfc_G_def rfc_H_def rfc_I_def
        xor.assoc)
qed

lemma ROTATE_LEFT_rotl: "n < 32 \<Longrightarrow> ROTATE_LEFT x n = word_rotl n x"
  using rol_is_rotl[of n x] by (simp add: ROTATE_LEFT_def rol_def)

lemma rfc_s_less: "rfc_s i < 32"
proof -
  have "i mod 4 < 4" by simp
  then consider "i mod 4 = 0" | "i mod 4 = 1" | "i mod 4 = 2" | "i mod 4 = 3" by linarith
  then show ?thesis by cases (simp_all add: rfc_s_def)
qed

lemma disjoint_add: "(\<And>n. \<not> (bit a n \<and> bit b n)) \<Longrightarrow> (a :: w32) OR b = a + b"
  by (rule disjunctive_add[symmetric]) blast

lemma le_word_val:
  assumes "length b = 4"
  shows "le_word b = word_of_nat (octets_val b)"
proof -
  obtain b0 b1 b2 b3 where b: "b = [b0, b1, b2, b3]" using assms by (auto simp: length_Suc_conv numeral_eq_Suc)
  let ?w = byte_word
  have "le_word b = ?w b0 + push_bit 8 (?w b1) + push_bit 16 (?w b2) + push_bit 24 (?w b3)"
    unfolding le_word_def b
    by (simp only: nth_Cons_0 nth_Cons_Suc numeral_2_eq_2 numeral_3_eq_3 One_nat_def or.assoc[symmetric])
      (subst disjoint_add, force simp: bit_or_iff bit_push_bit_iff bit_byte_word,
       subst disjoint_add, force simp: bit_or_iff bit_push_bit_iff bit_byte_word,
       subst disjoint_add, force simp: bit_or_iff bit_push_bit_iff bit_byte_word, rule refl)
  moreover have "?w c = word_of_nat (of_char c)" for c
    by (simp add: byte_word_def of_int_of_char of_nat_of_char)
  ultimately show ?thesis
    unfolding b by (simp add: push_bit_eq_mult algebra_simps)
qed

lemma MD5Decode_rfc:
  assumes "length B = 64"
  shows "MD5Decode B = rfc_X B"
  unfolding MD5Decode_def rfc_X_def using assms by (intro map_cong) (simp_all add: le_word_val)

lemma le_bytes_octets: "le_bytes w = octets 4 (unat w)"
  unfolding le_bytes_def byte_of_word octets_4 by (simp add: upt_rec)

lemma MD5Encode_octets: "MD5Encode ws = concat (map (\<lambda>h. octets 4 (unat h)) ws)"
proof -
  have "le_bytes = (\<lambda>h. octets 4 (unat h))" by (rule ext) (rule le_bytes_octets)
  then show ?thesis by (simp only: MD5Encode_def)
qed

section \<open>The transform\<close>

lemma md5_table:
  "list_all (\<lambda>i. md5_ops ! i = (rfc_k i, rfc_s i, rfc_T ! i)) [0..<64]"
  by code_simp

lemma md5_role_step:
  assumes "i < 64"
  shows "md5_role (Suc i) 0 = md5_role i 3" "md5_role (Suc i) 1 = md5_role i 0" "md5_role (Suc i) 2 = md5_role i 1"
    "md5_role (Suc i) 3 = md5_role i 2"
proof -
  define n where "n = 63 - i"
  have n: "64 - i = Suc n" "64 - Suc i = n" using assms by (auto simp: n_def)
  show "md5_role (Suc i) 0 = md5_role i 3" "md5_role (Suc i) 1 = md5_role i 0" "md5_role (Suc i) 2 = md5_role i 1"
    "md5_role (Suc i) 3 = md5_role i 2"
    unfolding md5_role_def n by (simp_all add: add.commute)
qed

lemma md5_role_cases:
  obtains "md5_role i 0 = 0" "md5_role i 1 = 1" "md5_role i 2 = 2" "md5_role i 3 = 3"
  | "md5_role i 0 = 1" "md5_role i 1 = 2" "md5_role i 2 = 3" "md5_role i 3 = 0"
  | "md5_role i 0 = 2" "md5_role i 1 = 3" "md5_role i 2 = 0" "md5_role i 3 = 1"
  | "md5_role i 0 = 3" "md5_role i 1 = 0" "md5_role i 2 = 1" "md5_role i 3 = 2"
proof -
  have r: "md5_role i k = (md5_role i 0 + k) mod 4" for k by (simp add: md5_role_def mod_add_left_eq)
  have "md5_role i 0 < 4" by (simp add: md5_role_def)
  then consider "md5_role i 0 = 0" | "md5_role i 0 = 1" | "md5_role i 0 = 2" | "md5_role i 0 = 3" by linarith
  then show thesis by cases (use that r[of 1] r[of 2] r[of 3] in simp_all)
qed

definition md5_in_role :: "nat \<Rightarrow> w32 list \<Rightarrow> w32 \<times> w32 \<times> w32 \<times> w32" where
  "md5_in_role i vs = (vs ! md5_role i 0, vs ! md5_role i 1, vs ! md5_role i 2, vs ! md5_role i 3)"

lemma md5_op_sim:
  assumes "length vs = 4" "i < 64"
  shows "length (md5_op x vs i) = 4" "md5_in_role (Suc i) (md5_op x vs i) = rfc_round x (md5_in_role i vs) i"
proof -
  have t: "md5_ops ! i = (rfc_k i, rfc_s i, rfc_T ! i)" using md5_table assms(2) by (simp only: list_all_iff set_upt) simp
  show "length (md5_op x vs i) = 4" using assms(1) t by (simp add: md5_op_def Let_def)
  obtain s0 s1 s2 s3 where vs: "vs = [s0, s1, s2, s3]"
    using assms(1) by (auto simp: length_Suc_conv numeral_eq_Suc)
  show "md5_in_role (Suc i) (md5_op x vs i) = rfc_round x (md5_in_role i vs) i"
    unfolding md5_in_role_def rfc_round_def md5_op_def t Let_def md5_role_step[OF assms(2)] prod.case
      ROTATE_LEFT_rotl[OF rfc_s_less] md5_fun_rfc[OF assms(2)]
    by (rule md5_role_cases[of i]) (simp_all add: vs add.assoc add.commute add.left_commute)
qed

lemma md5_rounds_sim:
  assumes "length h = 4" "n \<le> 64"
  shows "length (foldl (md5_op x) h [0..<n]) = 4 \<and>
     md5_in_role n (foldl (md5_op x) h [0..<n]) = foldl (rfc_round x) (md5_in_role 0 h) [0..<n]"
  using assms(2)
proof (induction n)
  case 0
  then show ?case using assms(1) by simp
next
  case (Suc n)
  then show ?case using md5_op_sim[of "foldl (md5_op x) h [0..<n]" n x] by simp
qed

lemma MD5Transform_is_compress:
  assumes "length h = 4" "length B = 64"
  shows "MD5Transform h B = rfc_compress h B"
proof -
  let ?vs = "foldl (md5_op (MD5Decode B)) h [0..<64]"
  have f: "length ?vs = 4" "md5_in_role 64 ?vs = foldl (rfc_round (MD5Decode B)) (md5_in_role 0 h) [0..<64]"
    using md5_rounds_sim[OF assms(1), of 64 "MD5Decode B"] by auto
  obtain s0 s1 s2 s3 where vs: "?vs = [s0, s1, s2, s3]"
    using f(1) by (auto simp: length_Suc_conv numeral_eq_Suc)
  obtain h0 h1 h2 h3 where h: "h = [h0, h1, h2, h3]"
    using assms(1) by (auto simp: length_Suc_conv numeral_eq_Suc)
  have r: "md5_in_role 64 ?vs = (s0, s1, s2, s3)" "md5_in_role 0 h = (h0, h1, h2, h3)"
    unfolding vs by (simp_all add: md5_in_role_def md5_role_def h)
  show ?thesis using f(2) r vs by (simp add: MD5Transform_def rfc_compress_def h MD5Decode_rfc[OF assms(2)])
qed

section \<open>Streaming\<close>

definition md5_fits :: "string \<Rightarrow> bool" where
  "md5_fits msg = (length msg < 2 ^ 32)"

definition md5_absorbs :: "MD5_CTX \<Rightarrow> string \<Rightarrow> bool" where
  "md5_absorbs ctx msg \<longleftrightarrow> absorbed MD5Transform rfc_H0 msg (md5_state ctx) (md5_buffer ctx) \<and>
     md5_count0 ctx = word_of_nat (8 * length msg) \<and> md5_count1 ctx = word_of_nat (8 * length msg div 2 ^ 32)"

lemma md5_blocks_run:
  "len = length data \<Longrightarrow> i \<le> len \<Longrightarrow> fst (md5_blocks st data i len) = blocks MD5Transform st (drop i data) \<and>
     drop (snd (md5_blocks st data i len)) data = tail_of (drop i data)"
proof (induction st data i len rule: md5_blocks.induct)
  case (1 st data i len)
  show ?case
  proof (cases "i + 64 \<le> len")
    case True
    have "md5_blocks st data i len = md5_blocks (MD5Transform st (take 64 (drop i data))) data (i + 64) len"
      using True by (subst md5_blocks.simps) simp
    moreover have "blocks MD5Transform st (drop i data) =
        blocks MD5Transform (MD5Transform st (take 64 (drop i data))) (drop (i + 64) data)"
      using True 1(2) blocks.simps[of MD5Transform st "drop i data"] by (auto simp: add.commute)
    moreover have "tail_of (drop i data) = tail_of (drop (i + 64) data)"
      using True 1(2) tail_of_drop[of "drop i data"] by (simp add: add.commute)
    ultimately show ?thesis using 1 True by simp
  next
    case False
    then have "md5_blocks st data i len = (st, i)" by (subst md5_blocks.simps) simp
    moreover have "length (drop i data) < 64" using False 1(2,3) by simp
    ultimately show ?thesis by (simp add: blocks.simps tail_of_short)
  qed
qed

lemma count_index: "unat (drop_bit 3 (word_of_nat (8 * m) :: w32) AND 0x3F) = m mod 64"
  by (rule sha1_count(3)[of 0]) simp

lemma md5_count:
  fixes m n :: nat
  assumes "n < 2 ^ 32"
  defines "len \<equiv> (word_of_nat n :: w32)" and "index \<equiv> drop_bit 3 (word_of_nat (8 * m) :: w32) AND 0x3F"
  shows "(if (word_of_nat (8 * (m + n)) :: w32) < push_bit 3 len then word_of_nat (8 * m div 2 ^ 32) + 1
          else word_of_nat (8 * m div 2 ^ 32)) + drop_bit 29 len = (word_of_nat (8 * (m + n) div 2 ^ 32) :: w32)"
    and "unat (64 - index) = 64 - m mod 64"
    and "(64 - index \<le> len) = (64 \<le> m mod 64 + n)"
proof -
  have un: "unat len = n" using assms(1) by (simp add: len_def unat_w32)
  have p: "push_bit 3 len = (word_of_nat (8 * n) :: w32)" by (simp add: push_bit_eq_mult len_def mult.commute)
  have lt: "((word_of_nat (8 * (m + n)) :: w32) < word_of_nat (8 * n)) = ((8 * n + 8 * m) mod 2 ^ 32 < 8 * n mod 2 ^ 32)"
    by (simp only: word_less_nat_alt unat_w32 distrib_left add.commute)
  have db: "drop_bit 29 len = (word_of_nat (8 * n div 2 ^ 32) :: w32)"
  proof -
    have "8 * n div 2 ^ 32 = n div 2 ^ 29" by simp
    moreover have "drop_bit 29 len = (word_of_nat (n div 2 ^ 29) :: w32)"
      by (rule word_unat_eq_iff[THEN iffD2]) (use assms(1) un in \<open>simp add: drop_bit_eq_div unat_div unat_w32\<close>)
    ultimately show ?thesis by simp
  qed
  show "(if (word_of_nat (8 * (m + n)) :: w32) < push_bit 3 len then word_of_nat (8 * m div 2 ^ 32) + 1
          else word_of_nat (8 * m div 2 ^ 32)) + drop_bit 29 len = (word_of_nat (8 * (m + n) div 2 ^ 32) :: w32)"
    unfolding p lt db using carry_div[of "2 ^ 32" "8 * n" "8 * m"] by (simp add: distrib_left add.commute)
  have ix: "unat index = m mod 64" unfolding index_def by (rule count_index)
  then have "index \<le> 64" by (simp add: word_le_nat_alt)
  then show pl: "unat (64 - index) = 64 - m mod 64" using ix by (simp add: unat_sub)
  show "(64 - index \<le> len) = (64 \<le> m mod 64 + n)"
    unfolding word_le_nat_alt pl un by linarith
qed

lemma MD5Update_absorbs:
  assumes ab: "md5_absorbs ctx msg" and fit: "md5_fits (msg @ data)"
  shows "\<exists>ctx'. MD5Update ctx data = Inr ctx' \<and> md5_absorbs ctx' (msg @ data)"
proof -
  let ?m = "length msg" and ?n = "length data"
  have A: "absorbed MD5Transform rfc_H0 msg (md5_state ctx) (md5_buffer ctx)"
    and c: "md5_count0 ctx = word_of_nat (8 * ?m)" "md5_count1 ctx = word_of_nat (8 * ?m div 2 ^ 32)"
    using ab by (auto simp: md5_absorbs_def)
  have n: "?n < 2 ^ 32" using fit by (simp add: md5_fits_def)
  note cnt = md5_count[OF n, of ?m]
  have c0: "(word_of_nat (8 * ?m) :: w32) + push_bit 3 (word_of_nat ?n) = word_of_nat (8 * (?m + ?n))"
    by (simp add: push_bit_eq_mult distrib_left)
  have j: "unat (drop_bit 3 (word_of_nat (8 * ?m) :: w32) AND 0x3F) = tail_len msg"
    unfolding tail_len_def by (rule count_index)
  let ?ctx = "ctx \<lparr> md5_count0 := word_of_nat (8 * length (msg @ data)), md5_count1 := word_of_nat (8 * length (msg @ data) div 2 ^ 32) \<rparr>"
  have upd: "MD5Update ctx data =
      (if 64 \<le> tail_len msg + ?n then
         cbind (wr_bytes (md5_buffer ctx) (tail_len msg) (take (64 - tail_len msg) data)) (\<lambda>buf.
           let (st, i) = md5_blocks (MD5Transform (md5_state ctx) buf) data (64 - tail_len msg) ?n
           in cbind (wr_bytes buf 0 (drop i data)) (\<lambda>buf. Inr (?ctx \<lparr> md5_state := st, md5_buffer := buf \<rparr>)))
       else cbind (wr_bytes (md5_buffer ctx) (tail_len msg) data) (\<lambda>buf. Inr (?ctx \<lparr> md5_buffer := buf \<rparr>)))"
    unfolding MD5Update_def Let_def c c0 cnt(1) cnt(2) cnt(3) j length_append tail_len_def[symmetric] by simp
  show ?thesis
  proof (cases "64 \<le> tail_len msg + ?n")
    case False
    then have "tail_len msg + ?n < 64" by simp
    note s = absorbed_short[OF A this]
    show ?thesis unfolding upd using False s by (simp add: md5_absorbs_def)
  next
    case True
    let ?k = "64 - tail_len msg" and ?buf = "take (tail_len msg) (md5_buffer ctx) @ take (64 - tail_len msg) data"
    note f = absorbed_full[OF A True]
    obtain st i where b: "md5_blocks (MD5Transform (md5_state ctx) ?buf) data ?k ?n = (st, i)"
      by (cases "md5_blocks (MD5Transform (md5_state ctx) ?buf) data ?k ?n")
    have st: "st = blocks MD5Transform rfc_H0 (msg @ data)" and t: "tail_of (msg @ data) = drop i data"
      using md5_blocks_run[of ?n data ?k "MD5Transform (md5_state ctx) ?buf"] b f(2,3) True by auto
    note s = absorbed_store[OF f(4) st t]
    show ?thesis unfolding upd f(1) using True b s by (simp add: md5_absorbs_def)
  qed
qed

interpretation md5: hash_context MD5Update md5_absorbs md5_fits
  by unfold_locales (auto simp: MD5Update_absorbs, simp add: md5_fits_def)

lemma MD5Init_absorbs:
  assumes "length (md5_buffer ctx) = 64"
  shows "md5_absorbs (MD5Init ctx) []"
  using assms by (simp add: md5_absorbs_def absorbed_def MD5Init_def rfc_H0_def blocks.simps tail_len_def tail_of_def)

section \<open>The digest\<close>

lemma blocks_md5_compress: "length h = 4 \<Longrightarrow> blocks MD5Transform h msg = blocks rfc_compress h msg"
proof (induction "rfc_compress" h msg rule: blocks.induct)
  case (1 h msg)
  show ?case
  proof (cases "length msg < 64")
    case True
    then show ?thesis by (simp add: blocks.simps)
  next
    case False
    have "length (rfc_compress h (take 64 msg)) = 4" by (simp add: rfc_compress_def split: prod.splits)
    with 1 False show ?thesis
      by (simp add: blocks.simps[of _ h msg] MD5Transform_is_compress)
  qed
qed

lemma md5_padding:
  defines "index m \<equiv> drop_bit 3 (word_of_nat (8 * m) :: w32) AND 0x3F"
  shows "take (unat (if index m < 56 then 56 - index m else 120 - index m)) md5_PADDING =
     CHR 0x80 # replicate ((119 - m mod 64) mod 64) NUL"
proof -
  have ix: "unat (index m) = m mod 64" unfolding index_def by (rule count_index)
  have lt: "m mod 64 < 64" by simp
  have "unat (if index m < 56 then 56 - index m else 120 - index m) = Suc ((119 - m mod 64) mod 64)"
  proof (cases "m mod 64 < 56")
    case True
    then have "index m < 56" using ix by (simp add: word_less_nat_alt)
    moreover have "unat (56 - index m) = 56 - m mod 64" using ix True by (subst unat_sub) (simp_all add: word_le_nat_alt)
    moreover have "(119 - m mod 64) mod 64 = 55 - m mod 64"
    proof -
      have "119 - m mod 64 = (55 - m mod 64) + 64" using True by simp
      then show ?thesis by (simp only: mod_add_self2) simp
    qed
    moreover have "56 - m mod 64 = Suc (55 - m mod 64)" using True by linarith
    ultimately show ?thesis by simp
  next
    case False
    then have "\<not> index m < 56" using ix by (simp add: word_less_nat_alt)
    moreover have "unat (120 - index m) = 120 - m mod 64" using ix lt by (subst unat_sub) (simp_all add: word_le_nat_alt)
    ultimately show ?thesis using False lt by (simp add: Suc_diff_le)
  qed
  then show ?thesis by (simp add: md5_PADDING_def min_def)
qed

text \<open>C39: the streaming functions on a message of any length up to \<open>2 ^ 32 - 192\<close> bytes, from any
  content of the context, give the MD5 digest that RFC 1321 defines. The definition of the RFC is
  written with its own functions, rotation of words, and reading and writing of octets.\<close>

theorem hv_md5_is_rfc:
  assumes "length (md5_buffer ctx) = 64" "length msg + 192 \<le> 2 ^ 32"
  shows "hv_md5 ctx msg = Inr (rfc_md5 msg)"
proof -
  let ?k = "(119 - length msg mod 64) mod 64"
  let ?pad = "CHR 0x80 # replicate ?k NUL"
  let ?bits = "MD5Encode [word_of_nat (8 * length msg), word_of_nat (8 * length msg div 2 ^ 32)]"
  have fit: "md5_fits (msg @ x)" if "length x \<le> 128" for x using assms(2) that by (simp add: md5_fits_def)
  have l8: "length ?bits = 8" by (simp add: MD5Encode_def le_bytes_def)
  obtain c1 where c1: "MD5Update (MD5Init ctx) msg = Inr c1" "md5_absorbs c1 ([] @ msg)"
    using MD5Update_absorbs[OF MD5Init_absorbs[OF assms(1)], of msg] fit[of "[]"] by auto
  then have cnt: "md5_count0 c1 = word_of_nat (8 * length msg)" "md5_count1 c1 = word_of_nat (8 * length msg div 2 ^ 32)"
    by (simp_all add: md5_absorbs_def)
  obtain c2 where c2: "MD5Update c1 ?pad = Inr c2" "md5_absorbs c2 (([] @ msg) @ ?pad)"
    using MD5Update_absorbs[OF c1(2), of ?pad] fit[of ?pad] by auto
  obtain c3 where c3: "MD5Update c2 ?bits = Inr c3" "md5_absorbs c3 ((([] @ msg) @ ?pad) @ ?bits)"
    using MD5Update_absorbs[OF c2(2), of ?bits] fit[of "?pad @ ?bits"] l8 by auto
  have "(([] @ msg) @ ?pad) @ ?bits = rfc_pad msg" by (simp add: rfc_pad_def MD5Encode_octets octets_8)
  then have "md5_state c3 = blocks rfc_compress rfc_H0 (rfc_pad msg)"
    using c3(2) blocks_md5_compress[of rfc_H0] by (simp add: md5_absorbs_def absorbed_def rfc_H0_def)
  moreover have "MD5Final c1 = Inr (MD5Encode (md5_state c3))"
    unfolding MD5Final_def Let_def cnt md5_padding using c2(1) c3(1) by simp
  ultimately show ?thesis using c1(1) by (simp add: hv_md5_def rfc_md5_def MD5Encode_octets)
qed

definition any_md5_ctx :: MD5_CTX where
  "any_md5_ctx = \<lparr> md5_count0 = 0, md5_count1 = 0, md5_state = [], md5_buffer = replicate 64 (CHR ''?'') \<rparr>"

theorem hv_md5_is_rfc_witness: "hv_md5 any_md5_ctx ''abc'' = Inr (rfc_md5 ''abc'')"
  using hv_md5_is_rfc[of any_md5_ctx "''abc''"] by (simp add: any_md5_ctx_def)

end
