(* ===== verification/HttpDef.thy ===== *)
theory HttpDef
  imports Prelude
begin

text \<open>
  The tables of \<open>http/httpdef.h\<close> and the conversions of \<open>http/httpdef.c\<close> between status codes,
  methods, content types and their texts. An enumerator is its number; the X-macros expand to one
  comparison per row, in the order of the rows.
\<close>

section \<open>Tables\<close>

definition http_status_map :: "(int \<times> string) list" where
  "http_status_map = [
     (100, ''Continue''), (101, ''Switching Protocols''), (102, ''Processing''), (200, ''OK''),
     (201, ''Created''), (202, ''Accepted''), (203, ''Non-Authoritative Information''),
     (204, ''No Content''), (205, ''Reset Content''), (206, ''Partial Content''),
     (207, ''Multi-Status''), (208, ''Already Reported''), (226, ''IM Used''),
     (300, ''Multiple Choices''), (301, ''Moved Permanently''), (302, ''Found''),
     (303, ''See Other''), (304, ''Not Modified''), (305, ''Use Proxy''),
     (307, ''Temporary Redirect''), (308, ''Permanent Redirect''), (400, ''Bad Request''),
     (401, ''Unauthorized''), (402, ''Payment Required''), (403, ''Forbidden''),
     (404, ''Not Found''), (405, ''Method Not Allowed''), (406, ''Not Acceptable''),
     (407, ''Proxy Authentication Required''), (408, ''Request Timeout''), (409, ''Conflict''),
     (410, ''Gone''), (411, ''Length Required''), (412, ''Precondition Failed''),
     (413, ''Payload Too Large''), (414, ''URI Too Long''), (415, ''Unsupported Media Type''),
     (416, ''Range Not Satisfiable''), (417, ''Expectation Failed''),
     (421, ''Misdirected Request''), (422, ''Unprocessable Entity''), (423, ''Locked''),
     (424, ''Failed Dependency''), (426, ''Upgrade Required''), (428, ''Precondition Required''),
     (429, ''Too Many Requests''), (431, ''Request Header Fields Too Large''),
     (451, ''Unavailable For Legal Reasons''), (500, ''Internal Server Error''),
     (501, ''Not Implemented''), (502, ''Bad Gateway''), (503, ''Service Unavailable''),
     (504, ''Gateway Timeout''), (505, ''HTTP Version Not Supported''),
     (506, ''Variant Also Negotiates''), (507, ''Insufficient Storage''), (508, ''Loop Detected''),
     (510, ''Not Extended''), (511, ''Network Authentication Required'')]"

definition HTTP_CUSTOM_STATUS :: int where "HTTP_CUSTOM_STATUS = 512"

definition http_method_map :: "(int \<times> string) list" where
  "http_method_map = [
     (0, ''DELETE''), (1, ''GET''), (2, ''HEAD''), (3, ''POST''), (4, ''PUT''), (5, ''CONNECT''),
     (6, ''OPTIONS''), (7, ''TRACE''), (8, ''COPY''), (9, ''LOCK''), (10, ''MKCOL''),
     (11, ''MOVE''), (12, ''PROPFIND''), (13, ''PROPPATCH''), (14, ''SEARCH''), (15, ''UNLOCK''),
     (16, ''BIND''), (17, ''REBIND''), (18, ''UNBIND''), (19, ''ACL''), (20, ''REPORT''),
     (21, ''MKACTIVITY''), (22, ''CHECKOUT''), (23, ''MERGE''), (24, ''M-SEARCH''),
     (25, ''NOTIFY''), (26, ''SUBSCRIBE''), (27, ''UNSUBSCRIBE''), (28, ''PATCH''), (29, ''PURGE''),
     (30, ''MKCALENDAR''), (31, ''LINK''), (32, ''UNLINK''), (33, ''SOURCE'')]"

definition HTTP_CUSTOM_METHOD :: int where "HTTP_CUSTOM_METHOD = 34"

definition HTTP_DELETE :: int where "HTTP_DELETE = 0"
definition HTTP_GET :: int where "HTTP_GET = 1"
definition HTTP_HEAD :: int where "HTTP_HEAD = 2"
definition HTTP_POST :: int where "HTTP_POST = 3"
definition HTTP_PUT :: int where "HTTP_PUT = 4"
definition HTTP_PATCH :: int where "HTTP_PATCH = 28"

text \<open>Number, MIME type and file suffix.\<close>

definition http_content_type_map :: "(int \<times> string \<times> string) list" where
  "http_content_type_map = [
     (1, ''text/plain'', ''txt''), (2, ''text/html'', ''html''), (3, ''text/css'', ''css''),
     (4, ''image/jpeg'', ''jpg''), (5, ''image/png'', ''png''), (6, ''image/gif'', ''gif''),
     (7, ''image/bmp'', ''bmp''), (8, ''image/svg'', ''svg''),
     (9, ''application/octet-stream'', ''bin''), (10, ''application/javascript'', ''js''),
     (11, ''application/xml'', ''xml''), (12, ''application/json'', ''json''),
     (13, ''application/grpc'', ''grpc''), (14, ''application/x-www-form-urlencoded'', ''kv''),
     (15, ''multipart/form-data'', ''mp'')]"

definition CONTENT_TYPE_NONE :: int where "CONTENT_TYPE_NONE = 0"
definition TEXT_PLAIN :: int where "TEXT_PLAIN = 1"
definition TEXT_HTML :: int where "TEXT_HTML = 2"
definition APPLICATION_JSON :: int where "APPLICATION_JSON = 12"
definition APPLICATION_URLENCODED :: int where "APPLICATION_URLENCODED = 14"
definition MULTIPART_FORM_DATA :: int where "MULTIPART_FORM_DATA = 15"
definition CONTENT_TYPE_UNDEFINED :: int where "CONTENT_TYPE_UNDEFINED = 16"

section \<open>Conversions\<close>

fun strstartswith :: "string \<Rightarrow> string \<Rightarrow> bool" where
  "strstartswith (a # str) (b # start) = (if a = b then strstartswith str start else False)"
| "strstartswith str start = (start = [])"

text \<open>A \<open>switch\<close> over the rows, and a chain of \<open>strcmp\<close> over them.\<close>

definition str_of :: "(int \<times> string) list \<Rightarrow> int \<Rightarrow> string" where
  "str_of rows n = (case map_of rows n of Some s \<Rightarrow> s | None \<Rightarrow> ''<unknown>'')"

fun enum_of :: "(int \<times> string) list \<Rightarrow> (string \<Rightarrow> bool) \<Rightarrow> int \<Rightarrow> int" where
  "enum_of [] eq d = d"
| "enum_of ((n, s) # rows) eq d = (if eq s then n else enum_of rows eq d)"

definition http_status_str :: "int \<Rightarrow> string" where "http_status_str status = str_of http_status_map status"
definition http_method_str :: "int \<Rightarrow> string" where "http_method_str method = str_of http_method_map method"

definition type_rows :: "(int \<times> string) list" where
  "type_rows = map (\<lambda>(n, s, x). (n, s)) http_content_type_map"
definition suffix_rows :: "(int \<times> string) list" where
  "suffix_rows = map (\<lambda>(n, s, x). (n, x)) http_content_type_map"

definition http_content_type_str :: "int \<Rightarrow> string" where "http_content_type_str t = str_of type_rows t"
definition http_content_type_suffix :: "int \<Rightarrow> string" where "http_content_type_suffix t = str_of suffix_rows t"

definition http_status_enum :: "string \<Rightarrow> int" where
  "http_status_enum str = enum_of http_status_map (\<lambda>s. cstr str = s) HTTP_CUSTOM_STATUS"
definition http_method_enum :: "string \<Rightarrow> int" where
  "http_method_enum str = enum_of http_method_map (\<lambda>s. cstr str = s) HTTP_CUSTOM_METHOD"

definition http_content_type_enum :: "string option \<Rightarrow> int" where
  "http_content_type_enum str =
     (case str of None \<Rightarrow> CONTENT_TYPE_NONE
      | Some s \<Rightarrow> if cstr s = [] then CONTENT_TYPE_NONE
                  else enum_of type_rows (strstartswith (cstr s)) CONTENT_TYPE_UNDEFINED)"

definition http_content_type_str_by_suffix :: "string option \<Rightarrow> string" where
  "http_content_type_str_by_suffix str =
     (case str of None \<Rightarrow> []
      | Some s \<Rightarrow> if cstr s = [] then []
                  else (case find (\<lambda>(n, t, x). x = cstr s) http_content_type_map of None \<Rightarrow> [] | Some (n, t, x) \<Rightarrow> t))"

definition http_content_type_enum_by_suffix :: "string option \<Rightarrow> int" where
  "http_content_type_enum_by_suffix str =
     (case str of None \<Rightarrow> CONTENT_TYPE_NONE
      | Some s \<Rightarrow> if cstr s = [] then CONTENT_TYPE_NONE
                  else enum_of suffix_rows (\<lambda>x. cstr s = x) CONTENT_TYPE_UNDEFINED)"

section \<open>The texts identify the rows\<close>

lemma strstartswith_prefix: "strstartswith s p \<longleftrightarrow> (\<exists>r. s = p @ r)"
  by (induction s p rule: strstartswith.induct) auto

lemma enum_of_row:
  assumes "(n, s) \<in> set rows" "eq s" "\<forall>(m, t) \<in> set rows. eq t \<longrightarrow> m = n"
  shows "enum_of rows eq d = n"
  using assms by (induction rows) auto

lemma str_of_row: "distinct (map fst rows) \<Longrightarrow> (n, s) \<in> set rows \<Longrightarrow> str_of rows n = s"
  by (simp add: str_of_def)

text \<open>A table whose numbers and texts are all different converts in both directions.\<close>

lemma table_roundtrip:
  assumes "distinct (map fst rows)" "distinct (map snd rows)" "n \<in> set (map fst rows)"
  shows "enum_of rows (\<lambda>s. str_of rows n = s) d = n"
proof -
  from assms(3) obtain s where s: "(n, s) \<in> set rows" by auto
  have "str_of rows n = s" using str_of_row[OF assms(1) s] .
  moreover have "\<forall>(m, t) \<in> set rows. s = t \<longrightarrow> m = n"
    using s assms(2) by (fastforce simp: distinct_map inj_on_def)
  ultimately show ?thesis using s by (intro enum_of_row[of n s]) auto
qed

lemma tables_distinct:
  "distinct (map fst http_status_map)" "distinct (map snd http_status_map)"
  "distinct (map fst http_method_map)" "distinct (map snd http_method_map)"
  "distinct (map fst type_rows)" "distinct (map snd type_rows)"
  "distinct (map fst suffix_rows)" "distinct (map snd suffix_rows)"
  by code_simp+

lemma tables_cstr:
  "list_all (\<lambda>(n, s). cstr s = s) http_status_map" "list_all (\<lambda>(n, s). cstr s = s) http_method_map"
  by code_simp+

lemma type_prefixes:
  "list_all (\<lambda>(n, s). list_all (\<lambda>(m, t). strstartswith (cstr s) t \<longrightarrow> m = n) type_rows) type_rows"
  "list_all (\<lambda>(n, s). cstr s = s \<and> s \<noteq> []) type_rows"
  by code_simp+

section \<open>Properties\<close>

text \<open>Every status, method and content type of the tables is recovered from its text.\<close>

theorem httpdef_roundtrip:
  "list_all (\<lambda>n. http_status_enum (http_status_str n) = n) (map fst http_status_map) \<and>
   list_all (\<lambda>n. http_method_enum (http_method_str n) = n) (map fst http_method_map) \<and>
   list_all (\<lambda>n. http_content_type_enum (Some (http_content_type_str n)) = n) (map fst http_content_type_map)"
proof (intro conjI)
  show "list_all (\<lambda>n. http_status_enum (http_status_str n) = n) (map fst http_status_map)"
    using table_roundtrip[OF tables_distinct(1,2)] tables_cstr(1) str_of_row[OF tables_distinct(1)]
    by (fastforce simp: list_all_iff http_status_enum_def http_status_str_def)
  show "list_all (\<lambda>n. http_method_enum (http_method_str n) = n) (map fst http_method_map)"
    using table_roundtrip[OF tables_distinct(3,4)] tables_cstr(2) str_of_row[OF tables_distinct(3)]
    by (fastforce simp: list_all_iff http_method_enum_def http_method_str_def)
  have "http_content_type_enum (Some (http_content_type_str n)) = n" if "(n, s) \<in> set type_rows" for n s
  proof -
    have "http_content_type_str n = s" using str_of_row[OF tables_distinct(5) that] by (simp add: http_content_type_str_def)
    moreover have "\<forall>(m, t) \<in> set type_rows. strstartswith (cstr s) t \<longrightarrow> m = n" "cstr s = s" "s \<noteq> []"
      using type_prefixes that by (auto simp: list_all_iff)
    ultimately show ?thesis using that enum_of_row[of n s type_rows "strstartswith (cstr s)"]
      by (auto simp: http_content_type_enum_def strstartswith_prefix)
  qed
  then show "list_all (\<lambda>n. http_content_type_enum (Some (http_content_type_str n)) = n) (map fst http_content_type_map)"
    by (force simp: list_all_iff type_rows_def)
qed

end
