(* ===== verification/HttpParserDefs.thy ===== *)
theory HttpParserDefs
  imports HttpDef
begin

text \<open>
  The HTTP/1 parser of \<open>src/http/http_parser.c\<close>, part one: its tables and character
  classes, the parser object, the states, the URL automaton, and the loops over a header
  name and a header value. The sources are built with \<open>HTTP_PARSER_STRICT\<close> and the header
  limit of 80 KB.
\<close>

unbundle bit_operations_syntax

section \<open>Tables\<close>

text \<open>\<open>tokens\<close> has 128 entries in the source; the other 128 are zero. Byte 0 stands for zero.\<close>

definition tokens_tab :: string where
  "tokens_tab = replicate 32 NUL @ '' !'' @ [NUL] @ ''#$%&'' @ [CHR 0x27, NUL, NUL] @ ''*+'' @ [NUL] @ ''-.'' @ [NUL]
     @ ''0123456789'' @ replicate 7 NUL @ ''abcdefghijklmnopqrstuvwxyz'' @ replicate 3 NUL @ ''^_'' @ [CHR 0x60]
     @ ''abcdefghijklmnopqrstuvwxyz'' @ [NUL] @ ''|'' @ [NUL] @ ''~'' @ [NUL]"

definition tokens :: "char \<Rightarrow> char" where
  "tokens c = (if byte_of c < 128 then tokens_tab ! nat (byte_of c) else NUL)"

definition unhex_tab :: "int list" where
  "unhex_tab = replicate 48 (- 1) @ [0, 1, 2, 3, 4, 5, 6, 7, 8, 9] @ replicate 7 (- 1)
     @ [10, 11, 12, 13, 14, 15] @ replicate 26 (- 1) @ [10, 11, 12, 13, 14, 15] @ replicate 25 (- 1)"

text \<open>An array of 256 elements with 128 initialisers: the rest is zero.\<close>

definition unhex :: "char \<Rightarrow> int" where
  "unhex c = (if byte_of c < 128 then unhex_tab ! nat (byte_of c) else 0)"

definition normal_url_char :: "int list" where
  "normal_url_char = [0, 0, 0, 0, 0xF6, 0xFF, 0xFF, 0x7F, 0xFF, 0xFF, 0xFF, 0xFF, 0xFF, 0xFF, 0xFF, 0x7F]
     @ replicate 16 0"

definition BIT_AT :: "int list \<Rightarrow> int \<Rightarrow> bool" where
  "BIT_AT a i = bit (a ! nat (i div 8)) (nat (i mod 8))"

section \<open>Character classes\<close>

abbreviation "CR \<equiv> CHR 0x0D"
abbreviation "LF \<equiv> CHR 0x0A"
abbreviation "HT \<equiv> CHR 0x09"

definition LOWER :: "char \<Rightarrow> char" where "LOWER c = char_of (byte_of c OR 0x20)"
definition IS_ALPHA :: "char \<Rightarrow> bool" where
  "IS_ALPHA c = (97 \<le> byte_of (LOWER c) \<and> byte_of (LOWER c) \<le> 122)"
definition IS_NUM :: "char \<Rightarrow> bool" where "IS_NUM c = (48 \<le> byte_of c \<and> byte_of c \<le> 57)"
definition IS_ALPHANUM :: "char \<Rightarrow> bool" where "IS_ALPHANUM c = (IS_ALPHA c \<or> IS_NUM c)"
definition IS_HEX :: "char \<Rightarrow> bool" where
  "IS_HEX c = (IS_NUM c \<or> (97 \<le> byte_of (LOWER c) \<and> byte_of (LOWER c) \<le> 102))"
definition IS_MARK :: "char \<Rightarrow> bool" where
  "IS_MARK c = (c \<in> set [CHR ''-'', CHR ''_'', CHR ''.'', CHR ''!'', CHR ''~'', CHR ''*'', CHR 0x27, CHR ''('', CHR '')''])"
definition IS_USERINFO_CHAR :: "char \<Rightarrow> bool" where
  "IS_USERINFO_CHAR c = (IS_ALPHANUM c \<or> IS_MARK c \<or>
     c \<in> set [CHR ''%'', CHR '';'', CHR '':'', CHR ''&'', CHR ''='', CHR ''+'', CHR ''$'', CHR '',''])"
definition STRICT_TOKEN :: "char \<Rightarrow> char" where
  "STRICT_TOKEN c = (if c = CHR '' '' then NUL else tokens c)"
abbreviation "TOKEN \<equiv> STRICT_TOKEN"
definition IS_URL_CHAR :: "char \<Rightarrow> bool" where "IS_URL_CHAR c = BIT_AT normal_url_char (byte_of c)"
definition IS_HOST_CHAR :: "char \<Rightarrow> bool" where
  "IS_HOST_CHAR c = (IS_ALPHANUM c \<or> c = CHR ''.'' \<or> c = CHR ''-'')"
definition IS_HEADER_CHAR :: "char \<Rightarrow> bool" where
  "IS_HEADER_CHAR c = (c = CR \<or> c = LF \<or> byte_of c = 9 \<or> (31 < byte_of c \<and> byte_of c \<noteq> 127))"

section \<open>The parser object\<close>

datatype http_parser_type = HTTP_REQUEST | HTTP_RESPONSE | HTTP_BOTH

datatype pstate =
    s_dead
  | s_start_req_or_res | s_res_or_resp_H | s_start_res | s_res_H | s_res_HT | s_res_HTT | s_res_HTTP
  | s_res_http_major | s_res_http_dot | s_res_http_minor | s_res_http_end
  | s_res_first_status_code | s_res_status_code | s_res_status_start | s_res_status
  | s_res_line_almost_done
  | s_start_req
  | s_req_method | s_req_spaces_before_url | s_req_schema | s_req_schema_slash
  | s_req_schema_slash_slash | s_req_server_start | s_req_server | s_req_server_with_at
  | s_req_path | s_req_query_string_start | s_req_query_string | s_req_fragment_start
  | s_req_fragment | s_req_http_start | s_req_http_H | s_req_http_HT | s_req_http_HTT
  | s_req_http_HTTP | s_req_http_I | s_req_http_IC | s_req_http_major | s_req_http_dot
  | s_req_http_minor | s_req_http_end | s_req_line_almost_done
  | s_header_field_start | s_header_field | s_header_value_discard_ws
  | s_header_value_discard_ws_almost_done | s_header_value_discard_lws
  | s_header_value_start | s_header_value | s_header_value_lws
  | s_header_almost_done
  | s_chunk_size_start | s_chunk_size | s_chunk_parameters | s_chunk_size_almost_done
  | s_headers_almost_done | s_headers_done
  | s_chunk_data | s_chunk_data_almost_done | s_chunk_data_done
  | s_body_identity | s_body_identity_eof
  | s_message_done

text \<open>The states up to \<open>s_headers_done\<close> in the order of the enumeration.\<close>

definition PARSING_HEADER :: "pstate \<Rightarrow> bool" where
  "PARSING_HEADER s = (s \<notin> {s_chunk_data, s_chunk_data_almost_done, s_chunk_data_done,
     s_body_identity, s_body_identity_eof, s_message_done})"

datatype header_state =
    h_general | h_C | h_CO | h_CON
  | h_matching_connection | h_matching_proxy_connection | h_matching_content_length
  | h_matching_transfer_encoding | h_matching_upgrade
  | h_connection | h_content_length | h_content_length_num | h_content_length_ws
  | h_transfer_encoding | h_upgrade
  | h_matching_transfer_encoding_chunked | h_matching_connection_token_start
  | h_matching_connection_keep_alive | h_matching_connection_close
  | h_matching_connection_upgrade | h_matching_connection_token
  | h_transfer_encoding_chunked | h_connection_keep_alive | h_connection_close
  | h_connection_upgrade

datatype http_errno =
    HPE_OK | HPE_CB_message_begin | HPE_CB_url | HPE_CB_header_field | HPE_CB_header_value
  | HPE_CB_headers_complete | HPE_CB_body | HPE_CB_message_complete | HPE_CB_status
  | HPE_CB_chunk_header | HPE_CB_chunk_complete
  | HPE_INVALID_EOF_STATE | HPE_HEADER_OVERFLOW | HPE_CLOSED_CONNECTION | HPE_INVALID_VERSION
  | HPE_INVALID_STATUS | HPE_INVALID_METHOD | HPE_INVALID_URL | HPE_INVALID_HOST
  | HPE_INVALID_PORT | HPE_INVALID_PATH | HPE_INVALID_QUERY_STRING | HPE_INVALID_FRAGMENT
  | HPE_LF_EXPECTED | HPE_INVALID_HEADER_TOKEN | HPE_INVALID_CONTENT_LENGTH
  | HPE_UNEXPECTED_CONTENT_LENGTH | HPE_INVALID_CHUNK_SIZE | HPE_INVALID_CONSTANT
  | HPE_INVALID_INTERNAL_STATE | HPE_STRICT | HPE_PAUSED | HPE_UNKNOWN

definition F_CHUNKED :: "8 word" where "F_CHUNKED = 1"
definition F_CONNECTION_KEEP_ALIVE :: "8 word" where "F_CONNECTION_KEEP_ALIVE = 2"
definition F_CONNECTION_CLOSE :: "8 word" where "F_CONNECTION_CLOSE = 4"
definition F_CONNECTION_UPGRADE :: "8 word" where "F_CONNECTION_UPGRADE = 8"
definition F_TRAILING :: "8 word" where "F_TRAILING = 16"
definition F_UPGRADE :: "8 word" where "F_UPGRADE = 32"
definition F_SKIPBODY :: "8 word" where "F_SKIPBODY = 64"
definition F_CONTENTLENGTH :: "8 word" where "F_CONTENTLENGTH = 128"

lemmas F_defs = F_CHUNKED_def F_CONNECTION_KEEP_ALIVE_def F_CONNECTION_CLOSE_def
  F_CONNECTION_UPGRADE_def F_TRAILING_def F_UPGRADE_def F_SKIPBODY_def F_CONTENTLENGTH_def

definition has :: "8 word \<Rightarrow> 8 word \<Rightarrow> bool" where "has w f = (w AND f \<noteq> 0)"

definition ULLONG_MAX :: "64 word" where "ULLONG_MAX = 18446744073709551615"
definition max_header_size :: int where "max_header_size = 81920"

record http_parser =
  hp_type :: http_parser_type
  hp_flags :: "8 word"
  hp_state :: pstate
  header_state :: header_state
  hp_index :: nat
  lenient :: bool
  hp_nread :: int
  hp_length :: "64 word"
  http_major :: int
  http_minor :: int
  hp_status :: int
  hp_method :: int
  http_errno :: http_errno
  hp_upgrade :: bool

definition http_parser_init :: "http_parser_type \<Rightarrow> http_parser" where
  "http_parser_init t = \<lparr> hp_type = t, hp_flags = 0,
     hp_state = (case t of HTTP_REQUEST \<Rightarrow> s_start_req | HTTP_RESPONSE \<Rightarrow> s_start_res
                 | HTTP_BOTH \<Rightarrow> s_start_req_or_res),
     header_state = h_general, hp_index = 0, lenient = False, hp_nread = 0, hp_length = 0,
     http_major = 0, http_minor = 0, hp_status = 0, hp_method = 0, http_errno = HPE_OK,
     hp_upgrade = False \<rparr>"

definition SET_ERRNO :: "http_errno \<Rightarrow> int \<Rightarrow> http_parser \<Rightarrow> http_parser" where
  "SET_ERRNO e n ps = ps \<lparr> hp_nread := n, http_errno := e \<rparr>"

text \<open>\<open>http_message_needs_eof\<close>, \<open>http_should_keep_alive\<close> and what the next message starts with.\<close>

definition http_message_needs_eof :: "http_parser \<Rightarrow> bool" where
  "http_message_needs_eof ps =
     (if hp_type ps = HTTP_REQUEST then False
      else if hp_status ps div 100 = 1 \<or> hp_status ps = 204 \<or> hp_status ps = 304
              \<or> has (hp_flags ps) F_SKIPBODY then False
      else if has (hp_flags ps) F_CHUNKED \<or> hp_length ps \<noteq> ULLONG_MAX then False
      else True)"

definition http_should_keep_alive :: "http_parser \<Rightarrow> bool" where
  "http_should_keep_alive ps =
     (if http_major ps > 0 \<and> http_minor ps > 0
      then (if has (hp_flags ps) F_CONNECTION_CLOSE then False else \<not> http_message_needs_eof ps)
      else (if \<not> has (hp_flags ps) F_CONNECTION_KEEP_ALIVE then False
            else \<not> http_message_needs_eof ps))"

definition start_state :: "http_parser \<Rightarrow> pstate" where
  "start_state ps = (if hp_type ps = HTTP_REQUEST then s_start_req else s_start_res)"

definition NEW_MESSAGE :: "http_parser \<Rightarrow> pstate" where
  "NEW_MESSAGE ps = (if http_should_keep_alive ps then start_state ps else s_dead)"

definition http_body_is_final :: "http_parser \<Rightarrow> bool" where
  "http_body_is_final ps = (hp_state ps = s_message_done)"

definition http_parser_pause :: "bool \<Rightarrow> http_parser \<Rightarrow> http_parser cres" where
  "http_parser_pause paused ps =
     (if http_errno ps = HPE_OK \<or> http_errno ps = HPE_PAUSED
      then Inr (SET_ERRNO (if paused then HPE_PAUSED else HPE_OK) (hp_nread ps) ps)
      else Inl AssertFailure)"

section \<open>The URL automaton\<close>

text \<open>
  \<open>server_char\<close> is the part of the switch that the states \<open>s_req_server_with_at\<close> (after
  its test for a second at sign), \<open>s_req_server_start\<close> and \<open>s_req_server\<close> share.
\<close>

definition server_char :: "char \<Rightarrow> pstate" where
  "server_char ch =
     (if ch = CHR ''/'' then s_req_path
      else if ch = CHR ''?'' then s_req_query_string_start
      else if ch = CHR ''@'' then s_req_server_with_at
      else if IS_USERINFO_CHAR ch \<or> ch = CHR ''['' \<or> ch = CHR '']'' then s_req_server
      else s_dead)"

definition parse_url_char :: "pstate \<Rightarrow> char \<Rightarrow> pstate" where
  "parse_url_char s ch =
     (if ch = CHR '' '' \<or> ch = CR \<or> ch = LF then s_dead
      else if ch = HT \<or> ch = CHR 0x0C then s_dead
      else case s of
        s_req_spaces_before_url \<Rightarrow>
          (if ch = CHR ''/'' \<or> ch = CHR ''*'' then s_req_path
           else if IS_ALPHA ch then s_req_schema else s_dead)
      | s_req_schema \<Rightarrow>
          (if IS_ALPHA ch then s_req_schema
           else if ch = CHR '':'' then s_req_schema_slash else s_dead)
      | s_req_schema_slash \<Rightarrow> (if ch = CHR ''/'' then s_req_schema_slash_slash else s_dead)
      | s_req_schema_slash_slash \<Rightarrow> (if ch = CHR ''/'' then s_req_server_start else s_dead)
      | s_req_server_with_at \<Rightarrow> (if ch = CHR ''@'' then s_dead else server_char ch)
      | s_req_server_start \<Rightarrow> server_char ch
      | s_req_server \<Rightarrow> server_char ch
      | s_req_path \<Rightarrow>
          (if IS_URL_CHAR ch then s_req_path
           else if ch = CHR ''?'' then s_req_query_string_start
           else if ch = CHR ''#'' then s_req_fragment_start else s_dead)
      | s_req_query_string_start \<Rightarrow>
          (if IS_URL_CHAR ch then s_req_query_string
           else if ch = CHR ''?'' then s_req_query_string
           else if ch = CHR ''#'' then s_req_fragment_start else s_dead)
      | s_req_query_string \<Rightarrow>
          (if IS_URL_CHAR ch then s_req_query_string
           else if ch = CHR ''?'' then s_req_query_string
           else if ch = CHR ''#'' then s_req_fragment_start else s_dead)
      | s_req_fragment_start \<Rightarrow>
          (if IS_URL_CHAR ch then s_req_fragment
           else if ch = CHR ''?'' then s_req_fragment
           else if ch = CHR ''#'' then s_req_fragment_start else s_dead)
      | s_req_fragment \<Rightarrow>
          (if IS_URL_CHAR ch then s_req_fragment
           else if ch = CHR ''?'' \<or> ch = CHR ''#'' then s_req_fragment else s_dead)
      | _ \<Rightarrow> s_dead)"

end
