(* ===== verification/HeaderLoops.thy ===== *)
theory HeaderLoops
  imports HttpParserDefs
begin

text \<open>
  The HTTP/1 parser of \<open>src/http/http_parser.c\<close>, part two: the loops inside the cases
  \<open>s_header_field\<close> and \<open>s_header_value\<close> of \<open>http_parser_execute\<close>, which run over a header name and a
  header value and recognise the names and values the parser treats specially. Each loop is shown
  to end, to read inside the buffer only, and to stop inside it.
\<close>

section \<open>The loop over a header name\<close>

definition inc_index :: "http_parser \<Rightarrow> http_parser" where
  "inc_index ps = ps \<lparr> hp_index := (hp_index ps + 1) mod 128 \<rparr>"

text \<open>
  The five \<open>h_matching_\<close> cases of a name and the four of a value differ in the word they
  match and the states they lead to. \<open>sizeof\<close> of a literal counts its terminator, so
  the character read is one of the word or the terminator.
\<close>

definition match_word :: "string \<Rightarrow> 'h \<Rightarrow> 'h \<Rightarrow> 'h \<Rightarrow> nat \<Rightarrow> char \<Rightarrow> 'h" where
  "match_word word miss hit stay i c =
     (if i > length word \<or> c \<noteq> (word @ [NUL]) ! i then miss
      else if i = length word - 1 then hit else stay)"

definition match_field :: "string \<Rightarrow> header_state \<Rightarrow> char \<Rightarrow> http_parser \<Rightarrow> http_parser" where
  "match_field word hit c ps =
     (let ps = inc_index ps
      in ps \<lparr> header_state := match_word word h_general hit (header_state ps) (hp_index ps) c \<rparr>)"

definition field_char :: "char \<Rightarrow> char \<Rightarrow> http_parser \<Rightarrow> http_parser cres" where
  "field_char ch c ps =
     (case header_state ps of
        h_C \<Rightarrow> Inr ((inc_index ps) \<lparr> header_state := (if c = CHR ''o'' then h_CO else h_general) \<rparr>)
      | h_CO \<Rightarrow> Inr ((inc_index ps) \<lparr> header_state := (if c = CHR ''n'' then h_CON else h_general) \<rparr>)
      | h_CON \<Rightarrow> Inr ((inc_index ps) \<lparr> header_state :=
           (if c = CHR ''n'' then h_matching_connection
            else if c = CHR ''t'' then h_matching_content_length else h_general) \<rparr>)
      | h_matching_connection \<Rightarrow> Inr (match_field ''connection'' h_connection c ps)
      | h_matching_proxy_connection \<Rightarrow> Inr (match_field ''proxy-connection'' h_connection c ps)
      | h_matching_content_length \<Rightarrow> Inr (match_field ''content-length'' h_content_length c ps)
      | h_matching_transfer_encoding \<Rightarrow> Inr (match_field ''transfer-encoding'' h_transfer_encoding c ps)
      | h_matching_upgrade \<Rightarrow> Inr (match_field ''upgrade'' h_upgrade c ps)
      | h_connection \<Rightarrow> Inr (if ch \<noteq> CHR '' '' then ps \<lparr> header_state := h_general \<rparr> else ps)
      | h_content_length \<Rightarrow> Inr (if ch \<noteq> CHR '' '' then ps \<lparr> header_state := h_general \<rparr> else ps)
      | h_transfer_encoding \<Rightarrow> Inr (if ch \<noteq> CHR '' '' then ps \<lparr> header_state := h_general \<rparr> else ps)
      | h_upgrade \<Rightarrow> Inr (if ch \<noteq> CHR '' '' then ps \<lparr> header_state := h_general \<rparr> else ps)
      | _ \<Rightarrow> Inl AssertFailure)"

text \<open>
  The skip of \<open>h_general\<close>: to the last token byte below \<open>lmt\<close>. Every byte is read through
  \<open>rd\<close>, here and in the loops below, so that a read outside the buffer is an error value.
\<close>

function skip_tokens :: "string \<Rightarrow> nat \<Rightarrow> nat \<Rightarrow> nat cres" where
  "skip_tokens data lmt p =
     (if p + 1 < lmt
      then cbind (rd data (p + 1)) (\<lambda>c. if TOKEN c \<noteq> NUL then skip_tokens data lmt (p + 1) else Inr p)
      else Inr p)"
  by pat_completeness auto
termination by (relation "measure (\<lambda>(data, lmt, p). lmt - p)") auto

declare skip_tokens.simps [simp del]

lemma skip_tokens_bounds: "skip_tokens data lmt p = Inr q \<Longrightarrow> p \<le> q \<and> q < max (p + 1) lmt"
proof (induction data lmt p rule: skip_tokens.induct)
  case (1 data lmt p)
  show ?case
  proof (cases "p + 1 < lmt \<and> (\<exists>c. rd data (p + 1) = Inr c \<and> TOKEN c \<noteq> NUL)")
    case True
    then obtain c where c: "p + 1 < lmt" "rd data (p + 1) = Inr c" "TOKEN c \<noteq> NUL" by blast
    with "1.prems" have "skip_tokens data lmt (p + 1) = Inr q" by (subst (asm) skip_tokens.simps) simp
    from "1.IH"[OF c this] c(1) show ?thesis by simp
  next
    case False
    with "1.prems" have "q = p"
      by (subst (asm) skip_tokens.simps, cases "rd data (p + 1)") (simp_all split: if_split_asm)
    then show ?thesis by simp
  qed
qed

lemma skip_tokens_reads: "lmt \<le> length data \<Longrightarrow> \<exists>q. skip_tokens data lmt p = Inr q"
proof (induction data lmt p rule: skip_tokens.induct)
  case (1 data lmt p)
  then show ?case by (subst skip_tokens.simps) (simp add: rd_def)
qed

text \<open>The loop ends at the first byte that is no token, or at the end of the buffer.\<close>

definition field_limit :: "string \<Rightarrow> nat \<Rightarrow> nat" where
  "field_limit data p = min (length data - p) (nat max_header_size)"

function field_loop :: "string \<Rightarrow> nat \<Rightarrow> http_parser \<Rightarrow> (nat \<times> http_parser) cres" where
  "field_loop data p ps =
     (if p = length data then Inr (p, ps)
      else cbind (rd data p) (\<lambda>ch.
        let c = TOKEN ch
        in if c = NUL then Inr (p, ps)
           else if header_state ps = h_general
           then cbind (skip_tokens data (field_limit data p) p) (\<lambda>q. field_loop data (q + 1) ps)
           else cbind (field_char ch c ps) (\<lambda>ps. field_loop data (p + 1) ps)))"
  by pat_completeness auto
termination
proof (relation "measure (\<lambda>(data, p, ps). length data - p)", goal_cases)
  case (2 data p ps ch c q)
  then have "p \<le> q" "p < length data"
    using skip_tokens_bounds[of data "field_limit data p" p q] rd_Inr[of data p ch] by blast+
  then show ?case by simp
next
  case (3 data p ps ch c ps')
  then show ?case using rd_Inr[of data p ch] by simp
qed auto

declare field_loop.simps [simp del]

lemma field_loop_end [simp]: "field_loop data (length data) ps = Inr (length data, ps)"
  by (simp add: field_loop.simps)

lemma field_skip:
  assumes "p < length data"
  obtains q where "skip_tokens data (field_limit data p) p = Inr q" "p \<le> q" "q < length data"
proof -
  have l: "field_limit data p \<le> length data" by (simp add: field_limit_def)
  from skip_tokens_reads[OF l] obtain q where q: "skip_tokens data (field_limit data p) p = Inr q" by blast
  have "p \<le> q" "q < length data"
    using conjunct1[OF skip_tokens_bounds[OF q]] conjunct2[OF skip_tokens_bounds[OF q]] l assms
    by (simp_all add: less_max_iff_disj) linarith
  then show ?thesis by (rule that[OF q])
qed

text \<open>The three ways a round inside the buffer goes.\<close>

lemma field_loop_stop:
  "p < length data \<Longrightarrow> TOKEN (data ! p) = NUL \<Longrightarrow> field_loop data p ps = Inr (p, ps)"
  by (subst field_loop.simps) (simp add: rd_def Let_def)

lemma field_loop_general:
  assumes "p < length data" "TOKEN (data ! p) \<noteq> NUL" "header_state ps = h_general"
    "skip_tokens data (field_limit data p) p = Inr q"
  shows "field_loop data p ps = field_loop data (q + 1) ps"
  using assms by (subst field_loop.simps) (simp add: rd_def Let_def)

lemma field_loop_step:
  assumes "p < length data" "TOKEN (data ! p) \<noteq> NUL" "header_state ps \<noteq> h_general"
  shows "field_loop data p ps = cbind (field_char (data ! p) (TOKEN (data ! p)) ps) (field_loop data (p + 1))"
  using assms by (subst field_loop.simps) (simp add: rd_def Let_def)

lemma field_loop_bounds:
  "field_loop data p ps = Inr (q, ps') \<Longrightarrow> p \<le> length data \<Longrightarrow> p \<le> q \<and> q \<le> length data"
proof (induction "length data - p" arbitrary: p ps rule: less_induct)
  case less
  show ?case
  proof (cases "p < length data \<and> TOKEN (data ! p) \<noteq> NUL")
    case True
    show ?thesis
    proof (cases "header_state ps = h_general")
      case g: True
      obtain r where r: "skip_tokens data (field_limit data p) p = Inr r" "p \<le> r" "r < length data"
        using field_skip True by blast
      with less.prems field_loop_general[OF _ _ g r(1)] True have "field_loop data (r + 1) ps = Inr (q, ps')" by simp
      with less.hyps[of "r + 1" ps] r(2,3) have "r + 1 \<le> q \<and> q \<le> length data" by simp
      with r(2) show ?thesis by simp
    next
      case False
      with less.prems True obtain ps1 where "field_loop data (p + 1) ps1 = Inr (q, ps')"
        by (auto simp: field_loop_step cbind_Inr_iff)
      moreover have "length data - (p + 1) < length data - p" "p + 1 \<le> length data" using conjunct1[OF True] by simp_all
      ultimately have "p + 1 \<le> q \<and> q \<le> length data" using less.hyps[of "p + 1" ps1] by blast
      then show ?thesis by simp
    qed
  next
    case False
    with less.prems field_loop_stop[of p data ps] show ?thesis by (cases "p = length data") auto
  qed
qed

section \<open>The loop over a header value\<close>

text \<open>Why the loop stops, and whether \<open>header_state\<close> is written back before an error.\<close>

datatype value_stop = VEnd | VCR | VLF | VErr http_errno bool

text \<open>
  One byte in the states of a value other than \<open>h_general\<close>; the local variable \<open>h_state\<close> is
  the second argument.
\<close>

definition add_digit :: "http_parser \<Rightarrow> header_state \<Rightarrow> char \<Rightarrow> (http_errno option \<times> header_state \<times> http_parser)" where
  "add_digit ps h ch =
     (if ch = CHR '' '' then (None, h_content_length_ws, ps)
      else if \<not> IS_NUM ch then (Some HPE_INVALID_CONTENT_LENGTH, h, ps)
      else let t = hp_length ps * 10 + word_of_int (byte_of ch - 48)
           in if (ULLONG_MAX - 10) div 10 < hp_length ps then (Some HPE_INVALID_CONTENT_LENGTH, h, ps)
              else (None, h, ps \<lparr> hp_length := t \<rparr>))"

definition match_value ::
  "string \<Rightarrow> header_state \<Rightarrow> header_state \<Rightarrow> header_state \<Rightarrow> char \<Rightarrow> http_parser \<Rightarrow> (http_errno option \<times> header_state \<times> http_parser)" where
  "match_value word miss hit h c ps =
     (let ps = inc_index ps in (None, match_word word miss hit h (hp_index ps) c, ps))"

definition token_end :: "8 word \<Rightarrow> header_state \<Rightarrow> char \<Rightarrow> http_parser \<Rightarrow> (http_errno option \<times> header_state \<times> http_parser)" where
  "token_end f h ch ps =
     (if ch = CHR '','' then (None, h_matching_connection_token_start, ps \<lparr> hp_flags := hp_flags ps OR f, hp_index := 0 \<rparr>)
      else if ch \<noteq> CHR '' '' then (None, h_matching_connection_token, ps)
      else (None, h, ps))"

definition value_char ::
  "header_state \<Rightarrow> char \<Rightarrow> http_parser \<Rightarrow> (http_errno option \<times> header_state \<times> http_parser) cres" where
  "value_char h ch ps =
     (let c = LOWER ch in
      case h of
        h_connection \<Rightarrow> Inl AssertFailure
      | h_transfer_encoding \<Rightarrow> Inl AssertFailure
      | h_content_length \<Rightarrow>
          Inr (if ch = CHR '' '' then (None, h, ps) else add_digit ps h_content_length_num ch)
      | h_content_length_num \<Rightarrow> Inr (add_digit ps h ch)
      | h_content_length_ws \<Rightarrow>
          Inr (if ch = CHR '' '' then (None, h, ps) else (Some HPE_INVALID_CONTENT_LENGTH, h, ps))
      | h_matching_transfer_encoding_chunked \<Rightarrow>
          Inr (match_value ''chunked'' h_general h_transfer_encoding_chunked h c ps)
      | h_matching_connection_token_start \<Rightarrow>
          Inr (None, if c = CHR ''k'' then h_matching_connection_keep_alive
                     else if c = CHR ''c'' then h_matching_connection_close
                     else if c = CHR ''u'' then h_matching_connection_upgrade
                     else if STRICT_TOKEN c \<noteq> NUL then h_matching_connection_token
                     else if c = CHR '' '' \<or> c = HT then h
                     else h_general, ps)
      | h_matching_connection_keep_alive \<Rightarrow>
          Inr (match_value ''keep-alive'' h_matching_connection_token h_connection_keep_alive h c ps)
      | h_matching_connection_close \<Rightarrow>
          Inr (match_value ''close'' h_matching_connection_token h_connection_close h c ps)
      | h_matching_connection_upgrade \<Rightarrow>
          Inr (match_value ''upgrade'' h_matching_connection_token h_connection_upgrade h c ps)
      | h_matching_connection_token \<Rightarrow>
          Inr (if ch = CHR '','' then (None, h_matching_connection_token_start, ps \<lparr> hp_index := 0 \<rparr>)
               else (None, h, ps))
      | h_transfer_encoding_chunked \<Rightarrow>
          Inr (None, if ch \<noteq> CHR '' '' then h_general else h, ps)
      | h_connection_keep_alive \<Rightarrow> Inr (token_end F_CONNECTION_KEEP_ALIVE h ch ps)
      | h_connection_close \<Rightarrow> Inr (token_end F_CONNECTION_CLOSE h ch ps)
      | h_connection_upgrade \<Rightarrow> Inr (token_end F_CONNECTION_UPGRADE h ch ps)
      | _ \<Rightarrow> Inr (None, h_general, ps))"

text \<open>
  The inner loop of \<open>h_general\<close>, from \<open>p\<close> to the limit: where it leaves \<open>p\<close>, before the
  decrement at the end of the buffer, or the byte that is no header byte (\<open>Inl\<close>).
\<close>

function general_value :: "string \<Rightarrow> nat \<Rightarrow> bool \<Rightarrow> nat \<Rightarrow> (nat + nat) cres" where
  "general_value data lmt len p =
     (if p = lmt then Inr (Inr p)
      else cbind (rd data p) (\<lambda>ch.
        if ch = CR \<or> ch = LF then Inr (Inr (p - 1))
        else if \<not> len \<and> \<not> IS_HEADER_CHAR ch then Inr (Inl p)
        else general_value data lmt len (p + 1)))"
  by pat_completeness auto
termination
  by (relation "measure (\<lambda>(data, lmt, len, p). length data - p)") (auto dest: rd_Inr)

declare general_value.simps [simp del]

text \<open>The limit of the skip, and the decrement at the end of the buffer.\<close>

definition general_skip :: "string \<Rightarrow> bool \<Rightarrow> nat \<Rightarrow> (nat + nat) cres" where
  "general_skip data len p =
     cbind (general_value data (p + min (length data - p) (nat max_header_size)) len p) (\<lambda>r.
       Inr (case r of Inl q \<Rightarrow> Inl q | Inr q \<Rightarrow> Inr (if q = length data then q - 1 else q)))"

text \<open>Inside the buffer the loop reads no byte past its limit and ends at or before it.\<close>

lemma general_value_bounds:
  assumes "p \<le> lmt" "lmt \<le> length data"
  shows "\<exists>r. general_value data lmt len p = Inr r \<and>
    (case r of Inl q \<Rightarrow> p \<le> q \<and> q < lmt | Inr q \<Rightarrow> (q = p - 1 \<or> p \<le> q) \<and> q \<le> lmt)"
  using assms
proof (induction "lmt - p" arbitrary: p)
  case 0
  then show ?case by (subst general_value.simps) simp
next
  case (Suc n)
  then have p: "p < lmt" "rd data p = Inr (data ! p)" by (simp_all add: rd_def)
  show ?case
  proof (cases "data ! p = CR \<or> data ! p = LF \<or> (\<not> len \<and> \<not> IS_HEADER_CHAR (data ! p))")
    case True
    with p show ?thesis by (subst general_value.simps) auto
  next
    case False
    with p have eq: "general_value data lmt len p = general_value data lmt len (p + 1)"
      by (subst general_value.simps) auto
    have "n = lmt - (p + 1)" "p + 1 \<le> lmt" using Suc.hyps(2) p(1) by simp_all
    from Suc.hyps(1)[OF this Suc.prems(2)] obtain r where
      r: "general_value data lmt len (p + 1) = Inr r"
        "case r of Inl q \<Rightarrow> p + 1 \<le> q \<and> q < lmt | Inr q \<Rightarrow> (q = p + 1 - 1 \<or> p + 1 \<le> q) \<and> q \<le> lmt"
      by blast
    then show ?thesis unfolding eq by (intro exI[of _ r]) (auto split: sum.splits)
  qed
qed

lemma general_skip_bounds:
  assumes "p < length data" "data ! p \<noteq> CR" "data ! p \<noteq> LF"
  shows "\<exists>r. general_skip data len p = Inr r \<and>
    (case r of Inl q \<Rightarrow> p \<le> q \<and> q < length data | Inr q \<Rightarrow> p \<le> q \<and> q < length data)"
proof -
  let ?lmt = "p + min (length data - p) (nat max_header_size)"
  have lmt: "p < ?lmt" "?lmt \<le> length data" using assms(1) by (auto simp: max_header_size_def)
  show ?thesis
  proof (cases "\<not> len \<and> \<not> IS_HEADER_CHAR (data ! p)")
    case True
    with assms lmt have "general_value data ?lmt len p = Inr (Inl p)"
      by (subst general_value.simps) (simp add: rd_def)
    with assms show ?thesis by (simp add: general_skip_def)
  next
    case False
    with assms lmt have eq: "general_value data ?lmt len p = general_value data ?lmt len (p + 1)"
      by (subst general_value.simps) (auto simp: rd_def)
    have "p + 1 \<le> ?lmt" using lmt(1) by linarith
    from general_value_bounds[OF this lmt(2), of len] obtain r where
      r: "general_value data ?lmt len p = Inr r"
      "case r of Inl q \<Rightarrow> p + 1 \<le> q \<and> q < ?lmt | Inr q \<Rightarrow> (q = p + 1 - 1 \<or> p + 1 \<le> q) \<and> q \<le> ?lmt"
      unfolding eq by blast
    with lmt(2) assms(1) show ?thesis unfolding general_skip_def r(1)
      by (cases r) auto
  qed
qed

lemma general_skip_Inr_ge:
  assumes "rd data p = Inr ch" "ch \<noteq> CR" "ch \<noteq> LF" "general_skip data len p = Inr (Inr q)"
  shows "p \<le> q \<and> q < length data"
  using general_skip_bounds[of p data len] assms by (auto simp: rd_def split: if_splits)

text \<open>
  The whole loop: why and where it stops, the last \<open>h_state\<close> and the parser.
\<close>

function value_loop ::
  "string \<Rightarrow> nat \<Rightarrow> header_state \<Rightarrow> http_parser \<Rightarrow> (value_stop \<times> nat \<times> header_state \<times> http_parser) cres" where
  "value_loop data p h ps =
     (if p = length data then Inr (VEnd, p, h, ps)
      else cbind (rd data p) (\<lambda>ch.
        if ch = CR then Inr (VCR, p, h, ps)
        else if ch = LF then Inr (VLF, p, h, ps)
        else if \<not> lenient ps \<and> \<not> IS_HEADER_CHAR ch
        then Inr (VErr HPE_INVALID_HEADER_TOKEN False, p, h, ps)
        else if h = h_general
        then cbind (general_skip data (lenient ps) p) (\<lambda>r. case r of
               Inl q \<Rightarrow> Inr (VErr HPE_INVALID_HEADER_TOKEN False, q, h, ps)
             | Inr q \<Rightarrow> value_loop data (q + 1) h ps)
        else cbind (value_char h ch ps) (\<lambda>(e, h, ps).
               case e of Some e \<Rightarrow> Inr (VErr e True, p, h, ps)
               | None \<Rightarrow> value_loop data (p + 1) h ps)))"
  by pat_completeness auto
termination
proof (relation "measure (\<lambda>(data, p, h, ps). length data - p)", goal_cases)
  case (2 data p h ps ch r q)
  then have "p \<le> q \<and> q < length data" using general_skip_Inr_ge[of data p ch "lenient ps" q] by simp
  then show ?case by (simp add: diff_less_mono2)
next
  case (3 data p h ps ch a e b h' ps')
  then show ?case using rd_Inr[of data p ch] by simp
qed auto

declare value_loop.simps [simp del]

text \<open>A round inside the buffer.\<close>

lemma value_loop_end [simp]: "value_loop data (length data) h ps = Inr (VEnd, length data, h, ps)"
  by (simp add: value_loop.simps)

lemma value_loop_general:
  assumes "p < length data" "data ! p \<noteq> CR" "data ! p \<noteq> LF" "lenient ps \<or> IS_HEADER_CHAR (data ! p)"
  shows "value_loop data p h_general ps = cbind (general_skip data (lenient ps) p) (\<lambda>r. case r of
      Inl q \<Rightarrow> Inr (VErr HPE_INVALID_HEADER_TOKEN False, q, h_general, ps)
    | Inr q \<Rightarrow> value_loop data (q + 1) h_general ps)"
  using assms by (subst value_loop.simps) (auto simp: rd_def)

lemma value_loop_step:
  assumes "p < length data" "data ! p \<noteq> CR" "data ! p \<noteq> LF" "lenient ps \<or> IS_HEADER_CHAR (data ! p)" "h \<noteq> h_general"
  shows "value_loop data p h ps = cbind (value_char h (data ! p) ps) (\<lambda>(e, h, ps).
      case e of Some e \<Rightarrow> Inr (VErr e True, p, h, ps) | None \<Rightarrow> value_loop data (p + 1) h ps)"
  using assms by (subst value_loop.simps) (auto simp: rd_def)

lemma value_loop_stop:
  assumes "p < length data" "data ! p = CR \<or> data ! p = LF \<or> (\<not> lenient ps \<and> \<not> IS_HEADER_CHAR (data ! p))"
  shows "value_loop data p h ps = Inr (if data ! p = CR then VCR else if data ! p = LF then VLF
           else VErr HPE_INVALID_HEADER_TOKEN False, p, h, ps)"
  using assms by (subst value_loop.simps) (auto simp: rd_def)

end
