(* ===== verification/HttpExecute.thy ===== *)
theory HttpExecute
  imports HeaderLoops
begin

text \<open>
  \<open>http_parser_execute\<close> of \<open>src/http/http_parser.c\<close>: the callbacks, the macros that call
  them, one pass through the switch over the states for each group of cases, and the loop
  over the buffer with its jumps back to \<open>reexecute\<close>. A failed \<open>assert\<close> and a read outside
  the buffer are error values.
\<close>

section \<open>Callbacks\<close>

text \<open>
  A callback reads the parser and returns an \<open>int\<close>; it has a state of its own. None of the
  callbacks in the sources writes the parser.
\<close>

type_synonym 'u http_cb = "http_parser \<Rightarrow> 'u \<Rightarrow> (int \<times> 'u) cres"
type_synonym 'u http_data_cb = "http_parser \<Rightarrow> string \<Rightarrow> 'u \<Rightarrow> (int \<times> 'u) cres"

record 'u http_parser_settings =
  on_message_begin :: "'u http_cb option"
  on_url :: "'u http_data_cb option"
  on_status :: "'u http_data_cb option"
  on_header_field :: "'u http_data_cb option"
  on_header_value :: "'u http_data_cb option"
  on_headers_complete :: "'u http_cb option"
  on_body :: "'u http_data_cb option"
  on_message_complete :: "'u http_cb option"
  on_chunk_header :: "'u http_cb option"
  on_chunk_complete :: "'u http_cb option"

text \<open>The data callbacks, one for each of the local variables \<open>..._mark\<close>.\<close>

datatype data_kind = K_header_field | K_header_value | K_url | K_body | K_status

definition data_cb :: "'u http_parser_settings \<Rightarrow> data_kind \<Rightarrow> 'u http_data_cb option" where
  "data_cb st k = (case k of K_header_field \<Rightarrow> on_header_field st | K_header_value \<Rightarrow> on_header_value st
     | K_url \<Rightarrow> on_url st | K_body \<Rightarrow> on_body st | K_status \<Rightarrow> on_status st)"

definition data_errno :: "data_kind \<Rightarrow> http_errno" where
  "data_errno k = (case k of K_header_field \<Rightarrow> HPE_CB_header_field | K_header_value \<Rightarrow> HPE_CB_header_value
     | K_url \<Rightarrow> HPE_CB_url | K_body \<Rightarrow> HPE_CB_body | K_status \<Rightarrow> HPE_CB_status)"

text \<open>
  The local variables of the function: the parser, \<open>p_state\<close>, \<open>nread\<close>, the marks and \<open>p\<close> as
  offsets into the buffer; and the callbacks' own state.
\<close>

record 'u hx =
  prs :: http_parser
  p_state :: pstate
  nread :: int
  marks :: "data_kind \<Rightarrow> nat option"
  pos :: nat
  usr :: 'u

text \<open>How a pass through the switch ends: \<open>break\<close>, \<open>goto reexecute\<close>, \<open>goto error\<close>, \<open>return\<close>.\<close>

datatype 'u outcome =
    Brk "'u hx"
  | Again "'u hx"
  | Error "'u hx"
  | Ret http_parser 'u nat

definition err :: "http_errno \<Rightarrow> 'u hx \<Rightarrow> 'u outcome cres" where
  "err e h = Inr (Error (h \<lparr> prs := SET_ERRNO e (nread h) (prs h) \<rparr>))"

definition RETURN :: "'u hx \<Rightarrow> nat \<Rightarrow> 'u outcome" where
  "RETURN h n = Ret ((prs h) \<lparr> hp_nread := nread h, hp_state := p_state h \<rparr>) (usr h) n"

abbreviation brk :: "pstate \<Rightarrow> 'u hx \<Rightarrow> 'u outcome cres" where
  "brk s h \<equiv> Inr (Brk (h \<lparr> p_state := s \<rparr>))"

abbreviation again :: "pstate \<Rightarrow> 'u hx \<Rightarrow> 'u outcome cres" where
  "again s h \<equiv> Inr (Again (h \<lparr> p_state := s \<rparr>))"

definition COUNT_HEADER_SIZE :: "int \<Rightarrow> 'u hx \<Rightarrow> ('u hx \<Rightarrow> 'u outcome cres) \<Rightarrow> 'u outcome cres" where
  "COUNT_HEADER_SIZE v h k =
     (let h = h \<lparr> nread := (nread h + v mod 4294967296) mod 4294967296 \<rparr>
      in if nread h > max_header_size then err HPE_HEADER_OVERFLOW h else k h)"

definition CALLBACK_NOTIFY_ER ::
  "'u http_cb option \<Rightarrow> http_errno \<Rightarrow> nat \<Rightarrow> 'u hx \<Rightarrow> ('u hx \<Rightarrow> 'u outcome cres) \<Rightarrow> 'u outcome cres" where
  "CALLBACK_NOTIFY_ER cb e er h k =
     (if http_errno (prs h) \<noteq> HPE_OK then Inl AssertFailure
      else case cb of None \<Rightarrow> k h
      | Some f \<Rightarrow>
          (let ps = (prs h) \<lparr> hp_state := p_state h \<rparr>
           in cbind (f ps (usr h)) (\<lambda>(rc, u).
                if rc \<noteq> 0 then Inr (Ret (SET_ERRNO e (nread h) ps) u er)
                else k (h \<lparr> prs := ps, usr := u \<rparr>))))"

text \<open>
  The callback gets a pointer to the mark and the number of bytes up to \<open>hi\<close>, and reads them:
  \<open>buf_slice\<close> is an error value unless both lie in the buffer, in this order.
\<close>

definition buf_slice :: "string \<Rightarrow> nat \<Rightarrow> nat \<Rightarrow> string cres" where
  "buf_slice data m hi =
     (if m \<le> hi \<and> hi \<le> length data then Inr (take (hi - m) (drop m data)) else Inl OutOfBounds)"

definition CALLBACK_DATA_ER ::
  "'u http_parser_settings \<Rightarrow> string \<Rightarrow> data_kind \<Rightarrow> nat \<Rightarrow> nat \<Rightarrow> 'u hx \<Rightarrow> ('u hx \<Rightarrow> 'u outcome cres) \<Rightarrow> 'u outcome cres" where
  "CALLBACK_DATA_ER st data kd hi er h k =
     (if http_errno (prs h) \<noteq> HPE_OK then Inl AssertFailure
      else case marks h kd of None \<Rightarrow> k h
      | Some m \<Rightarrow>
          (case data_cb st kd of None \<Rightarrow> k (h \<lparr> marks := (marks h)(kd := None) \<rparr>)
           | Some f \<Rightarrow>
               (let ps = (prs h) \<lparr> hp_state := p_state h \<rparr>
                in cbind (buf_slice data m hi) (\<lambda>s. cbind (f ps s (usr h)) (\<lambda>(rc, u).
                     if rc \<noteq> 0 then Inr (Ret (SET_ERRNO (data_errno kd) (nread h) ps) u er)
                     else k (h \<lparr> prs := ps, usr := u, marks := (marks h)(kd := None) \<rparr>))))))"

definition MARK :: "data_kind \<Rightarrow> 'u hx \<Rightarrow> 'u hx" where
  "MARK kd h = (case marks h kd of None \<Rightarrow> h \<lparr> marks := (marks h)(kd := Some (pos h)) \<rparr> | Some _ \<Rightarrow> h)"

definition set_flag :: "8 word \<Rightarrow> 'u hx \<Rightarrow> 'u hx" where
  "set_flag f h = h \<lparr> prs := (prs h) \<lparr> hp_flags := hp_flags (prs h) OR f \<rparr> \<rparr>"

definition message_start :: "'u hx \<Rightarrow> 'u hx" where
  "message_start h = h \<lparr> prs := (prs h) \<lparr> hp_flags := 0, hp_length := ULLONG_MAX \<rparr> \<rparr>"

text \<open>\<open>STRICT_CHECK(ch != c)\<close> and a new state.\<close>

definition expect :: "char \<Rightarrow> char \<Rightarrow> pstate \<Rightarrow> 'u hx \<Rightarrow> 'u outcome cres" where
  "expect ch c s h = (if ch \<noteq> c then err HPE_STRICT h else brk s h)"

abbreviation "notify_begin st h k \<equiv>
  CALLBACK_NOTIFY_ER (on_message_begin st) HPE_CB_message_begin (pos h + 1) h k"
abbreviation "notify_complete st h k \<equiv>
  CALLBACK_NOTIFY_ER (on_message_complete st) HPE_CB_message_complete (pos h + 1) h k"
abbreviation "CALLBACK_DATA st data kd h k \<equiv> CALLBACK_DATA_ER st data kd (pos h) (pos h + 1) h k"
abbreviation "CALLBACK_DATA_NOADVANCE st data kd h k \<equiv> CALLBACK_DATA_ER st data kd (pos h) (pos h) h k"

section \<open>The switch: the first line of a message\<close>

definition case_start :: "'u http_parser_settings \<Rightarrow> char \<Rightarrow> 'u hx \<Rightarrow> 'u outcome cres" where
  "case_start st ch h =
     (if ch = CR \<or> ch = LF then Inr (Brk h)
      else let h = message_start h in
        if ch = CHR ''H'' then
          (let h = h \<lparr> p_state := s_res_or_resp_H \<rparr> in notify_begin st h (\<lambda>h. Inr (Brk h)))
        else again s_start_req (h \<lparr> prs := (prs h) \<lparr> hp_type := HTTP_REQUEST \<rparr> \<rparr>))"

definition case_res_or_resp_H :: "char \<Rightarrow> 'u hx \<Rightarrow> 'u outcome cres" where
  "case_res_or_resp_H ch h =
     (if ch = CHR ''T'' then brk s_res_HT (h \<lparr> prs := (prs h) \<lparr> hp_type := HTTP_RESPONSE \<rparr> \<rparr>)
      else if ch \<noteq> CHR ''E'' then err HPE_INVALID_CONSTANT h
      else brk s_req_method (h \<lparr> prs := (prs h) \<lparr> hp_type := HTTP_REQUEST, hp_method := HTTP_HEAD, hp_index := 2 \<rparr> \<rparr>))"

definition case_start_res :: "'u http_parser_settings \<Rightarrow> char \<Rightarrow> 'u hx \<Rightarrow> 'u outcome cres" where
  "case_start_res st ch h =
     (if ch = CR \<or> ch = LF then Inr (Brk h)
      else let h = message_start h in
        if ch = CHR ''H'' then
          (let h = h \<lparr> p_state := s_res_H \<rparr> in notify_begin st h (\<lambda>h. Inr (Brk h)))
        else err HPE_INVALID_CONSTANT h)"

definition version_digit :: "char \<Rightarrow> (int \<Rightarrow> http_parser \<Rightarrow> http_parser) \<Rightarrow> pstate \<Rightarrow> 'u hx \<Rightarrow> 'u outcome cres" where
  "version_digit ch upd s h =
     (if \<not> IS_NUM ch then err HPE_INVALID_VERSION h
      else brk s (h \<lparr> prs := upd (byte_of ch - 48) (prs h) \<rparr>))"

abbreviation set_major :: "int \<Rightarrow> http_parser \<Rightarrow> http_parser" where
  "set_major d ps \<equiv> ps \<lparr> http_major := d \<rparr>"
abbreviation set_minor :: "int \<Rightarrow> http_parser \<Rightarrow> http_parser" where
  "set_minor d ps \<equiv> ps \<lparr> http_minor := d \<rparr>"

definition case_status_code :: "char \<Rightarrow> 'u hx \<Rightarrow> 'u outcome cres" where
  "case_status_code ch h =
     (if \<not> IS_NUM ch then
        (if ch = CHR '' '' then brk s_res_status_start h
         else if ch = CR \<or> ch = LF then again s_res_status_start h
         else err HPE_INVALID_STATUS h)
      else
        (let v = (hp_status (prs h) * 10) mod 65536; v = (v + (byte_of ch - 48)) mod 65536;
             h = h \<lparr> prs := (prs h) \<lparr> hp_status := v \<rparr> \<rparr>
         in if v > 999 then err HPE_INVALID_STATUS h else Inr (Brk h)))"

definition case_status :: "'u http_parser_settings \<Rightarrow> string \<Rightarrow> char \<Rightarrow> 'u hx \<Rightarrow> 'u outcome cres" where
  "case_status st data ch h =
     (if ch = CR then CALLBACK_DATA st data K_status (h \<lparr> p_state := s_res_line_almost_done \<rparr>) (\<lambda>h. Inr (Brk h))
      else if ch = LF then CALLBACK_DATA st data K_status (h \<lparr> p_state := s_header_field_start \<rparr>) (\<lambda>h. Inr (Brk h))
      else Inr (Brk h))"

definition HTTP_CONNECT :: int where "HTTP_CONNECT = 5"
definition HTTP_SOURCE :: int where "HTTP_SOURCE = 33"

text \<open>The method a first letter stands for.\<close>

definition first_method :: "char \<Rightarrow> int option" where
  "first_method ch =
     map_of [(CHR ''A'', 19), (CHR ''B'', 16), (CHR ''C'', 5), (CHR ''D'', 0), (CHR ''G'', 1),
       (CHR ''H'', 2), (CHR ''L'', 9), (CHR ''M'', 10), (CHR ''N'', 25), (CHR ''O'', 6),
       (CHR ''P'', 3), (CHR ''R'', 20), (CHR ''S'', 26), (CHR ''T'', 7), (CHR ''U'', 15)] ch"

definition case_start_req :: "'u http_parser_settings \<Rightarrow> char \<Rightarrow> 'u hx \<Rightarrow> 'u outcome cres" where
  "case_start_req st ch h =
     (if ch = CR \<or> ch = LF then Inr (Brk h)
      else let h = message_start h in
        if \<not> IS_ALPHA ch then err HPE_INVALID_METHOD h
        else let h = h \<lparr> prs := (prs h) \<lparr> hp_method := 0, hp_index := 1 \<rparr> \<rparr> in
          case first_method ch of None \<Rightarrow> err HPE_INVALID_METHOD h
          | Some m \<Rightarrow>
             (let h = h \<lparr> prs := (prs h) \<lparr> hp_method := m \<rparr>, p_state := s_req_method \<rparr>
              in notify_begin st h (\<lambda>h. Inr (Brk h))))"

text \<open>
  The switch over method, index and byte: POST, PUT, CONNECT, MKCOL, SUBSCRIBE, REPORT,
  PROPFIND, LOCK and UNLOCK turn into the methods that share their beginning.
\<close>

definition method_switch :: "((int \<times> nat \<times> char) \<times> int) list" where
  "method_switch =
     [((3, 1, CHR ''U''), 4), ((3, 1, CHR ''A''), 28), ((3, 1, CHR ''R''), 12), ((4, 2, CHR ''R''), 29),
      ((5, 1, CHR ''H''), 22), ((5, 2, CHR ''P''), 8), ((10, 1, CHR ''O''), 11), ((10, 1, CHR ''E''), 23),
      ((10, 1, CHR ''-''), 24), ((10, 2, CHR ''A''), 21), ((10, 3, CHR ''A''), 30), ((26, 1, CHR ''E''), 14),
      ((26, 1, CHR ''O''), 33), ((20, 2, CHR ''B''), 17), ((12, 4, CHR ''P''), 13), ((9, 1, CHR ''I''), 31),
      ((15, 2, CHR ''S''), 27), ((15, 2, CHR ''B''), 18), ((15, 3, CHR ''I''), 32)]"

text \<open>\<open>method_strings[method][index]\<close>.\<close>

definition method_char :: "int \<Rightarrow> nat \<Rightarrow> char cres" where
  "method_char m i = (case map_of http_method_map m of None \<Rightarrow> Inl OutOfBounds | Some s \<Rightarrow> rd (s @ [NUL]) i)"

definition case_req_method :: "char \<Rightarrow> 'u hx \<Rightarrow> 'u outcome cres" where
  "case_req_method ch h =
     (if ch = NUL then err HPE_INVALID_METHOD h
      else cbind (method_char (hp_method (prs h)) (hp_index (prs h))) (\<lambda>m.
        if ch = CHR '' '' \<and> m = NUL
        then brk s_req_spaces_before_url (h \<lparr> prs := inc_index (prs h) \<rparr>)
        else if ch = m then Inr (Brk (h \<lparr> prs := inc_index (prs h) \<rparr>))
        else if (65 \<le> byte_of ch \<and> byte_of ch \<le> 90) \<or> ch = CHR ''-'' then
          (case map_of method_switch (hp_method (prs h), hp_index (prs h), ch) of
             None \<Rightarrow> err HPE_INVALID_METHOD h
           | Some m' \<Rightarrow> Inr (Brk (h \<lparr> prs := inc_index ((prs h) \<lparr> hp_method := m' \<rparr>) \<rparr>)))
        else err HPE_INVALID_METHOD h))"

text \<open>A byte of the URL; \<open>s_dead\<close> is an error.\<close>

definition url_byte :: "char \<Rightarrow> 'u hx \<Rightarrow> 'u outcome cres" where
  "url_byte ch h =
     (let s = parse_url_char (p_state h) ch; h = h \<lparr> p_state := s \<rparr>
      in if s = s_dead then err HPE_INVALID_URL h else Inr (Brk h))"

definition case_spaces_before_url :: "char \<Rightarrow> 'u hx \<Rightarrow> 'u outcome cres" where
  "case_spaces_before_url ch h =
     (if ch = CHR '' '' then Inr (Brk h)
      else let h = MARK K_url h;
               h = (if hp_method (prs h) = HTTP_CONNECT then h \<lparr> p_state := s_req_server_start \<rparr> else h)
           in url_byte ch h)"

definition case_schema :: "char \<Rightarrow> 'u hx \<Rightarrow> 'u outcome cres" where
  "case_schema ch h =
     (if ch = CHR '' '' \<or> ch = CR \<or> ch = LF then err HPE_INVALID_URL h else url_byte ch h)"

definition case_url :: "'u http_parser_settings \<Rightarrow> string \<Rightarrow> char \<Rightarrow> 'u hx \<Rightarrow> 'u outcome cres" where
  "case_url st data ch h =
     (if ch = CHR '' '' then
        CALLBACK_DATA st data K_url (h \<lparr> p_state := s_req_http_start \<rparr>) (\<lambda>h. Inr (Brk h))
      else if ch = CR \<or> ch = LF then
        CALLBACK_DATA st data K_url
          (h \<lparr> prs := (prs h) \<lparr> http_major := 0, http_minor := 9 \<rparr>,
               p_state := (if ch = CR then s_req_line_almost_done else s_header_field_start) \<rparr>)
          (\<lambda>h. Inr (Brk h))
      else url_byte ch h)"

definition case_http_start :: "char \<Rightarrow> 'u hx \<Rightarrow> 'u outcome cres" where
  "case_http_start ch h =
     (if ch = CHR '' '' then Inr (Brk h)
      else if ch = CHR ''H'' then brk s_req_http_H h
      else if ch = CHR ''I'' \<and> hp_method (prs h) = HTTP_SOURCE then brk s_req_http_I h
      else err HPE_INVALID_CONSTANT h)"

definition case_http_end :: "char \<Rightarrow> 'u hx \<Rightarrow> 'u outcome cres" where
  "case_http_end ch h =
     (if ch = CR then brk s_req_line_almost_done h
      else if ch = LF then brk s_header_field_start h
      else err HPE_INVALID_VERSION h)"

section \<open>The switch: headers\<close>

definition first_header_state :: "char \<Rightarrow> header_state" where
  "first_header_state c =
     (if c = CHR ''c'' then h_C
      else if c = CHR ''p'' then h_matching_proxy_connection
      else if c = CHR ''t'' then h_matching_transfer_encoding
      else if c = CHR ''u'' then h_matching_upgrade
      else h_general)"

definition case_header_field_start :: "char \<Rightarrow> 'u hx \<Rightarrow> 'u outcome cres" where
  "case_header_field_start ch h =
     (if ch = CR then brk s_headers_almost_done h
      else if ch = LF then again s_headers_almost_done h
      else let c = TOKEN ch in
        if c = NUL then err HPE_INVALID_HEADER_TOKEN h
        else let h = MARK K_header_field h in
          brk s_header_field (h \<lparr> prs := (prs h) \<lparr> hp_index := 0, header_state := first_header_state c \<rparr> \<rparr>))"

definition case_header_field :: "'u http_parser_settings \<Rightarrow> string \<Rightarrow> 'u hx \<Rightarrow> 'u outcome cres" where
  "case_header_field st data h =
     cbind (field_loop data (pos h) (prs h)) (\<lambda>(p, ps).
       let start = pos h; h = h \<lparr> prs := ps, pos := p \<rparr> in
       if p = length data then
         COUNT_HEADER_SIZE (int (p - 1 - start)) (h \<lparr> pos := p - 1 \<rparr>) (\<lambda>h. Inr (Brk h))
       else COUNT_HEADER_SIZE (int (p - start)) h (\<lambda>h.
         cbind (rd data p) (\<lambda>ch.
           if ch = CHR '':'' then
             CALLBACK_DATA st data K_header_field (h \<lparr> p_state := s_header_value_discard_ws \<rparr>) (\<lambda>h. Inr (Brk h))
           else err HPE_INVALID_HEADER_TOKEN h)))"

definition value_first :: "char \<Rightarrow> 'u hx \<Rightarrow> 'u outcome cres" where
  "value_first ch h =
     (let h = MARK K_header_value h;
          h = h \<lparr> p_state := s_header_value, prs := (prs h) \<lparr> hp_index := 0 \<rparr> \<rparr>;
          c = LOWER ch;
          go = (\<lambda>hs. Inr (Brk (h \<lparr> prs := (prs h) \<lparr> header_state := hs \<rparr> \<rparr>)))
      in case header_state (prs h) of
           h_upgrade \<Rightarrow>
             Inr (Brk (h \<lparr> prs := (prs h) \<lparr> hp_flags := hp_flags (prs h) OR F_UPGRADE, header_state := h_general \<rparr> \<rparr>))
         | h_transfer_encoding \<Rightarrow>
             go (if c = CHR ''c'' then h_matching_transfer_encoding_chunked else h_general)
         | h_content_length \<Rightarrow>
             (if \<not> IS_NUM ch then err HPE_INVALID_CONTENT_LENGTH h
              else if has (hp_flags (prs h)) F_CONTENTLENGTH then err HPE_UNEXPECTED_CONTENT_LENGTH h
              else Inr (Brk (h \<lparr> prs := (prs h) \<lparr> hp_flags := hp_flags (prs h) OR F_CONTENTLENGTH,
                     hp_length := word_of_int (byte_of ch - 48), header_state := h_content_length_num \<rparr> \<rparr>)))
         | h_content_length_ws \<Rightarrow> Inr (Brk h)
         | h_connection \<Rightarrow>
             go (if c = CHR ''k'' then h_matching_connection_keep_alive
                 else if c = CHR ''c'' then h_matching_connection_close
                 else if c = CHR ''u'' then h_matching_connection_upgrade
                 else h_matching_connection_token)
         | h_matching_connection_token_start \<Rightarrow> Inr (Brk h)
         | _ \<Rightarrow> go h_general)"

definition case_discard_ws :: "char \<Rightarrow> 'u hx \<Rightarrow> 'u outcome cres" where
  "case_discard_ws ch h =
     (if ch = CHR '' '' \<or> ch = HT then Inr (Brk h)
      else if ch = CR then brk s_header_value_discard_ws_almost_done h
      else if ch = LF then brk s_header_value_discard_lws h
      else value_first ch h)"

definition case_header_value :: "'u http_parser_settings \<Rightarrow> string \<Rightarrow> 'u hx \<Rightarrow> 'u outcome cres" where
  "case_header_value st data h =
     cbind (value_loop data (pos h) (header_state (prs h)) (prs h)) (\<lambda>(stop, p, hs, ps).
       let start = pos h; h = h \<lparr> prs := ps, pos := p \<rparr>;
           fini = (\<lambda>h. let h = h \<lparr> prs := (prs h) \<lparr> header_state := hs \<rparr>,
                                  pos := (if pos h = length data then pos h - 1 else pos h) \<rparr>
                       in COUNT_HEADER_SIZE (int (pos h - start)) h (\<lambda>h. Inr (Brk h)))
       in case stop of
            VEnd \<Rightarrow> fini h
          | VCR \<Rightarrow>
              CALLBACK_DATA st data K_header_value
                (h \<lparr> p_state := s_header_almost_done, prs := ps \<lparr> header_state := hs \<rparr> \<rparr>) fini
          | VLF \<Rightarrow>
              COUNT_HEADER_SIZE (int (p - start)) (h \<lparr> p_state := s_header_almost_done \<rparr>) (\<lambda>h.
                CALLBACK_DATA_NOADVANCE st data K_header_value
                  (h \<lparr> prs := (prs h) \<lparr> header_state := hs \<rparr> \<rparr>) (\<lambda>h. Inr (Again h)))
          | VErr e wb \<Rightarrow>
              err e (if wb then h \<lparr> prs := ps \<lparr> header_state := hs \<rparr> \<rparr> else h))"

text \<open>The flags a finished header leaves.\<close>

definition header_flag :: "header_state \<Rightarrow> 8 word" where
  "header_flag hs = (case hs of
       h_connection_keep_alive \<Rightarrow> F_CONNECTION_KEEP_ALIVE
     | h_connection_close \<Rightarrow> F_CONNECTION_CLOSE
     | h_transfer_encoding_chunked \<Rightarrow> F_CHUNKED
     | h_connection_upgrade \<Rightarrow> F_CONNECTION_UPGRADE
     | _ \<Rightarrow> 0)"

definition case_value_lws :: "char \<Rightarrow> 'u hx \<Rightarrow> 'u outcome cres" where
  "case_value_lws ch h =
     (if ch = CHR '' '' \<or> ch = HT then
        again s_header_value_start
          (if header_state (prs h) = h_content_length_num
           then h \<lparr> prs := (prs h) \<lparr> header_state := h_content_length_ws \<rparr> \<rparr> else h)
      else again s_header_field_start (set_flag (header_flag (header_state (prs h))) h))"

definition case_discard_lws :: "'u http_parser_settings \<Rightarrow> string \<Rightarrow> char \<Rightarrow> 'u hx \<Rightarrow> 'u outcome cres" where
  "case_discard_lws st data ch h =
     (if ch = CHR '' '' \<or> ch = HT then brk s_header_value_discard_ws h
      else if header_state (prs h) = h_content_length then err HPE_INVALID_CONTENT_LENGTH h
      else let h = MARK K_header_value (set_flag (header_flag (header_state (prs h))) h);
               h = h \<lparr> p_state := s_header_field_start \<rparr>
           in CALLBACK_DATA_NOADVANCE st data K_header_value h (\<lambda>h. Inr (Again h)))"

definition case_headers_almost_done :: "'u http_parser_settings \<Rightarrow> char \<Rightarrow> 'u hx \<Rightarrow> 'u outcome cres" where
  "case_headers_almost_done st ch h =
     (let fl = hp_flags (prs h) in
      if ch \<noteq> LF then err HPE_STRICT h
      else if has fl F_TRAILING then
        CALLBACK_NOTIFY_ER (on_chunk_complete st) HPE_CB_chunk_complete (pos h)
          (h \<lparr> p_state := s_message_done \<rparr>) (\<lambda>h. Inr (Again h))
      else if has fl F_CHUNKED \<and> has fl F_CONTENTLENGTH then err HPE_UNEXPECTED_CONTENT_LENGTH h
      else
        let up = (if has fl F_UPGRADE \<and> has fl F_CONNECTION_UPGRADE
                  then hp_type (prs h) = HTTP_REQUEST \<or> hp_status (prs h) = 101
                  else hp_method (prs h) = HTTP_CONNECT);
            h = h \<lparr> p_state := s_headers_done, prs := (prs h) \<lparr> hp_upgrade := up \<rparr> \<rparr>;
            fin = (\<lambda>h. if http_errno (prs h) \<noteq> HPE_OK then Inr (RETURN h (pos h)) else Inr (Again h))
        in case on_headers_complete st of None \<Rightarrow> fin h
           | Some f \<Rightarrow> cbind (f (prs h) (usr h)) (\<lambda>(rc, u).
               let h = h \<lparr> usr := u \<rparr> in
               if rc = 0 then fin h
               else if rc = 2 then fin (set_flag F_SKIPBODY (h \<lparr> prs := (prs h) \<lparr> hp_upgrade := True \<rparr> \<rparr>))
               else if rc = 1 then fin (set_flag F_SKIPBODY h)
               else let h = h \<lparr> prs := SET_ERRNO HPE_CB_headers_complete (nread h) (prs h) \<rparr>
                    in Inr (RETURN h (pos h))))"

section \<open>The switch: bodies\<close>

definition new_message :: "'u hx \<Rightarrow> 'u hx" where
  "new_message h = h \<lparr> p_state := NEW_MESSAGE (prs h) \<rparr>"

definition case_headers_done :: "'u http_parser_settings \<Rightarrow> char \<Rightarrow> 'u hx \<Rightarrow> 'u outcome cres" where
  "case_headers_done st ch h =
     (if ch \<noteq> LF then err HPE_STRICT h
      else let h = h \<lparr> nread := 0, prs := (prs h) \<lparr> hp_nread := 0 \<rparr> \<rparr>;
               fl = hp_flags (prs h); n = hp_length (prs h);
               hasBody = (has fl F_CHUNKED \<or> (n > 0 \<and> n \<noteq> ULLONG_MAX))
           in if hp_upgrade (prs h) \<and> (hp_method (prs h) = HTTP_CONNECT \<or> has fl F_SKIPBODY \<or> \<not> hasBody) then
                notify_complete st (new_message h) (\<lambda>h. Inr (RETURN h (pos h + 1)))
              else if has fl F_SKIPBODY then notify_complete st (new_message h) (\<lambda>h. Inr (Brk h))
              else if has fl F_CHUNKED then brk s_chunk_size_start h
              else if n = 0 then notify_complete st (new_message h) (\<lambda>h. Inr (Brk h))
              else if n \<noteq> ULLONG_MAX then brk s_body_identity h
              else if \<not> http_message_needs_eof (prs h) then
                notify_complete st (new_message h) (\<lambda>h. Inr (Brk h))
              else brk s_body_identity_eof h)"

text \<open>
  The body states move \<open>p\<close> to the last byte they take. With nothing to take, which their
  assertions exclude, there would be no such byte.
\<close>

definition take_body :: "string \<Rightarrow> 'u hx \<Rightarrow> 'u hx" where
  "take_body data h =
     (let to_read = min (unat (hp_length (prs h))) (length data - pos h); h = MARK K_body h
      in h \<lparr> prs := (prs h) \<lparr> hp_length := hp_length (prs h) - of_nat to_read \<rparr>, pos := pos h + to_read - 1 \<rparr>)"

definition case_body_identity :: "'u http_parser_settings \<Rightarrow> string \<Rightarrow> 'u hx \<Rightarrow> 'u outcome cres" where
  "case_body_identity st data h =
     (if hp_length (prs h) = 0 \<or> hp_length (prs h) = ULLONG_MAX then Inl AssertFailure
      else let h = take_body data h in
        if hp_length (prs h) = 0 then
          CALLBACK_DATA_ER st data K_body (pos h + 1) (pos h) (h \<lparr> p_state := s_message_done \<rparr>) (\<lambda>h. Inr (Again h))
        else Inr (Brk h))"

definition case_body_identity_eof :: "string \<Rightarrow> 'u hx \<Rightarrow> 'u outcome cres" where
  "case_body_identity_eof data h = Inr (Brk ((MARK K_body h) \<lparr> pos := length data - 1 \<rparr>))"

definition case_message_done :: "'u http_parser_settings \<Rightarrow> 'u hx \<Rightarrow> 'u outcome cres" where
  "case_message_done st h =
     notify_complete st (new_message h) (\<lambda>h.
       if hp_upgrade (prs h) then Inr (RETURN h (pos h + 1)) else Inr (Brk h))"

text \<open>An \<open>assert\<close> of the parser.\<close>

definition assert_that :: "bool \<Rightarrow> 'a cres \<Rightarrow> 'a cres" where
  "assert_that b r = (if b then r else Inl AssertFailure)"

abbreviation chunked :: "'u hx \<Rightarrow> bool" where "chunked h \<equiv> has (hp_flags (prs h)) F_CHUNKED"

definition case_chunk_size_start :: "char \<Rightarrow> 'u hx \<Rightarrow> 'u outcome cres" where
  "case_chunk_size_start ch h =
     assert_that (nread h = 1) (assert_that (chunked h)
       (if unhex ch = - 1 then err HPE_INVALID_CHUNK_SIZE h
        else brk s_chunk_size (h \<lparr> prs := (prs h) \<lparr> hp_length := word_of_int (unhex ch) \<rparr> \<rparr>)))"

definition case_chunk_size :: "char \<Rightarrow> 'u hx \<Rightarrow> 'u outcome cres" where
  "case_chunk_size ch h =
     assert_that (chunked h)
       (if ch = CR then brk s_chunk_size_almost_done h
        else if unhex ch = - 1 then
          (if ch = CHR '';'' \<or> ch = CHR '' '' then brk s_chunk_parameters h
           else err HPE_INVALID_CHUNK_SIZE h)
        else let t = hp_length (prs h) * 16 + word_of_int (unhex ch)
             in if (ULLONG_MAX - 16) div 16 < hp_length (prs h) then err HPE_INVALID_CONTENT_LENGTH h
                else Inr (Brk (h \<lparr> prs := (prs h) \<lparr> hp_length := t \<rparr> \<rparr>)))"

definition case_chunk_parameters :: "char \<Rightarrow> 'u hx \<Rightarrow> 'u outcome cres" where
  "case_chunk_parameters ch h =
     assert_that (chunked h) (if ch = CR then brk s_chunk_size_almost_done h else Inr (Brk h))"

definition case_chunk_size_almost_done :: "'u http_parser_settings \<Rightarrow> char \<Rightarrow> 'u hx \<Rightarrow> 'u outcome cres" where
  "case_chunk_size_almost_done st ch h =
     assert_that (chunked h)
       (if ch \<noteq> LF then err HPE_STRICT h
        else let h = h \<lparr> nread := 0, prs := (prs h) \<lparr> hp_nread := 0 \<rparr> \<rparr>;
                 h = (if hp_length (prs h) = 0
                      then set_flag F_TRAILING (h \<lparr> p_state := s_header_field_start \<rparr>)
                      else h \<lparr> p_state := s_chunk_data \<rparr>)
             in CALLBACK_NOTIFY_ER (on_chunk_header st) HPE_CB_chunk_header (pos h + 1) h (\<lambda>h. Inr (Brk h)))"

definition case_chunk_data :: "string \<Rightarrow> 'u hx \<Rightarrow> 'u outcome cres" where
  "case_chunk_data data h =
     assert_that (chunked h) (assert_that (hp_length (prs h) \<noteq> 0 \<and> hp_length (prs h) \<noteq> ULLONG_MAX)
       (let h = take_body data h in
        if hp_length (prs h) = 0 then brk s_chunk_data_almost_done h else Inr (Brk h)))"

definition case_chunk_data_almost_done :: "'u http_parser_settings \<Rightarrow> string \<Rightarrow> char \<Rightarrow> 'u hx \<Rightarrow> 'u outcome cres" where
  "case_chunk_data_almost_done st data ch h =
     assert_that (chunked h) (assert_that (hp_length (prs h) = 0)
       (if ch \<noteq> CR then err HPE_STRICT h
        else CALLBACK_DATA st data K_body (h \<lparr> p_state := s_chunk_data_done \<rparr>) (\<lambda>h. Inr (Brk h))))"

definition case_chunk_data_done :: "'u http_parser_settings \<Rightarrow> char \<Rightarrow> 'u hx \<Rightarrow> 'u outcome cres" where
  "case_chunk_data_done st ch h =
     assert_that (chunked h)
       (if ch \<noteq> LF then err HPE_STRICT h
        else let h = h \<lparr> nread := 0, prs := (prs h) \<lparr> hp_nread := 0 \<rparr>, p_state := s_chunk_size_start \<rparr>
             in CALLBACK_NOTIFY_ER (on_chunk_complete st) HPE_CB_chunk_complete (pos h + 1) h (\<lambda>h. Inr (Brk h)))"

section \<open>The loop\<close>

definition switch :: "'u http_parser_settings \<Rightarrow> string \<Rightarrow> 'u hx \<Rightarrow> 'u outcome cres" where
  "switch st data h = cbind (rd data (pos h)) (\<lambda>ch.
     case p_state h of
       s_dead \<Rightarrow> (if ch = CR \<or> ch = LF then Inr (Brk h) else err HPE_CLOSED_CONNECTION h)
     | s_start_req_or_res \<Rightarrow> case_start st ch h
     | s_res_or_resp_H \<Rightarrow> case_res_or_resp_H ch h
     | s_start_res \<Rightarrow> case_start_res st ch h
     | s_res_H \<Rightarrow> expect ch (CHR ''T'') s_res_HT h
     | s_res_HT \<Rightarrow> expect ch (CHR ''T'') s_res_HTT h
     | s_res_HTT \<Rightarrow> expect ch (CHR ''P'') s_res_HTTP h
     | s_res_HTTP \<Rightarrow> expect ch (CHR ''/'') s_res_http_major h
     | s_res_http_major \<Rightarrow> version_digit ch set_major s_res_http_dot h
     | s_res_http_dot \<Rightarrow> (if ch \<noteq> CHR ''.'' then err HPE_INVALID_VERSION h else brk s_res_http_minor h)
     | s_res_http_minor \<Rightarrow> version_digit ch set_minor s_res_http_end h
     | s_res_http_end \<Rightarrow> (if ch \<noteq> CHR '' '' then err HPE_INVALID_VERSION h else brk s_res_first_status_code h)
     | s_res_first_status_code \<Rightarrow>
         (if \<not> IS_NUM ch then (if ch = CHR '' '' then Inr (Brk h) else err HPE_INVALID_STATUS h)
          else brk s_res_status_code (h \<lparr> prs := (prs h) \<lparr> hp_status := byte_of ch - 48 \<rparr> \<rparr>))
     | s_res_status_code \<Rightarrow> case_status_code ch h
     | s_res_status_start \<Rightarrow>
         (let h = (MARK K_status h) \<lparr> p_state := s_res_status \<rparr>; h = h \<lparr> prs := (prs h) \<lparr> hp_index := 0 \<rparr> \<rparr>
          in if ch = CR \<or> ch = LF then Inr (Again h) else Inr (Brk h))
     | s_res_status \<Rightarrow> case_status st data ch h
     | s_res_line_almost_done \<Rightarrow> expect ch LF s_header_field_start h
     | s_start_req \<Rightarrow> case_start_req st ch h
     | s_req_method \<Rightarrow> case_req_method ch h
     | s_req_spaces_before_url \<Rightarrow> case_spaces_before_url ch h
     | s_req_schema \<Rightarrow> case_schema ch h
     | s_req_schema_slash \<Rightarrow> case_schema ch h
     | s_req_schema_slash_slash \<Rightarrow> case_schema ch h
     | s_req_server_start \<Rightarrow> case_schema ch h
     | s_req_server \<Rightarrow> case_url st data ch h
     | s_req_server_with_at \<Rightarrow> case_url st data ch h
     | s_req_path \<Rightarrow> case_url st data ch h
     | s_req_query_string_start \<Rightarrow> case_url st data ch h
     | s_req_query_string \<Rightarrow> case_url st data ch h
     | s_req_fragment_start \<Rightarrow> case_url st data ch h
     | s_req_fragment \<Rightarrow> case_url st data ch h
     | s_req_http_start \<Rightarrow> case_http_start ch h
     | s_req_http_H \<Rightarrow> expect ch (CHR ''T'') s_req_http_HT h
     | s_req_http_HT \<Rightarrow> expect ch (CHR ''T'') s_req_http_HTT h
     | s_req_http_HTT \<Rightarrow> expect ch (CHR ''P'') s_req_http_HTTP h
     | s_req_http_I \<Rightarrow> expect ch (CHR ''C'') s_req_http_IC h
     | s_req_http_IC \<Rightarrow> expect ch (CHR ''E'') s_req_http_HTTP h
     | s_req_http_HTTP \<Rightarrow> expect ch (CHR ''/'') s_req_http_major h
     | s_req_http_major \<Rightarrow> version_digit ch set_major s_req_http_dot h
     | s_req_http_dot \<Rightarrow> (if ch \<noteq> CHR ''.'' then err HPE_INVALID_VERSION h else brk s_req_http_minor h)
     | s_req_http_minor \<Rightarrow> version_digit ch set_minor s_req_http_end h
     | s_req_http_end \<Rightarrow> case_http_end ch h
     | s_req_line_almost_done \<Rightarrow> (if ch \<noteq> LF then err HPE_LF_EXPECTED h else brk s_header_field_start h)
     | s_header_field_start \<Rightarrow> case_header_field_start ch h
     | s_header_field \<Rightarrow> case_header_field st data h
     | s_header_value_discard_ws \<Rightarrow> case_discard_ws ch h
     | s_header_value_start \<Rightarrow> value_first ch h
     | s_header_value \<Rightarrow> case_header_value st data h
     | s_header_almost_done \<Rightarrow> (if ch \<noteq> LF then err HPE_LF_EXPECTED h else brk s_header_value_lws h)
     | s_header_value_lws \<Rightarrow> case_value_lws ch h
     | s_header_value_discard_ws_almost_done \<Rightarrow> expect ch LF s_header_value_discard_lws h
     | s_header_value_discard_lws \<Rightarrow> case_discard_lws st data ch h
     | s_headers_almost_done \<Rightarrow> case_headers_almost_done st ch h
     | s_headers_done \<Rightarrow> case_headers_done st ch h
     | s_body_identity \<Rightarrow> case_body_identity st data h
     | s_body_identity_eof \<Rightarrow> case_body_identity_eof data h
     | s_message_done \<Rightarrow> case_message_done st h
     | s_chunk_size_start \<Rightarrow> case_chunk_size_start ch h
     | s_chunk_size \<Rightarrow> case_chunk_size ch h
     | s_chunk_parameters \<Rightarrow> case_chunk_parameters ch h
     | s_chunk_size_almost_done \<Rightarrow> case_chunk_size_almost_done st ch h
     | s_chunk_data \<Rightarrow> case_chunk_data data h
     | s_chunk_data_almost_done \<Rightarrow> case_chunk_data_almost_done st data ch h
     | s_chunk_data_done \<Rightarrow> case_chunk_data_done st ch h)"

text \<open>The head of the loop body: a byte of a header is counted, then \<open>reexecute\<close> is reached.\<close>

definition loop_head :: "'u hx \<Rightarrow> 'u outcome cres" where
  "loop_head h =
     (if PARSING_HEADER (p_state h) then COUNT_HEADER_SIZE 1 h (\<lambda>h. Inr (Again h)) else Inr (Again h))"

text \<open>After the loop: the marks that are left.\<close>

definition run_leftover :: "'u http_parser_settings \<Rightarrow> string \<Rightarrow> 'u hx \<Rightarrow> 'u outcome cres" where
  "run_leftover st data h =
     assert_that (length (filter (\<lambda>k. marks h k \<noteq> None) [K_header_field, K_header_value, K_url, K_body, K_status]) \<le> 1)
       (CALLBACK_DATA_NOADVANCE st data K_header_field h (\<lambda>h.
        CALLBACK_DATA_NOADVANCE st data K_header_value h (\<lambda>h.
        CALLBACK_DATA_NOADVANCE st data K_url h (\<lambda>h.
        CALLBACK_DATA_NOADVANCE st data K_body h (\<lambda>h.
        CALLBACK_DATA_NOADVANCE st data K_status h (\<lambda>h. Inr (RETURN h (length data))))))))"

text \<open>The label \<open>error\<close>.\<close>

definition at_error :: "'u hx \<Rightarrow> 'u outcome" where
  "at_error h =
     (let h = (if http_errno (prs h) = HPE_OK then h \<lparr> prs := SET_ERRNO HPE_UNKNOWN (nread h) (prs h) \<rparr> else h)
      in RETURN h (pos h))"

text \<open>
  Termination of the loop: a \<open>goto reexecute\<close> that keeps \<open>p\<close> goes to a state of lower rank.
\<close>

definition rank :: "pstate \<Rightarrow> nat" where
  "rank s = (case s of
       s_header_value_lws \<Rightarrow> 4 | s_header_value_discard_lws \<Rightarrow> 4
     | s_header_field_start \<Rightarrow> 3
     | s_headers_almost_done \<Rightarrow> 2 | s_res_status_code \<Rightarrow> 2
     | s_start_req_or_res \<Rightarrow> 1 | s_res_status_start \<Rightarrow> 1 | s_header_value \<Rightarrow> 1 | s_body_identity \<Rightarrow> 1
     | _ \<Rightarrow> 0)"

definition progress :: "string \<Rightarrow> 'u hx \<Rightarrow> 'u outcome \<Rightarrow> bool" where
  "progress data h r = (case r of
       Brk h' \<Rightarrow> pos h \<le> pos h'
     | Again h' \<Rightarrow> pos h \<le> pos h' \<and> rank (p_state h') < rank (p_state h)
     | _ \<Rightarrow> True)"

section \<open>Reasoning about a pass\<close>

text \<open>
  \<open>holds U Q r\<close>: an error value satisfies \<open>U\<close>, any other outcome satisfies \<open>Q\<close>.
\<close>

definition holds :: "(ub \<Rightarrow> bool) \<Rightarrow> ('a \<Rightarrow> bool) \<Rightarrow> 'a cres \<Rightarrow> bool" where
  "holds U Q r = (case r of Inl e \<Rightarrow> U e | Inr a \<Rightarrow> Q a)"

lemma holds_simps [simp]: "holds U Q (Inl e) = U e" "holds U Q (Inr a) = Q a"
  by (simp_all add: holds_def)

lemma holds_cbind: "holds U (\<lambda>a. holds U Q (f a)) m \<Longrightarrow> holds U Q (cbind m f)"
  by (cases m) auto

lemma holds_rd: "p < length data \<Longrightarrow> holds U Q (f (data ! p)) \<Longrightarrow> holds U Q (cbind (rd data p) f)"
  by (simp add: rd_def)

lemma holds_err: "Q (Error (h \<lparr> prs := SET_ERRNO e (nread h) (prs h) \<rparr>)) \<Longrightarrow> holds U Q (err e h)"
  by (simp add: err_def)

lemma holds_count:
  assumes "\<And>n. n \<le> max_header_size \<Longrightarrow> n = (nread h + v mod 4294967296) mod 4294967296 \<Longrightarrow> holds U Q (k (h \<lparr> nread := n \<rparr>))"
    and "\<And>n. Q (Error (h \<lparr> nread := n, prs := SET_ERRNO HPE_HEADER_OVERFLOW n (prs h) \<rparr>))"
  shows "holds U Q (COUNT_HEADER_SIZE v h k)"
  using assms by (simp add: COUNT_HEADER_SIZE_def Let_def err_def not_less)

lemma holds_notify:
  assumes "http_errno (prs h) \<noteq> HPE_OK \<Longrightarrow> U AssertFailure"
    and "\<And>f ps. cb = Some f \<Longrightarrow> holds U (\<lambda>_. True) (f ps (usr h))"
    and "\<And>ps u. ps = (prs h) \<lparr> hp_state := p_state h \<rparr> \<Longrightarrow> Q (Ret (SET_ERRNO e (nread h) ps) u er)"
    and "\<And>ps u. ps = prs h \<or> ps = (prs h) \<lparr> hp_state := p_state h \<rparr> \<Longrightarrow> holds U Q (k (h \<lparr> prs := ps, usr := u \<rparr>))"
  shows "holds U Q (CALLBACK_NOTIFY_ER cb e er h k)"
proof (cases cb)
  case None
  have eq: "h \<lparr> prs := prs h, usr := usr h \<rparr> = h" by simp
  have "holds U Q (k h)" using assms(4)[of "prs h" "usr h"] by (simp only: eq simp_thms)
  with assms(1) None show ?thesis by (simp add: CALLBACK_NOTIFY_ER_def)
next
  case (Some f)
  let ?ps = "(prs h) \<lparr> hp_state := p_state h \<rparr>"
  show ?thesis
    using assms(1) assms(2)[OF Some, of ?ps] assms(3)[of ?ps] assms(4)[of ?ps] Some
    by (cases "f ?ps (usr h)") (auto simp: CALLBACK_NOTIFY_ER_def Let_def)
qed

lemma holds_data:
  assumes "http_errno (prs h) \<noteq> HPE_OK \<Longrightarrow> U AssertFailure"
    and "\<And>f ps s. data_cb st kd = Some f \<Longrightarrow> holds U (\<lambda>_. True) (f ps s (usr h))"
    and "\<And>m. marks h kd = Some m \<Longrightarrow> (m \<le> hi \<and> hi \<le> length data) \<or> U OutOfBounds"
    and "\<And>ps u. ps = (prs h) \<lparr> hp_state := p_state h \<rparr> \<Longrightarrow> Q (Ret (SET_ERRNO (data_errno kd) (nread h) ps) u er)"
    and "\<And>ps u. ps = prs h \<or> ps = (prs h) \<lparr> hp_state := p_state h \<rparr>
           \<Longrightarrow> holds U Q (k (h \<lparr> prs := ps, usr := u, marks := (marks h)(kd := None) \<rparr>))"
  shows "holds U Q (CALLBACK_DATA_ER st data kd hi er h k)"
proof (cases "marks h kd")
  case None
  then have "(marks h)(kd := None) = marks h" by auto
  then have eq: "h \<lparr> prs := prs h, usr := usr h, marks := (marks h)(kd := None) \<rparr> = h" by simp
  have "holds U Q (k h)" using assms(5)[of "prs h" "usr h"] by (simp only: eq simp_thms)
  with assms(1) None show ?thesis by (simp add: CALLBACK_DATA_ER_def)
next
  case (Some m)
  note m = this
  show ?thesis
  proof (cases "data_cb st kd")
    case None
    have eq: "h \<lparr> prs := prs h, usr := usr h, marks := (marks h)(kd := None) \<rparr>
        = h \<lparr> marks := (marks h)(kd := None) \<rparr>" by simp
    have "holds U Q (k (h \<lparr> marks := (marks h)(kd := None) \<rparr>))"
      using assms(5)[of "prs h" "usr h"] by (simp only: eq simp_thms)
    with assms(1) None m show ?thesis by (simp add: CALLBACK_DATA_ER_def)
  next
    case (Some f)
    let ?ps = "(prs h) \<lparr> hp_state := p_state h \<rparr>"
    have f: "holds U Q (cbind (f ?ps s (usr h)) (\<lambda>(rc, u).
        if rc \<noteq> 0 then Inr (Ret (SET_ERRNO (data_errno kd) (nread h) ?ps) u er)
        else k (h \<lparr> prs := ?ps, usr := u, marks := (marks h)(kd := None) \<rparr>)))" for s
      using assms(2)[OF Some, of ?ps s] assms(4)[of ?ps] assms(5)[of ?ps]
      by (cases "f ?ps s (usr h)") auto
    show ?thesis using assms(1) assms(3)[OF m] f Some m
      by (auto simp: CALLBACK_DATA_ER_def Let_def buf_slice_def)
  qed
qed

lemmas case_defs = case_start_def case_res_or_resp_H_def case_start_res_def expect_def version_digit_def
  case_status_code_def case_status_def case_start_req_def
  case_spaces_before_url_def case_schema_def case_url_def case_http_start_def case_http_end_def
  case_header_field_start_def case_discard_ws_def
  case_value_lws_def case_discard_lws_def case_headers_done_def
  case_body_identity_def case_body_identity_eof_def case_message_done_def
  case_chunk_size_start_def case_chunk_size_def case_chunk_parameters_def
  case_chunk_size_almost_done_def case_chunk_data_def case_chunk_data_almost_done_def
  case_chunk_data_done_def url_byte_def

lemma MARK_simps [simp]:
  "prs (MARK kd h) = prs h" "p_state (MARK kd h) = p_state h" "nread (MARK kd h) = nread h"
  "pos (MARK kd h) = pos h" "usr (MARK kd h) = usr h"
  by (simp_all add: MARK_def split: option.splits)

lemma set_flag_simps [simp]:
  "p_state (set_flag f h) = p_state h" "nread (set_flag f h) = nread h" "pos (set_flag f h) = pos h"
  "usr (set_flag f h) = usr h" "marks (set_flag f h) = marks h"
  "prs (set_flag f h) = (prs h) \<lparr> hp_flags := hp_flags (prs h) OR f \<rparr>"
  by (simp_all add: set_flag_def)

lemma general_hx_simps [simp]:
  "p_state (new_message h) = NEW_MESSAGE (prs h)" "pos (new_message h) = pos h"
  "prs (new_message h) = prs h" "nread (new_message h) = nread h" "marks (new_message h) = marks h"
  "usr (new_message h) = usr h"
  "pos (message_start h) = pos h" "p_state (message_start h) = p_state h"
  "nread (message_start h) = nread h" "marks (message_start h) = marks h" "usr (message_start h) = usr h"
  "prs (message_start h) = (prs h) \<lparr> hp_flags := 0, hp_length := ULLONG_MAX \<rparr>"
  by (simp_all add: new_message_def message_start_def)


lemma value_loop_bounds:
  "value_loop data p h ps = Inr (stop, q, h', ps') \<Longrightarrow> p \<le> length data \<Longrightarrow> p \<le> q \<and> q \<le> length data"
proof (induction "length data - p" arbitrary: p h ps rule: less_induct)
  case less
  let ?ch = "data ! p"
  consider (fin) "p = length data" | (stop) "p < length data" "?ch = CR \<or> ?ch = LF \<or> (\<not> lenient ps \<and> \<not> IS_HEADER_CHAR ?ch)"
    | (go) "p < length data" "?ch \<noteq> CR" "?ch \<noteq> LF" "lenient ps \<or> IS_HEADER_CHAR ?ch"
    using less.prems(2) le_neq_implies_less by blast
  then show ?case
  proof cases
    case go
    show ?thesis
    proof (cases "h = h_general")
      case True
      from general_skip_bounds[OF go(1-3)] obtain r where g: "general_skip data (lenient ps) p = Inr r"
        and b: "case r of Inl q \<Rightarrow> p \<le> q \<and> q < length data | Inr q \<Rightarrow> p \<le> q \<and> q < length data" by blast
      show ?thesis
      proof (cases r)
        case (Inl x)
        with less.prems(1) go g True b show ?thesis by (simp add: value_loop_general)
      next
        case (Inr x)
        with less.prems(1) go g True have "value_loop data (x + 1) h ps = Inr (stop, q, h', ps')"
          by (simp add: value_loop_general)
        moreover have x: "p \<le> x" "x < length data" using b Inr by simp_all
        then have "length data - (x + 1) < length data - p" "x + 1 \<le> length data" by simp_all
        ultimately have "x + 1 \<le> q \<and> q \<le> length data" using less.hyps[of "x + 1" h ps] by blast
        with x(1) show ?thesis by simp
      qed
    next
      case False
      from less.prems(1) value_loop_step[OF go False] obtain e h1 ps1 where
        r: "(case e of Some e \<Rightarrow> Inr (VErr e True, p, h1, ps1) | None \<Rightarrow> value_loop data (p + 1) h1 ps1)
           = Inr (stop, q, h', ps')"
        by (auto simp: cbind_Inr_iff)
      show ?thesis
      proof (cases e)
        case None
        with r have "value_loop data (p + 1) h1 ps1 = Inr (stop, q, h', ps')" by simp
        moreover have "length data - (p + 1) < length data - p" "p + 1 \<le> length data" using go(1) by simp_all
        ultimately have "p + 1 \<le> q \<and> q \<le> length data" using less.hyps[of "p + 1" h1 ps1] by blast
        then show ?thesis by simp
      next
        case (Some x)
        with r go(1) show ?thesis by simp
      qed
    qed
  qed (use less.prems value_loop_stop in auto)
qed

lemma take_body_pos:
  assumes "pos h < length data" "hp_length (prs h) \<noteq> 0"
  shows "pos h \<le> pos (take_body data h)" "pos (take_body data h) < length data"
  using assms unat_gt_0[of "hp_length (prs h)"] by (auto simp: take_body_def Let_def min_def)


lemma holds_assert: "(b \<Longrightarrow> holds U Q r) \<Longrightarrow> (\<not> b \<Longrightarrow> U AssertFailure) \<Longrightarrow> holds U Q (assert_that b r)"
  by (simp add: assert_that_def)

lemma holds_if: "(b \<Longrightarrow> holds U Q r) \<Longrightarrow> (\<not> b \<Longrightarrow> holds U Q s) \<Longrightarrow> holds U Q (if b then r else s)"
  by simp

lemma holds_Inr: "Q a \<Longrightarrow> holds U Q (Inr a)"
  by simp

lemma take_body_p_state [simp]: "p_state (take_body data h) = p_state h"
  by (simp add: take_body_def Let_def)

lemmas holds_intros = holds_assert holds_if holds_notify holds_data holds_err holds_count holds_Inr

lemma progress_simps [simp]:
  "progress data h (Error h') = True" "progress data h (Ret ps u n) = True"
  "progress data h (Brk h') = (pos h \<le> pos h')"
  "progress data h (Again h') = (pos h \<le> pos h' \<and> rank (p_state h') < rank (p_state h))"
  by (simp_all add: progress_def)

lemma holds_True [simp]: "holds (\<lambda>_. True) (\<lambda>_. True) r"
  by (simp add: holds_def split: sum.splits)

lemma header_field_progress:
  assumes "pos h < length data"
  shows "holds (\<lambda>_. True) (progress data h) (case_header_field st data h)"
proof (cases "field_loop data (pos h) (prs h)")
  case (Inr r)
  obtain q ps where r: "r = (q, ps)" by force
  have "pos h \<le> q" "q \<le> length data" using field_loop_bounds Inr r assms by (meson less_imp_le)+
  then show ?thesis using assms unfolding case_header_field_def Inr r
    by (simp add: Let_def) (intro conjI impI holds_intros holds_rd; simp)
qed (simp add: case_header_field_def)

lemma header_value_progress:
  assumes "pos h < length data" "p_state h = s_header_value"
  shows "holds (\<lambda>_. True) (progress data h) (case_header_value st data h)"
proof (cases "value_loop data (pos h) (header_state (prs h)) (prs h)")
  case (Inr r)
  obtain stop q hs ps where r: "r = (stop, q, hs, ps)" by (cases r) auto
  have "pos h \<le> q \<and> q \<le> length data" using value_loop_bounds Inr r assms(1) by fastforce
  then show ?thesis using assms unfolding case_header_value_def Inr r
    by (cases stop) (simp_all add: Let_def, (intro holds_intros impI conjI; simp add: rank_def)+)
qed (simp add: case_header_value_def)

lemma value_first_progress: "holds (\<lambda>_. True) (progress data h) (value_first ch h)"
  by (cases "header_state (prs h)") (auto simp: value_first_def Let_def intro!: holds_intros)

lemma req_method_progress: "holds (\<lambda>_. True) (progress data h) (case_req_method ch h)"
  by (cases "method_char (hp_method (prs h)) (hp_index (prs h))")
    (auto simp: case_req_method_def intro!: holds_intros split: option.splits)

lemma headers_almost_done_progress:
  "p_state h = s_headers_almost_done \<Longrightarrow> holds (\<lambda>_. True) (progress data h) (case_headers_almost_done st ch h)"
  by (auto simp: case_headers_almost_done_def Let_def RETURN_def rank_def intro!: holds_intros holds_cbind
      split: option.splits prod.splits)

lemma switch_at:
  assumes "pos h < length data"
  shows
    "p_state h = s_dead \<Longrightarrow> switch st data h = (if (data ! pos h) = CR \<or> (data ! pos h) = LF then Inr (Brk h) else err HPE_CLOSED_CONNECTION h)"
    "p_state h = s_start_req_or_res \<Longrightarrow> switch st data h = case_start st (data ! pos h) h"
    "p_state h = s_res_or_resp_H \<Longrightarrow> switch st data h = case_res_or_resp_H (data ! pos h) h"
    "p_state h = s_start_res \<Longrightarrow> switch st data h = case_start_res st (data ! pos h) h"
    "p_state h = s_res_H \<Longrightarrow> switch st data h = expect (data ! pos h) (CHR ''T'') s_res_HT h"
    "p_state h = s_res_HT \<Longrightarrow> switch st data h = expect (data ! pos h) (CHR ''T'') s_res_HTT h"
    "p_state h = s_res_HTT \<Longrightarrow> switch st data h = expect (data ! pos h) (CHR ''P'') s_res_HTTP h"
    "p_state h = s_res_HTTP \<Longrightarrow> switch st data h = expect (data ! pos h) (CHR ''/'') s_res_http_major h"
    "p_state h = s_res_http_major \<Longrightarrow> switch st data h = version_digit (data ! pos h) set_major s_res_http_dot h"
    "p_state h = s_res_http_dot \<Longrightarrow> switch st data h = (if (data ! pos h) \<noteq> CHR ''.'' then err HPE_INVALID_VERSION h else brk s_res_http_minor h)"
    "p_state h = s_res_http_minor \<Longrightarrow> switch st data h = version_digit (data ! pos h) set_minor s_res_http_end h"
    "p_state h = s_res_http_end \<Longrightarrow> switch st data h = (if (data ! pos h) \<noteq> CHR '' '' then err HPE_INVALID_VERSION h else brk s_res_first_status_code h)"
    "p_state h = s_res_first_status_code \<Longrightarrow> switch st data h = (if \<not> IS_NUM (data ! pos h) then (if (data ! pos h) = CHR '' '' then Inr (Brk h) else err HPE_INVALID_STATUS h) else brk s_res_status_code (h \<lparr> prs := (prs h) \<lparr> hp_status := byte_of (data ! pos h) - 48 \<rparr> \<rparr>))"
    "p_state h = s_res_status_code \<Longrightarrow> switch st data h = case_status_code (data ! pos h) h"
    "p_state h = s_res_status_start \<Longrightarrow> switch st data h = (let h = (MARK K_status h) \<lparr> p_state := s_res_status \<rparr>; h = h \<lparr> prs := (prs h) \<lparr> hp_index := 0 \<rparr> \<rparr> in if (data ! pos h) = CR \<or> (data ! pos h) = LF then Inr (Again h) else Inr (Brk h))"
    "p_state h = s_res_status \<Longrightarrow> switch st data h = case_status st data (data ! pos h) h"
    "p_state h = s_res_line_almost_done \<Longrightarrow> switch st data h = expect (data ! pos h) LF s_header_field_start h"
    "p_state h = s_start_req \<Longrightarrow> switch st data h = case_start_req st (data ! pos h) h"
    "p_state h = s_req_method \<Longrightarrow> switch st data h = case_req_method (data ! pos h) h"
    "p_state h = s_req_spaces_before_url \<Longrightarrow> switch st data h = case_spaces_before_url (data ! pos h) h"
    "p_state h = s_req_schema \<Longrightarrow> switch st data h = case_schema (data ! pos h) h"
    "p_state h = s_req_schema_slash \<Longrightarrow> switch st data h = case_schema (data ! pos h) h"
    "p_state h = s_req_schema_slash_slash \<Longrightarrow> switch st data h = case_schema (data ! pos h) h"
    "p_state h = s_req_server_start \<Longrightarrow> switch st data h = case_schema (data ! pos h) h"
    "p_state h = s_req_server \<Longrightarrow> switch st data h = case_url st data (data ! pos h) h"
    "p_state h = s_req_server_with_at \<Longrightarrow> switch st data h = case_url st data (data ! pos h) h"
    "p_state h = s_req_path \<Longrightarrow> switch st data h = case_url st data (data ! pos h) h"
    "p_state h = s_req_query_string_start \<Longrightarrow> switch st data h = case_url st data (data ! pos h) h"
    "p_state h = s_req_query_string \<Longrightarrow> switch st data h = case_url st data (data ! pos h) h"
    "p_state h = s_req_fragment_start \<Longrightarrow> switch st data h = case_url st data (data ! pos h) h"
    "p_state h = s_req_fragment \<Longrightarrow> switch st data h = case_url st data (data ! pos h) h"
    "p_state h = s_req_http_start \<Longrightarrow> switch st data h = case_http_start (data ! pos h) h"
    "p_state h = s_req_http_H \<Longrightarrow> switch st data h = expect (data ! pos h) (CHR ''T'') s_req_http_HT h"
    "p_state h = s_req_http_HT \<Longrightarrow> switch st data h = expect (data ! pos h) (CHR ''T'') s_req_http_HTT h"
    "p_state h = s_req_http_HTT \<Longrightarrow> switch st data h = expect (data ! pos h) (CHR ''P'') s_req_http_HTTP h"
    "p_state h = s_req_http_I \<Longrightarrow> switch st data h = expect (data ! pos h) (CHR ''C'') s_req_http_IC h"
    "p_state h = s_req_http_IC \<Longrightarrow> switch st data h = expect (data ! pos h) (CHR ''E'') s_req_http_HTTP h"
    "p_state h = s_req_http_HTTP \<Longrightarrow> switch st data h = expect (data ! pos h) (CHR ''/'') s_req_http_major h"
    "p_state h = s_req_http_major \<Longrightarrow> switch st data h = version_digit (data ! pos h) set_major s_req_http_dot h"
    "p_state h = s_req_http_dot \<Longrightarrow> switch st data h = (if (data ! pos h) \<noteq> CHR ''.'' then err HPE_INVALID_VERSION h else brk s_req_http_minor h)"
    "p_state h = s_req_http_minor \<Longrightarrow> switch st data h = version_digit (data ! pos h) set_minor s_req_http_end h"
    "p_state h = s_req_http_end \<Longrightarrow> switch st data h = case_http_end (data ! pos h) h"
    "p_state h = s_req_line_almost_done \<Longrightarrow> switch st data h = (if (data ! pos h) \<noteq> LF then err HPE_LF_EXPECTED h else brk s_header_field_start h)"
    "p_state h = s_header_field_start \<Longrightarrow> switch st data h = case_header_field_start (data ! pos h) h"
    "p_state h = s_header_field \<Longrightarrow> switch st data h = case_header_field st data h"
    "p_state h = s_header_value_discard_ws \<Longrightarrow> switch st data h = case_discard_ws (data ! pos h) h"
    "p_state h = s_header_value_start \<Longrightarrow> switch st data h = value_first (data ! pos h) h"
    "p_state h = s_header_value \<Longrightarrow> switch st data h = case_header_value st data h"
    "p_state h = s_header_almost_done \<Longrightarrow> switch st data h = (if (data ! pos h) \<noteq> LF then err HPE_LF_EXPECTED h else brk s_header_value_lws h)"
    "p_state h = s_header_value_lws \<Longrightarrow> switch st data h = case_value_lws (data ! pos h) h"
    "p_state h = s_header_value_discard_ws_almost_done \<Longrightarrow> switch st data h = expect (data ! pos h) LF s_header_value_discard_lws h"
    "p_state h = s_header_value_discard_lws \<Longrightarrow> switch st data h = case_discard_lws st data (data ! pos h) h"
    "p_state h = s_headers_almost_done \<Longrightarrow> switch st data h = case_headers_almost_done st (data ! pos h) h"
    "p_state h = s_headers_done \<Longrightarrow> switch st data h = case_headers_done st (data ! pos h) h"
    "p_state h = s_body_identity \<Longrightarrow> switch st data h = case_body_identity st data h"
    "p_state h = s_body_identity_eof \<Longrightarrow> switch st data h = case_body_identity_eof data h"
    "p_state h = s_message_done \<Longrightarrow> switch st data h = case_message_done st h"
    "p_state h = s_chunk_size_start \<Longrightarrow> switch st data h = case_chunk_size_start (data ! pos h) h"
    "p_state h = s_chunk_size \<Longrightarrow> switch st data h = case_chunk_size (data ! pos h) h"
    "p_state h = s_chunk_parameters \<Longrightarrow> switch st data h = case_chunk_parameters (data ! pos h) h"
    "p_state h = s_chunk_size_almost_done \<Longrightarrow> switch st data h = case_chunk_size_almost_done st (data ! pos h) h"
    "p_state h = s_chunk_data \<Longrightarrow> switch st data h = case_chunk_data data h"
    "p_state h = s_chunk_data_almost_done \<Longrightarrow> switch st data h = case_chunk_data_almost_done st data (data ! pos h) h"
    "p_state h = s_chunk_data_done \<Longrightarrow> switch st data h = case_chunk_data_done st (data ! pos h) h"
  using assms by (simp_all add: switch_def rd_def)

lemma progress_cases:
  "holds (\<lambda>_. True) (progress data h) (case_res_or_resp_H ch h)"
  "holds (\<lambda>_. True) (progress data h) (expect ch c s h)"
  "holds (\<lambda>_. True) (progress data h) (version_digit ch upd s h)"
  "holds (\<lambda>_. True) (progress data h) (case_start_res st ch h)"
  "holds (\<lambda>_. True) (progress data h) (case_status st data ch h)"
  "holds (\<lambda>_. True) (progress data h) (case_start_req st ch h)"
  "holds (\<lambda>_. True) (progress data h) (url_byte ch h)"
  "holds (\<lambda>_. True) (progress data h) (case_schema ch h)"
  "holds (\<lambda>_. True) (progress data h) (case_url st data ch h)"
  "holds (\<lambda>_. True) (progress data h) (case_http_start ch h)"
  "holds (\<lambda>_. True) (progress data h) (case_http_end ch h)"
  by (auto simp: case_defs Let_def intro!: holds_intros split: option.splits)

lemma progress_cases2:
  "p_state h = s_start_req_or_res \<Longrightarrow> holds (\<lambda>_. True) (progress data h) (case_start st ch h)"
  "p_state h = s_res_status_code \<Longrightarrow> holds (\<lambda>_. True) (progress data h) (case_status_code ch h)"
  "p_state h = s_header_field_start \<Longrightarrow> holds (\<lambda>_. True) (progress data h) (case_header_field_start ch h)"
  "p_state h = s_header_value_lws \<Longrightarrow> holds (\<lambda>_. True) (progress data h) (case_value_lws ch h)"
  "p_state h = s_header_value_discard_lws \<Longrightarrow> holds (\<lambda>_. True) (progress data h) (case_discard_lws st data ch h)"
  by (auto simp: case_defs Let_def rank_def intro!: holds_intros split: option.splits)

lemma progress_cases3:
  "holds (\<lambda>_. True) (progress data h) (case_spaces_before_url ch h)"
  "holds (\<lambda>_. True) (progress data h) (case_discard_ws ch h)"
  "holds (\<lambda>_. True) (progress data h) (case_headers_done st ch h)"
  "holds (\<lambda>_. True) (progress data h) (case_message_done st h)"
  "holds (\<lambda>_. True) (progress data h) (case_chunk_size_start ch h)"
  "holds (\<lambda>_. True) (progress data h) (case_chunk_size ch h)"
  "holds (\<lambda>_. True) (progress data h) (case_chunk_parameters ch h)"
  "holds (\<lambda>_. True) (progress data h) (case_chunk_size_almost_done st ch h)"
  "holds (\<lambda>_. True) (progress data h) (case_chunk_data_almost_done st data ch h)"
  "holds (\<lambda>_. True) (progress data h) (case_chunk_data_done st ch h)"
  by (auto simp: case_defs Let_def RETURN_def value_first_progress intro!: holds_intros split: option.splits)

lemma body_progress:
  assumes "pos h < length data"
  shows "p_state h = s_body_identity \<Longrightarrow> holds (\<lambda>_. True) (progress data h) (case_body_identity st data h)"
    and "holds (\<lambda>_. True) (progress data h) (case_body_identity_eof data h)"
    and "holds (\<lambda>_. True) (progress data h) (case_chunk_data data h)"
  using assms take_body_pos[OF assms]
  by (auto simp: case_defs Let_def rank_def intro!: holds_intros)

lemma switch_progress: "holds (\<lambda>_. True) (progress data h) (switch st data h)"
proof (cases "pos h < length data")
  case True
  show ?thesis
    by (cases "p_state h") (simp_all add: switch_at[OF True] progress_cases progress_cases2 progress_cases3
        body_progress[OF True] header_field_progress[OF True] header_value_progress[OF True]
        headers_almost_done_progress value_first_progress req_method_progress err_def rank_def Let_def)
qed (simp add: switch_def rd_def)


section \<open>The function\<close>

text \<open>
  One round: the switch, then after a \<open>break\<close> the increment of \<open>p\<close> and either the head of the
  next iteration or the code after the loop.
\<close>

definition loop_round :: "'u http_parser_settings \<Rightarrow> string \<Rightarrow> 'u hx \<Rightarrow> 'u outcome cres" where
  "loop_round st data h = cbind (switch st data h) (\<lambda>r. case r of
       Brk h' \<Rightarrow> (let h' = h' \<lparr> pos := pos h' + 1 \<rparr>
                   in if pos h' = length data then run_leftover st data h' else loop_head h')
     | _ \<Rightarrow> Inr r)"

definition rounds_left :: "string \<Rightarrow> 'u hx \<Rightarrow> nat" where
  "rounds_left data h = 5 * (length data - pos h) + rank (p_state h)"

lemma run_leftover_no_loop: "run_leftover st data h \<noteq> Inr (Again h')"
proof -
  have "holds (\<lambda>_. True) (\<lambda>r. r \<noteq> Again h') (run_leftover st data h)"
    unfolding run_leftover_def by (intro holds_intros) (simp_all add: RETURN_def)
  then show ?thesis by (auto simp: holds_def)
qed

lemma loop_head_Again: "loop_head h = Inr (Again h') \<Longrightarrow> pos h' = pos h \<and> p_state h' = p_state h"
  by (auto simp: loop_head_def COUNT_HEADER_SIZE_def err_def Let_def split: if_splits)

lemma rank_le: "rank s \<le> 4"
  by (simp add: rank_def split: pstate.splits)

lemma loop_round_decreases:
  assumes "loop_round st data h = Inr (Again h')"
  shows "rounds_left data h' < rounds_left data h"
proof -
  have in_data: "pos h < length data"
    using assms by (rule contrapos_pp) (simp add: loop_round_def switch_def rd_def)
  from assms obtain r where r: "switch st data h = Inr r"
    and n: "(case r of Brk h' \<Rightarrow> (let h' = h' \<lparr> pos := pos h' + 1 \<rparr>
               in if pos h' = length data then run_leftover st data h' else loop_head h')
             | _ \<Rightarrow> Inr r) = Inr (Again h')"
    by (auto simp: loop_round_def cbind_Inr_iff)
  from switch_progress[of data h st] r have p: "progress data h r" by simp
  show ?thesis
  proof (cases r)
    case (Brk h1)
    with n run_leftover_no_loop have "loop_head (h1 \<lparr> pos := pos h1 + 1 \<rparr>) = Inr (Again h')"
      by (auto simp: Let_def split: if_splits)
    from loop_head_Again[OF this] have "pos h' = pos h1 + 1" by simp
    with p Brk have "pos h < pos h'" by simp
    then have "5 * (length data - pos h') + 5 \<le> 5 * (length data - pos h)" using in_data by simp
    then show ?thesis using rank_le[of "p_state h'"] by (simp add: rounds_left_def)
  next
    case (Again h1)
    with n p have le: "pos h \<le> pos h'" and rk: "rank (p_state h') < rank (p_state h)" by auto
    from le have "5 * (length data - pos h') \<le> 5 * (length data - pos h)" by simp
    with rk show ?thesis by (simp add: rounds_left_def)
  qed (use n in auto)
qed

function exec_loop :: "'u http_parser_settings \<Rightarrow> string \<Rightarrow> 'u hx \<Rightarrow> 'u outcome cres" where
  "exec_loop st data h = cbind (loop_round st data h) (\<lambda>r. case r of
       Again h' \<Rightarrow> exec_loop st data h'
     | Error h' \<Rightarrow> Inr (at_error h')
     | _ \<Rightarrow> Inr r)"
  by pat_completeness auto
termination
  by (relation "measure (\<lambda>(st, data, h). rounds_left data h)") (auto simp: loop_round_decreases)

declare exec_loop.simps [simp del]

text \<open>The marks a parser in the middle of a field starts with.\<close>

definition url_states :: "pstate list" where
  "url_states = [s_req_path, s_req_schema, s_req_schema_slash, s_req_schema_slash_slash,
     s_req_server_start, s_req_server, s_req_server_with_at, s_req_query_string_start,
     s_req_query_string, s_req_fragment_start, s_req_fragment]"

definition initial_marks :: "pstate \<Rightarrow> data_kind \<Rightarrow> nat option" where
  "initial_marks s kd = (case kd of
       K_header_field \<Rightarrow> if s = s_header_field then Some 0 else None
     | K_header_value \<Rightarrow> if s = s_header_value then Some 0 else None
     | K_url \<Rightarrow> if s \<in> set url_states then Some 0 else None
     | K_status \<Rightarrow> if s = s_res_status then Some 0 else None
     | K_body \<Rightarrow> None)"

definition exec_start :: "http_parser \<Rightarrow> 'u \<Rightarrow> 'u hx" where
  "exec_start ps u = \<lparr> prs = ps, p_state = hp_state ps, nread = hp_nread ps,
     marks = initial_marks (hp_state ps), pos = 0, usr = u \<rparr>"

text \<open>The call with no bytes, which announces the end of the stream.\<close>

definition execute_eof :: "'u http_parser_settings \<Rightarrow> http_parser \<Rightarrow> 'u \<Rightarrow> 'u outcome cres" where
  "execute_eof st ps u = (case hp_state ps of
       s_body_identity_eof \<Rightarrow>
         CALLBACK_NOTIFY_ER (on_message_complete st) HPE_CB_message_complete 0 (exec_start ps u)
           (\<lambda>h. Inr (Ret (prs h) (usr h) 0))
     | s_dead \<Rightarrow> Inr (Ret ps u 0)
     | s_start_req_or_res \<Rightarrow> Inr (Ret ps u 0)
     | s_start_res \<Rightarrow> Inr (Ret ps u 0)
     | s_start_req \<Rightarrow> Inr (Ret ps u 0)
     | _ \<Rightarrow> Inr (Ret (SET_ERRNO HPE_INVALID_EOF_STATE (hp_nread ps) ps) u 1))"

definition http_parser_execute ::
  "'u http_parser_settings \<Rightarrow> string \<Rightarrow> http_parser \<Rightarrow> 'u \<Rightarrow> 'u outcome cres" where
  "http_parser_execute st data ps u =
     (if http_errno ps \<noteq> HPE_OK then Inr (Ret ps u 0)
      else if data = [] then execute_eof st ps u
      else cbind (loop_head (exec_start ps u)) (\<lambda>r. case r of
             Again h \<Rightarrow> exec_loop st data h
           | Error h \<Rightarrow> Inr (at_error h)
           | _ \<Rightarrow> Inr r))"

end
