(* ===== verification/HttpSafety.thy ===== *)
theory HttpSafety
  imports HttpExecute
begin

text \<open>
  What holds of an \<open>http_parser\<close> between two calls of \<open>http_parser_execute\<close>, whatever the
  bytes: the invariant behind the assertions of the function, that every pass through the
  switch keeps it, and that no assertion fails and no byte outside the buffer is read.
\<close>

section \<open>The invariant\<close>

definition chunk_states :: "pstate list" where
  "chunk_states = [s_chunk_size_start, s_chunk_size, s_chunk_parameters, s_chunk_size_almost_done,
     s_chunk_data, s_chunk_data_almost_done, s_chunk_data_done]"

definition field_states :: "header_state list" where
  "field_states = [h_general, h_C, h_CO, h_CON, h_matching_connection, h_matching_proxy_connection,
     h_matching_content_length, h_matching_transfer_encoding, h_matching_upgrade, h_connection,
     h_content_length, h_transfer_encoding, h_upgrade]"

text \<open>The index is within the name of the method.\<close>

definition method_ok :: "int \<Rightarrow> nat \<Rightarrow> bool" where
  "method_ok m i = (case map_of http_method_map m of None \<Rightarrow> False | Some s \<Rightarrow> i \<le> length s)"

text \<open>What each state relies on.\<close>

definition state_ok :: "pstate \<Rightarrow> http_parser \<Rightarrow> bool" where
  "state_ok s ps =
     ((s = s_req_method \<longrightarrow> method_ok (hp_method ps) (hp_index ps)) \<and>
      (s \<in> set chunk_states \<longrightarrow> has (hp_flags ps) F_CHUNKED) \<and>
      (s \<in> {s_body_identity, s_chunk_data} \<longrightarrow> hp_length ps \<noteq> 0 \<and> hp_length ps \<noteq> ULLONG_MAX) \<and>
      (s \<in> {s_chunk_size, s_chunk_parameters, s_chunk_size_almost_done} \<longrightarrow> hp_length ps \<noteq> ULLONG_MAX) \<and>
      (s = s_chunk_data_almost_done \<longrightarrow> hp_length ps = 0) \<and>
      (s = s_header_field \<longrightarrow> header_state ps \<in> set field_states) \<and>
      (s = s_header_value \<longrightarrow> header_state ps \<notin> {h_connection, h_transfer_encoding}))"

text \<open>The one mark a state may have set.\<close>

definition marks_ok :: "(data_kind \<Rightarrow> nat option) \<Rightarrow> pstate \<Rightarrow> bool" where
  "marks_ok m s =
     ((m K_header_field \<noteq> None \<longrightarrow> s = s_header_field) \<and>
      (m K_header_value \<noteq> None \<longrightarrow> s = s_header_value) \<and>
      (m K_url \<noteq> None \<longrightarrow> s \<in> set url_states) \<and>
      (m K_status \<noteq> None \<longrightarrow> s = s_res_status) \<and>
      (m K_body \<noteq> None \<longrightarrow> s \<in> {s_body_identity, s_body_identity_eof, s_chunk_data, s_chunk_data_almost_done}))"

text \<open>A mark points to a byte that has been passed, or the one at hand.\<close>

definition marks_below :: "(data_kind \<Rightarrow> nat option) \<Rightarrow> nat \<Rightarrow> bool" where
  "marks_below m p = (\<forall>kd k. m kd = Some k \<longrightarrow> k \<le> p)"

text \<open>\<open>k\<close> is what \<open>nread\<close> is at the start of a chunk size: 1 at \<open>reexecute\<close>, 0 before it is counted.\<close>

definition hx_inv :: "int \<Rightarrow> string \<Rightarrow> 'u hx \<Rightarrow> bool" where
  "hx_inv k data h = (http_errno (prs h) = HPE_OK \<and> state_ok (p_state h) (prs h)
     \<and> (p_state h = s_chunk_size_start \<longrightarrow> nread h = k) \<and> marks_ok (marks h) (p_state h)
     \<and> marks_below (marks h) (pos h) \<and> pos h < length data)"

definition parser_ok :: "http_parser \<Rightarrow> bool" where
  "parser_ok ps = (http_errno ps \<noteq> HPE_OK \<or>
     (state_ok (hp_state ps) ps \<and> (hp_state ps = s_chunk_size_start \<longrightarrow> hp_nread ps = 0)))"

definition safe :: "string \<Rightarrow> 'u outcome \<Rightarrow> bool" where
  "safe data r = (case r of
       Brk h \<Rightarrow> hx_inv 0 data h
     | Again h \<Rightarrow> hx_inv 1 data h
     | Error h \<Rightarrow> http_errno (prs h) \<noteq> HPE_OK \<and> pos h \<le> length data
     | Ret ps u n \<Rightarrow> parser_ok ps \<and> n \<le> length data)"

lemma safe_simps [simp]:
  "safe data (Brk h) = hx_inv 0 data h" "safe data (Again h) = hx_inv 1 data h"
  "safe data (Error h) = (http_errno (prs h) \<noteq> HPE_OK \<and> pos h \<le> length data)"
  "safe data (Ret ps u n) = (parser_ok ps \<and> n \<le> length data)"
  by (simp_all add: safe_def)

lemma parser_ok_init: "parser_ok (http_parser_init t)"
  by (cases t) (simp_all add: parser_ok_def state_ok_def http_parser_init_def chunk_states_def)

section \<open>Facts on the parts\<close>

lemma marks_belowD: "marks_below m p \<Longrightarrow> m kd = Some k \<Longrightarrow> k \<le> p"
  by (simp add: marks_below_def)

lemma marks_below_mono: "marks_below m p \<Longrightarrow> p \<le> q \<Longrightarrow> marks_below m q"
  by (auto simp: marks_below_def intro: le_trans)

lemma marks_below_None [simp]: "marks_below m p \<Longrightarrow> marks_below (m(kd := None)) p"
  by (simp add: marks_below_def)

lemma marks_below_Some [simp]: "marks_below m p \<Longrightarrow> k \<le> p \<Longrightarrow> marks_below (m(kd := Some k)) p"
  by (simp add: marks_below_def)

lemma marks_below_empty [simp]: "\<forall>k. m k = None \<Longrightarrow> marks_below m p"
  by (simp add: marks_below_def)

lemma marks_below_MARK [simp]:
  "marks_below m p \<Longrightarrow> p \<le> q \<Longrightarrow> marks_below (m(kd \<mapsto> case m kd of None \<Rightarrow> p | Some k \<Rightarrow> k)) q"
  by (auto simp: marks_below_def intro: le_trans split: option.splits)

lemma has_or [simp]: "has (w OR v) f = (has w f \<or> has v f)"
  unfolding has_def by (simp add: bit.conj_disj_distrib2 or_eq_0_iff)

lemma parse_url_char_range: "parse_url_char s ch \<in> set (s_dead # url_states)"
  by (cases s) (simp_all add: parse_url_char_def server_char_def url_states_def)

lemma SET_ERRNO_simps [simp]: "http_errno (SET_ERRNO e n ps) = e"
  by (simp add: SET_ERRNO_def)

lemma parser_ok_err [simp]: "e \<noteq> HPE_OK \<Longrightarrow> parser_ok (SET_ERRNO e n ps)"
  by (simp add: parser_ok_def)

lemma data_errno_not_ok [simp]: "data_errno k \<noteq> HPE_OK"
  by (cases k) (simp_all add: data_errno_def)

lemma unhex_range: "unhex c = - 1 \<or> (0 \<le> unhex c \<and> unhex c < 16)"
proof (cases "byte_of c < 128")
  case True
  have all: "list_all (\<lambda>x. x = - 1 \<or> (0 \<le> x \<and> x < 16)) unhex_tab" by (simp add: unhex_tab_def list_all_iff)
  have "nat (byte_of c) < 128" by (subst nat_less_iff) (use True in simp_all)
  then have "nat (byte_of c) < length unhex_tab" by (simp add: unhex_tab_def)
  with all True show ?thesis by (simp add: unhex_def list_all_length)
qed (simp add: unhex_def)

lemma chunk_digit_not_max:
  assumes "\<not> (ULLONG_MAX - 16) div 16 < l" "unhex c \<noteq> - 1"
  shows "l * 16 + word_of_int (unhex c) \<noteq> ULLONG_MAX"
proof -
  have l: "uint l \<le> 1152921504606846974"
    using assms(1) by (simp add: ULLONG_MAX_def word_less_def uint_div)
  have u: "0 \<le> unhex c" "unhex c < 16" using unhex_range[of c] assms(2) by auto
  have w: "uint (word_of_int (unhex c) :: 64 word) = unhex c"
    using u by (simp add: uint_word_of_int)
  have "uint (l * 16 + word_of_int (unhex c)) = (uint l * 16 + unhex c) mod 2 ^ 64"
    by (simp add: uint_word_ariths take_bit_eq_mod mod_simps w)
  also have "\<dots> = uint l * 16 + unhex c" using l u by (intro mod_pos_pos_trivial) auto
  finally have "uint (l * 16 + word_of_int (unhex c)) \<le> 18446744073709551599" using l u by simp
  then show ?thesis by (auto simp: ULLONG_MAX_def)
qed

lemma take_body_length:
  assumes "hp_length (prs h) \<noteq> ULLONG_MAX"
  shows "hp_length (prs (take_body data h)) \<noteq> ULLONG_MAX"
proof -
  let ?l = "hp_length (prs h)" and ?t = "min (unat (hp_length (prs h))) (length data - pos h)"
  have l: "unat ?l < 2 ^ 64" using unsigned_less[of ?l, where ?'a = nat] by simp
  then have "?t < 2 ^ 64" by linarith
  then have t: "unat (of_nat ?t :: 64 word) = ?t"
    by (simp add: unsigned_of_nat take_bit_nat_eq_self)
  have "(of_nat ?t :: 64 word) \<le> ?l" by (simp add: word_le_nat_alt t)
  then have "unat (?l - of_nat ?t) = unat ?l - ?t" by (simp add: unat_sub t)
  moreover have "unat ?l \<noteq> unat ULLONG_MAX" using assms by (simp only: word_unat_eq_iff simp_thms)
  moreover have "unat ULLONG_MAX = 18446744073709551615" by (simp add: ULLONG_MAX_def)
  ultimately have "unat (?l - of_nat ?t) < unat ULLONG_MAX" using l by simp
  then show ?thesis by (auto simp: take_body_def Let_def)
qed


lemma take_body_simps:
  "http_errno (prs (take_body data h)) = http_errno (prs h)"
  "hp_flags (prs (take_body data h)) = hp_flags (prs h)"
  "kd \<noteq> K_body \<Longrightarrow> marks (take_body data h) kd = marks h kd"
  by (simp_all add: take_body_def Let_def MARK_def split: option.splits)

section \<open>Every pass keeps the invariant\<close>

lemmas inv_defs = hx_inv_def state_ok_def marks_ok_def chunk_states_def url_states_def

lemma holds_mono: "holds U P r \<Longrightarrow> (\<And>a. P a \<Longrightarrow> Q a) \<Longrightarrow> holds U Q r"
  by (cases r) auto

lemma marks_MARK: "marks (MARK kd h) = (marks h)(kd := Some (case marks h kd of None \<Rightarrow> pos h | Some m \<Rightarrow> m))"
  by (auto simp: MARK_def split: option.splits)

lemma NEW_MESSAGE_cases: "NEW_MESSAGE ps = s_dead \<or> NEW_MESSAGE ps = s_start_req \<or> NEW_MESSAGE ps = s_start_res"
  by (simp add: NEW_MESSAGE_def start_state_def)

locale safe_callbacks =
  fixes st :: "'u http_parser_settings" and U :: "ub \<Rightarrow> bool"
  assumes begin_ok: "on_message_begin st = Some f \<Longrightarrow> holds U (\<lambda>_. True) (f ps u)"
    and complete_ok: "on_message_complete st = Some f \<Longrightarrow> holds U (\<lambda>_. True) (f ps u)"
    and headers_ok: "on_headers_complete st = Some f \<Longrightarrow> holds U (\<lambda>_. True) (f ps u)"
    and chunk_header_ok: "on_chunk_header st = Some f \<Longrightarrow> holds U (\<lambda>_. True) (f ps u)"
    and chunk_complete_ok: "on_chunk_complete st = Some f \<Longrightarrow> holds U (\<lambda>_. True) (f ps u)"
    and data_ok: "data_cb st kd = Some g \<Longrightarrow> holds U (\<lambda>_. True) (g ps s u)"
begin

lemmas cbs_ok = begin_ok complete_ok headers_ok chunk_header_ok chunk_complete_ok data_ok

lemma first_line_safe:
  assumes "hx_inv 1 data h"
  shows "p_state h = s_start_req_or_res \<Longrightarrow> holds U (safe data) (case_start st ch h)"
    and "p_state h = s_start_res \<Longrightarrow> holds U (safe data) (case_start_res st ch h)"
    and "p_state h = s_res_or_resp_H \<Longrightarrow> holds U (safe data) (case_res_or_resp_H ch h)"
    and "p_state h = s_res_status_code \<Longrightarrow> holds U (safe data) (case_status_code ch h)"
    and "p_state h = s_res_status \<Longrightarrow> holds U (safe data) (case_status st data ch h)"
    and "p_state h = s_req_http_start \<Longrightarrow> holds U (safe data) (case_http_start ch h)"
    and "p_state h = s_req_http_end \<Longrightarrow> holds U (safe data) (case_http_end ch h)"
  using assms
  by (auto simp: case_defs inv_defs Let_def method_ok_def HTTP_HEAD_def http_method_map_def cbs_ok
      intro!: holds_intros dest: marks_belowD)

lemma start_req_safe:
  assumes "hx_inv 1 data h" "p_state h = s_start_req"
  shows "holds U (safe data) (case_start_req st ch h)"
proof -
  have m: "first_method ch = Some m \<Longrightarrow> method_ok m 1" for m
    by (simp add: first_method_def method_ok_def http_method_map_def split: if_splits)
  show ?thesis using assms m
    by (auto simp: case_start_req_def inv_defs Let_def cbs_ok split: option.split intro!: holds_intros)
qed

lemma method_switch_ok:
  "map_of method_switch (m, i, c) = Some m' \<Longrightarrow> method_ok m' (Suc i mod 128)"
  by (simp add: method_switch_def method_ok_def http_method_map_def split: if_splits; elim conjE; simp)

lemma req_method_safe:
  assumes "hx_inv 1 data h" "p_state h = s_req_method"
  shows "holds U (safe data) (case_req_method ch h)"
proof -
  let ?m = "hp_method (prs h)" and ?i = "hp_index (prs h)"
  from assms obtain s where s: "map_of http_method_map ?m = Some s" "?i \<le> length s"
    by (auto simp: hx_inv_def state_ok_def method_ok_def split: option.splits)
  have "length s < 20" using s(1) by (auto simp: http_method_map_def split: if_splits)
  then have nxt: "?i < length s \<Longrightarrow> method_ok ?m (Suc ?i mod 128)"
    using s by (simp add: method_ok_def)
  have c: "method_char ?m ?i = Inr ((s @ [NUL]) ! ?i)" using s by (simp add: method_char_def rd_def)
  have "ch \<noteq> NUL \<Longrightarrow> ch = (s @ [NUL]) ! ?i \<Longrightarrow> ?i < length s"
    using s(2) by (cases "?i = length s") auto
  with assms nxt show ?thesis unfolding case_req_method_def c
    by (auto simp: inv_defs inc_index_def method_switch_ok intro!: holds_intros split: option.split)
qed

lemma url_byte_safe:
  assumes "http_errno (prs h) = HPE_OK" "pos h < length data" "marks_ok (marks h) s_req_path"
    "marks_below (marks h) (pos h)"
  shows "holds U (safe data) (url_byte ch h)"
  using assms parse_url_char_range[of "p_state h" ch] unfolding url_byte_def Let_def
  by (intro holds_if holds_err holds_Inr) (auto simp: inv_defs)

lemma url_safe:
  assumes "hx_inv 1 data h"
  shows "p_state h = s_req_spaces_before_url \<Longrightarrow> holds U (safe data) (case_spaces_before_url ch h)"
    and "p_state h \<in> set url_states \<Longrightarrow> holds U (safe data) (case_schema ch h)"
    and "p_state h \<in> set url_states \<Longrightarrow> holds U (safe data) (case_url st data ch h)"
proof -
  assume "p_state h = s_req_spaces_before_url"
  with assms show "holds U (safe data) (case_spaces_before_url ch h)"
    unfolding case_spaces_before_url_def Let_def
    by (intro holds_if holds_Inr url_byte_safe) (auto simp: inv_defs marks_MARK)
next
  assume s: "p_state h \<in> set url_states"
  have m: "marks_ok (marks h) s_req_path" using s assms
    by (simp add: hx_inv_def marks_ok_def url_states_def) (elim disjE conjE; simp)
  have e: "http_errno (prs h) = HPE_OK" "pos h < length data" "marks_below (marks h) (pos h)"
    using assms by (simp_all add: hx_inv_def)
  show "holds U (safe data) (case_schema ch h)" unfolding case_schema_def
    by (intro holds_if holds_err url_byte_safe m e) (use e in simp_all)
  show "holds U (safe data) (case_url st data ch h)" unfolding case_url_def
    by (intro holds_if holds_data holds_Inr url_byte_safe m e)
      (use e m marks_belowD[OF e(3)] in \<open>auto simp: cbs_ok inv_defs\<close>)
qed

end

lemma field_char_states:
  assumes "header_state ps \<in> set field_states" "header_state ps \<noteq> h_general"
  shows "\<exists>ps'. field_char ch c ps = Inr ps' \<and> header_state ps' \<in> set field_states \<and> http_errno ps' = http_errno ps
    \<and> hp_flags ps' = hp_flags ps \<and> hp_length ps' = hp_length ps"
  using assms
  by (simp add: field_states_def)
    (elim disjE; simp add: field_char_def match_field_def match_word_def inc_index_def Let_def)

lemma field_loop_states:
  assumes "header_state ps \<in> set field_states" "http_errno ps = HPE_OK" "p \<le> length data"
  shows "\<exists>q ps'. field_loop data p ps = Inr (q, ps') \<and> header_state ps' \<in> set field_states \<and> http_errno ps' = HPE_OK"
  using assms
proof (induction "length data - p" arbitrary: p ps rule: less_induct)
  case less
  show ?case
  proof (cases "p < length data \<and> TOKEN (data ! p) \<noteq> NUL")
    case True
    then have p: "p < length data" "TOKEN (data ! p) \<noteq> NUL" by auto
    show ?thesis
    proof (cases "header_state ps = h_general")
      case g: True
      obtain r where r: "skip_tokens data (field_limit data p) p = Inr r" "p \<le> r" "r < length data"
        using field_skip p(1) by blast
      then have "length data - (r + 1) < length data - p" "r + 1 \<le> length data" by simp_all
      from less.hyps[OF this(1) less.prems(1,2) this(2)] show ?thesis
        by (simp only: field_loop_general[OF p g r(1)])
    next
      case False
      from field_char_states[OF less.prems(1) False, of "data ! p" "TOKEN (data ! p)"] less.prems(2)
      obtain ps' where c: "field_char (data ! p) (TOKEN (data ! p)) ps = Inr ps'"
        and n: "header_state ps' \<in> set field_states" "http_errno ps' = HPE_OK" by auto
      have "length data - (p + 1) < length data - p" "p + 1 \<le> length data" using p(1) by simp_all
      from less.hyps[OF this(1) n this(2)] show ?thesis
        by (simp only: field_loop_step[OF p False] c cbind_simps)
    qed
  next
    case False
    with less.prems field_loop_stop[of p data ps] show ?thesis by (cases "p = length data") auto
  qed
qed


abbreviation value_state :: "header_state \<Rightarrow> bool" where
  "value_state h \<equiv> h \<noteq> h_connection \<and> h \<noteq> h_transfer_encoding"

lemma value_char_states:
  assumes "value_state h"
  shows "\<exists>e h' ps'. value_char h ch ps = Inr (e, h', ps') \<and> e \<noteq> Some HPE_OK \<and> value_state h' \<and> http_errno ps' = http_errno ps"
  using assms
  by (cases h) (auto simp: value_char_def add_digit_def match_value_def match_word_def token_end_def inc_index_def Let_def)

lemma value_loop_states:
  assumes "value_state h" "http_errno ps = HPE_OK" "p \<le> length data"
  shows "\<exists>v q h' ps'. value_loop data p h ps = Inr (v, q, h', ps') \<and> value_state h' \<and> http_errno ps' = HPE_OK
    \<and> (\<forall>b. v \<noteq> VErr HPE_OK b) \<and> (v = VCR \<longrightarrow> q < length data \<and> data ! q = CR)
    \<and> (v = VLF \<longrightarrow> q < length data \<and> data ! q = LF)"
  using assms
proof (induction "length data - p" arbitrary: p h ps rule: less_induct)
  case less
  let ?ch = "data ! p"
  consider (fin) "p = length data" | (stop) "p < length data" "?ch = CR \<or> ?ch = LF \<or> (\<not> lenient ps \<and> \<not> IS_HEADER_CHAR ?ch)"
    | (go) "p < length data" "?ch \<noteq> CR" "?ch \<noteq> LF" "lenient ps \<or> IS_HEADER_CHAR ?ch"
    using less.prems(3) le_neq_implies_less by blast
  then show ?case
  proof cases
    case fin
    with less.prems show ?thesis by simp
  next
    case stop
    with less.prems value_loop_stop[OF stop, of h] show ?thesis by auto
  next
    case go
    show ?thesis
    proof (cases "h = h_general")
      case True
      from general_skip_bounds[OF go(1-3)] obtain r where g: "general_skip data (lenient ps) p = Inr r"
        and b: "case r of Inl q \<Rightarrow> p \<le> q \<and> q < length data | Inr q \<Rightarrow> p \<le> q \<and> q < length data" by blast
      show ?thesis
      proof (cases r)
        case (Inl q)
        with True g less.prems value_loop_general[OF go] show ?thesis by simp
      next
        case (Inr q)
        then have "p \<le> q" "q < length data" using b by simp_all
        then have "length data - (q + 1) < length data - p" "q + 1 \<le> length data" by simp_all
        note ih = less.hyps[OF this(1) less.prems(1,2) this(2)]
        have "value_loop data p h ps = value_loop data (q + 1) h ps"
          using True g Inr value_loop_general[OF go] by simp
        with ih show ?thesis by simp
      qed
    next
      case False
      from value_char_states[OF less.prems(1), of ?ch ps] less.prems(2)
      obtain e h1 ps1 where c: "value_char h ?ch ps = Inr (e, h1, ps1)"
        and n: "value_state h1" "http_errno ps1 = HPE_OK" and e: "e \<noteq> Some HPE_OK" by auto
      have r: "value_loop data p h ps =
        (case e of Some e \<Rightarrow> Inr (VErr e True, p, h1, ps1) | None \<Rightarrow> value_loop data (p + 1) h1 ps1)"
        using value_loop_step[OF go False] c by simp
      show ?thesis
      proof (cases e)
        case None
        have "length data - (p + 1) < length data - p" "p + 1 \<le> length data" using go(1) by simp_all
        from less.hyps[OF this(1) n this(2)] None r show ?thesis by simp
      next
        case (Some x)
        with r n e show ?thesis by auto
      qed
    qed
  qed
qed

context safe_callbacks
begin

lemma header_field_safe:
  assumes "hx_inv 1 data h" "p_state h = s_header_field"
  shows "holds U (safe data) (case_header_field st data h)"
proof -
  from assms have i: "header_state (prs h) \<in> set field_states" "http_errno (prs h) = HPE_OK" "pos h < length data"
    "marks h K_header_value = None" "marks h K_url = None" "marks h K_status = None" "marks h K_body = None"
    "marks_below (marks h) (pos h)"
    by (simp_all add: hx_inv_def state_ok_def marks_ok_def url_states_def)
  from field_loop_states[OF i(1,2), of "pos h" data] i(3) obtain q ps where
    l: "field_loop data (pos h) (prs h) = Inr (q, ps)" and n: "header_state ps \<in> set field_states" "http_errno ps = HPE_OK"
    by auto
  have b: "pos h \<le> q" "q \<le> length data"
    using field_loop_bounds[OF l] i(3) by auto
  have m: "marks_below (marks h) q" "pos h \<le> q - 1 \<Longrightarrow> marks_below (marks h) (q - 1)"
    using marks_below_mono[OF i(8)] b(1) by blast+
  show ?thesis unfolding case_header_field_def l cbind_simps prod.case Let_def
    by (intro holds_if holds_count holds_rd holds_data holds_err holds_Inr)
      (use b n i(1-7) assms(2) m marks_belowD[OF m(1)] in \<open>auto simp: inv_defs cbs_ok\<close>)
qed

lemma header_value_safe:
  assumes "hx_inv 1 data h" "p_state h = s_header_value"
  shows "holds U (safe data) (case_header_value st data h)"
proof -
  from assms have i: "value_state (header_state (prs h))" "http_errno (prs h) = HPE_OK" "pos h < length data"
    "marks h K_header_field = None" "marks h K_url = None" "marks h K_status = None" "marks h K_body = None"
    "marks_below (marks h) (pos h)"
    by (simp_all add: hx_inv_def state_ok_def marks_ok_def url_states_def)
  from value_loop_states[OF i(1,2), of "pos h" data] i(3) obtain v q hs ps where
    l: "value_loop data (pos h) (header_state (prs h)) (prs h) = Inr (v, q, hs, ps)"
    and n: "value_state hs" "http_errno ps = HPE_OK" "\<forall>b. v \<noteq> VErr HPE_OK b"
    and lt: "v = VCR \<longrightarrow> q < length data" "v = VLF \<longrightarrow> q < length data"
    by auto
  have b: "pos h \<le> q" "q \<le> length data"
    using value_loop_bounds[OF l] i(3) by auto
  have m: "marks_below (marks h) q" "pos h \<le> q - 1 \<Longrightarrow> marks_below (marks h) (q - 1)"
    using marks_below_mono[OF i(8)] b(1) by blast+
  note mD = marks_belowD[OF m(1)]
  show ?thesis
  proof (cases v)
    case (VErr e wb)
    then have "e \<noteq> HPE_OK" using n(3) by blast
    with n b VErr show ?thesis unfolding case_header_value_def l cbind_simps prod.case Let_def
      by (simp add: err_def)
  next
    case VEnd
    show ?thesis unfolding case_header_value_def l cbind_simps prod.case Let_def VEnd value_stop.case
      by (intro holds_count holds_Inr) (use b n i(1-7) assms(2) m in \<open>auto simp: inv_defs\<close>)
  next
    case VCR
    show ?thesis unfolding case_header_value_def l cbind_simps prod.case Let_def VCR value_stop.case
      by (intro holds_data holds_count holds_Inr) (use b n i(1-7) lt VCR m mD in \<open>auto simp: inv_defs cbs_ok\<close>)
  next
    case VLF
    show ?thesis unfolding case_header_value_def l cbind_simps prod.case Let_def VLF value_stop.case
      by (intro holds_count holds_data holds_Inr) (use b n i(1-7) lt VLF m mD in \<open>auto simp: inv_defs cbs_ok\<close>)
  qed
qed

lemma header_safe:
  assumes "hx_inv 1 data h"
  shows "p_state h = s_header_field_start \<Longrightarrow> holds U (safe data) (case_header_field_start ch h)"
    and "p_state h = s_header_value_lws \<Longrightarrow> holds U (safe data) (case_value_lws ch h)"
    and "p_state h = s_header_value_discard_lws \<Longrightarrow> holds U (safe data) (case_discard_lws st data ch h)"
  using assms
  by (auto simp: case_defs inv_defs Let_def cbs_ok marks_MARK first_header_state_def field_states_def intro!: holds_intros)

lemma value_first_safe:
  assumes "hx_inv 1 data h" "p_state h = s_header_value_discard_ws \<or> p_state h = s_header_value_start"
  shows "holds U (safe data) (value_first ch h)"
proof -
  from assms(2) have i: "http_errno (prs h) = HPE_OK \<and> pos h < length data \<and> marks_below (marks h) (pos h) \<and> marks h K_header_field = None
    \<and> marks h K_url = None \<and> marks h K_status = None \<and> marks h K_body = None"
    by (rule disjE) (use assms(1) in \<open>simp_all add: hx_inv_def marks_ok_def url_states_def\<close>)
  show ?thesis
    by (cases "header_state (prs h)") (simp_all add: value_first_def Let_def hx_inv_def state_ok_def
        chunk_states_def marks_ok_def marks_MARK err_def i less_imp_le)
qed

lemma discard_ws_safe:
  assumes "hx_inv 1 data h" "p_state h = s_header_value_discard_ws"
  shows "holds U (safe data) (case_discard_ws ch h)"
  using assms value_first_safe[OF assms(1), of ch]
  by (auto simp: case_discard_ws_def inv_defs intro!: holds_intros)

lemma headers_almost_done_safe:
  assumes "hx_inv 1 data h" "p_state h = s_headers_almost_done"
  shows "holds U (safe data) (case_headers_almost_done st ch h)"
proof (cases "on_headers_complete st")
  case None
  with assms show ?thesis
    by (auto simp: case_headers_almost_done_def Let_def inv_defs cbs_ok intro!: holds_intros)
next
  case (Some f)
  have f: "holds U (\<lambda>_. True) (f ps u)" for ps u by (rule headers_ok[OF Some])
  show ?thesis unfolding case_headers_almost_done_def Let_def Some option.case
    by (intro holds_if holds_err holds_notify holds_cbind holds_mono[OF f])
      (use assms in \<open>auto simp: inv_defs cbs_ok RETURN_def parser_ok_def\<close>)
qed

lemma complete_safe:
  assumes "http_errno (prs h) = HPE_OK" "pos h < length data" "\<forall>k. marks h k = None"
    "\<And>h'. pos h' = pos h \<Longrightarrow> http_errno (prs h') = HPE_OK \<Longrightarrow> \<forall>k. marks h' k = None
        \<Longrightarrow> p_state h' \<in> {s_dead, s_start_req, s_start_res} \<Longrightarrow> holds U (safe data) (k h')"
  shows "holds U (safe data) (notify_complete st (new_message h) k)"
  by (intro holds_notify assms(4))
    (use assms(1-3) NEW_MESSAGE_cases[of "prs h"] in \<open>auto simp: cbs_ok\<close>)

lemma between_messages:
  assumes "p_state h \<in> {s_dead, s_start_req, s_start_res}" "http_errno (prs h) = HPE_OK" "pos h < length data"
    "\<forall>k. marks h k = None"
  shows "safe data (Brk h)" "safe data (RETURN h (pos h + 1))"
  using assms by (auto simp: inv_defs RETURN_def parser_ok_def)

lemma complete_done:
  assumes "http_errno (prs h) = HPE_OK" "pos h < length data" "\<forall>k. marks h k = None"
  shows "holds U (safe data) (notify_complete st (new_message h) (\<lambda>h. Inr (Brk h)))"
    and "holds U (safe data) (notify_complete st (new_message h) (\<lambda>h. Inr (RETURN h (pos h + 1))))"
    and "holds U (safe data) (notify_complete st (new_message h)
           (\<lambda>h. if hp_upgrade (prs h) then Inr (RETURN h (pos h + 1)) else Inr (Brk h)))"
  using assms by (intro complete_safe holds_if holds_Inr between_messages; simp)+

lemma no_marks:
  assumes "hx_inv 1 data h" "p_state h = s_headers_done \<or> p_state h = s_message_done"
  shows "\<forall>k. marks h k = None"
proof
  fix k
  from assms(2) show "marks h k = None"
    by (rule disjE; cases k) (use assms(1) in \<open>simp_all add: hx_inv_def marks_ok_def url_states_def\<close>)
qed

lemma headers_done_safe:
  assumes "hx_inv 1 data h" "p_state h = s_headers_done"
  shows "holds U (safe data) (case_headers_done st ch h)"
proof -
  have i: "http_errno (prs h) = HPE_OK" "pos h < length data" using assms(1) by (simp_all add: hx_inv_def)
  have m: "\<forall>k. marks h k = None" using assms no_marks by blast
  show ?thesis unfolding case_headers_done_def Let_def
    by (intro holds_if holds_err complete_done holds_Inr)
      (use i m in \<open>simp_all add: hx_inv_def state_ok_def marks_ok_def chunk_states_def\<close>)
qed

lemma message_done_safe:
  assumes "hx_inv 1 data h" "p_state h = s_message_done"
  shows "holds U (safe data) (case_message_done st h)"
  unfolding case_message_done_def
  by (rule complete_done(3)) (use assms no_marks[OF assms(1)] in \<open>simp_all add: hx_inv_def\<close>)

lemma body_safe:
  assumes "hx_inv 1 data h"
  shows "p_state h = s_body_identity \<Longrightarrow> holds U (safe data) (case_body_identity st data h)"
    and "p_state h = s_body_identity_eof \<Longrightarrow> holds U (safe data) (case_body_identity_eof data h)"
    and "p_state h = s_chunk_data \<Longrightarrow> holds U (safe data) (case_chunk_data data h)"
proof -
  have e: "http_errno (prs h) = HPE_OK" "pos h < length data" "marks_below (marks h) (pos h)"
    using assms by (simp_all add: hx_inv_def)
  note tb = take_body_pos[OF e(2)]
  have mb: "marks_below (marks (take_body data h)) (pos (take_body data h))" if "hp_length (prs h) \<noteq> 0"
    using tb(1)[OF that] e(3) by (simp add: take_body_def Let_def marks_MARK)
  {
    assume s: "p_state h = s_body_identity"
    with assms have l: "hp_length (prs h) \<noteq> 0" "hp_length (prs h) \<noteq> ULLONG_MAX"
      and m: "marks h K_header_field = None" "marks h K_url = None" "marks h K_status = None" "marks h K_header_value = None"
      by (simp_all add: hx_inv_def state_ok_def marks_ok_def url_states_def)
    show "holds U (safe data) (case_body_identity st data h)"
      using l m s e(1,2) tb take_body_length[OF l(2), of data] mb[OF l(1)] unfolding case_body_identity_def Let_def
      by (intro holds_intros) (auto simp: inv_defs cbs_ok take_body_simps dest: marks_belowD)
  next
    assume s: "p_state h = s_chunk_data"
    with assms have l: "hp_length (prs h) \<noteq> 0" "hp_length (prs h) \<noteq> ULLONG_MAX" "chunked h"
      and m: "marks h K_header_field = None" "marks h K_url = None" "marks h K_status = None" "marks h K_header_value = None"
      by (simp_all add: hx_inv_def state_ok_def marks_ok_def url_states_def chunk_states_def)
    show "holds U (safe data) (case_chunk_data data h)"
      using l m s e(1,2) tb take_body_length[OF l(2), of data] mb[OF l(1)] unfolding case_chunk_data_def Let_def
      by (intro holds_intros) (simp_all add: inv_defs take_body_simps)
  next
    assume "p_state h = s_body_identity_eof"
    with assms show "holds U (safe data) (case_body_identity_eof data h)"
      unfolding case_body_identity_eof_def
      by (auto simp: inv_defs marks_MARK)
  }
qed

lemma chunk_safe:
  assumes "hx_inv 1 data h"
  shows "p_state h = s_chunk_size_start \<Longrightarrow> holds U (safe data) (case_chunk_size_start ch h)"
    and "p_state h = s_chunk_size \<Longrightarrow> holds U (safe data) (case_chunk_size ch h)"
    and "p_state h = s_chunk_parameters \<Longrightarrow> holds U (safe data) (case_chunk_parameters ch h)"
    and "p_state h = s_chunk_size_almost_done \<Longrightarrow> holds U (safe data) (case_chunk_size_almost_done st ch h)"
    and "p_state h = s_chunk_data_almost_done \<Longrightarrow> holds U (safe data) (case_chunk_data_almost_done st data ch h)"
    and "p_state h = s_chunk_data_done \<Longrightarrow> holds U (safe data) (case_chunk_data_done st ch h)"
proof -
  note i = assms[unfolded inv_defs]
  have x: "unhex ch \<noteq> - 1 \<Longrightarrow> word_of_int (unhex ch) \<noteq> ULLONG_MAX" for ch
    using chunk_digit_not_max[of 0 ch] by (simp add: ULLONG_MAX_def)
  show "p_state h = s_chunk_size_start \<Longrightarrow> holds U (safe data) (case_chunk_size_start ch h)"
    unfolding case_chunk_size_start_def by (intro holds_intros) (use i x in \<open>simp_all add: inv_defs\<close>)
  show "p_state h = s_chunk_size \<Longrightarrow> holds U (safe data) (case_chunk_size ch h)"
    unfolding case_chunk_size_def Let_def
    by (intro holds_intros) (use i chunk_digit_not_max[of "hp_length (prs h)" ch] in \<open>simp_all add: inv_defs\<close>)
  show "p_state h = s_chunk_parameters \<Longrightarrow> holds U (safe data) (case_chunk_parameters ch h)"
    unfolding case_chunk_parameters_def by (intro holds_intros) (use i in \<open>simp_all add: inv_defs\<close>)
  show "p_state h = s_chunk_size_almost_done \<Longrightarrow> holds U (safe data) (case_chunk_size_almost_done st ch h)"
    unfolding case_chunk_size_almost_done_def Let_def
    by (intro holds_intros) (use i in \<open>auto simp: inv_defs cbs_ok split: if_splits\<close>)
  show "p_state h = s_chunk_data_almost_done \<Longrightarrow> holds U (safe data) (case_chunk_data_almost_done st data ch h)"
    unfolding case_chunk_data_almost_done_def
    by (intro holds_intros) (use i in \<open>auto simp: inv_defs cbs_ok dest: marks_belowD\<close>)
  show "p_state h = s_chunk_data_done \<Longrightarrow> holds U (safe data) (case_chunk_data_done st ch h)"
    unfolding case_chunk_data_done_def Let_def
    by (intro holds_intros) (use i in \<open>auto simp: inv_defs cbs_ok\<close>)
qed

lemmas cases_safe = first_line_safe start_req_safe req_method_safe url_safe header_field_safe header_value_safe
  header_safe value_first_safe discard_ws_safe headers_almost_done_safe headers_done_safe message_done_safe
  body_safe chunk_safe

lemma switch_safe:
  assumes "hx_inv 1 data h"
  shows "holds U (safe data) (switch st data h)"
proof -
  have i: "http_errno (prs h) = HPE_OK" "pos h < length data" using assms by (simp_all add: hx_inv_def)
  note sw = switch_at[OF i(2)]
  have le: "pos h \<le> length data" using i(2) by simp
  show ?thesis
    by (cases "p_state h"; (simp add: sw cases_safe[OF assms] url_states_def; fail)?;
        use assms in \<open>simp add: sw inv_defs marks_MARK expect_def version_digit_def err_def le Let_def\<close>)
qed

lemma leftover_safe:
  assumes "http_errno (prs h) = HPE_OK" "state_ok (p_state h) (prs h)" "marks_ok (marks h) (p_state h)"
    "p_state h = s_chunk_size_start \<longrightarrow> nread h = 0" "pos h = length data" "marks_below (marks h) (pos h)"
  shows "holds U (\<lambda>r. \<exists>ps u n. r = Ret ps u n \<and> parser_ok ps \<and> n \<le> length data) (run_leftover st data h)"
proof -
  have one: "length (filter (\<lambda>k. marks h k \<noteq> None) [K_header_field, K_header_value, K_url, K_body, K_status]) \<le> 1"
    using assms(3) by (cases "p_state h") (simp_all add: marks_ok_def url_states_def)
  have so: "state_ok s (ps \<lparr> hp_state := s' \<rparr>) = state_ok s ps" "state_ok s (ps \<lparr> hp_nread := n \<rparr>) = state_ok s ps" for s s' n ps
    by (simp_all add: state_ok_def)
  show ?thesis unfolding run_leftover_def
    by (intro holds_assert holds_data holds_Inr) (use assms(1-5) one so marks_belowD[OF assms(6)] in \<open>auto simp: cbs_ok RETURN_def parser_ok_def\<close>)
qed

lemma loop_head_safe:
  assumes "hx_inv 0 data h"
  shows "holds U (safe data) (loop_head h)"
  unfolding loop_head_def
  by (intro holds_if holds_count holds_Inr) (use assms in \<open>auto simp: hx_inv_def PARSING_HEADER_def\<close>)

lemma at_error_Ret:
  assumes "http_errno (prs h) \<noteq> HPE_OK" "pos h \<le> length data"
  shows "\<exists>ps u n. at_error h = Ret ps u n \<and> parser_ok ps \<and> n \<le> length data"
  using assms by (simp add: at_error_def RETURN_def parser_ok_def)

lemma loop_round_safe:
  assumes "hx_inv 1 data h"
  shows "holds U (\<lambda>r. safe data r \<and> (\<forall>h'. r \<noteq> Brk h')) (loop_round st data h)"
  unfolding loop_round_def
proof (rule holds_cbind, rule holds_mono[OF switch_safe[OF assms]])
  fix r :: "'u outcome" assume r: "safe data r"
  show "holds U (\<lambda>r. safe data r \<and> (\<forall>h'. r \<noteq> Brk h')) (case r of
      Brk h' \<Rightarrow> (let h' = h' \<lparr> pos := pos h' + 1 \<rparr> in if pos h' = length data then run_leftover st data h' else loop_head h')
    | _ \<Rightarrow> Inr r)"
  proof (cases r)
    case (Brk h1)
    let ?h = "h1 \<lparr> pos := pos h1 + 1 \<rparr>"
    from r Brk have i: "hx_inv 0 data h1" by simp
    have "holds U (\<lambda>r. safe data r \<and> (\<forall>h'. r \<noteq> Brk h')) (run_leftover st data ?h)" if "pos ?h = length data"
      by (rule holds_mono[OF leftover_safe]) (use i that in \<open>auto simp: hx_inv_def intro: marks_below_mono\<close>)
    moreover have "holds U (\<lambda>r. safe data r \<and> (\<forall>h'. r \<noteq> Brk h')) (loop_head ?h)" if "pos ?h \<noteq> length data"
    proof -
      have "hx_inv 0 data ?h" using i that by (auto simp: hx_inv_def intro: marks_below_mono)
      from loop_head_safe[OF this] show ?thesis
        by (auto simp: loop_head_def COUNT_HEADER_SIZE_def Let_def err_def)
    qed
    ultimately show ?thesis using Brk by (simp add: Let_def)
  qed (use r in auto)
qed

abbreviation returned :: "nat \<Rightarrow> 'u outcome \<Rightarrow> bool" where
  "returned len r \<equiv> \<exists>ps u n. r = Ret ps u n \<and> parser_ok ps \<and> n \<le> len"

lemma exec_loop_safe:
  "hx_inv 1 data h \<Longrightarrow> holds U (returned (length data)) (exec_loop st data h)"
proof (induction "rounds_left data h" arbitrary: h rule: less_induct)
  case less
  show ?case
  proof (cases "loop_round st data h")
    case (Inl e)
    with loop_round_safe[OF less.prems] show ?thesis by (subst exec_loop.simps) simp
  next
    case (Inr r)
    with loop_round_safe[OF less.prems] have r: "safe data r" "\<forall>h'. r \<noteq> Brk h'" by auto
    show ?thesis
    proof (cases r)
      case (Again h')
      with r Inr less.hyps[of h'] loop_round_decreases[of st data h h']
      show ?thesis by (subst exec_loop.simps) simp
    next
      case (Error h')
      with r Inr at_error_Ret[of h' data] show ?thesis by (subst exec_loop.simps) simp
    qed (use r Inr in \<open>subst exec_loop.simps, simp\<close>)+
  qed
qed

lemma execute_safe:
  assumes "parser_ok ps"
  shows "holds U (returned (max 1 (length data))) (http_parser_execute st data ps u)"
proof (cases "http_errno ps = HPE_OK \<and> data \<noteq> []")
  case True
  have "marks_ok (initial_marks (hp_state ps)) (hp_state ps)"
    by (simp add: marks_ok_def initial_marks_def)
  moreover have "marks_below (initial_marks (hp_state ps)) 0"
    by (simp add: marks_below_def initial_marks_def split: data_kind.split)
  ultimately have i: "hx_inv 0 data (exec_start ps u)"
    using assms True by (simp add: hx_inv_def parser_ok_def exec_start_def)
  have "holds U (returned (length data)) (case r of Again h \<Rightarrow> exec_loop st data h | Error h \<Rightarrow> Inr (at_error h) | _ \<Rightarrow> Inr r)"
    if "safe data r" "\<forall>h'. r \<noteq> Brk h'" for r :: "'u outcome"
    using that exec_loop_safe at_error_Ret by (cases r) auto
  moreover have "loop_head (exec_start ps u) \<noteq> Inr (Brk h')" for h'
    by (auto simp: loop_head_def COUNT_HEADER_SIZE_def Let_def err_def)
  ultimately have "holds U (returned (length data)) (http_parser_execute st data ps u)"
    using True loop_head_safe[OF i] by (cases "loop_head (exec_start ps u)") (auto simp: http_parser_execute_def)
  then show ?thesis by (rule holds_mono) (auto simp: max_def)
next
  case False
  have so: "state_ok s (ps \<lparr> hp_state := s' \<rparr>) = state_ok s ps" for s s' by (simp add: state_ok_def)
  show ?thesis
  proof (cases "http_errno ps = HPE_OK")
    case True
    with False assms show ?thesis unfolding http_parser_execute_def execute_eof_def
      by (cases "hp_state ps") (auto simp: exec_start_def cbs_ok intro!: holds_intros simp: parser_ok_def so)
  qed (simp add: http_parser_execute_def parser_ok_def)
qed

end

end
