(* ===== verification/StdMap.thy ===== *)
theory StdMap
  imports Prelude "HOL-Library.List_Lexorder" "HOL-Library.Char_ord"
begin

text \<open>
  \<open>std::map\<close> with string keys: an association list kept sorted by the bytes of the keys, so that
  iteration visits the pairs in the order of the list. The laws of a keyed store are an interface of
  its own, which the request router satisfies too.
\<close>

section \<open>Keyed stores\<close>

locale keyed_store =
  fixes get :: "'s \<Rightarrow> 'k \<Rightarrow> 'v option" and put :: "'k \<Rightarrow> 'v \<Rightarrow> 's \<Rightarrow> 's"
  assumes get_put: "get (put k v s) k' = (if k' = k then Some v else get s k')"
begin

lemma get_put_same: "get (put k v s) k = Some v"
  by (simp add: get_put)

text \<open>After a list of updates a key has the value of its last pair.\<close>

lemma get_put_all: "get (fold (\<lambda>(k, v). put k v) kvs s) k =
    (case map_of (rev kvs) k of Some v \<Rightarrow> Some v | None \<Rightarrow> get s k)"
proof (induction kvs arbitrary: s)
  case (Cons kv kvs)
  then show ?case by (cases kv) (auto simp: get_put map_add_def split: option.splits)
qed simp

lemma get_put_distinct:
  assumes "distinct (map fst kvs)" "(k, v) \<in> set kvs"
  shows "get (fold (\<lambda>(k, v). put k v) kvs s) k = Some v"
  using assms by (simp add: get_put_all map_of_eq_Some_iff distinct_rev rev_map[symmetric])

end

lemma map_of_rev_distinct: "distinct (map fst kvs) \<Longrightarrow> map_of (rev kvs) = map_of kvs"
proof (induction kvs)
  case (Cons kv kvs)
  then have "map_of kvs (fst kv) = None" by (simp add: map_of_eq_None_iff)
  then show ?case using Cons by (cases kv) (auto simp: map_add_def fun_eq_iff split: option.splits)
qed simp

section \<open>Sorted association lists\<close>

fun map_set :: "'k::linorder \<Rightarrow> 'v \<Rightarrow> ('k \<times> 'v) list \<Rightarrow> ('k \<times> 'v) list" where
  "map_set k v [] = [(k, v)]"
| "map_set k v ((a, b) # m) =
     (if k = a then (k, v) # m else if k < a then (k, v) # (a, b) # m else (a, b) # map_set k v m)"

definition map_ok :: "('k::linorder \<times> 'v) list \<Rightarrow> bool" where
  "map_ok m = sorted_wrt (<) (map fst m)"

lemma map_of_set [simp]: "map_of (map_set k v m) = (map_of m)(k \<mapsto> v)"
  by (induction m rule: map_set.induct) auto

lemma set_map_set: "set (map fst (map_set k v m)) = insert k (set (map fst m))"
  by (induction k v m rule: map_set.induct) auto

lemma map_ok_set: "map_ok m \<Longrightarrow> map_ok (map_set k v m)"
proof (induction k v m rule: map_set.induct)
  case (2 k v a b m)
  have "set (map fst (map_set k v m)) = insert k (set (map fst m))" by (rule set_map_set)
  then show ?case using 2 by (auto simp: map_ok_def)
qed (simp add: map_ok_def)

text \<open>A key above all others is appended.\<close>

lemma map_set_last: "\<forall>a \<in> set (map fst m). a < k \<Longrightarrow> map_set k v m = m @ [(k, v)]"
  by (induction m) auto

lemma map_set_fold:
  assumes "sorted_wrt (<) (map fst (m @ kvs))"
  shows "fold (\<lambda>(k, v). map_set k v) kvs m = m @ kvs"
  using assms
proof (induction kvs arbitrary: m)
  case (Cons kv kvs)
  obtain k v where kv: "kv = (k, v)" by force
  then have "\<forall>a \<in> set (map fst m). a < k" using Cons.prems by (auto simp: sorted_wrt_append)
  then have "map_set k v m = m @ [kv]" using map_set_last kv by metis
  then show ?case using Cons kv by simp
qed simp

interpretation std_map: keyed_store map_of map_set
  by unfold_locales simp

end
