(* ===== verification/HttpQuery.thy ===== *)
theory HttpQuery
  imports StdMap
begin

text \<open>
  Percent encoding (\<open>base/hurl.cpp\<close>) and query strings (\<open>http/http_content.cpp\<close>): the scanner
  keeps two pointers and two lengths over the URL it is given; every copy out of the URL is checked
  against the end of the buffer.
\<close>

section \<open>Percent encoding\<close>

definition is_num :: "char \<Rightarrow> bool" where "is_num c = (48 \<le> byte_of c \<and> byte_of c \<le> 57)"
definition is_alpha :: "char \<Rightarrow> bool" where
  "is_alpha c = (97 \<le> byte_of c \<and> byte_of c \<le> 122 \<or> 65 \<le> byte_of c \<and> byte_of c \<le> 90)"
definition is_hex :: "char \<Rightarrow> bool" where
  "is_hex c = (is_num c \<or> 97 \<le> byte_of c \<and> byte_of c \<le> 102 \<or> 65 \<le> byte_of c \<and> byte_of c \<le> 70)"

definition is_unambiguous :: "char \<Rightarrow> bool" where
  "is_unambiguous c = (is_alpha c \<or> is_num c \<or> c \<in> {CHR ''-'', CHR ''_'', CHR ''.'', CHR ''~''})"

text \<open>\<open>char\<close> is signed: the comparisons see bytes from 128 on as negative.\<close>

definition schar :: "char \<Rightarrow> int" where
  "schar c = (if byte_of c < 128 then byte_of c else byte_of c - 256)"

definition hex2i :: "char \<Rightarrow> int" where
  "hex2i c = (if schar c \<le> 57 then schar c - 48 else if schar c \<le> 70 then schar c - 65 + 10 else schar c - 97 + 10) mod 256"

definition hex_upper :: "int \<Rightarrow> char" where
  "hex_upper v = char_of (if v < 10 then 48 + v else 55 + v)"

text \<open>
  \<open>sprintf(szHex, "%%%02X", *p)\<close> into four bytes: a byte from 128 on is a negative \<open>int\<close> and
  prints as eight digits.
\<close>

definition escape_byte :: "char \<Rightarrow> string cres" where
  "escape_byte c = (if schar c < 0 then Inl BufferOverflow
     else Inr [CHR ''%'', hex_upper (byte_of c div 16), hex_upper (byte_of c mod 16)])"

fun escape_loop :: "string \<Rightarrow> string cres" where
  "escape_loop [] = Inr []"
| "escape_loop (c # s) =
     cbind (if is_unambiguous c then Inr [c] else escape_byte c) (\<lambda>e. cbind (escape_loop s) (\<lambda>r. Inr (e @ r)))"

definition url_escape :: "string \<Rightarrow> string cres" where
  "url_escape istr = escape_loop (cstr istr)"

fun unescape_loop :: "string \<Rightarrow> string" where
  "unescape_loop [] = []"
| "unescape_loop (c # s) =
     (if c = CHR ''%'' \<and> 2 \<le> length s \<and> is_hex (s ! 0) \<and> is_hex (s ! 1)
      then char_of (16 * hex2i (s ! 0) + hex2i (s ! 1)) # unescape_loop (drop 2 s)
      else c # unescape_loop s)"

definition url_unescape :: "string \<Rightarrow> string" where
  "url_unescape istr = unescape_loop (cstr istr)"

definition ascii :: "string \<Rightarrow> bool" where
  "ascii s = (\<forall>c \<in> set s. 0 < byte_of c \<and> byte_of c < 128)"

section \<open>Query strings\<close>

type_synonym params = "(string \<times> string) list"

fun dump_loop :: "params \<Rightarrow> string \<Rightarrow> string cres" where
  "dump_loop [] acc = Inr acc"
| "dump_loop ((k, v) # ps) acc =
     cbind (url_escape k) (\<lambda>ek. cbind (url_escape v) (\<lambda>ev.
       dump_loop ps ((if acc \<noteq> [] then acc @ ''&'' else acc) @ ek @ ''='' @ ev)))"

definition dump_query_params :: "params \<Rightarrow> string cres" where
  "dump_query_params ps = dump_loop ps []"

datatype query_state = S_key | S_value

text \<open>\<open>std::string(ptr, len)\<close> copies from the buffer the pointer points into.\<close>

definition copy_bytes :: "string \<Rightarrow> nat \<Rightarrow> nat \<Rightarrow> string cres" where
  "copy_bytes mem i n = (if i + n \<le> length mem then Inr (take n (drop i mem)) else Inl OutOfBounds)"

definition store_param :: "string \<Rightarrow> nat \<Rightarrow> nat \<Rightarrow> nat option \<Rightarrow> nat \<Rightarrow> params \<Rightarrow> params cres" where
  "store_param mem key key_len val value_len ps =
     cbind (copy_bytes mem key key_len) (\<lambda>k.
       case val of None \<Rightarrow> Inl NullDereference
       | Some v \<Rightarrow> cbind (copy_bytes mem v value_len) (\<lambda>x. Inr (map_set (url_unescape k) (url_unescape x) ps)))"

function query_loop :: "string \<Rightarrow> nat \<Rightarrow> query_state \<Rightarrow> nat \<Rightarrow> nat option \<Rightarrow> nat \<Rightarrow> nat \<Rightarrow> params \<Rightarrow> params cres" where
  "query_loop mem p state key val key_len value_len ps =
     cbind (rd mem p) (\<lambda>c.
       if c = NUL then
         (if key_len \<noteq> 0 \<and> value_len \<noteq> 0 then store_param mem key key_len val value_len ps else Inr ps)
       else if c = CHR ''&'' then
         (if key_len \<noteq> 0 \<and> value_len \<noteq> 0 then
            cbind (store_param mem key key_len val value_len ps) (\<lambda>ps'. query_loop mem (p + 1) S_key (p + 1) val 0 0 ps')
          else query_loop mem (p + 1) S_key (p + 1) val key_len value_len ps)
       else if c = CHR ''='' then query_loop mem (p + 1) S_value key (Some (p + 1)) key_len value_len ps
       else if state = S_key then query_loop mem (p + 1) state key val (key_len + 1) value_len ps
       else query_loop mem (p + 1) state key val key_len (value_len + 1) ps)"
  by pat_completeness auto
termination by (relation "measure (\<lambda>(mem, p, _). length mem - p)") (auto dest: rd_Inr)

declare query_loop.simps [simp del]

definition parse_query_params :: "string \<Rightarrow> nat \<Rightarrow> params \<Rightarrow> (int \<times> params) cres" where
  "parse_query_params mem off ps =
     (let text = cstr (drop off mem);
          start = (if CHR ''?'' \<in> set text then off + length (takeWhile (\<lambda>c. c \<noteq> CHR ''?'') text) + 1 else off)
      in cbind (query_loop mem start S_key start None 0 0 ps) (\<lambda>ps'. Inr (if ps' = [] then - 1 else 0, ps')))"

definition GetParam :: "string \<Rightarrow> params \<Rightarrow> string" where
  "GetParam key ps = (case map_of ps key of Some v \<Rightarrow> v | None \<Rightarrow> [])"

section \<open>Round trip\<close>

lemma hex2i_upper: "0 \<le> v \<Longrightarrow> v < 16 \<Longrightarrow> is_hex (hex_upper v) \<and> hex2i (hex_upper v) = v"
  by (auto simp: hex_upper_def is_hex_def is_num_def hex2i_def schar_def)

lemma unambiguous_plain:
  assumes "is_unambiguous c"
  shows "c \<notin> {CHR ''%'', CHR ''&'', CHR ''='', CHR ''?'', NUL}"
  using assms by (auto simp: is_unambiguous_def is_alpha_def is_num_def NUL_def)

lemma hex_plain:
  assumes "0 \<le> v" "v < 16"
  shows "hex_upper v \<notin> {CHR ''%'', CHR ''&'', CHR ''='', CHR ''?'', NUL}"
  using unambiguous_plain[of "hex_upper v"] assms
  by (auto simp: hex_upper_def is_unambiguous_def is_alpha_def is_num_def)

text \<open>What the loop over a query string does not take for a separator or the end.\<close>

definition plain_text :: "string \<Rightarrow> bool" where
  "plain_text s = (set s \<inter> {CHR ''&'', CHR ''='', CHR ''?'', NUL} = {})"

lemma escape_loop_ascii:
  assumes "ascii s"
  shows "\<exists>e. escape_loop s = Inr e \<and> unescape_loop e = s \<and> plain_text e \<and> (s \<noteq> [] \<longrightarrow> e \<noteq> [])"
  using assms
proof (induction s)
  case (Cons c s)
  then obtain e where e: "escape_loop s = Inr e" "unescape_loop e = s" "plain_text e" by (auto simp: ascii_def)
  have c: "0 < byte_of c" "byte_of c < 128" using Cons.prems by (auto simp: ascii_def)
  show ?case
  proof (cases "is_unambiguous c")
    case True
    then show ?thesis using e unambiguous_plain[OF True] by (auto simp: plain_text_def)
  next
    case False
    let ?a = "hex_upper (byte_of c div 16)" and ?b = "hex_upper (byte_of c mod 16)"
    have r: "0 \<le> byte_of c div 16" "byte_of c div 16 < 16" "0 \<le> byte_of c mod 16" "byte_of c mod 16 < 16" using c by auto
    note h = hex2i_upper[OF r(1,2)] hex2i_upper[OF r(3,4)]
    have "schar c = byte_of c" using c by (simp add: schar_def)
    then have run: "escape_loop (c # s) = Inr (CHR ''%'' # ?a # ?b # e)" using False e c by (simp add: escape_byte_def)
    have "16 * (byte_of c div 16) + byte_of c mod 16 = byte_of c" by simp
    then have "unescape_loop (CHR ''%'' # ?a # ?b # e) = c # s" using h e(2) by simp
    moreover have "plain_text (CHR ''%'' # ?a # ?b # e)"
      using hex_plain[OF r(1,2)] hex_plain[OF r(3,4)] e(3) by (simp add: plain_text_def NUL_def)
    ultimately show ?thesis using run by blast
  qed
qed (simp add: plain_text_def)

lemma ascii_cstr: "ascii s \<Longrightarrow> cstr s = s"
  by (intro cstr_id) (auto simp: ascii_def NUL_def)

lemma url_escape_ascii:
  assumes "ascii s"
  obtains e where "url_escape s = Inr e" "url_unescape e = s" "plain_text e" "s \<noteq> [] \<Longrightarrow> e \<noteq> []"
proof -
  from escape_loop_ascii[OF assms] obtain e where e: "escape_loop s = Inr e" "unescape_loop e = s" "plain_text e"
    "s \<noteq> [] \<longrightarrow> e \<noteq> []" by blast
  have "cstr e = e" using e(3) by (intro cstr_id) (auto simp: plain_text_def)
  then show ?thesis using e that ascii_cstr[OF assms] by (auto simp: url_escape_def url_unescape_def)
qed


lemma plain_Cons: "plain_text (c # w) \<longleftrightarrow> c \<noteq> CHR ''&'' \<and> c \<noteq> CHR ''='' \<and> c \<noteq> CHR ''?'' \<and> c \<noteq> NUL \<and> plain_text w"
  by (auto simp: plain_text_def)

lemma query_loop_plain:
  "drop p mem = w @ r \<Longrightarrow> plain_text w \<Longrightarrow>
     query_loop mem p S_key key val kl vl ps = query_loop mem (p + length w) S_key key val (kl + length w) vl ps"
  "drop p mem = w @ r \<Longrightarrow> plain_text w \<Longrightarrow>
     query_loop mem p S_value key val kl vl ps = query_loop mem (p + length w) S_value key val kl (vl + length w) ps"
proof (induction w arbitrary: p kl vl)
  case (Cons c w)
  {
    case 1
    then have "rd mem p = Inr c" "drop (Suc p) mem = w @ r" "plain_text w" using rd_drop[of p mem c "w @ r"] by (auto simp: plain_Cons)
    then show ?case using 1 Cons.IH(1)[of "Suc p" "Suc kl" vl] by (subst query_loop.simps) (simp add: plain_Cons)
  next
    case 2
    then have "rd mem p = Inr c" "drop (Suc p) mem = w @ r" "plain_text w" using rd_drop[of p mem c "w @ r"] by (auto simp: plain_Cons)
    then show ?case using 2 Cons.IH(2)[of "Suc p" kl "Suc vl"] by (subst query_loop.simps) (simp add: plain_Cons)
  }
qed simp_all

lemma copy_bytes_drop:
  assumes "drop i mem = w @ r" "w \<noteq> []"
  shows "copy_bytes mem i (length w) = Inr w"
proof -
  have "length w \<le> length mem - i" using assms(1) by (metis length_append length_drop le_add1)
  moreover have "i < length mem" using assms by (metis append_is_Nil_conv drop_all not_le)
  ultimately show ?thesis using assms(1) by (simp add: copy_bytes_def)
qed

text \<open>One parameter, up to the byte after it.\<close>

lemma query_loop_pair:
  assumes d: "drop p mem = k @ CHR ''='' # v @ c # r" and pl: "plain_text k" "plain_text v" and ne: "k \<noteq> []" "v \<noteq> []"
    and c: "c = NUL \<or> c = CHR ''&''"
  shows "query_loop mem p S_key p val 0 0 ps =
    (let ps' = map_set (url_unescape k) (url_unescape v) ps
     in if c = NUL then Inr ps' else query_loop mem (p + length k + length v + 2) S_key (p + length k + length v + 2)
          (Some (p + length k + 1)) 0 0 ps')"
proof -
  let ?e = "p + length k" let ?v = "?e + 1" let ?n = "?v + length v"
  have e: "Suc ?n = p + length k + length v + 2" by simp
  have de: "drop ?e mem = CHR ''='' # v @ c # r" using d by (metis add.commute append_eq_conv_conj drop_drop)
  have dv: "drop ?v mem = v @ c # r" using rd_drop[OF de] by simp
  have dn: "drop ?n mem = c # r" using dv by (metis add.commute append_eq_conv_conj drop_drop)
  have st: "store_param mem p (length k) (Some ?v) (length v) ps = Inr (map_set (url_unescape k) (url_unescape v) ps)"
    using copy_bytes_drop[OF d ne(1)] copy_bytes_drop[OF dv ne(2)] by (simp add: store_param_def)
  have "query_loop mem p S_key p val 0 0 ps = query_loop mem ?e S_key p val (length k) 0 ps"
    using query_loop_plain(1)[OF d pl(1), of p val 0 0 ps] by simp
  also have "\<dots> = query_loop mem ?v S_value p (Some ?v) (length k) 0 ps"
    using rd_drop[OF de] by (subst query_loop.simps) (simp add: NUL_def)
  also have "\<dots> = query_loop mem ?n S_value p (Some ?v) (length k) (length v) ps"
    using query_loop_plain(2)[OF dv pl(2), of p "Some ?v" "length k" 0 ps] by simp
  also have "\<dots> = (let ps' = map_set (url_unescape k) (url_unescape v) ps
     in if c = NUL then Inr ps' else query_loop mem (Suc ?n) S_key (Suc ?n) (Some ?v) 0 0 ps')"
    using rd_drop[OF dn] ne c st by (subst query_loop.simps) (auto simp: Let_def)
  finally show ?thesis by (simp only: e)
qed

fun query_text :: "params \<Rightarrow> string" where
  "query_text [] = []"
| "query_text [(k, v)] = k @ ''='' @ v"
| "query_text ((k, v) # e # es) = k @ ''='' @ v @ ''&'' @ query_text (e # es)"

definition good_pair :: "string \<times> string \<Rightarrow> bool" where
  "good_pair e = (plain_text (fst e) \<and> plain_text (snd e) \<and> fst e \<noteq> [] \<and> snd e \<noteq> [])"

lemma query_loop_text:
  assumes "drop p mem = query_text es @ NUL # r" "\<forall>e \<in> set es. good_pair e"
  shows "query_loop mem p S_key p val 0 0 ps = Inr (fold (\<lambda>(k, v). map_set (url_unescape k) (url_unescape v)) es ps)"
  using assms
proof (induction es arbitrary: p val ps rule: query_text.induct)
  case 1
  then show ?case using rd_drop[of p mem NUL r] by (subst query_loop.simps) simp
next
  case (2 k v)
  then show ?case using query_loop_pair[of p mem k v NUL r val ps] by (simp add: good_pair_def)
next
  case (3 k v e es)
  have d: "drop p mem = k @ CHR ''='' # v @ CHR ''&'' # query_text (e # es) @ NUL # r" using 3(2) by simp
  have g: "plain_text k" "plain_text v" "k \<noteq> []" "v \<noteq> []" using 3(3) by (auto simp: good_pair_def)
  let ?q = "p + length k + length v + 2"
  have "drop ?q mem = query_text (e # es) @ NUL # r"
  proof -
    have "drop (length (k @ CHR ''='' # v @ ''&'')) (drop p mem) = query_text (e # es) @ NUL # r" unfolding d by simp
    then show ?thesis by (simp add: add_ac)
  qed
  then show ?case using 3(1)[of ?q "Some (p + length k + 1)"] 3(3) query_loop_pair[OF d g, of val ps] by (simp add: Let_def NUL_def)
qed


text \<open>What is dumped is such a text.\<close>

lemma escape_pairs:
  assumes "\<forall>(k, v) \<in> set ps. ascii k \<and> ascii v \<and> k \<noteq> [] \<and> v \<noteq> []"
  obtains es where "list_all2 (\<lambda>(k, v) (ek, ev). url_escape k = Inr ek \<and> url_escape v = Inr ev \<and>
    url_unescape ek = k \<and> url_unescape ev = v) ps es" "\<forall>e \<in> set es. good_pair e"
proof -
  have "\<exists>es. list_all2 (\<lambda>(k, v) (ek, ev). url_escape k = Inr ek \<and> url_escape v = Inr ev \<and>
    url_unescape ek = k \<and> url_unescape ev = v) ps es \<and> (\<forall>e \<in> set es. good_pair e)"
    using assms
  proof (induction ps)
    case (Cons kv ps)
    obtain k v where kv: "kv = (k, v)" by force
    with Cons.prems have a: "ascii k" "ascii v" "k \<noteq> []" "v \<noteq> []" by auto
    from url_escape_ascii[OF a(1)] a(3) obtain ek where ek: "url_escape k = Inr ek" "url_unescape ek = k" "plain_text ek" "ek \<noteq> []" by metis
    from url_escape_ascii[OF a(2)] a(4) obtain ev where ev: "url_escape v = Inr ev" "url_unescape ev = v" "plain_text ev" "ev \<noteq> []" by metis
    from Cons obtain es where "list_all2 (\<lambda>(k, v) (ek, ev). url_escape k = Inr ek \<and> url_escape v = Inr ev \<and>
      url_unescape ek = k \<and> url_unescape ev = v) ps es \<and> (\<forall>e \<in> set es. good_pair e)" by auto
    then show ?case using ek ev kv by (intro exI[of _ "(ek, ev) # es"]) (simp add: good_pair_def)
  qed simp
  then show thesis using that by blast
qed

lemma dump_loop_text:
  assumes "list_all2 (\<lambda>(k, v) (ek, ev). url_escape k = Inr ek \<and> url_escape v = Inr ev \<and>
    url_unescape ek = k \<and> url_unescape ev = v) ps es"
  shows "dump_loop ps acc = Inr (acc @ (if acc \<noteq> [] \<and> es \<noteq> [] then ''&'' else []) @ query_text es)"
  using assms
proof (induction ps es arbitrary: acc rule: list_all2_induct)
  case (Cons p ps e es)
  obtain k v ek ev where "p = (k, v)" "e = (ek, ev)" by (cases p; cases e) auto
  then show ?case using Cons by (cases es) auto
qed simp

lemma unescape_pairs:
  assumes "list_all2 (\<lambda>(k, v) (ek, ev). url_escape k = Inr ek \<and> url_escape v = Inr ev \<and>
    url_unescape ek = k \<and> url_unescape ev = v) ps es"
  shows "fold (\<lambda>(k, v). map_set (url_unescape k) (url_unescape v)) es m = fold (\<lambda>(k, v). map_set k v) ps m"
  using assms by (induction ps es arbitrary: m rule: list_all2_induct) auto

lemma query_text_plain: "\<forall>e \<in> set es. good_pair e \<Longrightarrow> CHR ''?'' \<notin> set (query_text es) \<and> NUL \<notin> set (query_text es)"
  by (induction es rule: query_text.induct) (auto simp: good_pair_def plain_text_def NUL_def)

lemma query_roundtrip_run:
  assumes "map_ok ps" "\<forall>(k, v) \<in> set ps. ascii k \<and> ascii v \<and> k \<noteq> [] \<and> v \<noteq> []"
  shows "\<exists>t. dump_query_params ps = Inr t \<and>
    parse_query_params (pre @ t @ NUL # rest) (length pre) [] = Inr (if ps = [] then - 1 else 0, ps)"
proof -
  from escape_pairs[OF assms(2)] obtain es where
    es: "list_all2 (\<lambda>(k, v) (ek, ev). url_escape k = Inr ek \<and> url_escape v = Inr ev \<and>
      url_unescape ek = k \<and> url_unescape ev = v) ps es" "\<forall>e \<in> set es. good_pair e" by blast
  let ?t = "query_text es" let ?mem = "pre @ ?t @ NUL # rest"
  have d: "dump_query_params ps = Inr ?t" using dump_loop_text[OF es(1), of "[]"] by (simp add: dump_query_params_def)
  have "cstr (drop (length pre) ?mem) = ?t"
    using query_text_plain[OF es(2)] by (simp add: cstr_def) (subst takeWhile_append2; auto)
  moreover have "query_loop ?mem (length pre) S_key (length pre) None 0 0 [] = Inr (fold (\<lambda>(k, v). map_set k v) ps [])"
    using query_loop_text[of "length pre" ?mem es rest None "[]"] es unescape_pairs[OF es(1)] by simp
  moreover have "fold (\<lambda>(k, v). map_set k v) ps [] = ps"
    using map_set_fold[of "[]" ps] assms(1) by (simp add: map_ok_def)
  ultimately show ?thesis using d query_text_plain[OF es(2)] by (simp add: parse_query_params_def)
qed

section \<open>Properties\<close>

text \<open>Parameters written by \<open>dump_query_params\<close> are read back by \<open>parse_query_params\<close> exactly as
  they were, wherever the text stands in a URL: for every map whose keys and values are non-empty
  ASCII texts, which may contain the characters with a meaning in a query.\<close>

theorem query_roundtrip:
  assumes "map_ok ps" "\<forall>(k, v) \<in> set ps. ascii k \<and> ascii v \<and> k \<noteq> [] \<and> v \<noteq> []"
  shows "\<exists>t. dump_query_params ps = Inr t \<and>
    parse_query_params (pre @ t @ NUL # rest) (length pre) [] = Inr (if ps = [] then - 1 else 0, ps)"
  using assms by (rule query_roundtrip_run)

theorem query_roundtrip_witness:
  "\<exists>t. dump_query_params [(''a&b'', ''1=2''), (''id'', ''7?'')] = Inr t \<and>
    parse_query_params (''/x?'' @ t @ [NUL]) 3 [] = Inr (0, [(''a&b'', ''1=2''), (''id'', ''7?'')])"
proof -
  let ?ps = "[(''a&b'', ''1=2''), (''id'', ''7?'')]"
  have "map_ok ?ps" by (simp add: map_ok_def less_char_def)
  moreover have "\<forall>(k, v) \<in> set ?ps. ascii k \<and> ascii v \<and> k \<noteq> [] \<and> v \<noteq> []" by (simp add: ascii_def)
  ultimately show ?thesis using query_roundtrip[of ?ps "''/x?''" "[]"] by (simp add: numeral_3_eq_3)
qed

text \<open>A parameter without a value is not dropped: its length stays counted, so the key of the
  next parameter is copied from beyond the end of the URL. \<open>/WithdrawOrder?debug&order_id=1\<close>
  makes the server read outside its buffer.\<close>

theorem query_overread:
  "parse_query_params (''/WithdrawOrder?debug&order_id=1'' @ [NUL]) 15 [] = Inl OutOfBounds"
  by code_simp

text \<open>A parameter with an empty value changes the name of the next one; a byte from 128 on overruns
  the four bytes of \<open>url_escape\<close>.\<close>

lemma empty_value_joins_names:
  "parse_query_params (''q=&order_id=1'' @ [NUL]) 0 [] = Inr (0, [(''order_id='', ''1'')])"
  by code_simp

lemma url_escape_overflow:
  assumes "128 \<le> byte_of c"
  shows "url_escape [c] = Inl BufferOverflow"
proof -
  have "c \<noteq> NUL" "\<not> is_unambiguous c" "schar c < 0" using assms byte_of_less[of c]
    by (auto simp: NUL_def is_unambiguous_def is_alpha_def is_num_def schar_def simp del: byte_of_less)
  then show ?thesis by (simp add: url_escape_def cstr_def escape_byte_def)
qed

end
