(* ===== verification/HttpRouter.thy ===== *)
theory HttpRouter
  imports HttpQuery HttpDef
begin

text \<open>
  The request router of \<open>http/server/HttpService.cpp\<close>: registration by path and method, direct
  lookup, and dispatch by patterns with wildcards and fields; \<open>strendswith\<close> of \<open>base/hbase.c\<close>.
\<close>

section \<open>\<open>strendswith\<close>\<close>

text \<open>
  Both pointers end one past the terminator, so the comparison starts with the two terminators and
  stops before the first byte of \<open>end\<close>.
\<close>

fun ends_loop :: "nat \<Rightarrow> string \<Rightarrow> nat \<Rightarrow> string \<Rightarrow> nat \<Rightarrow> bool" where
  "ends_loop 0 str i e j = True"
| "ends_loop (Suc len2) str i e j =
     (if str ! (i - 1) \<noteq> e ! (j - 1) then False else ends_loop len2 str (i - 1) e (j - 1))"

definition strendswith :: "string \<Rightarrow> string \<Rightarrow> bool" where
  "strendswith str e =
     (if length str < length e then False
      else ends_loop (length e) (str @ [NUL]) (length str + 1) (e @ [NUL]) (length e + 1))"

section \<open>The service\<close>

text \<open>A handler is any value; \<open>api_handlers\<close> maps a path to its handlers by method.\<close>

type_synonym 'h method_handlers = "(int \<times> 'h) list"
type_synonym 'h api_handlers = "(string \<times> 'h method_handlers) list"

fun set_method :: "int \<Rightarrow> 'h \<Rightarrow> 'h method_handlers \<Rightarrow> 'h method_handlers" where
  "set_method m h [] = [(m, h)]"
| "set_method m h ((a, b) # ms) = (if a = m then (a, h) # ms else (a, b) # set_method m h ms)"

definition AddApi :: "string \<Rightarrow> int \<Rightarrow> 'h \<Rightarrow> 'h api_handlers \<Rightarrow> 'h api_handlers" where
  "AddApi path m h api =
     (case map_of api path of
        None \<Rightarrow> map_set path (set_method m h []) api
      | Some ms \<Rightarrow> map_set path (set_method m h ms) api)"

text \<open>\<open>Handle\<close> and its wrappers name the method by its text.\<close>

definition Handle :: "string \<Rightarrow> string \<Rightarrow> 'h \<Rightarrow> 'h api_handlers \<Rightarrow> 'h api_handlers" where
  "Handle httpMethod relativePath h api = AddApi relativePath (http_method_enum httpMethod) h api"

text \<open>The part of a URL after the base up to the query; \<open>None\<close> if the base does not match.\<close>

fun strip_base :: "string \<Rightarrow> string \<Rightarrow> string option" where
  "strip_base (a # s) (b # base) = (if a = b then strip_base s base else None)"
| "strip_base s base = (if base \<noteq> [] then None else Some s)"

definition url_path :: "string \<Rightarrow> string" where
  "url_path s = takeWhile (\<lambda>c. c \<noteq> CHR ''?'') s"

definition GetApi_url :: "string \<Rightarrow> 'h api_handlers \<Rightarrow> string \<Rightarrow> int \<Rightarrow> int \<times> 'h option" where
  "GetApi_url base_url api url m =
     (case strip_base (cstr url) (cstr base_url) of
        None \<Rightarrow> (404, None)
      | Some s \<Rightarrow>
          (case map_of api (url_path s) of
             None \<Rightarrow> (404, None)
           | Some ms \<Rightarrow> (case map_of ms m of Some h \<Rightarrow> (0, Some h) | None \<Rightarrow> (405, None))))"

text \<open>One pattern against one path: the flag, what is left of both, and the fields found.\<close>

function match_loop :: "string \<Rightarrow> string \<Rightarrow> params \<Rightarrow> bool \<times> string \<times> string \<times> params" where
  "match_loop kp vp ps =
     (if kp = [] \<or> vp = [] then (False, kp, vp, ps)
      else if hd kp = CHR ''*'' then (strendswith vp (tl kp), kp, vp, ps)
      else if hd kp = hd vp then
        (if hd kp = CHR ''/'' \<and> tl kp \<noteq> [] \<and> hd (tl kp) = CHR '':'' then
           (let ks = drop 2 kp; vs = tl vp
            in match_loop (dropWhile (\<lambda>c. c \<noteq> CHR ''/'') ks) (dropWhile (\<lambda>c. c \<noteq> CHR ''/'') vs)
                 (map_set (takeWhile (\<lambda>c. c \<noteq> CHR ''/'') ks) (takeWhile (\<lambda>c. c \<noteq> CHR ''/'') vs) ps))
         else match_loop (tl kp) (tl vp) ps)
      else (False, kp, vp, ps))"
  by pat_completeness auto
termination
  by (relation "measure (\<lambda>(kp, vp, ps). length vp)")
    (auto simp: length_dropWhile_le neq_Nil_conv less_Suc_eq_le)

declare match_loop.simps [simp del]

definition path_match :: "string \<Rightarrow> string \<Rightarrow> bool \<times> params" where
  "path_match pattern path =
     (case match_loop pattern path [] of (found, kp, vp, ps) \<Rightarrow> (found \<or> kp = [] \<and> vp = [], ps))"

fun get_api_loop :: "'h api_handlers \<Rightarrow> string \<Rightarrow> int \<Rightarrow> int \<times> 'h option \<times> params" where
  "get_api_loop [] path m = (404, None, [])"
| "get_api_loop ((pattern, ms) # api) path m =
     (case path_match pattern path of (found, ps) \<Rightarrow>
        if found then
          (case map_of ms m of Some h \<Rightarrow> (0, Some h, ps)
           | None \<Rightarrow> if ps = [] then (405, None, []) else get_api_loop api path m)
        else get_api_loop api path m)"

text \<open>The result: the status, the handler, and the query parameters with the fields entered.\<close>

definition GetApi :: "string \<Rightarrow> 'h api_handlers \<Rightarrow> string \<Rightarrow> int \<Rightarrow> params \<Rightarrow> int \<times> 'h option \<times> params" where
  "GetApi base_url api req_path m query_params =
     (case strip_base (cstr req_path) (cstr base_url) of
        None \<Rightarrow> (404, None, query_params)
      | Some s \<Rightarrow> (case get_api_loop api (url_path s) m of (st, h, ps) \<Rightarrow>
          (st, h, fold (\<lambda>(k, v). map_set k v) ps query_params)))"

section \<open>Registration\<close>

lemma map_of_set_method [simp]: "map_of (set_method m h ms) = (map_of ms)(m \<mapsto> h)"
  by (induction m h ms rule: set_method.induct) auto

text \<open>What is registered for a path and a method.\<close>

definition registered :: "'h api_handlers \<Rightarrow> string \<times> int \<Rightarrow> 'h option" where
  "registered api = (\<lambda>(path, m). case map_of api path of None \<Rightarrow> None | Some ms \<Rightarrow> map_of ms m)"

definition register :: "string \<times> int \<Rightarrow> 'h \<Rightarrow> 'h api_handlers \<Rightarrow> 'h api_handlers" where
  "register key h = AddApi (fst key) (snd key) h"

lemma registered_AddApi:
  "registered (AddApi p m h api) (q, n) = (if q = p \<and> n = m then Some h else registered api (q, n))"
proof (cases "q = p")
  case True
  then show ?thesis by (cases "map_of api p") (simp_all add: registered_def AddApi_def)
next
  case False
  then show ?thesis by (cases "map_of api p") (simp_all add: registered_def AddApi_def)
qed

interpretation routes: keyed_store registered register
proof unfold_locales
  show "registered (register k h api) k' = (if k' = k then Some h else registered api k')" for k k' h api
    by (cases k; cases k') (simp add: register_def registered_AddApi)
qed

lemma AddApi_ok: "map_ok api \<Longrightarrow> map_ok (AddApi path m h api)"
  by (auto simp: AddApi_def intro: map_ok_set split: option.splits)

lemma AddApi_paths: "set (map fst (AddApi path m h api)) = insert path (set (map fst api))"
  by (cases "map_of api path") (simp_all only: AddApi_def set_map_set option.case)

section \<open>Literal routes\<close>

text \<open>A path without a wildcard and without a field matches exactly itself.\<close>

fun literal :: "string \<Rightarrow> bool" where
  "literal [] = True"
| "literal (c # s) = (c \<noteq> CHR ''*'' \<and> (c = CHR ''/'' \<longrightarrow> s = [] \<or> hd s \<noteq> CHR '':'') \<and> literal s)"

lemma match_literal:
  "literal kp \<Longrightarrow> \<exists>k v. match_loop kp vp ps = (False, k, v, ps) \<and> (k = [] \<and> v = [] \<longleftrightarrow> kp = vp)"
proof (induction kp arbitrary: vp)
  case Nil
  then show ?case by (subst match_loop.simps) auto
next
  case (Cons c kp)
  show ?case
  proof (cases vp)
    case Nil
    then show ?thesis by (subst match_loop.simps) simp
  next
    case (Cons d v)
    show ?thesis
    proof (cases "c = d")
      case True
      have "match_loop (c # kp) vp ps = match_loop kp v ps"
        using Cons.prems Cons True by (subst match_loop.simps) auto
      then show ?thesis using Cons.IH[of v] Cons.prems Cons True by simp
    next
      case False
      then show ?thesis using Cons.prems Cons by (subst match_loop.simps) auto
    qed
  qed
qed

lemma path_match_literal: "literal kp \<Longrightarrow> path_match kp path = (kp = path, [])"
  using match_literal[of kp path "[]"] by (auto simp: path_match_def)

lemma get_api_loop_literal:
  assumes "\<forall>p \<in> set (map fst api). literal p"
  shows "get_api_loop api path m =
    (case map_of api path of None \<Rightarrow> (404, None, [])
     | Some ms \<Rightarrow> (case map_of ms m of Some h \<Rightarrow> (0, Some h, []) | None \<Rightarrow> (405, None, [])))"
  using assms
proof (induction api)
  case (Cons e api)
  then show ?case by (cases e) (auto simp: path_match_literal split: option.splits)
qed simp

lemma GetApi_literal:
  assumes "\<forall>p \<in> set (map fst api). literal p"
  shows "GetApi base api path m qs = (fst (GetApi_url base api path m), snd (GetApi_url base api path m), qs)"
  using get_api_loop_literal[OF assms] by (auto simp: GetApi_def GetApi_url_def split: option.splits)


section \<open>Properties\<close>

text \<open>C32: in a service whose paths have no wildcard and no field, dispatch by pattern
  (\<open>GetApi(HttpRequest*, ...)\<close>) agrees with the direct lookup (\<open>GetApi(const char*, ...)\<close>) on every
  path and method, handler and status, and enters no query parameter.\<close>

theorem GetApi_agree:
  assumes "\<forall>p \<in> set (map fst api). literal p"
  shows "GetApi base api path m qs = (fst (GetApi_url base api path m), snd (GetApi_url base api path m), qs)"
  using assms by (rule GetApi_literal)

theorem GetApi_agree_witness:
  "GetApi [] (AddApi ''/echo'' HTTP_POST True []) ''/echo?x=1'' HTTP_GET [] = (405, None, [])"
proof -
  let ?api = "AddApi ''/echo'' HTTP_POST True []"
  have "\<forall>p \<in> set (map fst ?api). literal p" by (simp add: AddApi_def)
  from GetApi_agree[OF this, of "[]" "''/echo?x=1''" HTTP_GET "[]"] show ?thesis
    by (simp add: GetApi_url_def AddApi_def url_path_def cstr_def NUL_def HTTP_POST_def HTTP_GET_def)
qed

text \<open>Registering handlers one after the other gives every path and method the handler registered
  for it last, and leaves every other path and method as it was.\<close>

theorem AddApi_last_wins:
  "registered (fold (\<lambda>(k, h). AddApi (fst k) (snd k) h) rs api) key =
     (case map_of (rev rs) key of Some h \<Rightarrow> Some h | None \<Rightarrow> registered api key)"
  using routes.get_put_all[of rs api key] by (simp add: register_def case_prod_unfold)

text \<open>\<open>strendswith\<close> never compares the first byte of the suffix, so a wildcard matches too much.\<close>

lemma strendswith_skips_first: "strendswith ''/index.xtml'' ''html'' \<and> strendswith ''abc'' ''xbc''"
  by code_simp

lemma wildcard_too_wide: "path_match ''/*.html'' ''/page-html'' = (True, [])"
  by code_simp

end
