(* ===== verification/HttpMessage.thy ===== *)
theory HttpMessage
  imports HttpRouter CFloat
begin

text \<open>
  \<open>http/HttpMessage.cpp\<close>: headers, structured content and its dump into the body, the two fillers
  and the dump of a response; \<open>dump_multipart\<close> of \<open>http/http_content.cpp\<close>; and
  \<open>HttpHandler::GetSendData\<close> of \<open>http/server/HttpHandler.cpp\<close> without the file service, the
  state machine that hands a response to the connection.
\<close>

section \<open>Messages\<close>

record FormData =
  filename :: string
  fcontent :: string

text \<open>What the handlers put into the structured content.\<close>

datatype jvalue = JInt int | JString string | JDouble fl

record message =
  headers :: params
  body :: string
  content_length :: int
  content_type :: int
  json :: "(string \<times> jvalue) list"
  form :: "(string \<times> FormData) list"
  kv :: params

text \<open>
  The environment: \<open>dump_json\<close> is the serialiser of the JSON library, \<open>read_file\<close> the file
  system, \<open>http_date\<close> the text of the current time.
\<close>

record env =
  dump_json :: "(string \<times> jvalue) list \<Rightarrow> string"
  read_file :: "string \<Rightarrow> string option"
  http_date :: string

definition message_init :: message where
  "message_init = \<lparr>headers = [], body = [], content_length = 0, content_type = CONTENT_TYPE_NONE, json = [], form = [], kv = []\<rparr>"

text \<open>Header names compare without case.\<close>

definition lower :: "string \<Rightarrow> string" where "lower s = map tolower (cstr s)"

fun header_find :: "string \<Rightarrow> params \<Rightarrow> string option" where
  "header_find k [] = None"
| "header_find k ((a, b) # hs) = (if lower a = lower k then Some b else header_find k hs)"

fun header_set :: "string \<Rightarrow> string \<Rightarrow> params \<Rightarrow> params" where
  "header_set k v [] = [(k, v)]"
| "header_set k v ((a, b) # hs) =
     (if lower a = lower k then (a, v) # hs
      else if lower k < lower a then (k, v) # (a, b) # hs
      else (a, b) # header_set k v hs)"

abbreviation "CT \<equiv> ''Content-Type''"
abbreviation "CL \<equiv> ''Content-Length''"

fun jvalue_text :: "jvalue \<Rightarrow> string" where
  "jvalue_text (JInt n) = int_to_string n"
| "jvalue_text (JString s) = s"
| "jvalue_text (JDouble x) = fmt_g 6 x"

text \<open>\<open>Set\<close> for an integer or a C string.\<close>

definition Set_value :: "string \<Rightarrow> jvalue \<Rightarrow> message \<Rightarrow> message" where
  "Set_value key v m =
     (if content_type m = APPLICATION_JSON then m\<lparr>json := map_set key v (json m)\<rparr>
      else if content_type m = MULTIPART_FORM_DATA then
        m\<lparr>form := map_set key \<lparr>filename = [], fcontent = jvalue_text v\<rparr> (form m)\<rparr>
      else if content_type m = APPLICATION_URLENCODED then m\<lparr>kv := map_set key (jvalue_text v) (kv m)\<rparr>
      else m)"

section \<open>Multipart text\<close>

fun strstr :: "string \<Rightarrow> string \<Rightarrow> string option" where
  "strstr [] pat = (if pat = [] then Some [] else None)"
| "strstr (c # s) pat = (if strstartswith (c # s) pat then Some (c # s) else strstr s pat)"

definition CRLF :: string where "CRLF = [CHR 0x0D, CHR 0x0A]"

definition DEFAULT_MULTIPART_BOUNDARY :: string where
  "DEFAULT_MULTIPART_BOUNDARY = ''----WebKitFormBoundary7MA4YWxkTrZu0gW''"

text \<open>\<open>snprintf\<close> into 256 bytes keeps 255 of them.\<close>

definition snprintf256 :: "string \<Rightarrow> string" where "snprintf256 s = take 255 s"

definition is_slash :: "char \<Rightarrow> bool" where "is_slash c = (c = CHR ''/'' \<or> c = CHR 0x5C)"

definition hv_basename :: "string \<Rightarrow> string" where
  "hv_basename s = (let t = rev (dropWhile is_slash (rev s))
     in if t = [] then ''/'' else rev (takeWhile (\<lambda>c. \<not> is_slash c) (rev t)))"

text \<open>What follows the last dot, if there is one.\<close>

definition suffix_of :: "string \<Rightarrow> string option" where
  "suffix_of s = (if CHR ''.'' \<in> set s then Some (rev (takeWhile (\<lambda>c. c \<noteq> CHR ''.'') (rev s))) else None)"

definition part_content :: "env \<Rightarrow> FormData \<Rightarrow> string" where
  "part_content e f = (if filename f \<noteq> [] \<and> fcontent f = []
     then (case read_file e (filename f) of Some t \<Rightarrow> t | None \<Rightarrow> []) else fcontent f)"

definition part_file :: "FormData \<Rightarrow> string" where
  "part_file f = (if filename f = [] then []
     else snprintf256 (''; filename='' @ [CHR 0x22] @ hv_basename (filename f) @ [CHR 0x22]) @
       (case suffix_of (filename f) of None \<Rightarrow> []
        | Some x \<Rightarrow> (let t = http_content_type_str_by_suffix (Some x)
            in if t = [] then [] else CRLF @ ''Content-Type: '' @ t)))"

fun dump_multipart :: "env \<Rightarrow> (string \<times> FormData) list \<Rightarrow> string \<Rightarrow> string" where
  "dump_multipart e [] boundary = ''--'' @ boundary @ ''--''"
| "dump_multipart e ((name, f) # mp) boundary =
     ''--'' @ boundary @ CRLF @ ''Content-Disposition: form-data''
     @ snprintf256 (''; name='' @ [CHR 0x22] @ name @ [CHR 0x22])
     @ part_file f @ CRLF @ CRLF @ part_content e f @ CRLF @ dump_multipart e mp boundary"

section \<open>Filling and dumping\<close>

definition structured_type :: "message \<Rightarrow> int" where
  "structured_type m =
     (if content_type m = CONTENT_TYPE_NONE then
        (if json m \<noteq> [] then APPLICATION_JSON
         else if form m \<noteq> [] then MULTIPART_FORM_DATA
         else if kv m \<noteq> [] then APPLICATION_URLENCODED
         else if body m \<noteq> [] then TEXT_PLAIN
         else content_type m)
      else content_type m)"

text \<open>The part after the label \<open>append\<close>.\<close>

definition append_boundary :: "message \<Rightarrow> message" where
  "append_boundary m =
     (if content_type m = MULTIPART_FORM_DATA then
        (case header_find CT (headers m) of
           Some t \<Rightarrow> if strstr (cstr t) ''boundary='' = None
              then m\<lparr>headers := header_set CT (t @ ''; boundary='' @ DEFAULT_MULTIPART_BOUNDARY) (headers m)\<rparr>
              else m
         | None \<Rightarrow> m)
      else m)"

definition FillContentType :: "message \<Rightarrow> message" where
  "FillContentType m =
     append_boundary (case header_find CT (headers m) of
          Some t \<Rightarrow> m\<lparr>content_type := http_content_type_enum (Some t)\<rparr>
        | None \<Rightarrow>
            m\<lparr>content_type := structured_type m,
              headers := (if structured_type m \<noteq> CONTENT_TYPE_NONE
                then header_set CT (http_content_type_str (structured_type m)) (headers m) else headers m)\<rparr>)"

definition DumpBody :: "env \<Rightarrow> message \<Rightarrow> message cres" where
  "DumpBody e m0 =
     (if body m0 \<noteq> [] then Inr m0
      else let m = FillContentType m0
        in if content_type m = APPLICATION_JSON then Inr (m\<lparr>body := dump_json e (json m)\<rparr>)
           else if content_type m = MULTIPART_FORM_DATA then
             (case header_find CT (headers m) of None \<Rightarrow> Inr m
              | Some t \<Rightarrow> (case strstr (cstr t) ''boundary='' of None \<Rightarrow> Inr m
                  | Some b \<Rightarrow> Inr (m\<lparr>body := dump_multipart e (form m) (drop 9 b),
                      form := map (\<lambda>(k, f). (k, f\<lparr>fcontent := part_content e f\<rparr>)) (form m)\<rparr>)))
           else if content_type m = APPLICATION_URLENCODED then
             cbind (dump_query_params (kv m)) (\<lambda>t. Inr (m\<lparr>body := t\<rparr>))
           else Inr m)"

definition size_int :: "string \<Rightarrow> int" where "size_int s = wrap32 (int (length s))"

definition FillContentLength :: "env \<Rightarrow> message \<Rightarrow> message cres" where
  "FillContentLength e m0 =
     (let found = header_find CL (headers m0);
          m1 = (case found of Some t \<Rightarrow> m0\<lparr>content_length := atoi t\<rparr> | None \<Rightarrow> m0)
      in if found = None \<or> content_length m1 = 0 then
           let m2 = (if content_length m1 = 0 then m1\<lparr>content_length := size_int (body m1)\<rparr> else m1)
           in cbind (if content_length m2 = 0
                     then cbind (DumpBody e m2) (\<lambda>m. Inr (m\<lparr>content_length := size_int (body m)\<rparr>)) else Inr m2)
                (\<lambda>m3. Inr (m3\<lparr>headers := header_set CL (int_to_string (content_length m3)) (headers m3)\<rparr>))
         else Inr m1)"

text \<open>\<open>ContentLength()\<close> fills the length if it is 0.\<close>

definition ContentLength :: "env \<Rightarrow> message \<Rightarrow> (int \<times> message) cres" where
  "ContentLength e m = cbind (if content_length m = 0 then FillContentLength e m else Inr m)
     (\<lambda>m'. Inr (content_length m', m'))"

text \<open>The guard against pseudo headers tests the text written so far, not the name.\<close>

definition header_lines :: "string \<Rightarrow> params \<Rightarrow> string" where
  "header_lines str hs = fold (\<lambda>(k, v) s. if s \<noteq> [] \<and> hd s = CHR '':'' then s else s @ k @ '': '' @ v @ CRLF) hs str"

definition DumpHeaders :: "env \<Rightarrow> string \<Rightarrow> message \<Rightarrow> (string \<times> message) cres" where
  "DumpHeaders e str m =
     cbind (FillContentLength e (FillContentType m)) (\<lambda>m'. Inr (header_lines str (headers m'), m'))"

text \<open>\<open>HttpResponse::Dump(true, false)\<close>.\<close>

definition status_line :: "int \<Rightarrow> string" where
  "status_line code = snprintf256 (''HTTP/1.1 '' @ int_to_string code @ '' '' @ http_status_str code @ CRLF)"

definition Response_Dump :: "env \<Rightarrow> int \<Rightarrow> message \<Rightarrow> (string \<times> message) cres" where
  "Response_Dump e code m =
     cbind (DumpHeaders e (status_line code) (m\<lparr>headers := header_set ''Date'' (http_date e) (headers m)\<rparr>))
       (\<lambda>(str, m'). Inr (str @ CRLF, m'))"


section \<open>Sending a response\<close>

datatype send_state = WANT_RECV | WANT_SEND | SEND_HEADER | SEND_BODY | SEND_DONE

record handler =
  hstate :: send_state
  hmethod :: int
  hcode :: int
  hres :: message
  hheader :: string

text \<open>\<open>append(content, content_length)\<close> from the bytes of the body and their terminator.\<close>

definition body_bytes :: "message \<Rightarrow> int \<Rightarrow> string cres" where
  "body_bytes m n = (if n < 0 \<or> int (length (body m)) + 1 < n then Inl OutOfBounds else Inr (take (nat n) (body m @ [NUL])))"

text \<open>\<open>return_header\<close>: the header is dumped unless it is there already.\<close>

definition return_header :: "env \<Rightarrow> handler \<Rightarrow> (string \<times> handler) cres" where
  "return_header e h = (if hheader h = [] then cbind (Response_Dump e (hcode h) (hres h)) (\<lambda>(s, m). Inr (s, h\<lparr>hheader := s, hres := m\<rparr>))
     else Inr (hheader h, h))"

definition send_header :: "env \<Rightarrow> handler \<Rightarrow> (string \<times> handler) cres" where
  "send_header e h =
     (if hmethod h = HTTP_HEAD then
        return_header e (h\<lparr>hstate := SEND_DONE, hres := (hres h)\<lparr>content_length := 0,
          headers := header_set CL ''0'' (header_set CT ''text/html'' (headers (hres h)))\<rparr>\<rparr>)
      else cbind (ContentLength e (hres h)) (\<lambda>(n, m).
        if body m \<noteq> [] then
          (if 2 ^ 20 < n then return_header e (h\<lparr>hstate := SEND_BODY, hres := m\<rparr>)
           else cbind (Response_Dump e (hcode h) m) (\<lambda>(s, m'). cbind (body_bytes m' n) (\<lambda>b.
             return_header e (h\<lparr>hstate := SEND_DONE, hres := m', hheader := s @ b\<rparr>))))
        else return_header e (h\<lparr>hstate := SEND_DONE, hres := m\<rparr>)))"

text \<open>\<open>GetSendData\<close> without the file service: the bytes to send next; none when the response is sent.\<close>

definition GetSendData :: "env \<Rightarrow> bool \<Rightarrow> handler \<Rightarrow> (string \<times> handler) cres" where
  "GetSendData e is_complete h =
     (case hstate h of
        WANT_RECV \<Rightarrow> if is_complete then send_header e (h\<lparr>hstate := SEND_HEADER\<rparr>) else Inr ([], h)
      | WANT_SEND \<Rightarrow> send_header e (h\<lparr>hstate := SEND_HEADER\<rparr>)
      | SEND_HEADER \<Rightarrow> send_header e h
      | SEND_BODY \<Rightarrow> cbind (ContentLength e (hres h)) (\<lambda>(n, m). cbind (body_bytes m n) (\<lambda>b.
          Inr (b, h\<lparr>hstate := SEND_DONE, hres := m\<rparr>)))
      | SEND_DONE \<Rightarrow> Inr ([], h\<lparr>hheader := []\<rparr>))"

text \<open>The server calls it until it returns no bytes; \<open>None\<close> if \<open>fuel\<close> calls are not enough.\<close>

fun send_all :: "nat \<Rightarrow> env \<Rightarrow> handler \<Rightarrow> string \<Rightarrow> (string \<times> handler) option cres" where
  "send_all 0 e h sent = Inr None"
| "send_all (Suc fuel) e h sent = cbind (GetSendData e True h) (\<lambda>(d, h').
     if d = [] then Inr (Some (sent, h')) else send_all fuel e h' (sent @ d))"

section \<open>Framing\<close>

lemma header_find_set: "header_find k (header_set j v hs) = (if lower k = lower j then Some v else header_find k hs)"
  by (induction hs) auto

lemma lower_names [simp]: "lower CL \<noteq> lower CT" "lower CL \<noteq> lower ''Date''" "lower CT \<noteq> lower CL"
  by code_simp+

lemma append_boundary_fields [simp]:
  "body (append_boundary m) = body m" "content_length (append_boundary m) = content_length m"
  "header_find CL (headers (append_boundary m)) = header_find CL (headers m)"
  unfolding append_boundary_def
  by (cases "header_find CT (headers m)"; simp add: header_find_set)+

lemma FillContentType_fields [simp]:
  "body (FillContentType m) = body m" "content_length (FillContentType m) = content_length m"
  "header_find CL (headers (FillContentType m)) = header_find CL (headers m)"
  unfolding FillContentType_def
  by (cases "header_find CT (headers m)"; simp add: header_find_set)+

lemma fill_length_first:
  assumes "body m \<noteq> []" "content_length m = 0" "header_find CL (headers m) = None" "int (length (body m)) \<le> INT_MAX"
  shows "FillContentLength e m = Inr (m\<lparr>content_length := int (length (body m)),
    headers := header_set CL (int_to_string (int (length (body m)))) (headers m)\<rparr>)"
proof -
  have "size_int (body m) = int (length (body m))" using assms(4) by (simp add: size_int_def wrap32_id limit_defs)
  then show ?thesis using assms(1-3) by (simp add: FillContentLength_def Let_def)
qed

lemma fill_length_again:
  assumes "body m \<noteq> []" "header_find CL (headers m) = Some (int_to_string (int (length (body m))))"
    "int (length (body m)) \<le> INT_MAX"
  shows "FillContentLength e m = Inr (m\<lparr>content_length := int (length (body m))\<rparr>)"
proof -
  have "atoi (int_to_string (int (length (body m)))) = int (length (body m))"
    using assms(3) by (intro atoi_int_to_string) (simp_all add: limit_defs)
  then show ?thesis using assms by (simp add: FillContentLength_def Let_def)
qed

text \<open>A message that declares the length of its body, and its dump.\<close>

definition framed :: "message \<Rightarrow> bool" where
  "framed m = (body m \<noteq> [] \<and> int (length (body m)) \<le> INT_MAX \<and> content_length m = int (length (body m))
     \<and> header_find CL (headers m) = Some (int_to_string (int (length (body m)))))"

lemma dump_framed:
  assumes "framed m"
  shows "\<exists>m'. Response_Dump e code m = Inr (header_lines (status_line code) (headers m') @ CRLF, m')
    \<and> framed m' \<and> body m' = body m"
proof -
  let ?m = "FillContentType (m\<lparr>headers := header_set ''Date'' (http_date e) (headers m)\<rparr>)"
  let ?m' = "?m\<lparr>content_length := int (length (body ?m))\<rparr>"
  have f: "header_find CL (headers ?m) = Some (int_to_string (int (length (body m))))"
    using assms by (simp add: framed_def header_find_set)
  have "FillContentLength e ?m = Inr ?m'" using assms f by (intro fill_length_again) (simp_all add: framed_def)
  moreover have "framed ?m'" using assms f by (simp add: framed_def)
  ultimately show ?thesis by (intro exI[of _ ?m']) (simp add: Response_Dump_def DumpHeaders_def)
qed

lemma send_all_response:
  assumes h: "hstate h = WANT_SEND" "hmethod h \<noteq> HTTP_HEAD" "hheader h = []"
    and m: "body (hres h) \<noteq> []" "content_length (hres h) = 0" "header_find CL (headers (hres h)) = None"
      "int (length (body (hres h))) \<le> INT_MAX"
  shows "\<exists>hs h'. send_all 3 e h [] = Inr (Some (header_lines (status_line (hcode h)) hs @ CRLF @ body (hres h), h'))
    \<and> header_find CL hs = Some (int_to_string (int (length (body (hres h))))) \<and> hstate h' = SEND_DONE \<and> hheader h' = []"
proof -
  let ?b = "body (hres h)" let ?n = "int (length ?b)"
  let ?m = "(hres h)\<lparr>content_length := ?n, headers := header_set CL (int_to_string ?n) (headers (hres h))\<rparr>"
  have cl: "ContentLength e (hres h) = Inr (?n, ?m)"
    using fill_length_first[OF m, of e] m(2) by (simp add: ContentLength_def)
  have fr: "framed ?m" using m by (simp add: framed_def header_find_set)
  from dump_framed[OF fr, of e "hcode h"] obtain m' where
    d: "Response_Dump e (hcode h) ?m = Inr (header_lines (status_line (hcode h)) (headers m') @ CRLF, m')"
      "framed m'" "body m' = ?b" by auto
  let ?hdr = "header_lines (status_line (hcode h)) (headers m') @ CRLF"
  have ne: "?hdr \<noteq> []" by (simp add: CRLF_def)
  have bb: "body_bytes m' ?n = Inr ?b" using d(3) by (simp add: body_bytes_def)
  have find: "header_find CL (headers m') = Some (int_to_string ?n)" using d(2,3) by (simp add: framed_def)
  have three: "(3::nat) = Suc (Suc (Suc 0))" by simp
  show ?thesis
  proof (cases "2 ^ 20 < ?n")
    case True
    let ?h1 = "h\<lparr>hstate := SEND_BODY, hres := m', hheader := ?hdr\<rparr>"
    have s1: "GetSendData e True h = Inr (?hdr, ?h1)"
      using True h cl d(1) m(1) by (simp add: GetSendData_def send_header_def return_header_def)
    have cl2: "ContentLength e m' = Inr (?n, m')" using d(2,3) by (simp add: ContentLength_def framed_def)
    have s2: "GetSendData e True ?h1 = Inr (?b, ?h1\<lparr>hstate := SEND_DONE\<rparr>)"
      using cl2 bb by (simp add: GetSendData_def)
    show ?thesis using s1 s2 ne m(1) find
      by (intro exI[of _ "headers m'"]) (simp add: three GetSendData_def)
  next
    case False
    let ?h1 = "h\<lparr>hstate := SEND_DONE, hres := m', hheader := ?hdr @ ?b\<rparr>"
    have s1: "GetSendData e True h = Inr (?hdr @ ?b, ?h1)"
      using False h cl d(1) m(1) bb ne by (simp add: GetSendData_def send_header_def return_header_def)
    show ?thesis using s1 ne find
      by (intro exI[of _ "headers m'"]) (simp add: three GetSendData_def)
  qed
qed

section \<open>Properties\<close>

text \<open>C17: a response with a body is sent completely: after at most two non-empty pieces the sender is
  done; the pieces together are the status line, the header lines, an empty line and exactly the
  bytes of the body, and the header \<open>Content-Length\<close> declares their number (one piece up to a
  megabyte, two above).\<close>

theorem response_sent:
  assumes "hstate h = WANT_SEND" "hmethod h \<noteq> HTTP_HEAD" "hheader h = []"
    "body (hres h) \<noteq> []" "content_length (hres h) = 0" "header_find ''Content-Length'' (headers (hres h)) = None"
    "int (length (body (hres h))) \<le> INT_MAX"
  shows "\<exists>hs h'. send_all 3 e h [] = Inr (Some (header_lines (status_line (hcode h)) hs @ CRLF @ body (hres h), h'))
    \<and> header_find ''Content-Length'' hs = Some (int_to_string (int (length (body (hres h)))))
    \<and> hstate h' = SEND_DONE \<and> hheader h' = []"
  using assms by (rule send_all_response)

theorem response_sent_witness:
  "\<exists>hs h'. send_all 3 \<lparr>dump_json = (\<lambda>_. ''{}''), read_file = (\<lambda>_. None), http_date = ''now''\<rparr>
      \<lparr>hstate = WANT_SEND, hmethod = HTTP_POST, hcode = 200, hres = message_init\<lparr>body := ''hi''\<rparr>, hheader = []\<rparr> []
    = Inr (Some (header_lines (status_line 200) hs @ CRLF @ ''hi'', h'))
    \<and> header_find ''Content-Length'' hs = Some ''2'' \<and> hstate h' = SEND_DONE \<and> hheader h' = []"
proof -
  let ?h = "\<lparr>hstate = WANT_SEND, hmethod = HTTP_POST, hcode = 200, hres = message_init\<lparr>body := ''hi''\<rparr>, hheader = []\<rparr>"
  have "hmethod ?h \<noteq> HTTP_HEAD" by (simp add: HTTP_POST_def HTTP_HEAD_def)
  moreover have "int_to_string 2 = ''2''" by code_simp
  ultimately show ?thesis
    using response_sent[of ?h "\<lparr>dump_json = (\<lambda>_. ''{}''), read_file = (\<lambda>_. None), http_date = ''now''\<rparr>"]
    by (simp add: message_init_def limit_defs)
qed

end
