(* ===== verification/Http1Session.thy ===== *)
theory Http1Session
  imports HttpSafety HttpMessage
begin

text \<open>
  \<open>src/http/Http1Parser.cpp\<close> and \<open>Http1Parser.h\<close>: the object that owns an \<open>http_parser\<close>, its
  callbacks, which collect a message from the pieces the parser reports, and the operations
  a server and a client call. The object it fills is a request or a response.
\<close>

section \<open>The object\<close>

datatype h1_state =
    HP_START_REQ_OR_RES | HP_MESSAGE_BEGIN | HP_URL | HP_STATUS | HP_HEADER_FIELD
  | HP_HEADER_VALUE | HP_HEADERS_COMPLETE | HP_BODY | HP_MESSAGE_COMPLETE

text \<open>What \<open>parsed\<close> points to. The members a response or a request does not have are not used.\<close>

record parsed =
  p_type :: http_parser_type
  p_msg :: message
  p_major :: int
  p_minor :: int
  p_method :: int
  p_url :: string
  p_status :: int

record Http1Parser =
  h1_flags :: "8 word"
  h1_state :: h1_state
  h1_parsed :: parsed
  h1_url :: string
  header_field :: string
  header_value :: string

definition DEFAULT_USER_AGENT :: string where "DEFAULT_USER_AGENT = 
    ''Mozilla/5.0 (Windows NT 10.0; WOW64) AppleWebKit/537.36 (KHTML, like Gecko) Chrome/63.0.3239.132 Safari/537.36''"

text \<open>\<open>HttpRequest::Reset\<close> and \<open>HttpResponse::Reset\<close>.\<close>

definition Request_Reset :: parsed where
  "Request_Reset = \<lparr> p_type = HTTP_REQUEST,
     p_msg = message_init \<lparr> headers := header_set ''Accept'' ''*/*'' (header_set ''User-Agent'' DEFAULT_USER_AGENT []) \<rparr>,
     p_major = 1, p_minor = 1, p_method = HTTP_GET, p_url = [], p_status = 0 \<rparr>"

definition Response_Reset :: parsed where
  "Response_Reset = \<lparr> p_type = HTTP_RESPONSE, p_msg = message_init, p_major = 1, p_minor = 1,
     p_method = 0, p_url = [], p_status = 200 \<rparr>"

section \<open>Callbacks\<close>

definition upd_msg :: "(message \<Rightarrow> message) \<Rightarrow> Http1Parser \<Rightarrow> Http1Parser" where
  "upd_msg f hp = hp \<lparr> h1_parsed := (h1_parsed hp) \<lparr> p_msg := f (p_msg (h1_parsed hp)) \<rparr> \<rparr>"

definition handle_header :: "Http1Parser \<Rightarrow> Http1Parser" where
  "handle_header hp =
     (if header_field hp \<noteq> [] \<and> header_value hp \<noteq> [] then
        (upd_msg (\<lambda>m. m \<lparr> headers := header_set (header_field hp) (header_value hp) (headers m) \<rparr>) hp)
          \<lparr> header_field := [], header_value := [] \<rparr>
      else hp)"

definition h1_on_url :: "Http1Parser http_data_cb" where
  "h1_on_url ps s hp = Inr (0, hp \<lparr> h1_state := HP_URL, h1_url := h1_url hp @ s \<rparr>)"

definition h1_on_status :: "Http1Parser http_data_cb" where
  "h1_on_status ps s hp = Inr (0, hp \<lparr> h1_state := HP_STATUS \<rparr>)"

definition h1_on_header_field :: "Http1Parser http_data_cb" where
  "h1_on_header_field ps s hp =
     (let hp = handle_header hp
      in Inr (0, hp \<lparr> h1_state := HP_HEADER_FIELD, header_field := header_field hp @ s \<rparr>))"

definition h1_on_header_value :: "Http1Parser http_data_cb" where
  "h1_on_header_value ps s hp =
     Inr (0, hp \<lparr> h1_state := HP_HEADER_VALUE, header_value := header_value hp @ s \<rparr>)"

definition h1_on_body :: "Http1Parser http_data_cb" where
  "h1_on_body ps s hp =
     Inr (0, (upd_msg (\<lambda>m. m \<lparr> body := body m @ s \<rparr>) hp) \<lparr> h1_state := HP_BODY \<rparr>)"

definition h1_on_message_begin :: "Http1Parser http_cb" where
  "h1_on_message_begin ps hp = Inr (0, hp \<lparr> h1_state := HP_MESSAGE_BEGIN \<rparr>)"

text \<open>
  \<open>content_length\<close> is an \<open>int\<close> compared with a \<open>size_t\<close>: a negative one is larger than any
  capacity, and \<open>reserve\<close> throws on it. Reserving a size an \<open>int\<close> holds changes nothing
  observable.
\<close>

definition h1_on_headers_complete :: "Http1Parser http_cb" where
  "h1_on_headers_complete ps hp =
     (let hp = handle_header hp; pd = h1_parsed hp;
          pd = pd \<lparr> p_major := http_major ps, p_minor := http_minor ps \<rparr>;
          pd = (if p_type pd = HTTP_REQUEST then pd \<lparr> p_method := hp_method ps, p_url := h1_url hp \<rparr>
                else pd \<lparr> p_status := hp_status ps \<rparr>);
          skip_body = (p_type pd = HTTP_RESPONSE \<and> p_status pd = 200 \<and> has (h1_flags hp) F_SKIPBODY);
          hs = headers (p_msg pd);
          pd = (case header_find ''content-type'' hs of None \<Rightarrow> pd
                | Some v \<Rightarrow> pd \<lparr> p_msg := (p_msg pd) \<lparr> content_type := http_content_type_enum (Some v) \<rparr> \<rparr>);
          hp = hp \<lparr> h1_state := HP_HEADERS_COMPLETE, h1_parsed := pd \<rparr>;
          rc = (if skip_body then 1 else 0)
      in case header_find ''content-length'' hs of None \<Rightarrow> Inr (rc, hp)
         | Some v \<Rightarrow>
             (let n = atoi v in
              if \<not> skip_body \<and> n < 0 then Inl UncaughtException
              else Inr (rc, upd_msg (\<lambda>m. m \<lparr> content_length := n \<rparr>) hp)))"

definition h1_on_message_complete :: "Http1Parser http_cb" where
  "h1_on_message_complete ps hp = Inr (0, hp \<lparr> h1_state := HP_MESSAGE_COMPLETE \<rparr>)"

definition h1_cbs :: "Http1Parser http_parser_settings" where
  "h1_cbs = \<lparr> on_message_begin = Some h1_on_message_begin, on_url = Some h1_on_url,
     on_status = Some h1_on_status, on_header_field = Some h1_on_header_field,
     on_header_value = Some h1_on_header_value, on_headers_complete = Some h1_on_headers_complete,
     on_body = Some h1_on_body, on_message_complete = Some h1_on_message_complete,
     on_chunk_header = None, on_chunk_complete = None \<rparr>"

section \<open>Operations\<close>

definition InitRequest :: "Http1Parser \<Rightarrow> http_parser \<times> Http1Parser" where
  "InitRequest hp = (http_parser_init HTTP_REQUEST,
     hp \<lparr> h1_parsed := Request_Reset, h1_state := HP_START_REQ_OR_RES, h1_url := [],
          header_field := [], header_value := [] \<rparr>)"

definition InitResponse :: "Http1Parser \<Rightarrow> http_parser \<times> Http1Parser" where
  "InitResponse hp = (http_parser_init HTTP_RESPONSE,
     hp \<lparr> h1_parsed := Response_Reset, h1_url := [], header_field := [], header_value := [] \<rparr>)"

text \<open>\<open>SubmitRequest\<close> notes whether the response will have no body.\<close>

definition SubmitRequest :: "int \<Rightarrow> Http1Parser \<Rightarrow> Http1Parser" where
  "SubmitRequest method hp =
     hp \<lparr> h1_flags := (if method = HTTP_HEAD then h1_flags hp OR F_SKIPBODY else h1_flags hp AND NOT F_SKIPBODY) \<rparr>"

text \<open>The number of bytes is returned as an \<open>int\<close>.\<close>

definition h1_FeedRecvData :: "string \<Rightarrow> http_parser \<times> Http1Parser \<Rightarrow> (int \<times> http_parser \<times> Http1Parser) cres" where
  "h1_FeedRecvData data s = cbind (http_parser_execute h1_cbs data (fst s) (snd s)) (\<lambda>r.
     case r of Ret ps u n \<Rightarrow> Inr (wrap32 (int n), ps, u) | _ \<Rightarrow> Inl Diverges)"

definition WantRecv :: "Http1Parser \<Rightarrow> bool" where "WantRecv hp = (h1_state hp \<noteq> HP_MESSAGE_COMPLETE)"
definition IsComplete :: "Http1Parser \<Rightarrow> bool" where "IsComplete hp = (h1_state hp = HP_MESSAGE_COMPLETE)"

text \<open>A connection that feeds one received buffer after the other, and stops at an error.\<close>

fun feed_all :: "string list \<Rightarrow> http_parser \<times> Http1Parser \<Rightarrow> (http_parser \<times> Http1Parser) cres" where
  "feed_all [] s = Inr s"
| "feed_all (b # bs) s = cbind (h1_FeedRecvData b s) (\<lambda>(n, s'). feed_all bs s')"

section \<open>No assertion fails\<close>

lemma handle_header_simps [simp]:
  "h1_url (handle_header hp) = h1_url hp" "h1_flags (handle_header hp) = h1_flags hp"
  by (simp_all add: handle_header_def upd_msg_def)

interpretation h1: safe_callbacks h1_cbs "\<lambda>e. e = UncaughtException"
proof
  fix f ps u kd g s
  show "on_headers_complete h1_cbs = Some f \<Longrightarrow> holds (\<lambda>e. e = UncaughtException) (\<lambda>_. True) (f ps u)"
    by (auto simp: h1_cbs_def h1_on_headers_complete_def Let_def split: option.split)
  show "data_cb h1_cbs kd = Some g \<Longrightarrow> holds (\<lambda>e. e = UncaughtException) (\<lambda>_. True) (g ps s u)"
    by (cases kd) (auto simp: h1_cbs_def data_cb_def h1_on_url_def h1_on_status_def h1_on_header_field_def
        h1_on_header_value_def h1_on_body_def Let_def)
qed (auto simp: h1_cbs_def h1_on_message_begin_def h1_on_message_complete_def)

lemma feed_keeps_invariant:
  assumes "parser_ok (fst s)"
  shows "h1_FeedRecvData b s = Inl UncaughtException \<or> (\<exists>n s'. h1_FeedRecvData b s = Inr (n, s') \<and> parser_ok (fst s'))"
  using h1.execute_safe[OF assms, of b "snd s"]
  by (cases "http_parser_execute h1_cbs b (fst s) (snd s)") (auto simp: h1_FeedRecvData_def)

text \<open>
  C5: Whatever bytes a server receives, in buffers of any sizes, a parser that starts with
  \<open>InitRequest\<close> returns from every call: no assertion of \<open>http_parser_execute\<close> fails, no byte
  outside a buffer or a table is read, every range of bytes a callback gets lies inside the
  buffer, and the members of the parser stay consistent. The one way out is the exception of
  \<open>reserve\<close> for a negative length. All reads of the parser and all ranges are checked in the
  model, so that each of these faults would be an error value.
\<close>

theorem http_parser_no_assert:
  "feed_all bs (InitRequest hp) = Inl UncaughtException \<or> (\<exists>s. feed_all bs (InitRequest hp) = Inr s \<and> parser_ok (fst s))"
proof -
  have "feed_all bs s = Inl UncaughtException \<or> (\<exists>s'. feed_all bs s = Inr s' \<and> parser_ok (fst s'))"
    if "parser_ok (fst s)" for s
    using that
  proof (induction bs arbitrary: s)
    case (Cons b bs)
    from feed_keeps_invariant[OF Cons.prems, of b] show ?case
    proof
      assume "\<exists>n s'. h1_FeedRecvData b s = Inr (n, s') \<and> parser_ok (fst s')"
      then obtain n s' where f: "h1_FeedRecvData b s = Inr (n, s')" "parser_ok (fst s')" by blast
      from Cons.IH[OF f(2)] f(1) show ?thesis by simp
    qed simp
  qed simp
  then show ?thesis by (simp add: InitRequest_def parser_ok_init)
qed

end
