(* ===== verification/HeaderNames.thy ===== *)
theory HeaderNames
  imports Http1Session
begin

text \<open>
  How the parser recognises the header names it treats specially. The loop over a name keeps
  a state and an index; \<open>name_state\<close> is the state it ends in. A name ends in the state of
  \<open>Content-Length\<close>, \<open>Transfer-Encoding\<close> or \<open>Upgrade\<close> only if it is that word in some case.
\<close>

section \<open>Header names\<close>

text \<open>What one token byte does to \<open>header_state\<close> and \<open>index\<close> in a name.\<close>

definition field_step :: "header_state \<Rightarrow> nat \<Rightarrow> char \<Rightarrow> header_state \<times> nat" where
  "field_step hs i c =
     (let j = (i + 1) mod 128; mt = (\<lambda>word hit. (match_word word h_general hit hs j c, j)) in
      case hs of
        h_general \<Rightarrow> (h_general, i)
      | h_C \<Rightarrow> (if c = CHR ''o'' then h_CO else h_general, j)
      | h_CO \<Rightarrow> (if c = CHR ''n'' then h_CON else h_general, j)
      | h_CON \<Rightarrow> (if c = CHR ''n'' then h_matching_connection
           else if c = CHR ''t'' then h_matching_content_length else h_general, j)
      | h_matching_connection \<Rightarrow> mt ''connection'' h_connection
      | h_matching_proxy_connection \<Rightarrow> mt ''proxy-connection'' h_connection
      | h_matching_content_length \<Rightarrow> mt ''content-length'' h_content_length
      | h_matching_transfer_encoding \<Rightarrow> mt ''transfer-encoding'' h_transfer_encoding
      | h_matching_upgrade \<Rightarrow> mt ''upgrade'' h_upgrade
      | _ \<Rightarrow> (h_general, i))"

fun field_scan :: "header_state \<Rightarrow> nat \<Rightarrow> string \<Rightarrow> header_state \<times> nat" where
  "field_scan hs i [] = (hs, i)"
| "field_scan hs i (c # cs) = field_scan (fst (field_step hs i c)) (snd (field_step hs i c)) cs"

lemma field_step_states: "hs \<in> set field_states \<Longrightarrow> fst (field_step hs i c) \<in> set field_states"
  by (simp add: field_states_def) (elim disjE; simp add: field_step_def Let_def match_word_def)

lemma field_char_step:
  assumes "header_state ps \<in> set field_states" "header_state ps \<noteq> h_general" "ch \<noteq> CHR '' ''"
  shows "field_char ch c ps = Inr (ps \<lparr> header_state := fst (field_step (header_state ps) (hp_index ps) c),
     hp_index := snd (field_step (header_state ps) (hp_index ps) c) \<rparr>)"
  using assms
  by (simp add: field_states_def)
    (elim disjE; simp add: field_char_def field_step_def match_field_def inc_index_def Let_def)

lemma skip_tokens_before:
  "p < e \<Longrightarrow> e < length data \<Longrightarrow> TOKEN (data ! e) = NUL \<Longrightarrow> skip_tokens data lmt p = Inr q \<Longrightarrow> q < e"
proof (induction data lmt p rule: skip_tokens.induct)
  case (1 data lmt p)
  have rd: "rd data (p + 1) = Inr (data ! (p + 1))" using "1.prems"(1,2) by (simp add: rd_def)
  show ?case
  proof (cases "p + 1 < lmt \<and> TOKEN (data ! (p + 1)) \<noteq> NUL")
    case True
    then have "p + 1 \<noteq> e" using "1.prems"(3) by auto
    then have "p + 1 < e" using "1.prems"(1) by simp
    moreover have "skip_tokens data lmt (p + 1) = Inr q"
      using True rd "1.prems"(4) by (subst (asm) skip_tokens.simps) simp
    ultimately show ?thesis using 1(1)[OF conjunct1[OF True] rd conjunct2[OF True]] "1.prems"(2,3) by blast
  next
    case False
    with rd "1.prems"(4) have "q = p" by (subst (asm) skip_tokens.simps) (simp split: if_split_asm)
    with "1.prems"(1) show ?thesis by simp
  qed
qed

lemma nth_part: "drop p (data :: string) = xs @ x # t \<Longrightarrow> data ! (p + length xs) = x \<and> p + length xs < length data"
proof -
  assume d: "drop p data = xs @ x # t"
  have "drop (p + length xs) data = drop (length xs) (drop p data)" by (simp add: add.commute)
  also have "\<dots> = x # t" unfolding d by simp
  finally have "drop (p + length xs) data = x # t" .
  from drop_lt[OF this] rd_drop[OF this] show "data ! (p + length xs) = x \<and> p + length xs < length data"
    by (simp add: rd_def)
qed

lemma field_loop_tokens:
  assumes "drop p data = cs @ x # t" "\<forall>c \<in> set cs. TOKEN c \<noteq> NUL" "TOKEN x = NUL" "header_state ps = h_general"
  shows "field_loop data p ps = Inr (p + length cs, ps)"
  using assms
proof (induction "length cs" arbitrary: cs p rule: less_induct)
  case less
  show ?case
  proof (cases cs)
    case Nil
    with less.prems have "data ! p = x" "p < length data" using nth_part[of p data "[]"] by auto
    with Nil less.prems(3) show ?thesis by (simp add: field_loop_stop)
  next
    case (Cons c ds)
    let ?e = "p + length cs"
    have e: "data ! ?e = x" "?e < length data" using nth_part[OF less.prems(1)] by auto
    then obtain q where sk: "skip_tokens data (field_limit data p) p = Inr q" "p \<le> q"
      using field_skip[of p data] by (metis add_lessD1)
    have q: "q < ?e"
      by (rule skip_tokens_before[OF _ e(2) _ sk(1)]) (use e less.prems(3) Cons in simp_all)
    let ?k = "q + 1 - p"
    have "drop (q + 1) data = drop ?k (drop p data)" using sk(2) by simp
    also have "\<dots> = drop ?k cs @ x # t" using q less.prems(1) by simp
    finally have d: "drop (q + 1) data = drop ?k cs @ x # t" .
    have lk: "length (drop ?k cs) = length cs - ?k" by simp
    have k: "length (drop ?k cs) < length cs" "q + 1 + length (drop ?k cs) = p + length cs"
      unfolding lk using q sk(2) by linarith+
    have "field_loop data (q + 1) ps = Inr (q + 1 + length (drop ?k cs), ps)"
      using less.hyps[OF k(1) d] less.prems(2-4) by (meson in_set_dropD)
    moreover have "data ! p = c" "TOKEN c \<noteq> NUL" "p < length data"
      using less.prems(1,2) Cons nth_part[of p data "[]" c] by auto
    ultimately show ?thesis using k(2) field_loop_general[OF _ _ less.prems(4) sk(1)] by simp
  qed
qed

lemma TOKEN_space: "TOKEN c \<noteq> NUL \<Longrightarrow> c \<noteq> CHR '' ''"
  by (auto simp: STRICT_TOKEN_def)

lemma field_scan_general [simp]: "field_scan h_general i cs = (h_general, i)"
  by (induction cs) (simp_all add: field_step_def Let_def)

lemma field_loop_scan:
  assumes "drop p data = cs @ x # t" "\<forall>c \<in> set cs. TOKEN c \<noteq> NUL" "TOKEN x = NUL" "header_state ps \<in> set field_states"
  shows "field_loop data p ps = Inr (p + length cs,
     ps \<lparr> header_state := fst (field_scan (header_state ps) (hp_index ps) (map TOKEN cs)),
          hp_index := snd (field_scan (header_state ps) (hp_index ps) (map TOKEN cs)) \<rparr>)"
  using assms
proof (induction cs arbitrary: p ps)
  case Nil
  then have "data ! p = x" "p < length data" using nth_part[of p data "[]"] by auto
  with Nil show ?case by (simp add: field_loop_stop)
next
  case (Cons c cs)
  show ?case
  proof (cases "header_state ps = h_general")
    case True
    have "ps \<lparr> header_state := h_general, hp_index := hp_index ps \<rparr> = ps" using True by simp
    with field_loop_tokens[OF Cons.prems(1-3) True] show ?thesis
      by (simp only: True field_scan_general fst_conv snd_conv)
  next
    case False
    let ?r = "field_step (header_state ps) (hp_index ps) (TOKEN c)"
    let ?ps = "ps \<lparr> header_state := fst ?r, hp_index := snd ?r \<rparr>"
    have c: "data ! p = c" "p < length data" "TOKEN c \<noteq> NUL" using Cons.prems nth_part[of p data "[]" c] by auto
    have f: "field_char c (TOKEN c) ps = Inr ?ps"
      by (rule field_char_step[OF Cons.prems(4) False TOKEN_space[OF c(3)]])
    have "field_loop data p ps = field_loop data (p + 1) ?ps"
      using c f field_loop_step[OF _ _ False, of p data] by simp
    moreover have "drop (p + 1) data = cs @ x # t" using rd_drop[of p data c] Cons.prems(1) by simp
    ultimately show ?thesis
      using Cons.IH[of "p + 1" ?ps] Cons.prems field_step_states[OF Cons.prems(4), of "hp_index ps" "TOKEN c"] by simp
  qed
qed


text \<open>The three names that change how the body is read, and how far a prefix of them has been seen.\<close>

definition seen :: "string \<Rightarrow> string \<Rightarrow> nat \<Rightarrow> bool" where
  "seen word w i = (w \<noteq> [] \<and> length w < length word \<and> w = take (length w) word \<and> i + 1 = length w)"

definition name_inv :: "string \<Rightarrow> header_state \<Rightarrow> nat \<Rightarrow> bool" where
  "name_inv w hs i = (case hs of
       h_C \<Rightarrow> w = ''c'' \<and> i = 0
     | h_CO \<Rightarrow> w = ''co'' \<and> i = 1
     | h_CON \<Rightarrow> w = ''con'' \<and> i = 2
     | h_matching_content_length \<Rightarrow> seen ''content-length'' w i
     | h_matching_transfer_encoding \<Rightarrow> seen ''transfer-encoding'' w i
     | h_matching_upgrade \<Rightarrow> seen ''upgrade'' w i
     | h_content_length \<Rightarrow> w = ''content-length''
     | h_transfer_encoding \<Rightarrow> w = ''transfer-encoding''
     | h_upgrade \<Rightarrow> w = ''upgrade''
     | _ \<Rightarrow> True)"

lemma seen_step:
  assumes "seen word w i" "length word < 100" "c \<noteq> NUL"
  shows "match_word word miss hit stay ((i + 1) mod 128) c = miss
    \<or> (match_word word miss hit stay ((i + 1) mod 128) c = hit \<and> w @ [c] = word)
    \<or> (match_word word miss hit stay ((i + 1) mod 128) c = stay \<and> seen word (w @ [c]) ((i + 1) mod 128))"
proof -
  have l: "length w < length word" "w = take (length w) word" "i + 1 = length w" using assms(1) by (auto simp: seen_def)
  have j: "(i + 1) mod 128 = length w" using l assms(2) by simp
  have t: "take (Suc (length w)) word = w @ [word ! length w]"
    using take_Suc_conv_app_nth[OF l(1)] by (simp only: l(2)[symmetric])
  show ?thesis
  proof (cases "c = word ! length w")
    case True
    then have m: "match_word word miss hit stay ((i + 1) mod 128) c = (if length w = length word - 1 then hit else stay)"
      unfolding match_word_def j using l(1) by (simp add: nth_append not_less)
    show ?thesis
    proof (cases "length w = length word - 1")
      case True
      then have "Suc (length w) = length word" using l(1) by simp
      then have "take (Suc (length w)) word = word" by simp
      with t have "w @ [c] = word" by (simp only: \<open>c = word ! length w\<close>)
      with m True show ?thesis by simp
    next
      case False
      then have "seen word (w @ [c]) ((i + 1) mod 128)"
        unfolding j seen_def using t \<open>c = word ! length w\<close> l(1) by auto
      with m False show ?thesis by simp
    qed
  next
    case False
    then show ?thesis unfolding match_word_def j using l(1) by (simp add: nth_append)
  qed
qed

lemma name_inv_step:
  assumes "name_inv w hs i" "hs \<in> set field_states" "c \<noteq> NUL"
  shows "name_inv (w @ [c]) (fst (field_step hs i c)) (snd (field_step hs i c))"
proof -
  note st = seen_step[where miss = h_general, OF _ _ assms(3)]
  show ?thesis
  proof (cases hs)
    case h_matching_content_length
    with assms st[of "''content-length''" w i h_content_length hs] show ?thesis
      by (auto simp: name_inv_def field_step_def Let_def)
  next
    case h_matching_transfer_encoding
    with assms st[of "''transfer-encoding''" w i h_transfer_encoding hs] show ?thesis
      by (auto simp: name_inv_def field_step_def Let_def)
  next
    case h_matching_upgrade
    with assms st[of "''upgrade''" w i h_upgrade hs] show ?thesis
      by (auto simp: name_inv_def field_step_def Let_def)
  next
    case h_CON
    with assms show ?thesis by (simp add: name_inv_def field_step_def Let_def seen_def)
  qed (use assms in \<open>simp_all add: name_inv_def field_step_def Let_def match_word_def field_states_def\<close>)
qed


lemma name_inv_scan:
  assumes "name_inv w hs i" "hs \<in> set field_states" "\<forall>c \<in> set cs. c \<noteq> NUL"
  shows "name_inv (w @ cs) (fst (field_scan hs i cs)) (snd (field_scan hs i cs))"
  using assms
proof (induction cs arbitrary: w hs i)
  case (Cons c cs)
  have "name_inv ((w @ [c]) @ cs) (fst (field_scan (fst (field_step hs i c)) (snd (field_step hs i c)) cs))
      (snd (field_scan (fst (field_step hs i c)) (snd (field_step hs i c)) cs))"
    by (rule Cons.IH[OF name_inv_step[OF Cons.prems(1,2)] field_step_states[OF Cons.prems(2)]]) (use Cons.prems in simp_all)
  then show ?case by simp
qed simp

definition name_state :: "string \<Rightarrow> header_state" where
  "name_state name = (case map TOKEN name of [] \<Rightarrow> h_general
     | c # cs \<Rightarrow> fst (field_scan (first_header_state c) 0 cs))"

definition token :: "string \<Rightarrow> bool" where
  "token s = (s \<noteq> [] \<and> (\<forall>c \<in> set s. TOKEN c \<noteq> NUL))"

lemma first_header_states: "first_header_state c \<in> set field_states"
  by (simp add: first_header_state_def field_states_def)

lemma name_state_word:
  assumes "token name"
  shows "name_state name = h_content_length \<Longrightarrow> map TOKEN name = ''content-length''"
    and "name_state name = h_transfer_encoding \<Longrightarrow> map TOKEN name = ''transfer-encoding''"
    and "name_state name = h_upgrade \<Longrightarrow> map TOKEN name = ''upgrade''"
proof -
  obtain c cs where n: "name = c # cs" "TOKEN c \<noteq> NUL" "\<forall>c \<in> set (map TOKEN cs). c \<noteq> NUL"
    using assms by (auto simp: token_def neq_Nil_conv)
  have "name_inv [TOKEN c] (first_header_state (TOKEN c)) 0"
    by (simp add: name_inv_def first_header_state_def seen_def)
  from name_inv_scan[OF this first_header_states n(3)]
  have i: "name_inv (map TOKEN name) (name_state name) (snd (field_scan (first_header_state (TOKEN c)) 0 (map TOKEN cs)))"
    using n(1) by (simp add: name_state_def)
  show "name_state name = h_content_length \<Longrightarrow> map TOKEN name = ''content-length''"
    "name_state name = h_transfer_encoding \<Longrightarrow> map TOKEN name = ''transfer-encoding''"
    "name_state name = h_upgrade \<Longrightarrow> map TOKEN name = ''upgrade''"
    using i by (simp_all add: name_inv_def)
qed

lemma name_state_content_length: "map TOKEN name = ''content-length'' \<Longrightarrow> name_state name = h_content_length"
  by (simp add: name_state_def first_header_state_def field_step_def match_word_def Let_def)

lemma tokens_tab_lower:
  "list_all (\<lambda>(n, t). t = NUL \<or> byte_of t = (if 65 \<le> n \<and> n \<le> 90 then n + 32 else n)) (zip [0..127] tokens_tab)"
  by code_simp

lemma TOKEN_lower:
  assumes "TOKEN c \<noteq> NUL"
  shows "TOKEN c = tolower c"
proof -
  have c: "TOKEN c = tokens_tab ! nat (byte_of c)" "byte_of c < 128"
    using assms by (auto simp: STRICT_TOKEN_def tokens_def split: if_splits)
  let ?n = "nat (byte_of c)"
  have n: "?n < 128" by (subst nat_less_iff) (use c(2) in simp_all)
  have len: "length tokens_tab = 128" by (simp add: tokens_tab_def)
  have "length (zip [0..127] tokens_tab) = 128" by (simp add: len)
  with n have "(zip [0..127] tokens_tab) ! ?n \<in> set (zip [0..127] tokens_tab)" by (intro nth_mem) simp
  moreover have "(zip [0..127] tokens_tab) ! ?n = (byte_of c, tokens_tab ! ?n)"
    using n c(2) by (subst nth_zip) (simp_all add: len nth_upto of_nat_of_char)
  ultimately have "TOKEN c = NUL \<or> byte_of (TOKEN c) = (if 65 \<le> byte_of c \<and> byte_of c \<le> 90 then byte_of c + 32 else byte_of c)"
    using tokens_tab_lower unfolding c(1) list_all_iff by fastforce
  with assms have "char_of (byte_of (TOKEN c)) = tolower c" by (auto simp: tolower_def)
  then show ?thesis by simp
qed

lemma TOKEN_marks [simp]: "TOKEN CR = NUL" "TOKEN LF = NUL" "TOKEN (CHR '':'') = NUL"
  by code_simp+

end
