(* ===== verification/RequestHead.thy ===== *)
theory RequestHead
  imports HeaderNames
begin

text \<open>
  What the HTTP/1 parser makes of the head of a well-formed request: the bytes of a request
  line and of header lines give the method, the target and the headers. The lemmas follow the text of a
  request from left to right; each says where the loop of \<open>http_parser_execute\<close> is after one
  of its parts.
\<close>

section \<open>Steps of the loop\<close>

text \<open>In one buffer given to a fresh parser, \<open>nread\<close> counts the bytes up to \<open>p\<close>.\<close>

definition hat :: "http_parser \<Rightarrow> pstate \<Rightarrow> (data_kind \<Rightarrow> nat option) \<Rightarrow> nat \<Rightarrow> 'u \<Rightarrow> 'u hx" where
  "hat ps s m p u = \<lparr> prs = ps, p_state = s, nread = int p + 1, marks = m, pos = p, usr = u \<rparr>"

abbreviation nomark :: "data_kind \<Rightarrow> nat option" where "nomark \<equiv> (\<lambda>_. None)"

lemma hat_simps [simp]:
  "prs (hat ps s m p u) = ps" "p_state (hat ps s m p u) = s" "nread (hat ps s m p u) = int p + 1"
  "marks (hat ps s m p u) = m" "pos (hat ps s m p u) = p" "usr (hat ps s m p u) = u"
  by (simp_all add: hat_def)

lemma hat_upd [simp]:
  "(hat ps s m p u) \<lparr> prs := ps' \<rparr> = hat ps' s m p u"
  "(hat ps s m p u) \<lparr> p_state := s' \<rparr> = hat ps s' m p u"
  "(hat ps s m p u) \<lparr> marks := m' \<rparr> = hat ps s m' p u"
  "(hat ps s m p u) \<lparr> usr := u' \<rparr> = hat ps s m p u'"
  by (simp_all add: hat_def)

lemma exec_next:
  assumes sw: "switch st data (hat ps s m p u) = Inr (Brk (hat ps' s' m' p' u'))"
    and "p' + 1 < length data" "PARSING_HEADER s'" "p' + 2 \<le> 81920"
  shows "exec_loop st data (hat ps s m p u) = exec_loop st data (hat ps' s' m' (p' + 1) u')"
proof -
  have "loop_head ((hat ps' s' m' p' u') \<lparr> pos := p' + 1 \<rparr>) = Inr (Again (hat ps' s' m' (p' + 1) u'))"
    using assms(3,4) by (simp add: loop_head_def COUNT_HEADER_SIZE_def Let_def max_header_size_def hat_def)
  then have "loop_round st data (hat ps s m p u) = Inr (Again (hat ps' s' m' (p' + 1) u'))"
    using assms(2) by (simp add: loop_round_def sw Let_def)
  then show ?thesis by (subst exec_loop.simps) simp
qed

lemma exec_again:
  assumes "switch st data h = Inr (Again h')"
  shows "exec_loop st data h = exec_loop st data h'"
  using assms by (subst exec_loop.simps) (simp add: loop_round_def)

text \<open>A byte that the switch takes with a plain \<open>break\<close>.\<close>

lemma exec_char:
  assumes d: "drop p data = c # t" and t: "t \<noteq> []"
    and sw: "p < length data \<Longrightarrow> data ! p = c \<Longrightarrow> switch st data (hat ps s m p u) = Inr (Brk (hat ps' s' m' p u'))"
    and "PARSING_HEADER s'" "p + 2 \<le> 81920"
  shows "exec_loop st data (hat ps s m p u) = exec_loop st data (hat ps' s' m' (p + 1) u')"
    and "drop (p + 1) data = t"
proof -
  have l: "p < length data" and n: "data ! p = c" and r: "drop (Suc p) data = t"
    using drop_lt[OF d] rd_drop[OF d] by (auto simp: rd_def)
  have "p + 1 < length data" using r t by (metis Suc_eq_plus1 drop_all not_le)
  from exec_next[OF sw[OF l n] this assms(4,5)]
  show "exec_loop st data (hat ps s m p u) = exec_loop st data (hat ps' s' m' (p + 1) u')" .
  show "drop (p + 1) data = t" using r by simp
qed

section \<open>The method\<close>

text \<open>The method after the bytes \<open>cs\<close>, from method \<open>m\<close> and index \<open>i\<close>.\<close>

fun method_scan :: "int \<Rightarrow> nat \<Rightarrow> string \<Rightarrow> int option" where
  "method_scan m i [] = (if method_char m i = Inr NUL then Some m else None)"
| "method_scan m i (c # cs) =
     (if c = NUL \<or> c = CHR '' '' \<or> 100 < i then None
      else if method_char m i = Inr c then method_scan m (i + 1) cs
      else if no_ub (method_char m i) \<and> ((65 \<le> byte_of c \<and> byte_of c \<le> 90) \<or> c = CHR ''-'') then
        (case map_of method_switch (m, i, c) of None \<Rightarrow> None | Some m' \<Rightarrow> method_scan m' (i + 1) cs)
      else None)"

lemma method_names:
  assumes "(m, name) \<in> set http_method_map"
  obtains c cs m0 where "name = c # cs" "IS_ALPHA c" "c \<noteq> CR" "c \<noteq> LF" "first_method c = Some m0" "method_scan m0 1 cs = Some m"
proof -
  have "list_all (\<lambda>(m, name). case name of [] \<Rightarrow> False
    | c # cs \<Rightarrow> IS_ALPHA c \<and> c \<noteq> CR \<and> c \<noteq> LF \<and>
        (case first_method c of None \<Rightarrow> False | Some m0 \<Rightarrow> method_scan m0 1 cs = Some m)) http_method_map"
    by code_simp
  with assms show ?thesis using that by (fastforce simp: list_all_iff split: list.splits option.splits)
qed


lemma method_char_step:
  assumes scan: "method_scan m i (c # cs) = Some m'" and ps: "hp_method ps = m" "hp_index ps = i"
    and d: "drop p data = c # t" "t \<noteq> []" "p + 2 \<le> 81920"
  shows "\<exists>m1. method_scan m1 (i + 1) cs = Some m' \<and> i + 1 \<le> 101 \<and>
      exec_loop st data (hat ps s_req_method nomark p u)
        = exec_loop st data (hat (ps \<lparr> hp_method := m1, hp_index := i + 1 \<rparr>) s_req_method nomark (p + 1) u)"
proof -
  have i: "c \<noteq> NUL" "c \<noteq> CHR '' ''" "\<not> 100 < i" using scan by (auto split: if_splits)
  have "\<exists>m1. method_scan m1 (i + 1) cs = Some m' \<and> (p < length data \<longrightarrow> data ! p = c \<longrightarrow>
      switch st data (hat ps s_req_method nomark p u)
        = Inr (Brk (hat (ps \<lparr> hp_method := m1, hp_index := i + 1 \<rparr>) s_req_method nomark p u)))"
  proof (cases "method_char m i = Inr c")
    case True
    with scan i have "method_scan m (i + 1) cs = Some m'" by simp
    moreover have "ps \<lparr> hp_method := m, hp_index := i + 1 \<rparr> = inc_index ps"
      using ps i by (simp add: inc_index_def)
    ultimately show ?thesis using True ps i
      by (intro exI[of _ m]) (simp add: switch_at case_req_method_def)
  next
    case False
    with scan i obtain e m1 where e: "method_char m i = Inr e" "(65 \<le> byte_of c \<and> byte_of c \<le> 90) \<or> c = CHR ''-''"
      and m1: "map_of method_switch (m, i, c) = Some m1" "method_scan m1 (i + 1) cs = Some m'"
      by (auto simp: no_ub_iff split: if_splits option.splits)
    have "ps \<lparr> hp_method := m1, hp_index := i + 1 \<rparr> = inc_index (ps \<lparr> hp_method := m1 \<rparr>)"
      using ps i by (simp add: inc_index_def)
    with e m1 False ps i show ?thesis
      by (intro exI[of _ m1]) (auto simp: switch_at case_req_method_def)
  qed
  then obtain m1 where m1: "method_scan m1 (i + 1) cs = Some m'" and sw: "p < length data \<Longrightarrow> data ! p = c \<Longrightarrow>
      switch st data (hat ps s_req_method nomark p u)
        = Inr (Brk (hat (ps \<lparr> hp_method := m1, hp_index := i + 1 \<rparr>) s_req_method nomark p u))" by blast
  from exec_char(1)[OF d(1,2) sw] d(3) m1 i show ?thesis by (auto simp: PARSING_HEADER_def)
qed

lemma exec_method:
  assumes "method_scan m i cs = Some m'" "hp_method ps = m" "hp_index ps = i" "i \<le> 101"
    "drop p data = cs @ CHR '' '' # t" "t \<noteq> []" "p + length cs + 2 \<le> 81920"
  shows "\<exists>i'. exec_loop st data (hat ps s_req_method nomark p u)
      = exec_loop st data (hat (ps \<lparr> hp_method := m', hp_index := i' \<rparr>) s_req_spaces_before_url nomark (p + length cs + 1) u)"
  using assms
proof (induction cs arbitrary: m i ps p)
  case Nil
  then have c: "method_char m i = Inr NUL" "m' = m" by (auto split: if_splits)
  have "exec_loop st data (hat ps s_req_method nomark p u) = exec_loop st data (hat (inc_index ps) s_req_spaces_before_url nomark (p + 1) u)"
    by (rule exec_char(1)[where c = "CHR '' ''" and t = t])
      (use Nil c in \<open>simp_all add: switch_at case_req_method_def NUL_def PARSING_HEADER_def\<close>)
  moreover have "inc_index ps = ps \<lparr> hp_method := m', hp_index := (i + 1) mod 128 \<rparr>"
    using Nil c by (simp add: inc_index_def)
  ultimately show ?case by auto
next
  case (Cons c cs)
  have d: "drop p data = c # (cs @ CHR '' '' # t)" using Cons.prems by simp
  from method_char_step[OF Cons.prems(1-3) d, of st u] Cons.prems(7)
  obtain m1 where m1: "method_scan m1 (i + 1) cs = Some m'" "i + 1 \<le> 101"
    and e: "exec_loop st data (hat ps s_req_method nomark p u)
      = exec_loop st data (hat (ps \<lparr> hp_method := m1, hp_index := i + 1 \<rparr>) s_req_method nomark (p + 1) u)" by auto
  have "drop (p + 1) data = cs @ CHR '' '' # t" using rd_drop[OF d] by simp
  from Cons.IH[OF m1(1) _ _ m1(2) this Cons.prems(6), of "ps \<lparr> hp_method := m1, hp_index := i + 1 \<rparr>"] e Cons.prems(7)
  show ?case by simp
qed

text \<open>Where the rest of the buffer is after a part of it.\<close>

lemma drop_part: "drop p data = xs @ t \<Longrightarrow> drop (p + length xs) data = t"
  by (metis append_eq_conv_conj drop_drop add.commute)

section \<open>The target\<close>

definition origin_states :: "pstate list" where
  "origin_states = [s_req_path, s_req_query_string_start, s_req_query_string, s_req_fragment_start, s_req_fragment]"

text \<open>A target in origin form that the URL automaton accepts.\<close>

definition target_ok :: "string \<Rightarrow> bool" where
  "target_ok url = (case url of [] \<Rightarrow> False
     | c # cs \<Rightarrow> c = CHR ''/'' \<and> foldl parse_url_char s_req_path cs \<noteq> s_dead)"

lemma parse_dead: "parse_url_char s_dead c = s_dead"
  by (simp add: parse_url_char_def)

lemma foldl_dead: "foldl parse_url_char s_dead cs = s_dead"
  by (induction cs) (simp_all add: parse_dead)

lemma origin_step:
  assumes "s \<in> set origin_states" "parse_url_char s c \<noteq> s_dead"
  shows "parse_url_char s c \<in> set origin_states" "c \<noteq> CHR '' ''" "c \<noteq> CR" "c \<noteq> LF"
proof -
  show "c \<noteq> CHR '' ''" "c \<noteq> CR" "c \<noteq> LF" using assms(2) by (auto simp only: parse_url_char_def simp_thms if_True)
  show "parse_url_char s c \<in> set origin_states" using assms
    by (simp only: origin_states_def set_simps insert_iff empty_iff, elim disjE)
      (simp_all add: parse_url_char_def origin_states_def split: if_splits)
qed

lemma switch_origin:
  assumes "s \<in> set origin_states" "p < length data"
  shows "switch st data (hat ps s m p u) = case_url st data (data ! p) (hat ps s m p u)"
  using assms by (auto simp: origin_states_def switch_at)

lemma PARSING_origin: "s \<in> set origin_states \<Longrightarrow> PARSING_HEADER s"
  by (auto simp: origin_states_def PARSING_HEADER_def)

lemma exec_target:
  assumes "s \<in> set origin_states" "foldl parse_url_char s cs \<noteq> s_dead"
    "drop p data = cs @ t" "t \<noteq> []" "p + length cs + 1 \<le> 81920"
  shows "\<exists>s'. s' \<in> set origin_states \<and> exec_loop st data (hat ps s m p u) = exec_loop st data (hat ps s' m (p + length cs) u)"
  using assms
proof (induction cs arbitrary: s p)
  case (Cons c cs)
  let ?s = "parse_url_char s c"
  have nd: "?s \<noteq> s_dead" using Cons.prems(2) foldl_dead by auto
  note o = origin_step[OF Cons.prems(1) nd]
  have d: "drop p data = c # (cs @ t)" using Cons.prems(3) by simp
  have sw: "p < length data \<Longrightarrow> data ! p = c \<Longrightarrow> switch st data (hat ps s m p u) = Inr (Brk (hat ps ?s m p u))"
    using o nd by (simp add: switch_origin[OF Cons.prems(1)] case_url_def url_byte_def Let_def)
  have e: "exec_loop st data (hat ps s m p u) = exec_loop st data (hat ps ?s m (p + 1) u)"
    by (rule exec_char(1)[OF d _ sw PARSING_origin[OF o(1)]]) (use Cons.prems(4,5) in simp_all)
  have d': "drop (p + 1) data = cs @ t" using rd_drop[OF d] by simp
  from Cons.IH[OF o(1) _ d' Cons.prems(4)] Cons.prems(2,5) e show ?case by simp
qed auto


section \<open>The callbacks of the session\<close>

lemma cb_begin: "http_errno ps = HPE_OK \<Longrightarrow>
    CALLBACK_NOTIFY_ER (on_message_begin h1_cbs) e er (hat ps s m p u) k
      = k (hat (ps \<lparr> hp_state := s \<rparr>) s m p (u \<lparr> h1_state := HP_MESSAGE_BEGIN \<rparr>))"
  by (simp add: CALLBACK_NOTIFY_ER_def h1_cbs_def h1_on_message_begin_def Let_def)

lemma cb_complete: "http_errno (prs h) = HPE_OK \<Longrightarrow>
    CALLBACK_NOTIFY_ER (on_message_complete h1_cbs) e er h k
      = k (h \<lparr> prs := (prs h) \<lparr> hp_state := p_state h \<rparr>, usr := (usr h) \<lparr> h1_state := HP_MESSAGE_COMPLETE \<rparr> \<rparr>)"
  by (simp add: CALLBACK_NOTIFY_ER_def h1_cbs_def h1_on_message_complete_def Let_def)

lemma slice:
  assumes "drop a data = xs @ x # t" "b = a + length xs"
  shows "buf_slice data a b = Inr xs"
  using assms nth_part[OF assms(1)] by (simp add: buf_slice_def)

definition url_seen :: "string \<Rightarrow> Http1Parser \<Rightarrow> Http1Parser" where
  "url_seen s hp = hp \<lparr> h1_state := HP_URL, h1_url := h1_url hp @ s \<rparr>"

definition field_seen :: "string \<Rightarrow> Http1Parser \<Rightarrow> Http1Parser" where
  "field_seen s hp = (let hp = handle_header hp
     in hp \<lparr> h1_state := HP_HEADER_FIELD, header_field := header_field hp @ s \<rparr>)"

definition value_seen :: "string \<Rightarrow> Http1Parser \<Rightarrow> Http1Parser" where
  "value_seen s hp = hp \<lparr> h1_state := HP_HEADER_VALUE, header_value := header_value hp @ s \<rparr>"

lemma cb_data:
  assumes "http_errno ps = HPE_OK" "m kd = Some a" "buf_slice data a hi = Inr xs"
  shows "kd = K_url \<Longrightarrow> CALLBACK_DATA_ER h1_cbs data kd hi er (hat ps s m p u) k
      = k (hat (ps \<lparr> hp_state := s \<rparr>) s (m(kd := None)) p (url_seen xs u))"
    and "kd = K_header_field \<Longrightarrow> CALLBACK_DATA_ER h1_cbs data kd hi er (hat ps s m p u) k
      = k (hat (ps \<lparr> hp_state := s \<rparr>) s (m(kd := None)) p (field_seen xs u))"
    and "kd = K_header_value \<Longrightarrow> CALLBACK_DATA_ER h1_cbs data kd hi er (hat ps s m p u) k
      = k (hat (ps \<lparr> hp_state := s \<rparr>) s (m(kd := None)) p (value_seen xs u))"
  using assms by (simp_all add: CALLBACK_DATA_ER_def h1_cbs_def data_cb_def h1_on_url_def h1_on_header_field_def
      h1_on_header_value_def url_seen_def field_seen_def value_seen_def Let_def)

section \<open>The request line\<close>

text \<open>The members of the parser that matter once the request line is read.\<close>

definition req_ps :: "int \<Rightarrow> 64 word \<Rightarrow> bool \<Rightarrow> http_parser \<Rightarrow> bool" where
  "req_ps m l c ps = (hp_type ps = HTTP_REQUEST \<and> \<not> lenient ps \<and> http_errno ps = HPE_OK
     \<and> http_major ps = 1 \<and> http_minor ps = 1 \<and> hp_method ps = m \<and> hp_length ps = l
     \<and> \<not> has (hp_flags ps) F_CHUNKED \<and> \<not> has (hp_flags ps) F_TRAILING \<and> \<not> has (hp_flags ps) F_UPGRADE
     \<and> \<not> has (hp_flags ps) F_SKIPBODY \<and> has (hp_flags ps) F_CONTENTLENGTH = c)"

text \<open>A word whose bytes lead through the given parsers and states, each with a plain \<open>break\<close>.\<close>

fun leads :: "'u http_parser_settings \<Rightarrow> http_parser \<Rightarrow> pstate \<Rightarrow> (char \<times> http_parser \<times> pstate) list \<Rightarrow> bool" where
  "leads st ps s [] = True"
| "leads st ps s ((c, ps', s') # w) =
     (PARSING_HEADER s' \<and> leads st ps' s' w \<and>
      (\<forall>data m p u. p < length data \<longrightarrow> data ! p = c \<longrightarrow> switch st data (hat ps s m p u) = Inr (Brk (hat ps' s' m p u))))"

lemma exec_word:
  assumes "leads st ps s w" "drop p data = map fst w @ t" "t \<noteq> []" "p + length w + 1 \<le> 81920"
  shows "exec_loop st data (hat ps s m p u)
    = exec_loop st data (case last ((ps, s) # map snd w) of (ps', s') \<Rightarrow> hat ps' s' m (p + length w) u)"
  using assms
proof (induction w arbitrary: p ps s)
  case (Cons x w)
  obtain c ps1 s1 where x: "x = (c, ps1, s1)" by (cases x)
  have d: "drop p data = c # (map fst w @ t)" using Cons.prems(2) x by simp
  have "exec_loop st data (hat ps s m p u) = exec_loop st data (hat ps1 s1 m (p + 1) u)"
    by (rule exec_char(1)[OF d]) (use Cons.prems(1,3,4) x in simp_all)
  moreover have "drop (p + 1) data = map fst w @ t" using rd_drop[OF d] by simp
  ultimately show ?case using Cons.IH[of ps1 s1 "p + 1"] Cons.prems(1,3,4) x by simp
qed simp

lemma version_switch:
  assumes "p < length data"
  shows "data ! p = CHR ''H'' \<Longrightarrow> switch st data (hat ps s_req_http_start m p u) = Inr (Brk (hat ps s_req_http_H m p u))"
    and "data ! p = CHR ''T'' \<Longrightarrow> switch st data (hat ps s_req_http_H m p u) = Inr (Brk (hat ps s_req_http_HT m p u))"
    and "data ! p = CHR ''T'' \<Longrightarrow> switch st data (hat ps s_req_http_HT m p u) = Inr (Brk (hat ps s_req_http_HTT m p u))"
    and "data ! p = CHR ''P'' \<Longrightarrow> switch st data (hat ps s_req_http_HTT m p u) = Inr (Brk (hat ps s_req_http_HTTP m p u))"
    and "data ! p = CHR ''/'' \<Longrightarrow> switch st data (hat ps s_req_http_HTTP m p u) = Inr (Brk (hat ps s_req_http_major m p u))"
    and "data ! p = CHR ''1'' \<Longrightarrow> switch st data (hat ps s_req_http_major m p u)
           = Inr (Brk (hat (ps \<lparr> http_major := 1 \<rparr>) s_req_http_dot m p u))"
    and "data ! p = CHR ''.'' \<Longrightarrow> switch st data (hat ps s_req_http_dot m p u) = Inr (Brk (hat ps s_req_http_minor m p u))"
    and "data ! p = CHR ''1'' \<Longrightarrow> switch st data (hat ps s_req_http_minor m p u)
           = Inr (Brk (hat (ps \<lparr> http_minor := 1 \<rparr>) s_req_http_end m p u))"
    and "data ! p = CR \<Longrightarrow> switch st data (hat ps s_req_http_end m p u) = Inr (Brk (hat ps s_req_line_almost_done m p u))"
    and "data ! p = LF \<Longrightarrow> switch st data (hat ps s_req_line_almost_done m p u) = Inr (Brk (hat ps s_header_field_start m p u))"
  using assms by (simp_all add: switch_at case_http_start_def expect_def version_digit_def IS_NUM_def case_http_end_def)

lemma exec_version:
  assumes d: "drop p data = ''HTTP/1.1'' @ [CR, LF] @ t" and t: "t \<noteq> []" and l: "p + 11 \<le> 81920"
  shows "exec_loop st data (hat ps s_req_http_start nomark p u)
      = exec_loop st data (hat (ps \<lparr> http_major := 1, http_minor := 1 \<rparr>) s_header_field_start nomark (p + 10) u)"
proof -
  let ?ps1 = "ps \<lparr> http_major := 1 \<rparr>" and ?ps2 = "ps \<lparr> http_major := 1, http_minor := 1 \<rparr>"
  let ?w = "[(CHR ''H'', ps, s_req_http_H), (CHR ''T'', ps, s_req_http_HT), (CHR ''T'', ps, s_req_http_HTT),
    (CHR ''P'', ps, s_req_http_HTTP), (CHR ''/'', ps, s_req_http_major), (CHR ''1'', ?ps1, s_req_http_dot),
    (CHR ''.'', ?ps1, s_req_http_minor), (CHR ''1'', ?ps2, s_req_http_end), (CR, ?ps2, s_req_line_almost_done),
    (LF, ?ps2, s_header_field_start)]"
  have "leads st ps s_req_http_start ?w" by (simp add: version_switch PARSING_HEADER_def)
  moreover have "length ?w = 10" by simp
  ultimately show ?thesis using exec_word[of st ps s_req_http_start ?w p data t nomark u] d t l
    by (simp del: list.size)
qed

definition request_line :: "string \<Rightarrow> string \<Rightarrow> string" where
  "request_line name url = name @ '' '' @ url @ '' HTTP/1.1'' @ [CR, LF]"

definition fresh :: "Http1Parser \<Rightarrow> Http1Parser hx" where
  "fresh u = hat (http_parser_init HTTP_REQUEST) s_start_req nomark 0 u"

lemma exec_first_letter:
  assumes "drop 0 data = c # t" "t \<noteq> []" "IS_ALPHA c" "c \<noteq> CR" "c \<noteq> LF" "first_method c = Some m0"
  shows "\<exists>ps. exec_loop h1_cbs data (fresh u)
        = exec_loop h1_cbs data (hat ps s_req_method nomark 1 (u \<lparr> h1_state := HP_MESSAGE_BEGIN \<rparr>))
      \<and> hp_method ps = m0 \<and> hp_index ps = 1 \<and> hp_type ps = HTTP_REQUEST \<and> \<not> lenient ps \<and> http_errno ps = HPE_OK
      \<and> hp_length ps = ULLONG_MAX \<and> hp_flags ps = 0"
proof -
  let ?ps = "(http_parser_init HTTP_REQUEST) \<lparr> hp_flags := 0, hp_length := ULLONG_MAX, hp_method := m0, hp_index := 1, hp_state := s_req_method \<rparr>"
  have ms: "message_start (hat ps s m p u) = hat (ps \<lparr> hp_flags := 0, hp_length := ULLONG_MAX \<rparr>) s m p u" for ps s m p and u :: Http1Parser
    by (simp add: message_start_def)
  have "exec_loop h1_cbs data (fresh u) = exec_loop h1_cbs data (hat ?ps s_req_method nomark (0 + 1) (u \<lparr> h1_state := HP_MESSAGE_BEGIN \<rparr>))"
    unfolding fresh_def
    by (rule exec_char(1)[OF assms(1,2)])
      (use assms(3-6) in \<open>simp_all add: switch_at case_start_req_def ms cb_begin http_parser_init_def PARSING_HEADER_def Let_def\<close>)
  then show ?thesis by (intro exI[of _ ?ps]) (simp add: http_parser_init_def)
qed

lemma exec_target_start:
  assumes "drop p data = CHR ''/'' # t" "t \<noteq> []" "hp_method ps \<noteq> HTTP_CONNECT" "p + 2 \<le> 81920"
  shows "exec_loop st data (hat ps s_req_spaces_before_url nomark p u)
    = exec_loop st data (hat ps s_req_path (nomark(K_url := Some p)) (p + 1) u)"
  by (rule exec_char(1)[OF assms(1,2)])
    (use assms(3,4) in \<open>simp_all add: switch_at case_spaces_before_url_def url_byte_def MARK_def parse_url_char_def
      PARSING_HEADER_def Let_def\<close>)

lemma exec_target_end:
  assumes "drop p data = CHR '' '' # t" "t \<noteq> []" "s \<in> set origin_states" "http_errno ps = HPE_OK"
    "drop a data = url @ CHR '' '' # t" "p = a + length url" "p + 2 \<le> 81920"
  shows "exec_loop h1_cbs data (hat ps s (nomark(K_url := Some a)) p u)
    = exec_loop h1_cbs data (hat (ps \<lparr> hp_state := s_req_http_start \<rparr>) s_req_http_start nomark (p + 1) (url_seen url u))"
proof (rule exec_char(1)[OF assms(1,2)])
  assume "p < length data" "data ! p = CHR '' ''"
  then show "switch h1_cbs data (hat ps s (nomark(K_url := Some a)) p u)
      = Inr (Brk (hat (ps \<lparr> hp_state := s_req_http_start \<rparr>) s_req_http_start nomark p (url_seen url u)))"
    using cb_data(1)[of ps "nomark(K_url := Some a)" K_url a data p url] slice[OF assms(5,6)] assms(4)
    by (simp add: switch_origin[OF assms(3)] case_url_def)
qed (use assms(7) in \<open>simp_all add: PARSING_HEADER_def\<close>)

lemma exec_request_line:
  assumes "(m, name) \<in> set http_method_map" "m \<noteq> HTTP_CONNECT" "target_ok url"
    and data: "data = request_line name url @ t" and t: "t \<noteq> []" and l: "length (request_line name url) + 1 \<le> 81920"
  shows "\<exists>ps. exec_loop h1_cbs data (fresh u) = exec_loop h1_cbs data
      (hat ps s_header_field_start nomark (length (request_line name url)) (url_seen url (u \<lparr> h1_state := HP_MESSAGE_BEGIN \<rparr>)))
    \<and> req_ps m ULLONG_MAX False ps"
proof -
  obtain c cs m0 where name: "name = c # cs" and c: "IS_ALPHA c" "c \<noteq> CR" "c \<noteq> LF" "first_method c = Some m0"
    and scan: "method_scan m0 1 cs = Some m" using method_names[OF assms(1)] .
  obtain us where url: "url = CHR ''/'' # us" and us: "foldl parse_url_char s_req_path us \<noteq> s_dead"
    using assms(3) by (auto simp: target_ok_def split: list.splits)
  let ?v = "''HTTP/1.1'' @ [CR, LF] @ t" and ?u = "u \<lparr> h1_state := HP_MESSAGE_BEGIN \<rparr>"
  have d0: "drop 0 data = c # (cs @ CHR '' '' # url @ CHR '' '' # ?v)" using data name by (simp add: request_line_def)
  have len: "length (request_line name url) = length cs + length us + 14" using name url by (simp add: request_line_def)
  obtain ps where e1: "exec_loop h1_cbs data (fresh u) = exec_loop h1_cbs data (hat ps s_req_method nomark 1 ?u)"
    and ps: "hp_method ps = m0" "hp_index ps = 1" "hp_type ps = HTTP_REQUEST" "\<not> lenient ps" "http_errno ps = HPE_OK"
      "hp_length ps = ULLONG_MAX" "hp_flags ps = 0"
    using exec_first_letter[OF d0 _ c(1-4), of u] by auto
  have d1: "drop 1 data = cs @ CHR '' '' # (url @ CHR '' '' # ?v)" using rd_drop[OF d0] by simp
  obtain i where e2: "exec_loop h1_cbs data (hat ps s_req_method nomark 1 ?u)
      = exec_loop h1_cbs data (hat (ps \<lparr> hp_method := m, hp_index := i \<rparr>) s_req_spaces_before_url nomark (1 + length cs + 1) ?u)"
    using exec_method[OF scan ps(1,2) _ d1, of h1_cbs ?u] l len by auto
  let ?ps = "ps \<lparr> hp_method := m, hp_index := i \<rparr>" and ?a = "1 + length cs + 1"
  have d2: "drop ?a data = url @ CHR '' '' # ?v" using drop_part[of 1 data "cs @ '' ''"] d1 by simp
  have d2': "drop ?a data = CHR ''/'' # (us @ CHR '' '' # ?v)" using d2 url by simp
  have e3: "exec_loop h1_cbs data (hat ?ps s_req_spaces_before_url nomark ?a ?u)
      = exec_loop h1_cbs data (hat ?ps s_req_path (nomark(K_url := Some ?a)) (?a + 1) ?u)"
    by (rule exec_target_start[OF d2']) (use assms(2) l len in simp_all)
  have d3: "drop (?a + 1) data = us @ CHR '' '' # ?v" using rd_drop[OF d2'] by simp
  obtain s where s: "s \<in> set origin_states" and e4: "exec_loop h1_cbs data (hat ?ps s_req_path (nomark(K_url := Some ?a)) (?a + 1) ?u)
      = exec_loop h1_cbs data (hat ?ps s (nomark(K_url := Some ?a)) (?a + 1 + length us) ?u)"
    using exec_target[OF _ us d3, of h1_cbs ?ps "nomark(K_url := Some ?a)" ?u] l len by (auto simp: origin_states_def)
  let ?b = "?a + 1 + length us" and ?ps2 = "?ps \<lparr> hp_state := s_req_http_start \<rparr>"
  have d4: "drop ?b data = CHR '' '' # ?v" using drop_part[OF d3] by simp
  have e5: "exec_loop h1_cbs data (hat ?ps s (nomark(K_url := Some ?a)) ?b ?u)
      = exec_loop h1_cbs data (hat ?ps2 s_req_http_start nomark (?b + 1) (url_seen url ?u))"
    by (rule exec_target_end[OF d4 _ s _ d2]) (use ps url l len in simp_all)
  have d5: "drop (?b + 1) data = ?v" using rd_drop[OF d4] by simp
  have e6: "exec_loop h1_cbs data (hat ?ps2 s_req_http_start nomark (?b + 1) (url_seen url ?u))
      = exec_loop h1_cbs data (hat (?ps2 \<lparr> http_major := 1, http_minor := 1 \<rparr>) s_header_field_start nomark (?b + 1 + 10) (url_seen url ?u))"
    by (rule exec_version[OF d5 t]) (use l len in simp)
  have n: "?b + 1 + 10 = length (request_line name url)" using len by simp
  show ?thesis
    using e1 e2 e3 e4 e5 e6 ps n
    by (intro exI[of _ "?ps2 \<lparr> http_major := 1, http_minor := 1 \<rparr>"]) (simp add: req_ps_def has_def)
qed


section \<open>Header lines\<close>

lemma count_hat:
  assumes "p \<le> q" "q + 1 \<le> 81920"
  shows "COUNT_HEADER_SIZE (int (q - p)) \<lparr> prs = ps, p_state = s, nread = int p + 1, marks = m, pos = q, usr = u \<rparr> k
    = k (hat ps s m q u)"
proof -
  have "int (q - p) = int q - int p" using assms(1) by simp
  then show ?thesis using assms by (simp add: COUNT_HEADER_SIZE_def Let_def max_header_size_def hat_def add.commute)
qed

lemma exec_name:
  assumes d: "drop p data = k @ CHR '':'' # t" and t: "t \<noteq> []" and k: "token k" and e: "http_errno ps = HPE_OK"
    and l: "p + length k + 2 \<le> 81920"
  shows "\<exists>i. exec_loop h1_cbs data (hat ps s_header_field_start nomark p u)
      = exec_loop h1_cbs data (hat (ps \<lparr> hp_index := i, header_state := name_state k, hp_state := s_header_value_discard_ws \<rparr>)
          s_header_value_discard_ws nomark (p + length k + 1) (field_seen k u))"
proof -
  obtain c cs where kc: "k = c # cs" and tc: "TOKEN c \<noteq> NUL" "\<forall>c \<in> set cs. TOKEN c \<noteq> NUL"
    using k by (auto simp: token_def neq_Nil_conv)
  have cn: "c \<noteq> CR" "c \<noteq> LF" using tc(1) TOKEN_marks by auto
  let ?ps = "ps \<lparr> hp_index := 0, header_state := first_header_state (TOKEN c) \<rparr>" and ?m = "nomark(K_header_field := Some p)"
  have d0: "drop p data = c # (cs @ CHR '':'' # t)" using d kc by simp
  have e1: "exec_loop h1_cbs data (hat ps s_header_field_start nomark p u) = exec_loop h1_cbs data (hat ?ps s_header_field ?m (p + 1) u)"
    by (rule exec_char(1)[OF d0])
      (use cn tc(1) l kc in \<open>simp_all add: switch_at case_header_field_start_def MARK_def PARSING_HEADER_def Let_def\<close>)
  have d1: "drop (p + 1) data = cs @ CHR '':'' # t" using rd_drop[OF d0] by simp
  let ?r = "field_scan (first_header_state (TOKEN c)) 0 (map TOKEN cs)" and ?q = "Suc (p + length cs)"
  have lq: "?q + 2 \<le> 81920" using l kc by simp
  have f: "field_loop data (p + 1) ?ps = Inr (?q, ps \<lparr> hp_index := snd ?r, header_state := fst ?r \<rparr>)"
    using field_loop_scan[OF d1 tc(2), of ?ps] first_header_states by simp
  have q: "data ! ?q = CHR '':''" "?q < length data" using nth_part[OF d1] by auto
  let ?ps2 = "ps \<lparr> hp_index := snd ?r, header_state := name_state k, hp_state := s_header_value_discard_ws \<rparr>"
  have ns: "fst ?r = name_state k" using kc by (simp add: name_state_def)
  have cb: "CALLBACK_DATA_ER h1_cbs data K_header_field ?q er (hat ps' s_header_value_discard_ws ?m ?q u) (\<lambda>h. Inr (Brk h))
      = Inr (Brk (hat (ps' \<lparr> hp_state := s_header_value_discard_ws \<rparr>) s_header_value_discard_ws nomark ?q (field_seen k u)))"
    if "http_errno ps' = HPE_OK" for er ps'
    using cb_data(2)[OF that, of ?m K_header_field p data ?q k] slice[OF d, of ?q] kc by simp
  have sw: "switch h1_cbs data (hat ?ps s_header_field ?m (p + 1) u) = Inr (Brk (hat ?ps2 s_header_value_discard_ws nomark ?q (field_seen k u)))"
  proof -
    have "p + 1 < length data" using q by simp
    then have "switch h1_cbs data (hat ?ps s_header_field ?m (p + 1) u) = case_header_field h1_cbs data (hat ?ps s_header_field ?m (p + 1) u)"
      by (simp add: switch_at)
    also have "\<dots> = COUNT_HEADER_SIZE (int (?q - (p + 1)))
         \<lparr> prs = ps \<lparr> hp_index := snd ?r, header_state := fst ?r \<rparr>, p_state = s_header_field, nread = int (p + 1) + 1, marks = ?m, pos = ?q, usr = u \<rparr>
         (\<lambda>h. if data ! ?q = CHR '':'' then
           CALLBACK_DATA h1_cbs data K_header_field (h \<lparr> p_state := s_header_value_discard_ws \<rparr>) (\<lambda>h. Inr (Brk h))
         else err HPE_INVALID_HEADER_TOKEN h)"
      using q f unfolding case_header_field_def by (simp add: hat_def rd_def)
    also have "\<dots> = Inr (Brk (hat ?ps2 s_header_value_discard_ws nomark ?q (field_seen k u)))"
      by (subst count_hat) (use q lq e in \<open>simp_all add: cb ns\<close>)
    finally show ?thesis .
  qed
  have d2: "drop ?q data = CHR '':'' # t" using drop_part[OF d1] by simp
  have "?q + 1 < length data" using rd_drop[OF d2] t by (metis Suc_eq_plus1 drop_all not_le)
  from exec_next[OF sw this] l kc e1
  show ?thesis by (intro exI[of _ "snd ?r"]) (simp add: PARSING_HEADER_def)
qed


text \<open>States of a value other than those of the three special headers.\<close>

definition harmless :: "header_state list" where
  "harmless = [h_general, h_matching_connection_token_start, h_matching_connection_keep_alive,
     h_matching_connection_close, h_matching_connection_upgrade, h_matching_connection_token,
     h_connection_keep_alive, h_connection_close, h_connection_upgrade]"

lemma conn_flags [simp]:
  "\<not> has F_CONNECTION_KEEP_ALIVE F_CHUNKED" "\<not> has F_CONNECTION_KEEP_ALIVE F_TRAILING" "\<not> has F_CONNECTION_KEEP_ALIVE F_UPGRADE"
  "\<not> has F_CONNECTION_KEEP_ALIVE F_SKIPBODY" "\<not> has F_CONNECTION_KEEP_ALIVE F_CONTENTLENGTH"
  "\<not> has F_CONNECTION_CLOSE F_CHUNKED" "\<not> has F_CONNECTION_CLOSE F_TRAILING" "\<not> has F_CONNECTION_CLOSE F_UPGRADE"
  "\<not> has F_CONNECTION_CLOSE F_SKIPBODY" "\<not> has F_CONNECTION_CLOSE F_CONTENTLENGTH"
  "\<not> has F_CONNECTION_UPGRADE F_CHUNKED" "\<not> has F_CONNECTION_UPGRADE F_TRAILING" "\<not> has F_CONNECTION_UPGRADE F_UPGRADE"
  "\<not> has F_CONNECTION_UPGRADE F_SKIPBODY" "\<not> has F_CONNECTION_UPGRADE F_CONTENTLENGTH"
  "\<not> has F_CONTENTLENGTH F_CHUNKED" "\<not> has F_CONTENTLENGTH F_TRAILING" "\<not> has F_CONTENTLENGTH F_UPGRADE"
  "\<not> has F_CONTENTLENGTH F_SKIPBODY" "has F_CONTENTLENGTH F_CONTENTLENGTH" "\<not> has 0 f"
  by (simp_all add: has_def F_defs)

lemma req_ps_upd [simp]:
  "req_ps m l c (ps \<lparr> hp_index := i \<rparr>) = req_ps m l c ps"
  "req_ps m l c (ps \<lparr> header_state := hs \<rparr>) = req_ps m l c ps"
  "req_ps m l c (ps \<lparr> hp_state := s \<rparr>) = req_ps m l c ps"
  "req_ps m l c (ps \<lparr> hp_flags := hp_flags ps OR F_CONNECTION_KEEP_ALIVE \<rparr>) = req_ps m l c ps"
  "req_ps m l c (ps \<lparr> hp_flags := hp_flags ps OR F_CONNECTION_CLOSE \<rparr>) = req_ps m l c ps"
  "req_ps m l c (ps \<lparr> hp_flags := hp_flags ps OR F_CONNECTION_UPGRADE \<rparr>) = req_ps m l c ps"
  "req_ps m l c (ps \<lparr> hp_flags := hp_flags ps OR 0 \<rparr>) = req_ps m l c ps"
  by (simp_all add: req_ps_def)

lemma value_char_harmless:
  assumes "h \<in> set harmless" "h \<noteq> h_general" "req_ps m l c ps"
  shows "\<exists>h' ps'. value_char h ch ps = Inr (None, h', ps') \<and> h' \<in> set harmless \<and> req_ps m l c ps'"
  using assms
  by (simp add: harmless_def)
    (elim disjE; simp add: value_char_def match_value_def match_word_def token_end_def inc_index_def Let_def)

definition value_ok :: "string \<Rightarrow> bool" where
  "value_ok v = (v \<noteq> [] \<and> hd v \<noteq> CHR '' '' \<and> hd v \<noteq> HT \<and> (\<forall>c \<in> set v. c \<noteq> CR \<and> c \<noteq> LF \<and> IS_HEADER_CHAR c))"

lemma general_value_CR:
  assumes "drop p data = vs @ CR # t" "\<forall>c \<in> set vs. c \<noteq> CR \<and> c \<noteq> LF \<and> IS_HEADER_CHAR c" "p + length vs < lmt"
  shows "general_value data lmt len p = Inr (Inr (p + length vs - 1))"
  using assms
proof (induction vs arbitrary: p)
  case Nil
  then show ?case using nth_part[of p data "[]" CR t] by (subst general_value.simps) (simp add: rd_def)
next
  case (Cons c vs)
  have c: "rd data p = Inr c" using Cons.prems(1) nth_part[of p data "[]" c] by (simp add: rd_def)
  have d: "drop (p + 1) data = vs @ CR # t" using rd_drop[of p data c] Cons.prems(1) by simp
  have "general_value data lmt len p = general_value data lmt len (p + 1)"
    using Cons.prems(2,3) c by (subst general_value.simps) auto
  with Cons.IH[OF d] Cons.prems(2,3) show ?case by simp
qed

lemma general_skip_CR:
  assumes "drop p data = vs @ CR # t" "\<forall>c \<in> set vs. c \<noteq> CR \<and> c \<noteq> LF \<and> IS_HEADER_CHAR c" "vs \<noteq> []" "length vs < 81920"
  shows "general_skip data len p = Inr (Inr (p + length vs - 1))"
proof -
  have e: "p + length vs < length data" using nth_part[OF assms(1)] by simp
  have "p + length vs < p + min (length data - p) (nat max_header_size)"
    using e assms(4) by (auto simp: max_header_size_def)
  moreover have "p + length vs - 1 \<noteq> length data" using e by linarith
  ultimately show ?thesis using general_value_CR[OF assms(1,2), of _ len] by (simp add: general_skip_def)
qed

lemma value_loop_CR:
  assumes "p < length data" "data ! p = CR"
  shows "value_loop data p h ps = Inr (VCR, p, h, ps)"
  using assms value_loop_stop[of p data ps h] by simp

lemma value_loop_harmless:
  assumes "drop p data = vs @ CR # t" "\<forall>c \<in> set vs. c \<noteq> CR \<and> c \<noteq> LF \<and> IS_HEADER_CHAR c" "length vs < 81920"
    "h \<in> set harmless" "req_ps m l c ps"
  shows "\<exists>h' ps'. value_loop data p h ps = Inr (VCR, p + length vs, h', ps') \<and> h' \<in> set harmless \<and> req_ps m l c ps'"
  using assms
proof (induction vs arbitrary: p h ps)
  case Nil
  with value_loop_CR[of p data h ps] nth_part[of p data "[]" CR t] show ?case by auto
next
  case (Cons v vs)
  have v: "data ! p = v" "p < length data" using Cons.prems(1) nth_part[of p data "[]" v] by auto
  have vo: "v \<noteq> CR" "v \<noteq> LF" "IS_HEADER_CHAR v" using Cons.prems(2) by auto
  show ?case
  proof (cases "h = h_general")
    case True
    have "value_loop data p h ps = value_loop data (p + length (v # vs) - 1 + 1) h ps"
      using general_skip_CR[OF Cons.prems(1,2) _ Cons.prems(3)] v vo True
      by (simp add: value_loop_general)
    also have "\<dots> = Inr (VCR, p + length (v # vs), h, ps)"
      using value_loop_CR[of "p + length (v # vs)" data h ps] nth_part[OF Cons.prems(1)] by simp
    finally show ?thesis using Cons.prems(4,5) by auto
  next
    case False
    obtain h' ps' where c: "value_char h v ps = Inr (None, h', ps')" "h' \<in> set harmless" "req_ps m l c ps'"
      using value_char_harmless[OF Cons.prems(4) False Cons.prems(5)] by blast
    have "value_loop data p h ps = value_loop data (p + 1) h' ps'"
      using v vo False c(1) by (simp add: value_loop_step)
    moreover have "drop (p + 1) data = vs @ CR # t" using rd_drop[of p data v] Cons.prems(1) by simp
    ultimately show ?thesis using Cons.IH[of "p + 1" h' ps'] Cons.prems(2,3) c(2,3) by auto
  qed
qed


lemma cb_value:
  assumes "http_errno (prs h) = HPE_OK" "marks h K_header_value = Some a" "buf_slice data a hi = Inr xs"
  shows "CALLBACK_DATA_ER h1_cbs data K_header_value hi er h k
      = k (h \<lparr> prs := (prs h) \<lparr> hp_state := p_state h \<rparr>, usr := value_seen xs (usr h), marks := (marks h)(K_header_value := None) \<rparr>)"
  using assms by (simp add: CALLBACK_DATA_ER_def h1_cbs_def data_cb_def h1_on_header_value_def value_seen_def Let_def)

lemma exec_value_end:
  assumes d: "drop p data = vs @ CR # LF # t" and t: "t \<noteq> []" and a: "drop a data = v @ CR # LF # t" "a + length v = p + length vs"
    and vl: "value_loop data p (header_state ps) ps = Inr (VCR, p + length vs, hs, ps')" and e: "http_errno ps' = HPE_OK"
    and l: "p + length vs + 3 \<le> 81920"
  shows "exec_loop h1_cbs data (hat ps s_header_value (nomark(K_header_value := Some a)) p u)
    = exec_loop h1_cbs data (hat (ps' \<lparr> hp_state := s_header_almost_done, header_state := hs \<rparr>) s_header_value_lws nomark
        (p + length vs + 2) (value_seen v u))"
proof -
  let ?m = "nomark(K_header_value := Some a)" and ?e = "p + length vs"
    and ?ps = "ps' \<lparr> hp_state := s_header_almost_done, header_state := hs \<rparr>"
  have q: "?e < length data" using nth_part[OF d] by simp
  have sl: "buf_slice data a ?e = Inr v" using slice[OF a(1)] a(2) by simp
  have sw: "switch h1_cbs data (hat ps s_header_value ?m p u) = Inr (Brk (hat ?ps s_header_almost_done nomark ?e (value_seen v u)))"
  proof -
    have "p < length data" using q by simp
    then have "switch h1_cbs data (hat ps s_header_value ?m p u) = case_header_value h1_cbs data (hat ps s_header_value ?m p u)"
      by (simp add: switch_at)
    also have "\<dots> = COUNT_HEADER_SIZE (int (?e - p))
        \<lparr> prs = ?ps, p_state = s_header_almost_done, nread = int p + 1, marks = nomark, pos = ?e, usr = value_seen v u \<rparr> (\<lambda>h. Inr (Brk h))"
      using q e by (simp add: case_header_value_def vl cb_value[OF _ _ sl] hat_def)
    also have "\<dots> = Inr (Brk (hat ?ps s_header_almost_done nomark ?e (value_seen v u)))"
      by (subst count_hat) (use l in simp_all)
    finally show ?thesis .
  qed
  have d1: "drop ?e data = CR # LF # t" using drop_part[OF d] by simp
  have d2: "drop (Suc ?e) data = LF # t" using rd_drop[OF d1] by simp
  have "Suc ?e < length data" using drop_lt[OF d2] .
  with exec_next[OF sw] l have e1: "exec_loop h1_cbs data (hat ps s_header_value ?m p u)
      = exec_loop h1_cbs data (hat ?ps s_header_almost_done nomark (Suc ?e) (value_seen v u))" by (simp add: PARSING_HEADER_def)
  have "exec_loop h1_cbs data (hat ?ps s_header_almost_done nomark (Suc ?e) (value_seen v u))
      = exec_loop h1_cbs data (hat ?ps s_header_value_lws nomark (Suc ?e + 1) (value_seen v u))"
    by (rule exec_char(1)[OF d2 t]) (use l in \<open>simp_all add: switch_at PARSING_HEADER_def\<close>)
  with e1 show ?thesis by simp
qed

lemma exec_lws:
  assumes "drop p data = c # t" "c \<noteq> CHR '' ''" "c \<noteq> HT"
  shows "exec_loop st data (hat ps s_header_value_lws m p u)
    = exec_loop st data (hat (ps \<lparr> hp_flags := hp_flags ps OR header_flag (header_state ps) \<rparr>) s_header_field_start m p u)"
proof (rule exec_again)
  have "p < length data" "data ! p = c" using drop_lt[OF assms(1)] rd_drop[OF assms(1)] by (auto simp: rd_def)
  then show "switch st data (hat ps s_header_value_lws m p u)
      = Inr (Again (hat (ps \<lparr> hp_flags := hp_flags ps OR header_flag (header_state ps) \<rparr>) s_header_field_start m p u))"
    using assms(2,3) by (simp add: switch_at case_value_lws_def set_flag_def)
qed

text \<open>The blank after the colon and the first byte of the value.\<close>

lemma exec_value_start:
  assumes d: "drop p data = CHR '' '' # c # t" "t \<noteq> []" "p + 3 \<le> 81920"
    and c: "c \<noteq> CHR '' ''" "c \<noteq> HT" "c \<noteq> CR" "c \<noteq> LF"
    and vf: "\<And>q. value_first c (hat ps s_header_value_discard_ws nomark q u)
       = Inr (Brk (hat ps' s_header_value (nomark(K_header_value := Some q)) q u))"
  shows "exec_loop st data (hat ps s_header_value_discard_ws nomark p u)
    = exec_loop st data (hat ps' s_header_value (nomark(K_header_value := Some (p + 1))) (p + 2) u)"
proof -
  have "exec_loop st data (hat ps s_header_value_discard_ws nomark p u)
      = exec_loop st data (hat ps s_header_value_discard_ws nomark (p + 1) u)"
    by (rule exec_char(1)[OF d(1)]) (use d(3) in \<open>simp_all add: switch_at case_discard_ws_def PARSING_HEADER_def\<close>)
  also have "\<dots> = exec_loop st data (hat ps' s_header_value (nomark(K_header_value := Some (p + 1))) (p + 1 + 1) u)"
    by (rule exec_char(1)[where c = c and t = t])
      (use d c rd_drop[OF d(1)] in \<open>simp_all add: switch_at case_discard_ws_def vf PARSING_HEADER_def\<close>)
  finally show ?thesis by simp
qed

definition header_line :: "string \<times> string \<Rightarrow> string" where
  "header_line x = fst x @ '': '' @ snd x @ [CR, LF]"

definition special_names :: "string list" where
  "special_names = [''content-length'', ''transfer-encoding'', ''upgrade'']"

definition plain_header :: "string \<times> string \<Rightarrow> bool" where
  "plain_header x = (token (fst x) \<and> value_ok (snd x) \<and> map tolower (fst x) \<notin> set special_names)"

lemma map_TOKEN: "token k \<Longrightarrow> map TOKEN k = map tolower k"
  by (simp add: token_def TOKEN_lower)

lemma field_scan_states: "hs \<in> set field_states \<Longrightarrow> fst (field_scan hs i cs) \<in> set field_states"
  by (induction cs arbitrary: hs i) (simp_all add: field_step_states)

lemma name_state_states: "name_state k \<in> set field_states"
proof (cases "map TOKEN k")
  case Nil
  then show ?thesis by (simp add: name_state_def field_states_def)
qed (simp add: name_state_def field_scan_states first_header_states)

lemma value_first_plain:
  assumes "header_state ps \<in> set field_states" "header_state ps \<notin> {h_content_length, h_transfer_encoding, h_upgrade}" "req_ps m l c ps"
  shows "\<exists>ps'. header_state ps' \<in> set harmless \<and> req_ps m l c ps' \<and>
    (\<forall>q. value_first ch (hat ps s_header_value_discard_ws nomark q u)
       = Inr (Brk (hat ps' s_header_value (nomark(K_header_value := Some q)) q u)))"
proof -
  define hs where "hs = (if header_state ps = h_connection then
     (if LOWER ch = CHR ''k'' then h_matching_connection_keep_alive
      else if LOWER ch = CHR ''c'' then h_matching_connection_close
      else if LOWER ch = CHR ''u'' then h_matching_connection_upgrade else h_matching_connection_token) else h_general)"
  have "value_first ch (hat ps s_header_value_discard_ws nomark q u)
       = Inr (Brk (hat (ps \<lparr> hp_index := 0, header_state := hs \<rparr>) s_header_value (nomark(K_header_value := Some q)) q u))" for q
    using assms(1,2) by (simp add: field_states_def)
      (elim disjE; simp add: value_first_def MARK_def hs_def Let_def)
  then show ?thesis using assms(3)
    by (intro exI[of _ "ps \<lparr> hp_index := 0, header_state := hs \<rparr>"]) (simp add: hs_def harmless_def)
qed

lemma harmless_flag: "h \<in> set harmless \<Longrightarrow> req_ps m l c ps \<Longrightarrow> req_ps m l c (ps \<lparr> hp_flags := hp_flags ps OR header_flag h \<rparr>)"
  by (simp add: harmless_def) (elim disjE; simp add: header_flag_def)

definition header_seen :: "string \<times> string \<Rightarrow> Http1Parser \<Rightarrow> Http1Parser" where
  "header_seen x u = value_seen (snd x) (field_seen (fst x) u)"

text \<open>
  One header line, from the start of it to the start of the next; \<open>val\<close> is what the first byte
  of the value and the loop over the rest of it do.
\<close>

lemma exec_header:
  assumes d: "drop p data = header_line (k, w # ws) @ n # t" and n: "n \<noteq> CHR '' ''" "n \<noteq> HT"
    and k: "token k" and w: "w \<noteq> CHR '' ''" "w \<noteq> HT" "w \<noteq> CR" "w \<noteq> LF"
    and e: "http_errno ps = HPE_OK" and len: "p + length (header_line (k, w # ws)) + 1 \<le> 81920"
    and val: "\<And>i. drop (p + length k + 3) data = ws @ CR # LF # n # t \<Longrightarrow> \<exists>ps2 hs ps3.
      (\<forall>q. value_first w (hat (ps \<lparr> hp_index := i, header_state := name_state k, hp_state := s_header_value_discard_ws \<rparr>)
              s_header_value_discard_ws nomark q (field_seen k u))
           = Inr (Brk (hat ps2 s_header_value (nomark(K_header_value := Some q)) q (field_seen k u)))) \<and>
      value_loop data (p + length k + 3) (header_state ps2) ps2 = Inr (VCR, p + length k + 3 + length ws, hs, ps3) \<and>
      http_errno ps3 = HPE_OK \<and>
      R (ps3 \<lparr> hp_state := s_header_almost_done, header_state := hs, hp_flags := hp_flags ps3 OR header_flag hs \<rparr>)"
  shows "\<exists>ps'. exec_loop h1_cbs data (hat ps s_header_field_start nomark p u)
      = exec_loop h1_cbs data (hat ps' s_header_field_start nomark (p + length (header_line (k, w # ws))) (header_seen (k, w # ws) u))
      \<and> R ps'"
proof -
  have hl: "length (header_line (k, w # ws)) = length k + length ws + 5" by (simp add: header_line_def)
  have d0: "drop p data = k @ CHR '':'' # (CHR '' '' # w # ws @ CR # LF # n # t)" using d by (simp add: header_line_def)
  obtain i where e1: "exec_loop h1_cbs data (hat ps s_header_field_start nomark p u)
      = exec_loop h1_cbs data (hat (ps \<lparr> hp_index := i, header_state := name_state k, hp_state := s_header_value_discard_ws \<rparr>)
          s_header_value_discard_ws nomark (p + length k + 1) (field_seen k u))"
    using exec_name[OF d0 _ k e, of u] len hl by auto
  let ?ps1 = "ps \<lparr> hp_index := i, header_state := name_state k, hp_state := s_header_value_discard_ws \<rparr>" and ?p = "p + length k + 1"
  have d1: "drop ?p data = CHR '' '' # w # (ws @ CR # LF # n # t)" using drop_part[of p data "k @ '':''"] d0 by simp
  have d2: "drop (?p + 1) data = (w # ws) @ CR # LF # n # t" using rd_drop[OF d1] by simp
  have d3: "drop (?p + 2) data = ws @ CR # LF # n # t" using rd_drop[of "?p + 1" data w] d2 by simp
  have p3: "?p + 2 = p + length k + 3" by simp
  obtain ps2 hs ps3 where vf: "\<And>q. value_first w (hat ?ps1 s_header_value_discard_ws nomark q (field_seen k u))
       = Inr (Brk (hat ps2 s_header_value (nomark(K_header_value := Some q)) q (field_seen k u)))"
    and vl: "value_loop data (?p + 2) (header_state ps2) ps2 = Inr (VCR, ?p + 2 + length ws, hs, ps3)"
    and ps3: "http_errno ps3 = HPE_OK" "R (ps3 \<lparr> hp_state := s_header_almost_done, header_state := hs, hp_flags := hp_flags ps3 OR header_flag hs \<rparr>)"
    using val[OF d3[unfolded p3], of i] unfolding p3 by blast
  have e2: "exec_loop h1_cbs data (hat ?ps1 s_header_value_discard_ws nomark ?p (field_seen k u))
      = exec_loop h1_cbs data (hat ps2 s_header_value (nomark(K_header_value := Some (?p + 1))) (?p + 2) (field_seen k u))"
    by (rule exec_value_start[OF d1 _ _ w vf]) (use len hl in simp_all)
  let ?ps4 = "ps3 \<lparr> hp_state := s_header_almost_done, header_state := hs \<rparr>" and ?q = "?p + 2 + length ws + 2"
  have e3: "exec_loop h1_cbs data (hat ps2 s_header_value (nomark(K_header_value := Some (?p + 1))) (?p + 2) (field_seen k u))
      = exec_loop h1_cbs data (hat ?ps4 s_header_value_lws nomark ?q (value_seen (w # ws) (field_seen k u)))"
    by (rule exec_value_end[OF d3 _ d2 _ vl]) (use len hl ps3 in simp_all)
  have d4: "drop ?q data = n # t" using drop_part[of "?p + 2" data "ws @ [CR, LF]" "n # t"] d3 by (simp add: add.assoc)
  have e4: "exec_loop h1_cbs data (hat ?ps4 s_header_value_lws nomark ?q (value_seen (w # ws) (field_seen k u)))
      = exec_loop h1_cbs data (hat (?ps4 \<lparr> hp_flags := hp_flags ?ps4 OR header_flag (header_state ?ps4) \<rparr>) s_header_field_start nomark
          ?q (value_seen (w # ws) (field_seen k u)))"
    by (rule exec_lws[OF d4 n])
  have eq: "?q = p + length (header_line (k, w # ws))" using hl by simp
  have fl: "?ps4 \<lparr> hp_flags := hp_flags ?ps4 OR header_flag (header_state ?ps4) \<rparr>
      = ps3 \<lparr> hp_state := s_header_almost_done, header_state := hs, hp_flags := hp_flags ps3 OR header_flag hs \<rparr>" by simp
  show ?thesis
    using e1 e2 e3 e4 ps3(2)
    by (intro exI[of _ "?ps4 \<lparr> hp_flags := hp_flags ?ps4 OR header_flag (header_state ?ps4) \<rparr>"])
      (simp only: eq fl header_seen_def fst_conv snd_conv simp_thms)
qed

lemma exec_plain_header:
  assumes d: "drop p data = header_line x @ n # t" and n: "n \<noteq> CHR '' ''" "n \<noteq> HT"
    and x: "plain_header x" and ps: "req_ps m l c ps" and len: "p + length (header_line x) + 1 \<le> 81920"
  shows "\<exists>ps'. exec_loop h1_cbs data (hat ps s_header_field_start nomark p u)
      = exec_loop h1_cbs data (hat ps' s_header_field_start nomark (p + length (header_line x)) (header_seen x u))
      \<and> req_ps m l c ps'"
proof -
  obtain k w ws where kv: "x = (k, w # ws)" and k: "token k" "map tolower k \<notin> set special_names"
    and w: "w \<noteq> CHR '' ''" "w \<noteq> HT" "w \<noteq> CR" "w \<noteq> LF" and ws: "\<forall>c \<in> set ws. c \<noteq> CR \<and> c \<noteq> LF \<and> IS_HEADER_CHAR c"
    using x by (cases x) (auto simp: plain_header_def value_ok_def neq_Nil_conv)
  have hl: "length (header_line x) = length k + length ws + 5" using kv by (simp add: header_line_def)
  have "name_state k \<notin> {h_content_length, h_transfer_encoding, h_upgrade}"
    using name_state_word[OF k(1)] map_TOKEN[OF k(1)] k(2) by (auto simp: special_names_def)
  then have vf: "\<exists>ps2. header_state ps2 \<in> set harmless \<and> req_ps m l c ps2 \<and>
     (\<forall>q. value_first w (hat (ps \<lparr> hp_index := i, header_state := name_state k, hp_state := s_header_value_discard_ws \<rparr>)
        s_header_value_discard_ws nomark q (field_seen k u))
      = Inr (Brk (hat ps2 s_header_value (nomark(K_header_value := Some q)) q (field_seen k u))))" for i
    using value_first_plain[of "ps \<lparr> hp_index := i, header_state := name_state k, hp_state := s_header_value_discard_ws \<rparr>" m l c w "field_seen k u"]
      name_state_states ps by simp
  show ?thesis unfolding kv
  proof (rule exec_header[OF d[unfolded kv] n k(1) w])
    fix i assume d3: "drop (p + length k + 3) data = ws @ CR # LF # n # t"
    obtain ps2 where ps2: "header_state ps2 \<in> set harmless" "req_ps m l c ps2" and
      vf2: "\<forall>q. value_first w (hat (ps \<lparr> hp_index := i, header_state := name_state k, hp_state := s_header_value_discard_ws \<rparr>)
         s_header_value_discard_ws nomark q (field_seen k u))
      = Inr (Brk (hat ps2 s_header_value (nomark(K_header_value := Some q)) q (field_seen k u)))" using vf by blast
    obtain hs ps3 where "value_loop data (p + length k + 3) (header_state ps2) ps2 = Inr (VCR, p + length k + 3 + length ws, hs, ps3)"
      "hs \<in> set harmless" "req_ps m l c ps3"
      using value_loop_harmless[OF d3 ws _ ps2] len hl by auto
    moreover from this(2,3) have "req_ps m l c (ps3 \<lparr> hp_state := s_header_almost_done, header_state := hs, hp_flags := hp_flags ps3 OR header_flag hs \<rparr>)"
      using harmless_flag[of hs m l c "ps3 \<lparr> hp_state := s_header_almost_done, header_state := hs \<rparr>"] by simp
    ultimately show "\<exists>ps2 hs ps3. (\<forall>q. value_first w (hat (ps \<lparr> hp_index := i, header_state := name_state k, hp_state := s_header_value_discard_ws \<rparr>)
              s_header_value_discard_ws nomark q (field_seen k u))
           = Inr (Brk (hat ps2 s_header_value (nomark(K_header_value := Some q)) q (field_seen k u)))) \<and>
      value_loop data (p + length k + 3) (header_state ps2) ps2 = Inr (VCR, p + length k + 3 + length ws, hs, ps3) \<and>
      http_errno ps3 = HPE_OK \<and>
      req_ps m l c (ps3 \<lparr> hp_state := s_header_almost_done, header_state := hs, hp_flags := hp_flags ps3 OR header_flag hs \<rparr>)"
      using vf2 by (intro exI[of _ ps2] exI[of _ hs] exI[of _ ps3]) (simp add: req_ps_def)
  qed (use ps len kv in \<open>simp_all add: req_ps_def\<close>)
qed

lemma header_line_hd:
  assumes "token (fst x)"
  obtains c r where "header_line x = c # r" "c \<noteq> CHR '' ''" "c \<noteq> HT"
proof -
  obtain c cs where c: "fst x = c # cs" "TOKEN c \<noteq> NUL" using assms by (auto simp: token_def neq_Nil_conv)
  have "TOKEN HT = NUL" by code_simp
  then have "c \<noteq> HT" using c(2) by auto
  with c TOKEN_space[OF c(2)] that show ?thesis by (simp add: header_line_def)
qed

lemma exec_plain_headers:
  assumes "drop p data = concat (map header_line hs) @ n # t" "n \<noteq> CHR '' ''" "n \<noteq> HT"
    "\<forall>x \<in> set hs. plain_header x" "req_ps m l c ps" "p + length (concat (map header_line hs)) + 1 \<le> 81920"
  shows "\<exists>ps'. exec_loop h1_cbs data (hat ps s_header_field_start nomark p u)
      = exec_loop h1_cbs data (hat ps' s_header_field_start nomark (p + length (concat (map header_line hs))) (fold header_seen hs u))
      \<and> req_ps m l c ps'"
  using assms
proof (induction hs arbitrary: p ps u)
  case (Cons x hs)
  let ?rest = "concat (map header_line hs) @ n # t"
  have "\<exists>n' t'. ?rest = n' # t' \<and> n' \<noteq> CHR '' '' \<and> n' \<noteq> HT"
  proof (cases hs)
    case (Cons y ys)
    have "token (fst y)" using \<open>\<forall>x \<in> set (x # hs). plain_header x\<close> Cons by (simp add: plain_header_def)
    then obtain c r where "header_line y = c # r" "c \<noteq> CHR '' ''" "c \<noteq> HT" by (rule header_line_hd)
    then show ?thesis using Cons by simp
  qed (use Cons.prems in simp)
  then obtain n' t' where n': "?rest = n' # t'" "n' \<noteq> CHR '' ''" "n' \<noteq> HT" by blast
  have d: "drop p data = header_line x @ n' # t'" using Cons.prems(1) n'(1) by simp
  obtain ps1 where e1: "exec_loop h1_cbs data (hat ps s_header_field_start nomark p u)
      = exec_loop h1_cbs data (hat ps1 s_header_field_start nomark (p + length (header_line x)) (header_seen x u))" "req_ps m l c ps1"
    using exec_plain_header[OF d n'(2,3) _ Cons.prems(5), of u] Cons.prems(4,6) by auto
  have d1: "drop (p + length (header_line x)) data = ?rest" using drop_part[OF d] n'(1) by simp
  from Cons.IH[OF d1 Cons.prems(2,3) _ e1(2), of "header_seen x u"] Cons.prems(4,6) e1(1)
  show ?case by (auto simp: add.assoc)
qed auto

section \<open>\<open>Content-Length\<close>\<close>

lemma digit_chars:
  assumes "is_digit c"
  shows "IS_NUM c" "c \<noteq> CR" "c \<noteq> LF" "IS_HEADER_CHAR c" "c \<noteq> CHR '' ''" "c \<noteq> HT" "c \<noteq> CHR '',''"
  using assms by (auto simp: is_digit_def IS_NUM_def IS_HEADER_CHAR_def)

lemma dec_val_aux_ge: "0 \<le> a \<Longrightarrow> \<forall>c \<in> set ds. is_digit c \<Longrightarrow> a \<le> dec_val_aux a ds"
proof (induction ds arbitrary: a)
  case (Cons c ds)
  have "0 \<le> digit_val c" using Cons.prems(2) by (simp add: is_digit_def digit_val_def)
  then have "a \<le> 10 * a + digit_val c" "0 \<le> 10 * a + digit_val c" using Cons.prems(1) by simp_all
  with Cons.IH[of "10 * a + digit_val c"] Cons.prems(2) show ?case by simp
qed simp

lemma add_digit_dec:
  assumes "is_digit c" "0 \<le> a" "a < 10 ^ 18" "hp_length ps = word_of_int a"
  shows "add_digit ps h c = (None, h, ps \<lparr> hp_length := word_of_int (10 * a + digit_val c) \<rparr>)"
proof -
  have "\<not> (ULLONG_MAX - 10) div 10 < (word_of_int a :: 64 word)"
    using assms(2,3) by (simp add: word_less_def uint_div ULLONG_MAX_def uint_word_of_int)
  moreover have "(word_of_int a * 10 + word_of_int (byte_of c - 48) :: 64 word) = word_of_int (10 * a + digit_val c)"
    by (simp add: digit_val_def mult.commute)
  ultimately show ?thesis using assms(4) digit_chars[OF assms(1)] by (simp add: add_digit_def Let_def)
qed

lemma value_loop_digits:
  assumes "drop p data = ds @ CR # t" "\<forall>c \<in> set ds. is_digit c" "hp_length ps = word_of_int a" "0 \<le> a"
    "dec_val_aux a ds < 10 ^ 18"
  shows "value_loop data p h_content_length_num ps
    = Inr (VCR, p + length ds, h_content_length_num, ps \<lparr> hp_length := word_of_int (dec_val_aux a ds) \<rparr>)"
  using assms
proof (induction ds arbitrary: p a ps)
  case Nil
  with value_loop_CR[of p data h_content_length_num ps] nth_part[of p data "[]" CR t] show ?case by simp
next
  case (Cons c ds)
  have v: "data ! p = c" "p < length data" using Cons.prems(1) nth_part[of p data "[]" c] by auto
  have c: "is_digit c" using Cons.prems(2) by simp
  have dv: "0 \<le> digit_val c" using c by (simp add: is_digit_def digit_val_def)
  have "10 * a + digit_val c \<le> dec_val_aux (10 * a + digit_val c) ds"
    using Cons.prems(2,4) dv by (intro dec_val_aux_ge) simp_all
  then have a: "a < 10 ^ 18" using Cons.prems(4,5) dv by simp
  let ?ps = "ps \<lparr> hp_length := word_of_int (10 * a + digit_val c) \<rparr>"
  have "value_loop data p h_content_length_num ps = value_loop data (p + 1) h_content_length_num ?ps"
    using v digit_chars[OF c] add_digit_dec[OF c Cons.prems(4) a Cons.prems(3)]
    by (simp add: value_loop_step value_char_def)
  moreover have "drop (p + 1) data = ds @ CR # t" using rd_drop[of p data c] Cons.prems(1) by simp
  ultimately show ?case using Cons.IH[of "p + 1" ?ps "10 * a + digit_val c"] Cons.prems dv by simp
qed


lemma exec_content_length:
  assumes d: "drop p data = header_line (k, dec_digits v) @ n # t" and n: "n \<noteq> CHR '' ''" "n \<noteq> HT"
    and k: "token k" "map tolower k = ''content-length''" and v: "0 \<le> v" "v < 10 ^ 18"
    and ps: "req_ps m l False ps" and len: "p + length (header_line (k, dec_digits v)) + 1 \<le> 81920"
  shows "\<exists>ps'. exec_loop h1_cbs data (hat ps s_header_field_start nomark p u)
      = exec_loop h1_cbs data (hat ps' s_header_field_start nomark (p + length (header_line (k, dec_digits v))) (header_seen (k, dec_digits v) u))
      \<and> req_ps m (word_of_int v) True ps'"
proof -
  obtain w ws where vw: "dec_digits v = w # ws" by (meson dec_digits_not_Nil neq_Nil_conv)
  have w: "is_digit w" and ws: "\<forall>c \<in> set ws. is_digit c" using dec_digits_all_digit[OF v(1)] vw by auto
  have val: "dec_val_aux (digit_val w) ws = v" using dec_val_digits[OF v(1)] vw by (simp add: dec_val_def)
  have w0: "0 \<le> digit_val w" using w by (simp add: is_digit_def digit_val_def)
  have ns: "name_state k = h_content_length" using name_state_content_length map_TOKEN[OF k(1)] k(2) by simp
  show ?thesis unfolding vw
  proof (rule exec_header[OF d[unfolded vw] n k(1) digit_chars(5,6,2,3)[OF w]])
    fix i assume d3: "drop (p + length k + 3) data = ws @ CR # LF # n # t"
    let ?ps1 = "ps \<lparr> hp_index := i, header_state := name_state k, hp_state := s_header_value_discard_ws \<rparr>"
    let ?ps2 = "?ps1 \<lparr> hp_index := 0, hp_flags := hp_flags ps OR F_CONTENTLENGTH, hp_length := word_of_int (digit_val w), header_state := h_content_length_num \<rparr>"
    let ?ps3 = "?ps2 \<lparr> hp_length := word_of_int v \<rparr>"
    have "value_first w (hat ?ps1 s_header_value_discard_ws nomark q (field_seen k u))
        = Inr (Brk (hat ?ps2 s_header_value (nomark(K_header_value := Some q)) q (field_seen k u)))" for q
      using ps digit_chars(1)[OF w] by (simp add: value_first_def MARK_def ns req_ps_def digit_val_def Let_def)
    moreover have "value_loop data (p + length k + 3) (header_state ?ps2) ?ps2
        = Inr (VCR, p + length k + 3 + length ws, h_content_length_num, ?ps3)"
      using value_loop_digits[OF d3 ws, of ?ps2 "digit_val w"] w0 val v(2) by simp
    moreover have "http_errno ?ps3 = HPE_OK" using ps by (simp add: req_ps_def)
    moreover have "req_ps m (word_of_int v) True (?ps3 \<lparr> hp_state := s_header_almost_done, header_state := h_content_length_num,
        hp_flags := hp_flags ?ps3 OR header_flag h_content_length_num \<rparr>)"
      using ps by (simp add: req_ps_def header_flag_def)
    ultimately show "\<exists>ps2 hs ps3. (\<forall>q. value_first w (hat ?ps1 s_header_value_discard_ws nomark q (field_seen k u))
           = Inr (Brk (hat ps2 s_header_value (nomark(K_header_value := Some q)) q (field_seen k u)))) \<and>
      value_loop data (p + length k + 3) (header_state ps2) ps2 = Inr (VCR, p + length k + 3 + length ws, hs, ps3) \<and>
      http_errno ps3 = HPE_OK \<and>
      req_ps m (word_of_int v) True (ps3 \<lparr> hp_state := s_header_almost_done, header_state := hs, hp_flags := hp_flags ps3 OR header_flag hs \<rparr>)"
      by blast
  qed (use ps len vw in \<open>simp_all add: req_ps_def\<close>)
qed

end
