(* ===== verification/HttpRequestParse.thy ===== *)
theory HttpRequestParse
  imports RequestHead
begin

text \<open>
  What the HTTP/1 parser makes of a whole request: after the head that \<open>RequestHead\<close> follows come
  the end of the headers and a body of the announced length, and then the parser is at rest.
\<close>

section \<open>The end of the headers and the body\<close>

text \<open>What the callback does at the end of the headers of an HTTP/1.1 request with method \<open>m\<close>.\<close>

definition headers_end :: "int \<Rightarrow> Http1Parser \<Rightarrow> (int \<times> Http1Parser) cres" where
  "headers_end m u = h1_on_headers_complete ((http_parser_init HTTP_REQUEST) \<lparr> http_major := 1, http_minor := 1, hp_method := m \<rparr>) u"

definition body_seen :: "string \<Rightarrow> Http1Parser \<Rightarrow> Http1Parser" where
  "body_seen b u = (upd_msg (\<lambda>m. m \<lparr> body := body m @ b \<rparr>) u) \<lparr> h1_state := HP_BODY \<rparr>"

lemma handle_header_keeps [simp]:
  "p_type (h1_parsed (handle_header u)) = p_type (h1_parsed u)"
  "body (p_msg (h1_parsed (handle_header u))) = body (p_msg (h1_parsed u))"
  "content_length (p_msg (h1_parsed (handle_header u))) = content_length (p_msg (h1_parsed u))"
  by (simp_all add: handle_header_def upd_msg_def)

lemma headers_end_eq:
  assumes "req_ps m l c ps" "p_type (h1_parsed u) = HTTP_REQUEST"
  shows "h1_on_headers_complete ps u = headers_end m u"
proof -
  have ps: "http_major ps = 1" "http_minor ps = 1" "hp_method ps = m" using assms(1) by (simp_all add: req_ps_def)
  have i: "http_major (q \<lparr> http_major := 1, http_minor := 1, hp_method := m \<rparr>) = 1"
    "http_minor (q \<lparr> http_major := 1, http_minor := 1, hp_method := m \<rparr>) = 1"
    "hp_method (q \<lparr> http_major := 1, http_minor := 1, hp_method := m \<rparr>) = m" for q by simp_all
  have t: "p_type ((h1_parsed (handle_header u)) \<lparr> p_major := 1, p_minor := 1 \<rparr>) = HTTP_REQUEST" using assms(2) by simp
  show ?thesis unfolding headers_end_def h1_on_headers_complete_def Let_def ps i t by (simp only: simp_thms if_True)
qed

lemma leftover_none:
  assumes "marks h = nomark" "http_errno (prs h) = HPE_OK"
  shows "run_leftover st data h = Inr (RETURN h (length data))"
  using assms by (simp add: run_leftover_def assert_that_def CALLBACK_DATA_ER_def)

lemma exec_last:
  assumes "switch st data h = Inr (Brk h')" "pos h' + 1 = length data" "marks h' = nomark" "http_errno (prs h') = HPE_OK"
  shows "\<exists>ps. exec_loop st data h = Inr (Ret ps (usr h') (length data))"
  using assms by (subst exec_loop.simps) (simp add: loop_round_def leftover_none RETURN_def Let_def)

lemma exec_headers_end:
  assumes d: "drop p data = CR # LF # t" and l: "p + 2 \<le> 81920" and ps: "req_ps m len c ps" and m: "m \<noteq> HTTP_CONNECT"
    and u: "p_type (h1_parsed u) = HTTP_REQUEST" and h: "headers_end m u = Inr (0, u')"
  shows "exec_loop h1_cbs data (hat ps s_header_field_start nomark p u)
    = exec_loop h1_cbs data (hat (ps \<lparr> hp_upgrade := False \<rparr>) s_headers_done nomark (p + 1) u')"
proof -
  have e1: "exec_loop h1_cbs data (hat ps s_header_field_start nomark p u)
      = exec_loop h1_cbs data (hat ps s_headers_almost_done nomark (p + 1) u)"
    by (rule exec_char(1)[OF d]) (use l in \<open>simp_all add: switch_at case_header_field_start_def PARSING_HEADER_def\<close>)
  have q: "p + 1 < length data" "data ! (p + 1) = LF"
    using nth_part[of p data "[CR]" LF t] d by simp_all
  have r: "req_ps m len c (ps \<lparr> hp_upgrade := False \<rparr>)" using ps by (simp add: req_ps_def)
  have "switch h1_cbs data (hat ps s_headers_almost_done nomark (p + 1) u)
      = Inr (Again (hat (ps \<lparr> hp_upgrade := False \<rparr>) s_headers_done nomark (p + 1) u'))"
    using q ps m headers_end_eq[OF r u] h
    by (simp add: switch_at case_headers_almost_done_def req_ps_def Let_def h1_cbs_def)
  from exec_again[OF this] e1 show ?thesis by simp
qed

lemma exec_no_body:
  assumes d: "drop p data = [CR, LF]" and l: "p + 2 \<le> 81920" and ps: "req_ps m len c ps" "len = 0 \<or> len = ULLONG_MAX"
    and m: "m \<noteq> HTTP_CONNECT" and u: "p_type (h1_parsed u) = HTTP_REQUEST" "headers_end m u = Inr (0, u')"
  shows "\<exists>ps'. exec_loop h1_cbs data (hat ps s_header_field_start nomark p u)
    = Inr (Ret ps' (u' \<lparr> h1_state := HP_MESSAGE_COMPLETE \<rparr>) (length data))"
proof -
  have q: "p + 1 < length data" "data ! (p + 1) = LF" using nth_part[of p data "[CR]" LF "[]"] d by simp_all
  have "length (drop p data) = 2" using d by simp
  then have n: "p + 1 + 1 = length data" using q by simp
  let ?h = "hat (ps \<lparr> hp_upgrade := False \<rparr>) s_headers_done nomark (p + 1) u'"
  obtain h' where "switch h1_cbs data ?h = Inr (Brk h')" "pos h' = p + 1" "marks h' = nomark" "http_errno (prs h') = HPE_OK"
      "usr h' = u' \<lparr> h1_state := HP_MESSAGE_COMPLETE \<rparr>"
    using q ps by (auto simp: switch_at case_headers_done_def req_ps_def Let_def cb_complete http_message_needs_eof_def ULLONG_MAX_def)
  with exec_last[of h1_cbs data ?h h'] n exec_headers_end[OF d l ps(1) m u] show ?thesis by simp
qed

lemma exec_body:
  assumes d: "drop p data = CR # LF # b" and l: "p + 2 \<le> 81920" and ps: "req_ps m len c ps" "unat len = length b" "len \<noteq> ULLONG_MAX" and b: "b \<noteq> []"
    and m: "m \<noteq> HTTP_CONNECT" and u: "p_type (h1_parsed u) = HTTP_REQUEST" "headers_end m u = Inr (0, u')"
  shows "\<exists>ps'. exec_loop h1_cbs data (hat ps s_header_field_start nomark p u)
    = Inr (Ret ps' ((body_seen b u') \<lparr> h1_state := HP_MESSAGE_COMPLETE \<rparr>) (length data))"
proof -
  have q: "p + 1 < length data" "data ! (p + 1) = LF" using nth_part[of p data "[CR]" LF b] d by simp_all
  have "length (drop p data) = length b + 2" using d by simp
  then have n: "p + 2 + length b = length data" using q by simp
  have "0 < length b" using b by simp
  then have n2: "Suc (Suc p) \<noteq> length data" "Suc (Suc p) < length data" using n by linarith+
  have len: "len \<noteq> 0" using ps(2) b by auto
  let ?h = "hat (ps \<lparr> hp_upgrade := False \<rparr>) s_headers_done nomark (p + 1) u'"
  let ?ps1 = "ps \<lparr> hp_upgrade := False, hp_nread := 0 \<rparr>"
  let ?h1 = "\<lparr> prs = ?ps1, p_state = s_body_identity, nread = 0, marks = nomark, pos = p + 2, usr = u' \<rparr>"
  have "switch h1_cbs data ?h = Inr (Brk (?h1 \<lparr> pos := p + 1 \<rparr>))"
    using q ps(1,3) len by (simp add: switch_at case_headers_done_def req_ps_def Let_def hat_def)
  then have "loop_round h1_cbs data ?h = Inr (Again ?h1)"
    using n n2 b by (simp add: loop_round_def loop_head_def PARSING_HEADER_def Let_def)
  then have e1: "exec_loop h1_cbs data ?h = exec_loop h1_cbs data ?h1" by (subst exec_loop.simps) simp
  have d2: "drop (p + 2) data = b" using drop_part[of p data "[CR, LF]" b] d by simp
  let ?ps2 = "?ps1 \<lparr> hp_length := 0, hp_state := s_message_done \<rparr>"
  let ?h2 = "\<lparr> prs = ?ps2, p_state = s_message_done, nread = 0, marks = nomark, pos = p + 1 + length b, usr = body_seen b u' \<rparr>"
  have l1: "hp_length ps = len" using ps(1) by (simp add: req_ps_def)
  have "len - word_of_nat (length b) = 0" unfolding ps(2)[symmetric] by simp
  then have "switch h1_cbs data ?h1 = Inr (Again ?h2)"
    using n n2 b q ps len l1 d2
    by (simp add: switch_at case_body_identity_def take_body_def MARK_def Let_def CALLBACK_DATA_ER_def buf_slice_def h1_cbs_def data_cb_def
        h1_on_body_def body_seen_def req_ps_def)
  from exec_again[OF this] have e2: "exec_loop h1_cbs data ?h1 = exec_loop h1_cbs data ?h2" .
  obtain h' where "switch h1_cbs data ?h2 = Inr (Brk h')" "pos h' = p + 1 + length b" "marks h' = nomark" "http_errno (prs h') = HPE_OK"
      "usr h' = (body_seen b u') \<lparr> h1_state := HP_MESSAGE_COMPLETE \<rparr>"
    using n b ps(1) by (auto simp: switch_at case_message_done_def req_ps_def Let_def cb_complete)
  with exec_last[of h1_cbs data ?h2 h'] n e1 e2 exec_headers_end[OF d l ps(1) m u] show ?thesis by simp
qed


section \<open>The headers that are stored\<close>

text \<open>A pair is stored when the next name comes; \<open>stored\<close> are the headers once it is.\<close>

definition settled :: "Http1Parser \<Rightarrow> bool" where
  "settled u = ((header_field u = []) = (header_value u = []))"

definition stored :: "Http1Parser \<Rightarrow> params" where
  "stored u = headers (p_msg (h1_parsed (handle_header u)))"

definition store_all :: "(string \<times> string) list \<Rightarrow> params \<Rightarrow> params" where
  "store_all hs m = fold (\<lambda>(k, v). header_set k v) hs m"

lemmas seen_defs = header_seen_def value_seen_def field_seen_def handle_header_def upd_msg_def Let_def

lemma header_seen_stored:
  assumes "settled u" "fst x \<noteq> []" "snd x \<noteq> []"
  shows "settled (header_seen x u)" "stored (header_seen x u) = header_set (fst x) (snd x) (stored u)"
  using assms by (auto simp: settled_def stored_def seen_defs)

definition no_headers :: "Http1Parser \<Rightarrow> message" where
  "no_headers u = (p_msg (h1_parsed u)) \<lparr> headers := [] \<rparr>"

lemma header_seen_keeps [simp]:
  "p_type (h1_parsed (header_seen x u)) = p_type (h1_parsed u)" "h1_url (header_seen x u) = h1_url u"
  "no_headers (header_seen x u) = no_headers u"
  by (simp_all add: seen_defs no_headers_def)

lemma headers_seen_keep [simp]:
  "p_type (h1_parsed (fold header_seen hs u)) = p_type (h1_parsed u)" "h1_url (fold header_seen hs u) = h1_url u"
  "no_headers (fold header_seen hs u) = no_headers u"
  by (induction hs arbitrary: u) simp_all

lemma headers_seen_stored:
  assumes "settled u" "\<forall>x \<in> set hs. fst x \<noteq> [] \<and> snd x \<noteq> []"
  shows "stored (fold header_seen hs u) = store_all hs (stored u)"
  using assms by (induction hs arbitrary: u) (auto simp: store_all_def header_seen_stored)

lemma find_store_all:
  assumes "\<forall>x \<in> set hs. lower (fst x) \<noteq> lower k"
  shows "header_find k (store_all hs m) = header_find k m"
  using assms by (induction hs arbitrary: m) (auto simp: store_all_def header_find_set)

lemma TOKEN_NUL: "TOKEN NUL = NUL" by code_simp

lemma lower_token: "token k \<Longrightarrow> lower k = map tolower k"
proof -
  assume k: "token k"
  then have "NUL \<notin> set k" using TOKEN_NUL by (auto simp: token_def)
  then show "lower k = map tolower k" by (simp add: lower_def cstr_id)
qed

definition CL_name :: string where "CL_name = ''content-length''"

definition type_of :: "params \<Rightarrow> int" where
  "type_of hs = (case header_find ''content-type'' hs of None \<Rightarrow> CONTENT_TYPE_NONE | Some v \<Rightarrow> http_content_type_enum (Some v))"

lemma headers_end_request:
  assumes "p_type (h1_parsed u) = HTTP_REQUEST" "content_type (p_msg (h1_parsed u)) = CONTENT_TYPE_NONE"
    and "n = (case header_find CL_name (stored u) of None \<Rightarrow> content_length (p_msg (h1_parsed u)) | Some v \<Rightarrow> atoi v)" "0 \<le> n"
  shows "\<exists>u'. headers_end m u = Inr (0, u') \<and> p_type (h1_parsed u') = HTTP_REQUEST \<and> p_method (h1_parsed u') = m
    \<and> p_url (h1_parsed u') = h1_url u \<and> p_major (h1_parsed u') = 1 \<and> p_minor (h1_parsed u') = 1
    \<and> p_msg (h1_parsed u') = (p_msg (h1_parsed u)) \<lparr> headers := stored u, content_length := n, content_type := type_of (stored u) \<rparr>"
proof -
  let ?t = "header_find ''content-type'' (headers (p_msg (h1_parsed (handle_header u))))"
  and ?l = "header_find ''content-length'' (headers (p_msg (h1_parsed (handle_header u))))"
  have h: "p_msg (h1_parsed (handle_header u)) = (p_msg (h1_parsed u)) \<lparr> headers := stored u \<rparr>"
    by (simp add: stored_def handle_header_def upd_msg_def)
  consider "?t = None" "?l = None" | t where "?t = Some t" "?l = None" | l where "?t = None" "?l = Some l"
    | t l where "?t = Some t" "?l = Some l" by fastforce
  then show ?thesis using assms
    by cases (simp_all add: h type_of_def CL_name_def headers_end_def h1_on_headers_complete_def upd_msg_def Let_def)
qed

section \<open>A request\<close>

text \<open>The object after a request: complete, and with what the request says.\<close>

definition received_msg :: "params \<Rightarrow> string \<Rightarrow> message" where
  "received_msg hs b = message_init \<lparr> headers := hs, body := b, content_length := int (length b), content_type := type_of hs \<rparr>"

definition received :: "int \<Rightarrow> string \<Rightarrow> (string \<times> string) list \<Rightarrow> string \<Rightarrow> Http1Parser \<Rightarrow> bool" where
  "received m url hs b hp = (let pd = h1_parsed hp in IsComplete hp \<and> p_type pd = HTTP_REQUEST \<and> p_method pd = m
     \<and> p_url pd = url \<and> p_major pd = 1 \<and> p_minor pd = 1
     \<and> p_msg pd = received_msg (store_all hs (headers (p_msg Request_Reset))) b)"

definition line_seen :: "string \<Rightarrow> Http1Parser \<Rightarrow> Http1Parser" where
  "line_seen url hp = url_seen url ((snd (InitRequest hp)) \<lparr> h1_state := HP_MESSAGE_BEGIN \<rparr>)"

lemma line_seen_simps [simp]:
  "settled (line_seen url hp)" "stored (line_seen url hp) = headers (p_msg Request_Reset)"
  "p_type (h1_parsed (line_seen url hp)) = HTTP_REQUEST" "h1_url (line_seen url hp) = url"
  "no_headers (line_seen url hp) = message_init"
  by (simp_all add: no_headers_def line_seen_def url_seen_def InitRequest_def settled_def stored_def handle_header_def
      Request_Reset_def message_init_def)

lemma no_headers_init:
  assumes "no_headers u = message_init"
  shows "p_msg (h1_parsed u) = message_init \<lparr> headers := headers (p_msg (h1_parsed u)) \<rparr>"
    "content_type (p_msg (h1_parsed u)) = CONTENT_TYPE_NONE" "content_length (p_msg (h1_parsed u)) = 0"
proof -
  show m: "p_msg (h1_parsed u) = message_init \<lparr> headers := headers (p_msg (h1_parsed u)) \<rparr>"
    unfolding assms[symmetric] by (simp add: no_headers_def)
  show "content_type (p_msg (h1_parsed u)) = CONTENT_TYPE_NONE" "content_length (p_msg (h1_parsed u)) = 0"
    by (subst m, simp add: message_init_def)+
qed

lemma execute_fresh:
  assumes "data \<noteq> []"
  shows "http_parser_execute h1_cbs data (http_parser_init HTTP_REQUEST) u = exec_loop h1_cbs data (fresh u)"
proof -
  have "initial_marks s_start_req = nomark" by (rule ext) (simp add: initial_marks_def url_states_def split: data_kind.split)
  then have "exec_start (http_parser_init HTTP_REQUEST) u = \<lparr> prs = http_parser_init HTTP_REQUEST, p_state = s_start_req,
      nread = 0, marks = nomark, pos = 0, usr = u \<rparr>"
    by (simp add: exec_start_def http_parser_init_def)
  then have "loop_head (exec_start (http_parser_init HTTP_REQUEST) u) = Inr (Again (fresh u))"
    by (simp add: loop_head_def PARSING_HEADER_def COUNT_HEADER_SIZE_def max_header_size_def fresh_def hat_def Let_def)
  moreover have "http_errno (http_parser_init HTTP_REQUEST) = HPE_OK" by (simp add: http_parser_init_def)
  ultimately show ?thesis using assms by (simp add: http_parser_execute_def)
qed

lemma feed_result:
  assumes "exec_loop h1_cbs data (fresh (snd (InitRequest hp))) = Inr (Ret ps u (length data))" "data \<noteq> []" "length data < 2 ^ 31"
  shows "h1_FeedRecvData data (InitRequest hp) = Inr (int (length data), ps, u)"
proof -
  have "fst (InitRequest hp) = http_parser_init HTTP_REQUEST" by (simp add: InitRequest_def)
  moreover have "wrap32 (int (length data)) = int (length data)" using assms(3) by (intro wrap32_id) (simp_all add: limit_defs)
  ultimately show ?thesis using assms(1) execute_fresh[OF assms(2), of "snd (InitRequest hp)"] by (simp add: h1_FeedRecvData_def)
qed

lemma lower_CL: "lower CL_name = CL_name" by code_simp

lemma plain_not_length:
  assumes "plain_header x"
  shows "lower (fst x) \<noteq> lower CL_name" "fst x \<noteq> []" "snd x \<noteq> []"
proof -
  show "lower (fst x) \<noteq> lower CL_name"
    using assms lower_token[of "fst x"] lower_CL by (auto simp: plain_header_def special_names_def CL_name_def)
qed (use assms in \<open>auto simp: plain_header_def value_ok_def token_def\<close>)

definition headers_text :: "(string \<times> string) list \<Rightarrow> string" where
  "headers_text hs = concat (map header_line hs)"


text \<open>The request line and header lines without a length.\<close>

lemma exec_head_plain:
  assumes r: "(m, name) \<in> set http_method_map" "m \<noteq> HTTP_CONNECT" "target_ok url" and hs: "\<forall>x \<in> set hs. plain_header x"
    and data: "data = (request_line name url @ headers_text hs) @ n # t" and n: "n \<noteq> CHR '' ''" "n \<noteq> HT"
    and l: "length (request_line name url @ headers_text hs) + 1 \<le> 81920"
  shows "\<exists>ps. exec_loop h1_cbs data (fresh (snd (InitRequest hp))) = exec_loop h1_cbs data
      (hat ps s_header_field_start nomark (length (request_line name url @ headers_text hs)) (fold header_seen hs (line_seen url hp)))
    \<and> req_ps m ULLONG_MAX False ps"
proof -
  obtain ps where e1: "exec_loop h1_cbs data (fresh (snd (InitRequest hp))) = exec_loop h1_cbs data
      (hat ps s_header_field_start nomark (length (request_line name url)) (line_seen url hp))" "req_ps m ULLONG_MAX False ps"
    using exec_request_line[OF r, of data "headers_text hs @ n # t" "snd (InitRequest hp)"] data l by (auto simp: line_seen_def)
  have "drop (length (request_line name url)) data = concat (map header_line hs) @ n # t" using data by (simp add: headers_text_def)
  from exec_plain_headers[OF this n hs e1(2), of "line_seen url hp"] l e1(1) show ?thesis by (auto simp: headers_text_def)
qed

text \<open>The same with a length among the headers.\<close>

lemma exec_head:
  assumes r: "(m, name) \<in> set http_method_map" "m \<noteq> HTTP_CONNECT" "target_ok url"
    and hs: "\<forall>x \<in> set hs. plain_header x" "\<forall>x \<in> set hs'. plain_header x"
    and k: "token k" "map tolower k = ''content-length''" and v: "0 \<le> v" "v < 10 ^ 18"
    and front: "front = request_line name url @ headers_text (hs @ (k, dec_digits v) # hs')"
    and data: "data = front @ CR # t" and l: "length front + 1 \<le> 81920"
  shows "\<exists>ps. exec_loop h1_cbs data (fresh (snd (InitRequest hp))) = exec_loop h1_cbs data
      (hat ps s_header_field_start nomark (length front) (fold header_seen (hs @ (k, dec_digits v) # hs') (line_seen url hp)))
    \<and> req_ps m (word_of_int v) True ps"
proof -
  let ?a = "request_line name url @ headers_text hs" and ?cl = "header_line (k, dec_digits v)"
  have headeq: "front = (?a @ ?cl) @ headers_text hs'" using front by (simp add: headers_text_def)
  obtain c r where c: "?cl = c # r" "c \<noteq> CHR '' ''" "c \<noteq> HT" using header_line_hd[of "(k, dec_digits v)"] k(1) by auto
  have d1: "data = ?a @ c # (r @ headers_text hs' @ CR # t)" using data headeq c(1) by simp
  obtain ps1 where e1: "exec_loop h1_cbs data (fresh (snd (InitRequest hp)))
      = exec_loop h1_cbs data (hat ps1 s_header_field_start nomark (length ?a) (fold header_seen hs (line_seen url hp)))"
      "req_ps m ULLONG_MAX False ps1"
    using exec_head_plain[OF r hs(1) d1 c(2,3), of hp] l headeq by auto
  obtain c' t' where c': "headers_text hs' @ CR # t = c' # t'" "c' \<noteq> CHR '' ''" "c' \<noteq> HT"
  proof (cases hs')
    case (Cons y ys)
    have "token (fst y)" using hs(2) Cons by (simp add: plain_header_def)
    then obtain c r where "header_line y = c # r" "c \<noteq> CHR '' ''" "c \<noteq> HT" by (rule header_line_hd)
    with Cons that show ?thesis by (simp add: headers_text_def)
  qed (use that in \<open>simp add: headers_text_def\<close>)
  have d2: "drop (length ?a) data = ?cl @ c' # t'" using data headeq c'(1) by simp
  obtain ps2 where e2: "exec_loop h1_cbs data (hat ps1 s_header_field_start nomark (length ?a) (fold header_seen hs (line_seen url hp)))
      = exec_loop h1_cbs data (hat ps2 s_header_field_start nomark (length (?a @ ?cl)) (fold header_seen (hs @ [(k, dec_digits v)]) (line_seen url hp)))"
      "req_ps m (word_of_int v) True ps2"
    using exec_content_length[OF d2 c'(2,3) k v e1(2), of "fold header_seen hs (line_seen url hp)"] l headeq
    by (auto simp: add.assoc)
  have d3: "drop (length (?a @ ?cl)) data = concat (map header_line hs') @ CR # t" using data headeq by (simp add: headers_text_def)
  obtain ps3 where e3: "exec_loop h1_cbs data (hat ps2 s_header_field_start nomark (length (?a @ ?cl)) (fold header_seen (hs @ [(k, dec_digits v)]) (line_seen url hp)))
      = exec_loop h1_cbs data (hat ps3 s_header_field_start nomark (length front) (fold header_seen (hs @ (k, dec_digits v) # hs') (line_seen url hp)))"
      "req_ps m (word_of_int v) True ps3"
    using exec_plain_headers[OF d3 _ _ hs(2) e2(2), of "fold header_seen (hs @ [(k, dec_digits v)]) (line_seen url hp)"] l headeq
    by (auto simp: headers_text_def add.assoc)
  from e1(1) e2(1) e3 show ?thesis by metis
qed


lemma text_headers: "\<forall>x \<in> set hs. plain_header x \<Longrightarrow> \<forall>x \<in> set hs. fst x \<noteq> [] \<and> snd x \<noteq> []"
  using plain_not_length(2,3) by blast

lemma request_with_body_run:
  assumes "(m, name) \<in> set http_method_map" "m \<noteq> HTTP_CONNECT" "target_ok url"
    "\<forall>x \<in> set hs. plain_header x" "\<forall>x \<in> set hs'. plain_header x"
    "token k" "map tolower k = ''content-length''"
    and tx: "all = hs @ (k, int_to_string (int (length b))) # hs'"
      "front = request_line name url @ headers_text all" "data = front @ [CR, LF] @ b"
    and len: "length front + 2 \<le> 81920" "length data < 2 ^ 31"
  shows "\<exists>ps hp'. h1_FeedRecvData data (InitRequest hp) = Inr (int (length data), ps, hp') \<and> received m url all b hp'"
proof -
  let ?n = "int (length b)" and ?u = "fold header_seen all (line_seen url hp)"
  have dd: "int_to_string ?n = dec_digits ?n" by (simp add: int_to_string_def)
  have nb: "length b < 2 ^ 31" using len(2) tx(3) by simp
  obtain ps where e: "exec_loop h1_cbs data (fresh (snd (InitRequest hp))) = exec_loop h1_cbs data
      (hat ps s_header_field_start nomark (length front) ?u)" "req_ps m (word_of_int ?n) True ps"
    using exec_head[OF assms(1-7), of ?n front data "LF # b" hp] tx len nb by (auto simp: dd)
  have all: "\<forall>x \<in> set all. fst x \<noteq> [] \<and> snd x \<noteq> []"
    using text_headers[OF assms(4)] text_headers[OF assms(5)] tx(1) assms(6) by (auto simp: token_def dd dec_digits_not_Nil)
  have st: "stored ?u = store_all all (headers (p_msg Request_Reset))" using headers_seen_stored[OF _ all] by simp
  have "lower k = lower CL_name" using lower_token[OF assms(6)] assms(7) lower_CL by (simp add: CL_name_def)
  then have "header_find CL_name (stored ?u) = Some (int_to_string ?n)"
    using find_store_all[of hs' CL_name] plain_not_length(1) assms(5) st tx(1) by (simp add: store_all_def header_find_set)
  moreover have "atoi (int_to_string ?n) = ?n" using nb by (intro atoi_int_to_string) (simp_all add: limit_defs)
  ultimately obtain u' where u': "headers_end m ?u = Inr (0, u')" "p_type (h1_parsed u') = HTTP_REQUEST" "p_method (h1_parsed u') = m"
      "p_url (h1_parsed u') = url" "p_major (h1_parsed u') = 1" "p_minor (h1_parsed u') = 1"
      "p_msg (h1_parsed u') = (p_msg (h1_parsed ?u)) \<lparr> headers := stored ?u, content_length := ?n, content_type := type_of (stored ?u) \<rparr>"
    using headers_end_request[of ?u ?n m] no_headers_init(2)[of ?u] by auto
  have msg: "p_msg (h1_parsed u') = message_init \<lparr> headers := stored ?u, content_length := ?n, content_type := type_of (stored ?u) \<rparr>"
    using u'(7) by (subst (asm) no_headers_init(1)) simp_all
  have d: "drop (length front) data = CR # LF # b" using tx(3) by simp
  have fin: "\<exists>ps'. exec_loop h1_cbs data (hat ps s_header_field_start nomark (length front) ?u)
      = Inr (Ret ps' ((if b = [] then u' else body_seen b u') \<lparr> h1_state := HP_MESSAGE_COMPLETE \<rparr>) (length data))"
  proof (cases "b = []")
    case True
    with exec_no_body[of "length front" data m "word_of_int ?n" True ps ?u u'] d e(2) u'(1) assms(2) len(1) show ?thesis by simp
  next
    case False
    have "unat (word_of_int ?n :: 64 word) = length b" using nb by (simp add: unsigned_of_nat take_bit_nat_eq_self)
    moreover have "(word_of_int ?n :: 64 word) \<noteq> ULLONG_MAX"
      using calculation nb by (auto simp: ULLONG_MAX_def)
    ultimately show ?thesis using exec_body[OF d _ e(2) _ _ False assms(2) _ u'(1)] len(1) False by simp
  qed
  then obtain ps' where "exec_loop h1_cbs data (fresh (snd (InitRequest hp)))
      = Inr (Ret ps' ((if b = [] then u' else body_seen b u') \<lparr> h1_state := HP_MESSAGE_COMPLETE \<rparr>) (length data))" using e(1) by auto
  from feed_result[OF this _ len(2)] tx(3) u'(2-6) msg st show ?thesis
    by (auto simp: received_def received_msg_def IsComplete_def body_seen_def upd_msg_def message_init_def Let_def)
qed

text \<open>
  C4: A request with any method but CONNECT, a target in origin form, any header lines and a
  \<open>Content-Length\<close> among them, in any spelling and at any place, that announces its body, is
  read to its last byte by one call; then the message is complete and holds the method, the
  target, the version, exactly these headers on top of the defaults, and the body.
\<close>

theorem request_with_body_parsed:
  assumes "(m, name) \<in> set http_method_map" "m \<noteq> HTTP_CONNECT" "target_ok url"
    "\<forall>x \<in> set hs. plain_header x" "\<forall>x \<in> set hs'. plain_header x"
    "token k" "map tolower k = ''content-length''"
    and tx: "all = hs @ (k, int_to_string (int (length b))) # hs'"
      "front = request_line name url @ headers_text all" "data = front @ [CR, LF] @ b"
    and len: "length front + 2 \<le> 81920" "length data < 2 ^ 31"
  shows "\<exists>ps hp'. h1_FeedRecvData data (InitRequest hp) = Inr (int (length data), ps, hp') \<and> received m url all b hp'"
  using assms by (rule request_with_body_run)


theorem request_with_body_parsed_witness:
  "\<exists>ps hp'. h1_FeedRecvData (request_line ''POST'' ''/trade?id=7''
       @ headers_text [(''Host'', ''localhost''), (''CONTENT-length'', int_to_string 2), (''Connection'', ''close'')] @ [CR, LF] @ ''{}'')
       (InitRequest \<lparr> h1_flags = 0, h1_state = HP_START_REQ_OR_RES, h1_parsed = Response_Reset, h1_url = [], header_field = [], header_value = [] \<rparr>)
     = Inr (86, ps, hp')
   \<and> received HTTP_POST ''/trade?id=7'' [(''Host'', ''localhost''), (''CONTENT-length'', int_to_string 2), (''Connection'', ''close'')] ''{}'' hp'"
proof -
  have 1: "(HTTP_POST, ''POST'') \<in> set http_method_map" by code_simp
  have 2: "HTTP_POST \<noteq> HTTP_CONNECT" by code_simp
  have 3: "target_ok ''/trade?id=7''" by code_simp
  have 4: "\<forall>x \<in> set [(''Host'', ''localhost'')]. plain_header x" by code_simp
  have 5: "\<forall>x \<in> set [(''Connection'', ''close'')]. plain_header x" by code_simp
  have 6: "token ''CONTENT-length''" by code_simp
  have 7: "map tolower ''CONTENT-length'' = ''content-length''" by code_simp
  have 8: "dec_digits 2 = ''2''" by code_simp
  from request_with_body_parsed[OF 1 2 3 4 5 6 7 refl refl refl, of "''{}''"] show ?thesis
    by (simp add: request_line_def headers_text_def header_line_def int_to_string_def 8)
qed

text \<open>
  C9: A request with no length and no encoding among its headers is complete at the blank
  line that ends them, with its method, its target and its headers, and an empty body.
\<close>

theorem request_without_body_parsed:
  assumes "(m, name) \<in> set http_method_map" "m \<noteq> HTTP_CONNECT" "target_ok url" "\<forall>x \<in> set hs. plain_header x"
    and tx: "data = request_line name url @ headers_text hs @ [CR, LF]" and len: "length data \<le> 81920"
  shows "\<exists>ps hp'. h1_FeedRecvData data (InitRequest hp) = Inr (int (length data), ps, hp') \<and> received m url hs [] hp'"
proof -
  let ?u = "fold header_seen hs (line_seen url hp)" and ?l = "length (request_line name url @ headers_text hs)"
  obtain ps where e: "exec_loop h1_cbs data (fresh (snd (InitRequest hp))) = exec_loop h1_cbs data
      (hat ps s_header_field_start nomark ?l ?u)" "req_ps m ULLONG_MAX False ps"
    using exec_head_plain[OF assms(1-4), of data CR "[LF]" hp] tx len by auto
  have st: "stored ?u = store_all hs (headers (p_msg Request_Reset))"
    using headers_seen_stored[OF _ text_headers[OF assms(4)]] by simp
  have "header_find CL_name (headers (p_msg Request_Reset)) = None" by code_simp
  then have "header_find CL_name (stored ?u) = None" using find_store_all[of hs CL_name] plain_not_length(1) assms(4) st by auto
  then obtain u' where u': "headers_end m ?u = Inr (0, u')" "p_type (h1_parsed u') = HTTP_REQUEST" "p_method (h1_parsed u') = m"
      "p_url (h1_parsed u') = url" "p_major (h1_parsed u') = 1" "p_minor (h1_parsed u') = 1"
      "p_msg (h1_parsed u') = (p_msg (h1_parsed ?u)) \<lparr> headers := stored ?u, content_length := 0, content_type := type_of (stored ?u) \<rparr>"
    using headers_end_request[of ?u 0 m] no_headers_init(2,3)[of ?u] by auto
  have msg: "p_msg (h1_parsed u') = message_init \<lparr> headers := stored ?u, content_length := 0, content_type := type_of (stored ?u) \<rparr>"
    using u'(7) by (subst (asm) no_headers_init(1)) simp_all
  have d: "drop ?l data = [CR, LF]" using tx by simp
  obtain ps' where "exec_loop h1_cbs data (fresh (snd (InitRequest hp)))
      = Inr (Ret ps' (u' \<lparr> h1_state := HP_MESSAGE_COMPLETE \<rparr>) (length data))"
    using exec_no_body[OF d _ e(2) _ assms(2) _ u'(1)] e(1) tx len by auto
  from feed_result[OF this] len tx u'(2-6) msg st show ?thesis
    by (auto simp: received_def received_msg_def IsComplete_def message_init_def Let_def)
qed

theorem request_without_body_parsed_witness:
  "\<exists>ps hp'. h1_FeedRecvData (request_line ''GET'' ''/'' @ headers_text [(''Host'', ''a'')] @ [CR, LF])
       (InitRequest \<lparr> h1_flags = 0, h1_state = HP_START_REQ_OR_RES, h1_parsed = Response_Reset, h1_url = [], header_field = [], header_value = [] \<rparr>)
     = Inr (27, ps, hp') \<and> received HTTP_GET ''/'' [(''Host'', ''a'')] [] hp'"
proof -
  have 1: "(HTTP_GET, ''GET'') \<in> set http_method_map" by code_simp
  have 2: "HTTP_GET \<noteq> HTTP_CONNECT" by code_simp
  have 3: "target_ok ''/''" by code_simp
  have 4: "\<forall>x \<in> set [(''Host'', ''a'')]. plain_header x" by code_simp
  from request_without_body_parsed[OF 1 2 3 4 refl] show ?thesis
    by (simp add: request_line_def headers_text_def header_line_def)
qed

end
