(* ===== verification/HttpUrl.thy ===== *)
theory HttpUrl
  imports HttpParserDefs HttpMessage
begin

text \<open>
  The structured URL: \<open>http_parse_host\<close> and \<open>http_parser_parse_url\<close> of \<open>src/http/http_parser.c\<close>
  and \<open>HttpRequest::DumpUrl\<close> and \<open>ParseUrl\<close> of \<open>src/http/HttpMessage.cpp\<close>. The offsets and
  lengths of the fields are 16-bit numbers; \<open>wrap16\<close> writes the conversion out.
\<close>

section \<open>Fields\<close>

datatype http_parser_url_fields = UF_SCHEMA | UF_HOST | UF_PORT | UF_PATH | UF_QUERY | UF_FRAGMENT | UF_USERINFO

text \<open>The bit mask \<open>field_set\<close> is the predicate of the fields whose bit is set.\<close>

record http_parser_url =
  field_set :: "http_parser_url_fields \<Rightarrow> bool"
  url_port :: int
  field_off :: "http_parser_url_fields \<Rightarrow> nat"
  field_len :: "http_parser_url_fields \<Rightarrow> nat"

definition wrap16 :: "nat \<Rightarrow> nat" where "wrap16 n = n mod 65536"

definition http_parser_url_init :: http_parser_url where
  "http_parser_url_init = \<lparr> field_set = (\<lambda>_. False), url_port = 0, field_off = (\<lambda>_. 0), field_len = (\<lambda>_. 0) \<rparr>"

text \<open>A field begins at \<open>p\<close> with length \<open>n\<close>; a field grows by a byte.\<close>

definition begin_field :: "http_parser_url_fields \<Rightarrow> nat \<Rightarrow> nat \<Rightarrow> http_parser_url \<Rightarrow> http_parser_url" where
  "begin_field f p n u = u \<lparr> field_set := (field_set u)(f := True), field_off := (field_off u)(f := wrap16 p),
     field_len := (field_len u)(f := n) \<rparr>"

definition grow_field :: "http_parser_url_fields \<Rightarrow> http_parser_url \<Rightarrow> http_parser_url" where
  "grow_field f u = u \<lparr> field_len := (field_len u)(f := wrap16 (field_len u f + 1)) \<rparr>"

definition move_field :: "http_parser_url_fields \<Rightarrow> nat \<Rightarrow> http_parser_url \<Rightarrow> http_parser_url" where
  "move_field f p u = u \<lparr> field_off := (field_off u)(f := wrap16 p) \<rparr>"

section \<open>The host\<close>

datatype http_host_state =
    s_http_host_dead | s_http_userinfo_start | s_http_userinfo | s_http_host_start | s_http_host_v6_start
  | s_http_host | s_http_host_v6 | s_http_host_v6_end | s_http_host_v6_zone_start | s_http_host_v6_zone
  | s_http_host_port_start | s_http_host_port

definition zone_char :: "char \<Rightarrow> bool" where
  "zone_char ch = (IS_ALPHANUM ch \<or> ch = CHR ''%'' \<or> ch = CHR ''.'' \<or> ch = CHR ''-'' \<or> ch = CHR ''_'' \<or> ch = CHR ''~'')"

definition http_parse_host_char :: "http_host_state \<Rightarrow> char \<Rightarrow> http_host_state" where
  "http_parse_host_char s ch = (
     if s = s_http_userinfo \<or> s = s_http_userinfo_start then
       (if ch = CHR ''@'' then s_http_host_start
        else if IS_USERINFO_CHAR ch then s_http_userinfo else s_http_host_dead)
     else if s = s_http_host_start then
       (if ch = CHR ''['' then s_http_host_v6_start
        else if IS_HOST_CHAR ch then s_http_host else s_http_host_dead)
     else if s = s_http_host \<and> IS_HOST_CHAR ch then s_http_host
     else if s = s_http_host \<or> s = s_http_host_v6_end then
       (if ch = CHR '':'' then s_http_host_port_start else s_http_host_dead)
     else if s = s_http_host_v6 \<and> ch = CHR '']'' then s_http_host_v6_end
     else if s = s_http_host_v6 \<or> s = s_http_host_v6_start then
       (if IS_HEX ch \<or> ch = CHR '':'' \<or> ch = CHR ''.'' then s_http_host_v6
        else if s = s_http_host_v6 \<and> ch = CHR ''%'' then s_http_host_v6_zone_start else s_http_host_dead)
     else if s = s_http_host_v6_zone \<and> ch = CHR '']'' then s_http_host_v6_end
     else if s = s_http_host_v6_zone \<or> s = s_http_host_v6_zone_start then
       (if zone_char ch then s_http_host_v6_zone else s_http_host_dead)
     else if s = s_http_host_port \<or> s = s_http_host_port_start then
       (if IS_NUM ch then s_http_host_port else s_http_host_dead)
     else s_http_host_dead)"

text \<open>What the loop does when the state goes from \<open>s\<close> to \<open>new_s\<close> at \<open>p\<close>.\<close>

definition host_step :: "http_host_state \<Rightarrow> http_host_state \<Rightarrow> nat \<Rightarrow> http_parser_url \<Rightarrow> http_parser_url" where
  "host_step s new_s p u = (
     if new_s = s_http_host \<or> new_s = s_http_host_v6 then grow_field UF_HOST (if s \<noteq> new_s then move_field UF_HOST p u else u)
     else if new_s = s_http_host_v6_zone_start \<or> new_s = s_http_host_v6_zone then grow_field UF_HOST u
     else if new_s = s_http_host_port then grow_field UF_PORT (if s \<noteq> new_s then begin_field UF_PORT p 0 u else u)
     else if new_s = s_http_userinfo then grow_field UF_USERINFO (if s \<noteq> new_s then begin_field UF_USERINFO p 0 u else u)
     else u)"

function host_loop :: "string \<Rightarrow> nat \<Rightarrow> nat \<Rightarrow> http_host_state \<Rightarrow> http_parser_url \<Rightarrow> (http_host_state \<times> http_parser_url) cres" where
  "host_loop buf p e s u =
     (if p < e then cbind (rd buf p) (\<lambda>c.
        let new_s = http_parse_host_char s c
        in if new_s = s_http_host_dead then Inr (new_s, u)
           else host_loop buf (p + 1) e new_s (host_step s new_s p u))
      else Inr (s, u))"
  by pat_completeness auto
termination by (relation "measure (\<lambda>(buf, p, e, s, u). e - p)") auto

declare host_loop.simps [simp del]

definition host_unfinished :: "http_host_state list" where
  "host_unfinished = [s_http_host_start, s_http_host_v6_start, s_http_host_v6, s_http_host_v6_zone_start,
     s_http_host_v6_zone, s_http_host_port_start, s_http_userinfo, s_http_userinfo_start]"

definition http_parse_host :: "string \<Rightarrow> bool \<Rightarrow> http_parser_url \<Rightarrow> (int \<times> http_parser_url) cres" where
  "http_parse_host buf found_at u =
     (let off = field_off u UF_HOST; buflen = off + field_len u UF_HOST
      in if \<not> field_set u UF_HOST then Inl AssertFailure
         else cbind (host_loop buf off buflen (if found_at then s_http_userinfo_start else s_http_host_start)
                       (u \<lparr> field_len := (field_len u)(UF_HOST := 0) \<rparr>))
                (\<lambda>(s, u'). Inr (if s = s_http_host_dead \<or> s \<in> set host_unfinished then 1 else 0, u')))"

section \<open>The URL\<close>

text \<open>The field that the bytes of a state belong to; the delimiters belong to none.\<close>

definition url_delims :: "pstate list" where
  "url_delims = [s_req_schema_slash, s_req_schema_slash_slash, s_req_server_start, s_req_query_string_start, s_req_fragment_start]"

definition url_field :: "pstate \<Rightarrow> http_parser_url_fields option" where
  "url_field s = (case s of s_req_schema \<Rightarrow> Some UF_SCHEMA | s_req_server_with_at \<Rightarrow> Some UF_HOST
     | s_req_server \<Rightarrow> Some UF_HOST | s_req_path \<Rightarrow> Some UF_PATH | s_req_query_string \<Rightarrow> Some UF_QUERY
     | s_req_fragment \<Rightarrow> Some UF_FRAGMENT | _ \<Rightarrow> None)"

text \<open>The loop over the bytes from \<open>p\<close> on; \<open>None\<close> is the return of 1 for a byte that is not allowed.\<close>

fun url_loop :: "string \<Rightarrow> nat \<Rightarrow> pstate \<Rightarrow> http_parser_url_fields option \<Rightarrow> bool \<Rightarrow> http_parser_url
    \<Rightarrow> (bool option \<times> http_parser_url) cres" where
  "url_loop [] p s old_uf found_at u = Inr (Some found_at, u)"
| "url_loop (c # cs) p s old_uf found_at u =
     (let s = parse_url_char s c
      in if s = s_dead then Inr (None, u)
         else if s \<in> set url_delims then url_loop cs (p + 1) s old_uf found_at u
         else let found_at = (found_at \<or> s = s_req_server_with_at)
              in case url_field s of
                   None \<Rightarrow> Inl AssertFailure
                 | Some uf \<Rightarrow>
                     if Some uf = old_uf then url_loop cs (p + 1) s old_uf found_at (grow_field uf u)
                     else url_loop cs (p + 1) s (Some uf) found_at (begin_field uf p 1 u))"

text \<open>The port as a number; \<open>None\<close> when it is above 65535.\<close>

function port_loop :: "string \<Rightarrow> nat \<Rightarrow> nat \<Rightarrow> 64 word \<Rightarrow> 64 word option cres" where
  "port_loop buf p e v =
     (if p < e then cbind (rd buf p) (\<lambda>c.
        let v = v * 10 + word_of_int (schar c - 48)
        in if 65535 < v then Inr None else port_loop buf (p + 1) e v)
      else Inr (Some v))"
  by pat_completeness auto
termination by (relation "measure (\<lambda>(buf, p, e, v). e - p)") auto

declare port_loop.simps [simp del]

definition url_fields :: "http_parser_url_fields list" where
  "url_fields = [UF_SCHEMA, UF_HOST, UF_PORT, UF_PATH, UF_QUERY, UF_FRAGMENT, UF_USERINFO]"

definition only_host_port :: "http_parser_url \<Rightarrow> bool" where
  "only_host_port u = list_all (\<lambda>f. field_set u f = (f = UF_HOST \<or> f = UF_PORT)) url_fields"

definition parse_port :: "string \<Rightarrow> http_parser_url \<Rightarrow> (int \<times> http_parser_url) cres" where
  "parse_port buf u =
     (if field_set u UF_PORT then
        (let off = field_off u UF_PORT; e = off + field_len u UF_PORT
         in if length buf < e then Inl AssertFailure
            else cbind (port_loop buf off e 0) (\<lambda>r. case r of
                   None \<Rightarrow> Inr (1, u)
                 | Some v \<Rightarrow> Inr (0, u \<lparr> url_port := uint v mod 65536 \<rparr>)))
      else Inr (0, u))"

definition http_parser_parse_url :: "string \<Rightarrow> bool \<Rightarrow> http_parser_url \<Rightarrow> (int \<times> http_parser_url) cres" where
  "http_parser_parse_url buf is_connect u =
     (if buf = [] then Inr (1, u)
      else cbind (url_loop buf 0 (if is_connect then s_req_server_start else s_req_spaces_before_url) None False
                   (u \<lparr> url_port := 0, field_set := (\<lambda>_. False) \<rparr>)) (\<lambda>(r, u). case r of
        None \<Rightarrow> Inr (1, u)
      | Some found_at \<Rightarrow>
          if field_set u UF_SCHEMA \<and> \<not> field_set u UF_HOST then Inr (1, u)
          else cbind (if field_set u UF_HOST then http_parse_host buf found_at u else Inr (0, u)) (\<lambda>(rh, u).
            if rh \<noteq> 0 then Inr (1, u)
            else if is_connect \<and> \<not> only_host_port u then Inr (1, u)
            else parse_port buf u)))"


section \<open>Every field lies in the URL\<close>

definition near :: "http_parser_url \<Rightarrow> http_parser_url_fields \<Rightarrow> nat \<Rightarrow> bool" where
  "near u f n = (field_set u f \<longrightarrow> field_off u f + field_len u f \<le> n)"

definition fields_in :: "nat \<Rightarrow> http_parser_url \<Rightarrow> bool" where
  "fields_in n u = (\<forall>f. near u f n)"

lemma near_mono: "near u f n \<Longrightarrow> n \<le> m \<Longrightarrow> near u f m"
  by (auto simp: near_def)

lemma fields_in_mono: "fields_in n u \<Longrightarrow> n \<le> m \<Longrightarrow> fields_in m u"
  by (auto simp: fields_in_def intro: near_mono)

lemma wrap16_le [simp]: "wrap16 n \<le> n"
  by (simp add: wrap16_def)

lemma near_begin: "near (begin_field f p n u) g m = (if g = f then wrap16 p + n \<le> m else near u g m)"
  by (simp add: near_def begin_field_def)

lemma near_grow: "near u f n \<Longrightarrow> near (grow_field f u) f (n + 1)" "g \<noteq> f \<Longrightarrow> near (grow_field f u) g n = near u g n"
  using wrap16_le[of "Suc (field_len u f)"] by (auto simp: near_def grow_field_def simp del: wrap16_le)

lemma near_move: "near (move_field f p u) g m = (if g = f then field_set u f \<longrightarrow> wrap16 p + field_len u f \<le> m else near u g m)"
  by (simp add: near_def move_field_def)

lemma fields_in_begin: "fields_in p u \<Longrightarrow> fields_in (p + n) (begin_field f p n u)"
  by (auto simp: fields_in_def near_begin intro: near_mono)

lemma fields_in_grow: "fields_in p u \<Longrightarrow> fields_in (p + 1) (grow_field f u)"
  unfolding fields_in_def by (metis near_grow near_mono le_add1)

lemma parse_url_char_field:
  "parse_url_char s c = s_dead \<or> parse_url_char s c \<in> set url_delims \<or> url_field (parse_url_char s c) \<noteq> None"
  by (cases s) (simp_all add: parse_url_char_def server_char_def url_delims_def url_field_def)

lemma url_field_not [simp]: "url_field s \<noteq> Some UF_PORT" "url_field s \<noteq> Some UF_USERINFO"
  by (simp_all add: url_field_def split: pstate.split)

lemma url_loop_safe:
  assumes "fields_in p u" "\<not> field_set u UF_PORT" "\<not> field_set u UF_USERINFO"
  shows "\<exists>r u'. url_loop cs p s old at_sign u = Inr (r, u') \<and> fields_in (p + length cs) u'
    \<and> \<not> field_set u' UF_PORT \<and> \<not> field_set u' UF_USERINFO"
  using assms
proof (induction cs arbitrary: p s old at_sign u)
  case (Cons c cs)
  let ?s = "parse_url_char s c"
  consider "?s = s_dead" | "?s \<noteq> s_dead" "?s \<in> set url_delims"
    | uf where "?s \<noteq> s_dead" "?s \<notin> set url_delims" "url_field ?s = Some uf"
    using parse_url_char_field[of s c] by blast
  then show ?case
  proof cases
    case 1
    then show ?thesis using Cons.prems fields_in_mono[of p u "p + length (c # cs)"] by simp
  next
    case 2
    then show ?thesis
      using Cons.IH[of "p + 1" u ?s old at_sign] Cons.prems fields_in_mono[of p u "p + 1"] by simp
  next
    case 3
    have uf: "uf \<noteq> UF_PORT" "uf \<noteq> UF_USERINFO" using 3(3) url_field_not by auto
    let ?u = "if Some uf = old then grow_field uf u else begin_field uf p 1 u"
    have "fields_in (p + 1) ?u" using fields_in_grow fields_in_begin[of p u 1 uf] Cons.prems(1) by simp
    moreover have "\<not> field_set ?u UF_PORT" "\<not> field_set ?u UF_USERINFO"
      using Cons.prems(2,3) uf by (auto simp: grow_field_def begin_field_def)
    ultimately show ?thesis
      using Cons.IH[of "p + 1" ?u ?s "Some uf" "at_sign \<or> ?s = s_req_server_with_at"] 3 by (auto simp: Let_def split: if_splits)
  qed
qed simp

text \<open>In the loop over the host the fields it writes end before \<open>p\<close>, the others where the URL ends.\<close>

definition host_fields :: "http_parser_url_fields list" where "host_fields = [UF_HOST, UF_PORT, UF_USERINFO]"

definition before_host :: "http_host_state list" where
  "before_host = [s_http_userinfo_start, s_http_userinfo, s_http_host_start, s_http_host_v6_start]"

definition all_near :: "nat \<Rightarrow> nat \<Rightarrow> http_parser_url \<Rightarrow> bool" where
  "all_near n p u = (\<forall>f. near u f (if f \<in> set host_fields then p else n))"

definition host_inv :: "nat \<Rightarrow> http_host_state \<Rightarrow> nat \<Rightarrow> http_parser_url \<Rightarrow> bool" where
  "host_inv n s p u = (all_near n p u \<and> field_set u UF_HOST \<and> (s \<in> set before_host \<longrightarrow> field_len u UF_HOST = 0))"

lemma all_nearD: "all_near n p u \<Longrightarrow> near u f (if f \<in> set host_fields then p else n)"
  by (simp add: all_near_def)

lemma all_near_fields:
  assumes "all_near n p u" "p \<le> n"
  shows "fields_in n u"
proof -
  have "near u f n" for f using near_mono[OF all_nearD[OF assms(1), of f]] assms(2) by simp
  then show ?thesis by (simp add: fields_in_def)
qed

lemma all_near_step: "all_near n p u \<Longrightarrow> all_near n (Suc p) u"
  by (auto simp: all_near_def intro: near_mono)

lemma all_near_grow: "all_near n p u \<Longrightarrow> f \<in> set host_fields \<Longrightarrow> all_near n (Suc p) (grow_field f u)"
proof -
  assume u: "all_near n p u" "f \<in> set host_fields"
  have "near (grow_field f u) g (if g \<in> set host_fields then Suc p else n)" for g
  proof (cases "g = f")
    case True
    then show ?thesis using u(2) near_grow(1)[of u f p] all_nearD[OF u(1), of f] by simp
  next
    case False
    then show ?thesis using near_grow(2)[OF False] all_nearD[OF u(1), of g] by (auto split: if_splits intro: near_mono)
  qed
  then show "all_near n (Suc p) (grow_field f u)" by (simp add: all_near_def)
qed

lemma all_near_begin: "all_near n p u \<Longrightarrow> f \<in> set host_fields \<Longrightarrow> all_near n p (begin_field f p 0 u)"
  by (simp add: all_near_def near_begin)

lemma all_near_move: "all_near n p u \<Longrightarrow> f \<in> set host_fields \<Longrightarrow> field_len u f = 0 \<Longrightarrow> all_near n p (move_field f p u)"
  by (simp add: all_near_def near_move)

lemma host_char_before:
  assumes "new_s = http_parse_host_char s c"
  shows "new_s \<in> set before_host \<Longrightarrow> s \<in> set before_host"
    and "new_s = s_http_host \<or> new_s = s_http_host_v6 \<Longrightarrow> s \<noteq> new_s \<Longrightarrow> s \<in> set before_host"
  using assms by (cases s; simp add: http_parse_host_char_def before_host_def split: if_splits)+

lemma host_step_inv:
  assumes "host_inv n s p u" "new_s = http_parse_host_char s c"
  shows "host_inv n new_s (p + 1) (host_step s new_s p u)"
proof -
  have u: "all_near n p u" "field_set u UF_HOST" "s \<in> set before_host \<Longrightarrow> field_len u UF_HOST = 0"
    using assms(1) by (auto simp: host_inv_def)
  note before = host_char_before[OF assms(2)]
  have "all_near n (Suc p) (host_step s new_s p u)"
    unfolding host_step_def
    by (simp only: split: if_split, intro conjI impI)
      (use u before all_near_step[OF u(1)] in \<open>auto simp: host_fields_def intro!: all_near_grow all_near_begin all_near_move\<close>)
  moreover have "field_set (host_step s new_s p u) UF_HOST"
    using u(2) by (simp add: host_step_def grow_field_def move_field_def begin_field_def)
  moreover have "field_len (host_step s new_s p u) UF_HOST = 0" if "new_s \<in> set before_host"
    using that u(3)[OF before(1)[OF that]] by (auto simp: before_host_def host_step_def grow_field_def begin_field_def)
  ultimately show ?thesis by (simp add: host_inv_def)
qed

lemma host_loop_safe:
  assumes "host_inv (length buf) s p u" "p \<le> e" "e \<le> length buf"
  shows "\<exists>s' u'. host_loop buf p e s u = Inr (s', u') \<and> fields_in (length buf) u'"
  using assms
proof (induction buf p e s u rule: host_loop.induct)
  case (1 buf p e s u)
  show ?case
  proof (cases "p < e")
    case True
    then have r: "rd buf p = Inr (buf ! p)" using 1(4) by (simp add: rd_def)
    let ?n = "http_parse_host_char s (buf ! p)"
    show ?thesis
    proof (cases "?n = s_http_host_dead")
      case dead: True
      have "fields_in (length buf) u" using 1(2-4) all_near_fields by (auto simp: host_inv_def)
      then show ?thesis using True r dead by (subst host_loop.simps) simp
    next
      case False
      have "host_inv (length buf) ?n (p + 1) (host_step s ?n p u)" using host_step_inv[OF 1(2) refl] .
      with 1(1)[OF True r refl False] True 1(4) show ?thesis
        using r False by (subst host_loop.simps) (simp add: Let_def)
    qed
  next
    case False
    then show ?thesis using 1(2-4) all_near_fields by (subst host_loop.simps) (auto simp: host_inv_def)
  qed
qed


lemma http_parse_host_safe:
  assumes "field_set u UF_HOST" "fields_in (length buf) u" "\<not> field_set u UF_PORT" "\<not> field_set u UF_USERINFO"
  shows "\<exists>r u'. http_parse_host buf found_at u = Inr (r, u') \<and> fields_in (length buf) u'"
proof -
  let ?u = "u \<lparr> field_len := (field_len u)(UF_HOST := 0) \<rparr>" and ?o = "field_off u UF_HOST"
    and ?s = "if found_at then s_http_userinfo_start else s_http_host_start"
  have "near ?u f (if f \<in> set host_fields then ?o else length buf)" for f
    using assms by (cases f) (auto simp: near_def host_fields_def fields_in_def)
  then have "host_inv (length buf) ?s ?o ?u" using assms(1) by (simp add: host_inv_def all_near_def)
  moreover have "?o + field_len u UF_HOST \<le> length buf" using assms(1,2) by (auto simp: fields_in_def near_def)
  ultimately show ?thesis using host_loop_safe[of buf ?s ?o ?u "?o + field_len u UF_HOST"] assms(1)
    by (auto simp: http_parse_host_def Let_def)
qed

lemma port_loop_safe: "e \<le> length buf \<Longrightarrow> no_ub (port_loop buf p e v)"
proof (induction buf p e v rule: port_loop.induct)
  case (1 buf p e v)
  show ?case
  proof (cases "p < e")
    case True
    then have "rd buf p = Inr (buf ! p)" using 1(2) by (simp add: rd_def)
    with 1 True show ?thesis by (subst port_loop.simps) (simp add: Let_def)
  qed (subst port_loop.simps, simp)
qed

lemma parse_port_safe:
  assumes "fields_in (length buf) u"
  shows "\<exists>r u'. parse_port buf u = Inr (r, u') \<and> fields_in (length buf) u'"
proof (cases "field_set u UF_PORT")
  case True
  let ?e = "field_off u UF_PORT + field_len u UF_PORT"
  have e: "?e \<le> length buf" using assms True by (auto simp: fields_in_def near_def)
  then obtain r where r: "port_loop buf (field_off u UF_PORT) ?e 0 = Inr r"
    using port_loop_safe[of ?e buf] by (auto simp: no_ub_iff)
  have "fields_in (length buf) (u \<lparr> url_port := x \<rparr>)" for x using assms by (simp add: fields_in_def near_def)
  with r e True assms show ?thesis by (cases r) (simp_all add: parse_port_def Let_def)
qed (use assms in \<open>simp add: parse_port_def\<close>)

section \<open>The URL of a request\<close>

text \<open>The members of a request that make up its URL, and their values after \<open>Reset\<close>.\<close>

record request_url =
  ru_url :: string
  ru_scheme :: string
  ru_host :: string
  ru_port :: int
  ru_path :: string
  ru_query :: params

definition DEFAULT_HTTP_PORT :: int where "DEFAULT_HTTP_PORT = 80"
definition DEFAULT_HTTPS_PORT :: int where "DEFAULT_HTTPS_PORT = 443"

definition request_url_init :: request_url where
  "request_url_init = \<lparr> ru_url = [], ru_scheme = ''http'', ru_host = ''127.0.0.1'', ru_port = DEFAULT_HTTP_PORT,
     ru_path = ''/'', ru_query = [] \<rparr>"

definition url_head :: "request_url \<Rightarrow> string" where
  "url_head r = ru_scheme r @ ''://'' @
     (if ru_url r \<noteq> [] \<and> hd (ru_url r) \<noteq> CHR ''/'' then ru_url r
      else if ru_port r = 0 \<or> ru_port r = DEFAULT_HTTP_PORT \<or> ru_port r = DEFAULT_HTTPS_PORT then ru_host r
      else snprintf256 (cstr (ru_host r) @ '':'' @ int_to_string (ru_port r)))"

definition url_tail :: "request_url \<Rightarrow> string" where
  "url_tail r =
     (if ru_url r \<noteq> [] \<and> hd (ru_url r) = CHR ''/'' then ru_url r
      else if 1 < length (ru_path r) \<and> hd (ru_path r) = CHR ''/'' then ru_path r
      else if ru_url r = [] then ''/'' else [])"

definition DumpUrl :: "request_url \<Rightarrow> request_url cres" where
  "DumpUrl r =
     (if ru_url r \<noteq> [] \<and> strstr (cstr (ru_url r)) ''://'' \<noteq> None then Inr r
      else let str = url_head r @ url_tail r
           in if CHR ''?'' \<notin> set (cstr str) \<and> ru_query r \<noteq> []
              then cbind (dump_query_params (ru_query r)) (\<lambda>q. Inr (r \<lparr> ru_url := str @ ''?'' @ q \<rparr>))
              else Inr (r \<lparr> ru_url := str \<rparr>))"

text \<open>\<open>std::string::substr\<close>.\<close>

definition substr :: "string \<Rightarrow> nat \<Rightarrow> nat \<Rightarrow> string cres" where
  "substr s off n = (if length s < off then Inl UncaughtException else Inr (take n (drop off s)))"

text \<open>A pointer into \<open>url.c_str()\<close>, converted to a string.\<close>

definition string_from :: "string \<Rightarrow> nat \<Rightarrow> string cres" where
  "string_from s off = (if length s < off then Inl OutOfBounds else Inr (cstr (drop off (s @ [NUL]))))"

definition ParseUrl :: "request_url \<Rightarrow> request_url cres" where
  "ParseUrl r0 = cbind (DumpUrl r0) (\<lambda>r. let url = ru_url r in
     cbind (http_parser_parse_url url False http_parser_url_init) (\<lambda>(_, u).
     cbind (substr url (field_off u UF_SCHEMA) (field_len u UF_SCHEMA)) (\<lambda>scheme.
     cbind (if field_set u UF_HOST then substr url (field_off u UF_HOST) (field_len u UF_HOST) else Inr (ru_host r)) (\<lambda>host.
     let port = (if url_port u \<noteq> 0 then url_port u
                 else if cstr scheme \<noteq> ''https'' then DEFAULT_HTTP_PORT else DEFAULT_HTTPS_PORT) in
     cbind (if field_set u UF_PATH then string_from url (field_off u UF_PATH) else Inr (ru_path r)) (\<lambda>path.
     cbind (if field_set u UF_QUERY then cbind (parse_query_params (url @ [NUL]) (field_off u UF_QUERY) (ru_query r)) (\<lambda>x. Inr (snd x))
            else Inr (ru_query r)) (\<lambda>qs.
     Inr (r \<lparr> ru_scheme := scheme, ru_host := host, ru_port := port, ru_path := path, ru_query := qs \<rparr>)))))))"

section \<open>Targets\<close>

text \<open>The loop over a piece of the URL that stays in one state.\<close>

definition add_len :: "http_parser_url_fields \<Rightarrow> nat \<Rightarrow> http_parser_url \<Rightarrow> http_parser_url" where
  "add_len f n u = u \<lparr> field_len := (field_len u)(f := field_len u f + n) \<rparr>"

lemma url_loop_run:
  assumes "\<forall>c \<in> set xs. parse_url_char s c = s" "url_field s = Some f" "s \<noteq> s_dead" "s \<notin> set url_delims"
    "s \<noteq> s_req_server_with_at" "field_len u f + length xs < 65536"
  shows "url_loop (xs @ ys) p s (Some f) fa u = url_loop ys (p + length xs) s (Some f) fa (add_len f (length xs) u)"
  using assms
proof (induction xs arbitrary: p u)
  case Nil
  have "add_len f 0 u = u" by (simp add: add_len_def)
  then show ?case by simp
next
  case (Cons c xs)
  have g: "grow_field f u = add_len f 1 u" using Cons.prems(6) by (simp add: grow_field_def add_len_def wrap16_def)
  have "url_loop ((c # xs) @ ys) p s (Some f) fa u = url_loop (xs @ ys) (p + 1) s (Some f) fa (add_len f 1 u)"
    using Cons.prems(1-5) g by (simp add: Let_def)
  also have "\<dots> = url_loop ys (p + 1 + length xs) s (Some f) fa (add_len f (length xs) (add_len f 1 u))"
    using Cons.prems by (intro Cons.IH) (simp_all add: add_len_def)
  finally show ?case by (simp add: add_len_def)
qed


definition query_char :: "char \<Rightarrow> bool" where "query_char c = (IS_URL_CHAR c \<or> c = CHR ''?'')"

lemma url_chars:
  assumes "IS_URL_CHAR c"
  shows "c \<notin> {CHR '' '', CR, LF, HT, CHR 0x0C, NUL, CHR ''?'', CHR ''#''}"
proof -
  have "\<not> IS_URL_CHAR (CHR '' '')" "\<not> IS_URL_CHAR CR" "\<not> IS_URL_CHAR LF" "\<not> IS_URL_CHAR HT" "\<not> IS_URL_CHAR (CHR 0x0C)"
    "\<not> IS_URL_CHAR NUL" "\<not> IS_URL_CHAR (CHR ''?'')" "\<not> IS_URL_CHAR (CHR ''#'')" by code_simp+
  then show ?thesis using assms by auto
qed

lemma url_state_chars:
  "IS_URL_CHAR c \<Longrightarrow> parse_url_char s_req_path c = s_req_path"
  "query_char c \<Longrightarrow> parse_url_char s_req_query_string c = s_req_query_string"
  "query_char c \<Longrightarrow> parse_url_char s_req_query_string_start c = s_req_query_string"
  using url_chars[of c] by (auto simp: parse_url_char_def query_char_def)

lemma slash_chars:
  "parse_url_char s_req_spaces_before_url (CHR ''/'') = s_req_path" "parse_url_char s_req_server (CHR ''/'') = s_req_path"
  "parse_url_char s_req_path (CHR ''?'') = s_req_query_string_start"
  by code_simp+

definition path_seen :: "nat \<Rightarrow> nat \<Rightarrow> http_parser_url \<Rightarrow> http_parser_url" where
  "path_seen p n u = add_len UF_PATH n (begin_field UF_PATH p 1 u)"

definition query_seen :: "nat \<Rightarrow> nat \<Rightarrow> http_parser_url \<Rightarrow> http_parser_url" where
  "query_seen p n u = add_len UF_QUERY n (begin_field UF_QUERY p 1 u)"

definition query_part :: "string \<Rightarrow> string" where "query_part q = (if q = [] then [] else CHR ''?'' # q)"

lemma url_loop_target:
  assumes s: "s = s_req_spaces_before_url \<or> s = s_req_server" "old \<noteq> Some UF_PATH"
    and us: "\<forall>c \<in> set us. IS_URL_CHAR c" and q: "\<forall>c \<in> set q. query_char c" and l: "length us + length q < 65535"
  shows "url_loop (CHR ''/'' # us @ query_part q) p s old fa u
    = Inr (Some fa, (if q = [] then path_seen p (length us) u
                     else query_seen (p + length us + 2) (length q - 1) (path_seen p (length us) u)))"
proof -
  have f: "url_field s_req_path = Some UF_PATH" "url_field s_req_query_string = Some UF_QUERY"
    "s_req_path \<notin> set url_delims" "s_req_query_string \<notin> set url_delims" "s_req_query_string_start \<in> set url_delims"
    by (simp_all add: url_field_def url_delims_def)
  have "url_loop (CHR ''/'' # us @ query_part q) p s old fa u
      = url_loop (us @ query_part q) (p + 1) s_req_path (Some UF_PATH) fa (begin_field UF_PATH p 1 u)"
    using s slash_chars f by (auto simp: Let_def)
  also have "\<dots> = url_loop (query_part q) (p + 1 + length us) s_req_path (Some UF_PATH) fa (path_seen p (length us) u)"
    unfolding path_seen_def using us l f url_state_chars(1)
    by (intro url_loop_run) (simp_all add: begin_field_def)
  finally have e: "url_loop (CHR ''/'' # us @ query_part q) p s old fa u
      = url_loop (query_part q) (p + 1 + length us) s_req_path (Some UF_PATH) fa (path_seen p (length us) u)" .
  show ?thesis
  proof (cases q)
    case (Cons c r)
    let ?u = "begin_field UF_QUERY (p + 1 + length us + 1) 1 (path_seen p (length us) u)"
    have "url_loop (query_part q) (p + 1 + length us) s_req_path (Some UF_PATH) fa (path_seen p (length us) u)
        = url_loop (r @ []) (p + 1 + length us + 1 + 1) s_req_query_string (Some UF_QUERY) fa ?u"
      using Cons slash_chars(3) url_state_chars(3)[of c] q f by (simp add: query_part_def Let_def)
    also have "\<dots> = url_loop [] (p + 1 + length us + 1 + 1 + length r) s_req_query_string (Some UF_QUERY) fa (add_len UF_QUERY (length r) ?u)"
      using q l f url_state_chars(2) Cons by (intro url_loop_run) (simp_all add: begin_field_def)
    finally show ?thesis using e Cons by (simp add: query_seen_def)
  qed (use e in \<open>simp add: query_part_def\<close>)
qed

text \<open>The beginning that \<open>DumpUrl\<close> puts before a target: scheme and host of \<open>Reset\<close>.\<close>

definition url_front :: string where "url_front = ''http://127.0.0.1''"

definition front_seen :: http_parser_url where
  "front_seen = add_len UF_HOST 8 (begin_field UF_HOST 7 1 (add_len UF_SCHEMA 3 (begin_field UF_SCHEMA 0 1 http_parser_url_init)))"

lemma url_loop_front: "url_loop (url_front @ ys) 0 s_req_spaces_before_url None False http_parser_url_init
    = url_loop ys 16 s_req_server (Some UF_HOST) False front_seen"
proof -
  have f: "url_field s_req_schema = Some UF_SCHEMA" "url_field s_req_server = Some UF_HOST" "s_req_schema \<notin> set url_delims"
    "s_req_server \<notin> set url_delims" "s_req_schema_slash \<in> set url_delims" "s_req_schema_slash_slash \<in> set url_delims"
    "s_req_server_start \<in> set url_delims" by (simp_all add: url_field_def url_delims_def)
  have c: "parse_url_char s_req_spaces_before_url (CHR ''h'') = s_req_schema" "parse_url_char s_req_schema (CHR ''t'') = s_req_schema"
    "parse_url_char s_req_schema (CHR ''p'') = s_req_schema" "parse_url_char s_req_schema (CHR '':'') = s_req_schema_slash"
    "parse_url_char s_req_schema_slash (CHR ''/'') = s_req_schema_slash_slash"
    "parse_url_char s_req_schema_slash_slash (CHR ''/'') = s_req_server_start"
    "parse_url_char s_req_server_start (CHR ''1'') = s_req_server" by code_simp+
  have h: "\<forall>c \<in> set ''27.0.0.1''. parse_url_char s_req_server c = s_req_server" by code_simp
  have u: "http_parser_url_init \<lparr> url_port := 0, field_set := (\<lambda>_. False) \<rparr> = http_parser_url_init" by (simp add: http_parser_url_init_def)
  have "url_loop (url_front @ ys) 0 s_req_spaces_before_url None False http_parser_url_init
      = url_loop (''ttp'' @ ''://127.0.0.1'' @ ys) 1 s_req_schema (Some UF_SCHEMA) False (begin_field UF_SCHEMA 0 1 http_parser_url_init)"
    using c f by (simp add: url_front_def Let_def)
  also have "\<dots> = url_loop (''://127.0.0.1'' @ ys) (1 + length ''ttp'') s_req_schema (Some UF_SCHEMA) False
      (add_len UF_SCHEMA (length ''ttp'') (begin_field UF_SCHEMA 0 1 http_parser_url_init))"
    using c f by (intro url_loop_run) (simp_all add: begin_field_def)
  also have "\<dots> = url_loop (''27.0.0.1'' @ ys) 8 s_req_server (Some UF_HOST) False
      (begin_field UF_HOST 7 1 (add_len UF_SCHEMA 3 (begin_field UF_SCHEMA 0 1 http_parser_url_init)))"
    using c f by (simp add: Let_def eval_nat_numeral)
  also have "\<dots> = url_loop ys (8 + length ''27.0.0.1'') s_req_server (Some UF_HOST) False (add_len UF_HOST (length ''27.0.0.1'')
      (begin_field UF_HOST 7 1 (add_len UF_SCHEMA 3 (begin_field UF_SCHEMA 0 1 http_parser_url_init))))"
    using h f by (intro url_loop_run) (simp_all add: begin_field_def)
  finally show ?thesis by (simp add: front_seen_def eval_nat_numeral)
qed


lemma host_loop_run:
  assumes "drop p buf = xs @ ys" "\<forall>c \<in> set xs. IS_HOST_CHAR c" "field_len u UF_HOST + length xs < 65536"
  shows "host_loop buf p (p + length xs) s_http_host u = Inr (s_http_host, add_len UF_HOST (length xs) u)"
  using assms
proof (induction xs arbitrary: p u)
  case Nil
  have "add_len UF_HOST 0 u = u" by (simp add: add_len_def)
  then show ?case by (subst host_loop.simps) simp
next
  case (Cons c xs)
  have d: "drop p buf = c # (xs @ ys)" using Cons.prems(1) by simp
  have "grow_field UF_HOST u = add_len UF_HOST 1 u" using Cons.prems(3) by (simp add: grow_field_def add_len_def wrap16_def)
  then have "host_loop buf p (p + length (c # xs)) s_http_host u = host_loop buf (p + 1) (p + 1 + length xs) s_http_host (add_len UF_HOST 1 u)"
    using rd_drop[OF d] Cons.prems(2) by (subst host_loop.simps) (simp add: http_parse_host_char_def host_step_def Let_def)
  also have "\<dots> = Inr (s_http_host, add_len UF_HOST (length xs) (add_len UF_HOST 1 u))"
    using Cons.prems rd_drop[OF d] by (intro Cons.IH) (simp_all add: add_len_def)
  finally show ?case by (simp add: add_len_def)
qed

lemma cstr_stop: "NUL \<notin> set s \<Longrightarrow> cstr (s @ NUL # t) = s"
  unfolding cstr_def by (subst takeWhile_append2) auto

lemma length_front: "length url_front = 16" by (simp add: url_front_def)

lemma front_host:
  assumes "field_set u UF_HOST" "field_off u UF_HOST = 7" "field_len u UF_HOST = 9"
  shows "http_parse_host (url_front @ ys) False u = Inr (0, u)"
proof -
  let ?u = "u \<lparr> field_len := (field_len u)(UF_HOST := 0) \<rparr>" and ?b = "url_front @ ys"
  have d: "drop 7 ?b = CHR ''1'' # (''27.0.0.1'' @ ys)" by (simp add: url_front_def)
  have h: "\<forall>c \<in> set ''27.0.0.1''. IS_HOST_CHAR c" "IS_HOST_CHAR (CHR ''1'')" by code_simp+
  let ?v = "grow_field UF_HOST (move_field UF_HOST 7 ?u)"
  have "host_loop ?b 7 16 s_http_host_start ?u = host_loop ?b 8 16 s_http_host ?v"
    using rd_drop[OF d] h(2) by (subst host_loop.simps) (simp add: http_parse_host_char_def host_step_def Let_def)
  also have "\<dots> = host_loop ?b 8 (8 + length ''27.0.0.1'') s_http_host ?v" by (simp add: eval_nat_numeral)
  also have "\<dots> = Inr (s_http_host, add_len UF_HOST (length ''27.0.0.1'') ?v)"
    using h(1) rd_drop[OF d] by (intro host_loop_run) (simp_all add: grow_field_def move_field_def wrap16_def)
  finally have e: "host_loop ?b 7 16 s_http_host_start ?u = Inr (s_http_host, add_len UF_HOST (length ''27.0.0.1'') ?v)" .
  have v: "add_len UF_HOST (length ''27.0.0.1'') ?v = u"
    using assms(2,3) by (cases u) (auto simp: add_len_def grow_field_def move_field_def wrap16_def fun_eq_iff)
  have r: "host_loop ?b 7 (7 + 9) s_http_host_start ?u = Inr (s_http_host, u)" using e unfolding v by simp
  show ?thesis unfolding http_parse_host_def Let_def assms(2,3) if_False r cbind_simps
    by (simp add: assms(1) host_unfinished_def)
qed

text \<open>What \<open>http_parser_parse_url\<close> reports for a target, alone or behind scheme and host.\<close>

definition target_seen :: "nat \<Rightarrow> string \<Rightarrow> string \<Rightarrow> http_parser_url \<Rightarrow> http_parser_url" where
  "target_seen p us q u = (if q = [] then path_seen p (length us) u
     else query_seen (p + length us + 2) (length q - 1) (path_seen p (length us) u))"

lemma target_seen_fields:
  assumes "p + length us + 2 < 65536"
  shows "field_set (target_seen p us q u) UF_PATH" "field_off (target_seen p us q u) UF_PATH = p"
    "field_set (target_seen p us q u) UF_QUERY = (q \<noteq> [] \<or> field_set u UF_QUERY)"
    "q \<noteq> [] \<Longrightarrow> field_off (target_seen p us q u) UF_QUERY = p + length us + 2"
    "f \<notin> {UF_PATH, UF_QUERY} \<Longrightarrow> field_set (target_seen p us q u) f = field_set u f \<and>
       field_off (target_seen p us q u) f = field_off u f \<and> field_len (target_seen p us q u) f = field_len u f"
    "url_port (target_seen p us q u) = url_port u"
  using assms by (auto simp: target_seen_def path_seen_def query_seen_def add_len_def begin_field_def wrap16_def)

lemma init_fields [simp]:
  "\<not> field_set http_parser_url_init f" "field_off http_parser_url_init f = 0" "field_len http_parser_url_init f = 0"
  "url_port http_parser_url_init = 0" "http_parser_url_init \<lparr> url_port := 0, field_set := (\<lambda>_. False) \<rparr> = http_parser_url_init"
  by (simp_all add: http_parser_url_init_def)

lemma front_seen_fields [simp]:
  "field_set front_seen f = (f = UF_SCHEMA \<or> f = UF_HOST)" "field_off front_seen UF_SCHEMA = 0" "field_len front_seen UF_SCHEMA = 4"
  "field_off front_seen UF_HOST = 7" "field_len front_seen UF_HOST = 9" "url_port front_seen = 0"
  by (auto simp: front_seen_def add_len_def begin_field_def wrap16_def)

lemma parse_target:
  assumes "\<forall>c \<in> set us. IS_URL_CHAR c" "\<forall>c \<in> set q. query_char c" "length us + length q < 65500"
  shows "http_parser_parse_url (CHR ''/'' # us @ query_part q) False http_parser_url_init
      = Inr (0, target_seen 0 us q http_parser_url_init)"
    and "http_parser_parse_url (url_front @ CHR ''/'' # us @ query_part q) False http_parser_url_init
      = Inr (0, target_seen 16 us q front_seen)"
proof -
  have "url_loop (CHR ''/'' # us @ query_part q) 0 s_req_spaces_before_url None False http_parser_url_init
      = Inr (Some False, target_seen 0 us q http_parser_url_init)"
    using url_loop_target[of s_req_spaces_before_url None us q 0 False http_parser_url_init] assms by (simp add: target_seen_def)
  moreover have "\<not> field_set (target_seen 0 us q http_parser_url_init) f" if "f \<notin> {UF_PATH, UF_QUERY}" for f
    using target_seen_fields(5)[OF _ that, of 0 us q http_parser_url_init] assms(3) by simp
  ultimately show "http_parser_parse_url (CHR ''/'' # us @ query_part q) False http_parser_url_init
      = Inr (0, target_seen 0 us q http_parser_url_init)"
    by (simp add: http_parser_parse_url_def parse_port_def del: url_loop.simps)
  let ?t = "target_seen 16 us q front_seen" and ?b = "url_front @ CHR ''/'' # us @ query_part q"
  have "url_loop ?b 0 s_req_spaces_before_url None False http_parser_url_init = Inr (Some False, ?t)"
    using url_loop_front[of "CHR ''/'' # us @ query_part q"] url_loop_target[of s_req_server "Some UF_HOST" us q 16 False front_seen] assms
    by (simp add: target_seen_def)
  moreover have "field_set ?t f = (f = UF_SCHEMA \<or> f = UF_HOST) \<and> field_off ?t f = field_off front_seen f \<and> field_len ?t f = field_len front_seen f"
    if "f \<notin> {UF_PATH, UF_QUERY}" for f
    using target_seen_fields(5)[OF _ that, of 16 us q front_seen] assms(3) by simp
  moreover have "?b \<noteq> []" by simp
  ultimately show "http_parser_parse_url ?b False http_parser_url_init = Inr (0, ?t)"
    using front_host[of ?t "CHR ''/'' # us @ query_part q"]
    by (simp add: http_parser_parse_url_def parse_port_def del: url_loop.simps)
qed


lemma DumpUrl_target:
  assumes "url = CHR ''/'' # t"
  shows "\<exists>fr \<in> {[], url_front}. DumpUrl (request_url_init \<lparr> ru_url := url \<rparr>) = Inr (request_url_init \<lparr> ru_url := fr @ url \<rparr>)"
  using assms by (simp add: DumpUrl_def url_head_def url_tail_def request_url_init_def url_front_def DEFAULT_HTTP_PORT_def)

definition query_read :: "string \<Rightarrow> string \<Rightarrow> params cres" where
  "query_read pre q = (if q = [] then Inr [] else cbind (parse_query_params (pre @ q @ [NUL]) (length pre) []) (\<lambda>x. Inr (snd x)))"

lemma ParseUrl_target:
  assumes us: "\<forall>c \<in> set us. IS_URL_CHAR c" and q: "\<forall>c \<in> set q. query_char c" and l: "length us + length q < 65500"
    and url: "url = CHR ''/'' # us @ query_part q"
  shows "\<exists>fr sc. ParseUrl (request_url_init \<lparr> ru_url := url \<rparr>) = cbind (query_read (fr @ CHR ''/'' # us @ ''?'') q) (\<lambda>qs.
      Inr \<lparr> ru_url = fr @ url, ru_scheme = sc, ru_host = ''127.0.0.1'', ru_port = 80, ru_path = url, ru_query = qs \<rparr>)"
proof -
  obtain fr where fr: "fr \<in> {[], url_front}"
    and d: "DumpUrl (request_url_init \<lparr> ru_url := url \<rparr>) = Inr (request_url_init \<lparr> ru_url := fr @ url \<rparr>)"
    using DumpUrl_target[OF url] by blast
  define u0 where "u0 = (if fr = [] then http_parser_url_init else front_seen)"
  have n: "length fr + length us + 2 < 65536" using fr l length_front by auto
  let ?u = "target_seen (length fr) us q u0"
  have p: "http_parser_parse_url (fr @ url) False http_parser_url_init = Inr (0, ?u)"
  proof (cases "fr = []")
    case False
    then have "fr = url_front" using fr by simp
    then show ?thesis using parse_target(2)[OF us q l] url False by (simp add: u0_def length_front)
  qed (use parse_target(1)[OF us q l] url in \<open>simp add: u0_def\<close>)
  have "\<not> IS_URL_CHAR NUL" "\<not> query_char NUL" by code_simp+
  then have "NUL \<notin> set us" "NUL \<notin> set q" using us q by blast+
  then have "NUL \<notin> set url" using url by (simp add: query_part_def NUL_def)
  then have "cstr (url @ [NUL]) = url" using cstr_stop[of url "[]"] by simp
  then have path: "string_from (fr @ url) (length fr) = Inr url" by (simp add: string_from_def)
  note f = target_seen_fields[OF n, where q = q and u = u0]
  have u0: "\<not> field_set u0 UF_QUERY" "url_port u0 = 0" by (simp_all add: u0_def)
  have host: "(if field_set ?u UF_HOST then substr (fr @ url) (field_off ?u UF_HOST) (field_len ?u UF_HOST) else Inr ''127.0.0.1'') = Inr ''127.0.0.1''"
    using fr f(5)[where f = UF_HOST] by (auto simp: u0_def substr_def url_front_def)
  have scheme: "\<exists>sc. substr (fr @ url) (field_off ?u UF_SCHEMA) (field_len ?u UF_SCHEMA) = Inr sc \<and> cstr sc \<noteq> ''https''"
    using fr f(5)[where f = UF_SCHEMA] by (auto simp: u0_def substr_def url_front_def cstr_def NUL_def)
  then obtain sc where sc: "substr (fr @ url) (field_off ?u UF_SCHEMA) (field_len ?u UF_SCHEMA) = Inr sc" "cstr sc \<noteq> ''https''" by blast
  have qf: "(if field_set ?u UF_QUERY then cbind (parse_query_params ((fr @ url) @ [NUL]) (field_off ?u UF_QUERY) []) (\<lambda>x. Inr (snd x)) else Inr [])
      = query_read (fr @ CHR ''/'' # us @ ''?'') q"
    using url f(3,4) u0 by (simp add: query_read_def query_part_def)
  have pf: "(if field_set ?u UF_PATH then string_from (fr @ url) (field_off ?u UF_PATH) else x) = Inr url" for x
    using f(1,2) path by simp
  have port: "(if url_port ?u \<noteq> 0 then url_port ?u else if cstr sc \<noteq> ''https'' then DEFAULT_HTTP_PORT else y) = 80" for y
    using f(6) u0 sc(2) by (simp add: DEFAULT_HTTP_PORT_def)
  have r: "ru_query (request_url_init \<lparr> ru_url := x \<rparr>) = []" "ru_host (request_url_init \<lparr> ru_url := x \<rparr>) = ''127.0.0.1''"
    "ru_url (request_url_init \<lparr> ru_url := x \<rparr>) = x" for x by (simp_all add: request_url_init_def)
  have "ParseUrl (request_url_init \<lparr> ru_url := url \<rparr>) = cbind (query_read (fr @ CHR ''/'' # us @ ''?'') q) (\<lambda>qs.
      Inr ((request_url_init \<lparr> ru_url := fr @ url \<rparr>) \<lparr> ru_scheme := sc, ru_host := ''127.0.0.1'', ru_port := 80, ru_path := url, ru_query := qs \<rparr>))"
    unfolding ParseUrl_def d cbind_simps Let_def r p prod.case sc(1) host pf qf port by (rule refl)
  then show ?thesis by (intro exI[of _ fr] exI[of _ sc]) (simp add: request_url_init_def)
qed


section \<open>Parameters in a target\<close>

lemma char_range: "c \<in> set (map char_of [0..255::int])"
proof -
  have "c = char_of (byte_of c)" by simp
  moreover have "0 \<le> byte_of c \<and> byte_of c \<le> 255" using byte_of_nonneg[of c] byte_of_less[of c] by linarith
  then have "byte_of c \<in> {0..255}" by simp
  ultimately show ?thesis by (metis set_upto image_eqI set_map)
qed

lemma unambiguous_url: "is_unambiguous c \<Longrightarrow> IS_URL_CHAR c"
proof -
  have "list_all (\<lambda>c. is_unambiguous c \<longrightarrow> IS_URL_CHAR c) (map char_of [0..255::int])" by code_simp
  then show "is_unambiguous c \<Longrightarrow> IS_URL_CHAR c" using char_range[of c] by (auto simp only: list_all_iff)
qed

lemma escape_loop_url: "escape_loop s = Inr e \<Longrightarrow> \<forall>c \<in> set e. IS_URL_CHAR c"
proof (induction s arbitrary: e)
  case (Cons c s)
  have h: "IS_URL_CHAR (hex_upper v)" if "0 \<le> v" "v < 16" for v
  proof -
    have "list_all (\<lambda>v. IS_URL_CHAR (hex_upper v)) [0..15]" by code_simp
    then show ?thesis using that by (auto simp: list_all_iff)
  qed
  have p: "IS_URL_CHAR (CHR ''%'')" by code_simp
  have b: "IS_URL_CHAR (hex_upper (byte_of c div 16))" "IS_URL_CHAR (hex_upper (byte_of c mod 16))"
  proof -
    have "0 \<le> byte_of c div 16 \<and> byte_of c div 16 < 16" using byte_of_nonneg[of c] byte_of_less[of c] by presburger
    then show "IS_URL_CHAR (hex_upper (byte_of c div 16))" using h by blast
  qed (rule h; simp)
  obtain x r where x: "(if is_unambiguous c then Inr [c] else escape_byte c) = Inr x" and r: "escape_loop s = Inr r" "e = x @ r"
    using Cons.prems by (auto simp: cbind_Inr_iff)
  have "\<forall>c \<in> set x. IS_URL_CHAR c"
    using x unambiguous_url b p by (auto simp: escape_byte_def split: if_splits)
  then show ?case using Cons.IH[OF r(1)] r(2) by auto
qed simp

lemma dump_loop_url:
  assumes "dump_loop ps acc = Inr t" "\<forall>c \<in> set acc. IS_URL_CHAR c"
  shows "\<forall>c \<in> set t. IS_URL_CHAR c"
  using assms
proof (induction ps arbitrary: acc)
  case (Cons kv ps)
  obtain k v where kv: "kv = (k, v)" by force
  obtain ek ev where e: "url_escape k = Inr ek" "url_escape v = Inr ev"
    and d: "dump_loop ps ((if acc \<noteq> [] then acc @ ''&'' else acc) @ ek @ ''='' @ ev) = Inr t"
    using Cons.prems(1) kv by (auto simp: cbind_Inr_iff)
  have "\<forall>c \<in> set ek. IS_URL_CHAR c" "\<forall>c \<in> set ev. IS_URL_CHAR c"
    using e escape_loop_url by (auto simp: url_escape_def)
  moreover have "IS_URL_CHAR (CHR ''&'')" "IS_URL_CHAR (CHR ''='')" by code_simp+
  ultimately have "\<forall>c \<in> set ((if acc \<noteq> [] then acc @ ''&'' else acc) @ ek @ ''='' @ ev). IS_URL_CHAR c"
    using Cons.prems(2) by (simp add: ball_Un)
  then show ?case by (rule Cons.IH[OF d])
qed simp

lemma dump_loop_Nil: "dump_loop ps acc = Inr [] \<Longrightarrow> ps = [] \<and> acc = []"
proof (induction ps arbitrary: acc)
  case (Cons kv ps)
  then show ?case by (cases kv) (auto simp: cbind_Inr_iff)
qed simp

section \<open>Properties\<close>

text \<open>
  C27: Whatever the bytes and however long it is, \<open>http_parser_parse_url\<close> returns: it fails no
  assertion and reads nothing outside the URL, and every field it reports as set lies inside
  the URL, also where 16-bit offsets and lengths wrapped.
\<close>

theorem parse_url_safe:
  "\<exists>r u'. http_parser_parse_url buf is_connect http_parser_url_init = Inr (r, u') \<and> fields_in (length buf) u'"
proof (cases "buf = []")
  case False
  let ?u = "http_parser_url_init \<lparr> url_port := 0, field_set := (\<lambda>_. False) \<rparr>" and ?s = "if is_connect then s_req_server_start else s_req_spaces_before_url"
  have "fields_in 0 ?u" by (simp add: fields_in_def near_def)
  then obtain r u1 where l: "url_loop buf 0 ?s None False ?u = Inr (r, u1)" and u1: "fields_in (length buf) u1"
      "\<not> field_set u1 UF_PORT" "\<not> field_set u1 UF_USERINFO"
    using url_loop_safe[of 0 ?u buf ?s None False] by auto
  have h: "\<exists>rh u2. (if field_set u1 UF_HOST then http_parse_host buf fa u1 else Inr (0, u1)) = Inr (rh, u2) \<and> fields_in (length buf) u2" for fa
    using http_parse_host_safe[OF _ u1, of fa] u1(1) by auto
  show ?thesis
  proof (cases r)
    case (Some fa)
    obtain rh u2 where u2: "(if field_set u1 UF_HOST then http_parse_host buf fa u1 else Inr (0, u1)) = Inr (rh, u2)"
      "fields_in (length buf) u2" using h by blast
    then show ?thesis using parse_port_safe[OF u2(2)] l False Some u1(1)
      by (auto simp: http_parser_parse_url_def)
  qed (use l False u1 in \<open>simp add: http_parser_parse_url_def\<close>)
qed (simp add: http_parser_parse_url_def http_parser_url_init_def fields_in_def near_def)


lemma ParseUrl_params:
  assumes "\<forall>c \<in> set us. IS_URL_CHAR c" "map_ok ps" "\<forall>(k, v) \<in> set ps. ascii k \<and> ascii v \<and> k \<noteq> [] \<and> v \<noteq> []"
    and t: "dump_query_params ps = Inr t" and len: "length us + length t < 65500" and url: "url = ''/'' @ us @ query_part t"
  shows "\<exists>r. ParseUrl (request_url_init \<lparr> ru_url := url \<rparr>) = Inr r \<and> ru_path r = url \<and> ru_query r = ps
    \<and> ru_host r = ''127.0.0.1'' \<and> ru_port r = 80"
proof -
  have q: "\<forall>c \<in> set t. query_char c" using dump_loop_url[of ps "[]" t] t by (simp add: dump_query_params_def query_char_def)
  obtain fr sc where e: "ParseUrl (request_url_init \<lparr> ru_url := url \<rparr>) = cbind (query_read (fr @ CHR ''/'' # us @ ''?'') t) (\<lambda>qs.
      Inr \<lparr> ru_url = fr @ url, ru_scheme = sc, ru_host = ''127.0.0.1'', ru_port = 80, ru_path = url, ru_query = qs \<rparr>)"
    using ParseUrl_target[OF assms(1) q len, of url] url by auto
  have "parse_query_params ((fr @ CHR ''/'' # us @ ''?'') @ t @ [NUL]) (length (fr @ CHR ''/'' # us @ ''?'')) [] = Inr (if ps = [] then - 1 else 0, ps)"
    using query_roundtrip_run[OF assms(2,3), of "fr @ CHR ''/'' # us @ ''?''" "[]"] t by auto
  moreover have "t = [] \<Longrightarrow> ps = []" using dump_loop_Nil[of ps "[]"] t by (simp add: dump_query_params_def)
  ultimately have "query_read (fr @ CHR ''/'' # us @ ''?'') t = Inr ps" by (auto simp: query_read_def)
  with e show ?thesis by simp
qed

text \<open>
  C26: A server that receives a target of a path and the dumped parameters \<open>ps\<close> has, after
  \<open>ParseUrl\<close>, exactly these parameters; the path is the whole target, and host and port are those
  of \<open>Reset\<close>. The names and values are non-empty texts of ASCII characters, those with a meaning in
  a target or a query included; the characters of the path are those the parser takes for a path,
  and the target is shorter than 65500 bytes, so that the 16-bit fields hold it.
\<close>

theorem ParseUrl_roundtrip:
  assumes "\<forall>c \<in> set us. IS_URL_CHAR c" "map_ok ps" "\<forall>(k, v) \<in> set ps. ascii k \<and> ascii v \<and> k \<noteq> [] \<and> v \<noteq> []"
    and t: "dump_query_params ps = Inr t" and len: "length us + length t < 65500" and url: "url = ''/'' @ us @ query_part t"
  shows "\<exists>r. ParseUrl (request_url_init \<lparr> ru_url := url \<rparr>) = Inr r \<and> ru_path r = url \<and> ru_query r = ps
    \<and> ru_host r = ''127.0.0.1'' \<and> ru_port r = 80"
  using assms by (rule ParseUrl_params)

theorem ParseUrl_roundtrip_witness:
  "\<exists>r. ParseUrl (request_url_init \<lparr> ru_url := ''/Query'' @ query_part ''id=7%3F&k%26=%23'' \<rparr>) = Inr r
    \<and> ru_query r = [(''id'', ''7?''), (''k&'', ''#'')]"
proof -
  have 1: "\<forall>c \<in> set ''Query''. IS_URL_CHAR c" by code_simp
  have 2: "map_ok [(''id'', ''7?''), (''k&'', ''#'')]" by code_simp
  have 3: "\<forall>(k, v) \<in> set [(''id'', ''7?''), (''k&'', ''#'')]. ascii k \<and> ascii v \<and> k \<noteq> [] \<and> v \<noteq> []" by code_simp
  have 4: "dump_query_params [(''id'', ''7?''), (''k&'', ''#'')] = Inr ''id=7%3F&k%26=%23''" by code_simp
  from ParseUrl_roundtrip[OF 1 2 3 4 _ refl] show ?thesis by auto
qed

end
