(* ===== verification/Stock.thy ===== *)
theory Stock
  imports CFloat
begin

text \<open>
  The data classes of the trading server, \<open>stock/*.cpp\<close>: \<open>UtilsClass::split\<close>, the
  quotation, account and holdings lists with their \<open>read\<close>, query and update methods,
  and the order record. A CSV file is a parameter: its contents, \<open>None\<close> when it cannot
  be opened. Printing to standard output is not modelled. String literals of the source are
  written as their UTF-8 bytes.
\<close>

section \<open>\<open>utils.cpp\<close>: splitting a line\<close>

function split_rest :: "string \<Rightarrow> string \<Rightarrow> string list" where
  "split_rest delim s = (case strtok delim s of None \<Rightarrow> [] | Some (t, r) \<Rightarrow> t # split_rest delim r)"
  by pat_completeness auto
termination
  by (relation "measure (\<lambda>(d, s). length s)") (auto dest: strtok_shorter)

declare split_rest.simps [simp del]

definition split :: "string \<Rightarrow> string \<Rightarrow> string list" where
  "split str delim = split_rest delim (cstr str)"

text \<open>The lines \<open>std::getline\<close> delivers; the last one need not end in a newline.\<close>

function getlines :: "string \<Rightarrow> string list" where
  "getlines s = (if s = [] then []
     else takeWhile (\<lambda>c. c \<noteq> CHR 0x0A) s # getlines (tl (dropWhile (\<lambda>c. c \<noteq> CHR 0x0A) s)))"
  by pat_completeness auto
termination
proof (relation "measure length")
  fix s :: string assume "s \<noteq> []"
  moreover have "length (dropWhile (\<lambda>c. c \<noteq> CHR 0x0A) s) \<le> length s" by (rule length_dropWhile_le)
  ultimately have "length (tl (dropWhile (\<lambda>c. c \<noteq> CHR 0x0A) s)) < length s"
    unfolding length_tl by (metis diff_less le_less_trans length_greater_0_conv less_imp_diff_less linorder_not_less
        zero_less_one le_eq_less_or_eq)
  then show "(tl (dropWhile (\<lambda>c. c \<noteq> CHR 0x0A) s), s) \<in> measure length" by simp
qed simp

declare getlines.simps [simp del]

text \<open>
  The loop of the three \<open>read\<close> methods: it ends at the first line with fewer than
  \<open>least\<close> fields. (At the end of the file \<open>getline\<close> leaves an empty line or, when the last
  line had no newline, the first field of that line, both too short.)
\<close>

fun read_rows :: "nat \<Rightarrow> (string list \<Rightarrow> 'a cres) \<Rightarrow> string list \<Rightarrow> 'a list cres" where
  "read_rows least row [] = Inr []"
| "read_rows least row (l # ls) =
     (let elements = split l '',''
      in if length elements < least then Inr []
         else cbind (row elements) (\<lambda>x. cbind (read_rows least row ls) (\<lambda>xs. Inr (x # xs))))"

definition read_file :: "nat \<Rightarrow> (string list \<Rightarrow> 'a cres) \<Rightarrow> string option \<Rightarrow> 'a list cres" where
  "read_file least row file =
     (case file of None \<Rightarrow> Inr [] | Some s \<Rightarrow> read_rows least row (getlines s))"

text \<open>\<open>*iter_string\<close> after \<open>i\<close> increments.\<close>

definition field :: "string list \<Rightarrow> nat \<Rightarrow> string cres" where
  "field elements i = (if i < length elements then Inr (elements ! i) else Inl EndIterator)"

section \<open>\<open>stock.cpp\<close>\<close>

record StockClass =
  trade_date :: string
  stock_code :: string
  stock_name :: string
  mkt :: string
  yesterday_price :: string
  open_price :: string
  high_price :: string
  low_price :: string
  close_price :: string
  increase_rate :: string
  qty :: string
  amount :: string
  per :: string

definition StockClass0 :: StockClass where
  "StockClass0 = \<lparr>trade_date = [], stock_code = [], stock_name = [], mkt = [], yesterday_price = [],
     open_price = [], high_price = [], low_price = [], close_price = [], increase_rate = [],
     qty = [], amount = [], per = []\<rparr>"

definition SHA :: int where "SHA = 1"
definition SHB :: int where "SHB = 2"
definition SZA :: int where "SZA = 3"
definition SZB :: int where "SZB = 4"
definition GEM :: int where "GEM = 5"
definition STAR :: int where "STAR = 6"
definition SME :: int where "SME = 7"

definition name_SHA :: string where "name_SHA = [CHR 0xE4, CHR 0xB8, CHR 0x8A, CHR 0xE6, CHR 0xB5, CHR 0xB7, CHR 0x41, CHR 0xE8, CHR 0x82, CHR 0xA1]"
definition name_SHB :: string where "name_SHB = [CHR 0xE4, CHR 0xB8, CHR 0x8A, CHR 0xE6, CHR 0xB5, CHR 0xB7, CHR 0x42, CHR 0xE8, CHR 0x82, CHR 0xA1]"
definition name_SZA :: string where "name_SZA = [CHR 0xE6, CHR 0xB7, CHR 0xB1, CHR 0xE5, CHR 0x9C, CHR 0xB3, CHR 0x41, CHR 0xE8, CHR 0x82, CHR 0xA1]"
definition name_SZB :: string where "name_SZB = [CHR 0xE6, CHR 0xB7, CHR 0xB1, CHR 0xE5, CHR 0x9C, CHR 0xB3, CHR 0x42, CHR 0xE8, CHR 0x82, CHR 0xA1]"
definition name_GEM :: string where "name_GEM = [CHR 0xE5, CHR 0x88, CHR 0x9B, CHR 0xE4, CHR 0xB8, CHR 0x9A, CHR 0xE6, CHR 0x9D, CHR 0xBF]"
definition name_STAR :: string where "name_STAR = [CHR 0xE7, CHR 0xA7, CHR 0x91, CHR 0xE5, CHR 0x88, CHR 0x9B, CHR 0xE6, CHR 0x9D, CHR 0xBF]"
definition name_SME :: string where "name_SME = [CHR 0xE4, CHR 0xB8, CHR 0xAD, CHR 0xE5, CHR 0xB0, CHR 0x8F, CHR 0xE6, CHR 0x9D, CHR 0xBF]"

lemmas market_names = name_SHA_def name_SHB_def name_SZA_def name_SZB_def name_GEM_def
  name_STAR_def name_SME_def

definition MktName :: "string list" where
  "MktName = [[], name_SHA, name_SHB, name_SZA, name_SZB, name_GEM, name_STAR, name_SME]"

section \<open>\<open>account.cpp\<close>\<close>

record AccountClass =
  acct_id :: string
  bank_acct :: string
  cust_name :: string
  cust_id :: string
  branch :: string
  tel :: string
  address :: string
  mkt_SHA :: bool
  mkt_SHB :: bool
  mkt_SZA :: bool
  mkt_SZB :: bool
  mkt_GEM :: bool
  mkt_STAR :: bool
  mkt_SME :: bool
  balance :: fl

text \<open>\<open>strcmp\<close> of two C strings.\<close>

definition str_eq :: "string \<Rightarrow> string \<Rightarrow> bool" where
  "str_eq a b = (cstr a = cstr b)"

definition mktPermission :: "AccountClass \<Rightarrow> string \<Rightarrow> bool" where
  "mktPermission acct mkt_string =
     (if str_eq mkt_string name_SHA \<and> mkt_SHA acct then True
      else if str_eq mkt_string name_SHB \<and> mkt_SHB acct then True
      else if str_eq mkt_string name_SZA \<and> mkt_SZA acct then True
      else if str_eq mkt_string name_SZB \<and> mkt_SZB acct then True
      else if str_eq mkt_string name_GEM \<and> mkt_GEM acct then True
      else if str_eq mkt_string name_STAR \<and> mkt_STAR acct then True
      else if str_eq mkt_string name_SME \<and> mkt_SME acct then True
      else False)"

section \<open>\<open>accountlist.cpp\<close>\<close>

definition acct_row :: "string list \<Rightarrow> AccountClass cres" where
  "acct_row e =
     cbind (field e 0) (\<lambda>f0. cbind (field e 1) (\<lambda>f1. cbind (field e 2) (\<lambda>f2. cbind (field e 3) (\<lambda>f3.
     cbind (field e 4) (\<lambda>f4. cbind (field e 5) (\<lambda>f5. cbind (field e 6) (\<lambda>f6. cbind (field e 7) (\<lambda>f7.
     cbind (field e 8) (\<lambda>f8. cbind (field e 9) (\<lambda>f9. cbind (field e 10) (\<lambda>f10. cbind (field e 11) (\<lambda>f11.
     cbind (field e 12) (\<lambda>f12. cbind (field e 13) (\<lambda>f13. cbind (field e 14) (\<lambda>f14.
       Inr \<lparr>acct_id = f0, bank_acct = f1, cust_name = f2, cust_id = f3, branch = f4, tel = f5, address = f6,
            mkt_SHA = (f7 = ''yes''), mkt_SHB = (f8 = ''yes''), mkt_SZA = (f9 = ''yes''),
            mkt_SZB = (f10 = ''yes''), mkt_GEM = (f11 = ''yes''), mkt_STAR = (f12 = ''yes''),
            mkt_SME = (f13 = ''yes''), balance = atof f14\<rparr>)))))))))))))))"

definition acct_read :: "string option \<Rightarrow> AccountClass list cres" where
  "acct_read file = read_file 5 acct_row file"

text \<open>The copy of the account found, \<open>None\<close> for the return value -1.\<close>

fun getAcct :: "string \<Rightarrow> AccountClass list \<Rightarrow> AccountClass option" where
  "getAcct i [] = None"
| "getAcct i (item # items) = (if acct_id item = cstr i then Some item else getAcct i items)"

section \<open>\<open>quote.cpp\<close>\<close>

definition quote_row :: "string list \<Rightarrow> StockClass cres" where
  "quote_row e =
     cbind (field e 0) (\<lambda>f0. cbind (field e 1) (\<lambda>f1. cbind (field e 2) (\<lambda>f2. cbind (field e 3) (\<lambda>f3.
     cbind (field e 4) (\<lambda>f4. cbind (field e 5) (\<lambda>f5. cbind (field e 6) (\<lambda>f6. cbind (field e 7) (\<lambda>f7.
     cbind (field e 8) (\<lambda>f8. cbind (field e 9) (\<lambda>f9. cbind (field e 10) (\<lambda>f10. cbind (field e 11) (\<lambda>f11.
     cbind (field e 12) (\<lambda>f12.
       Inr \<lparr>trade_date = f0, stock_code = f1, stock_name = f2, mkt = f3, yesterday_price = f4,
            open_price = f5, high_price = f6, low_price = f7, close_price = f8, increase_rate = f9,
            qty = f10, amount = f11, per = (if f12 = [] then '' '' else f12)\<rparr>)))))))))))))"

definition quote_read :: "string option \<Rightarrow> StockClass list cres" where
  "quote_read file = read_file 10 quote_row file"

fun quote_queryStockbyCode :: "string \<Rightarrow> StockClass list \<Rightarrow> StockClass option" where
  "quote_queryStockbyCode code [] = None"
| "quote_queryStockbyCode code (item # items) =
     (if stock_code item = cstr code then Some item else quote_queryStockbyCode code items)"

fun quote_queryStock :: "string \<times> int \<Rightarrow> StockClass list \<Rightarrow> StockClass option" where
  "quote_queryStock k [] = None"
| "quote_queryStock k (item # items) =
     (if stock_code item = cstr (fst k) \<and> mkt item = MktName ! nat (snd k) then Some item
      else quote_queryStock k items)"

section \<open>\<open>holdings.cpp\<close>\<close>

definition holdings_row :: "string list \<Rightarrow> StockClass cres" where
  "holdings_row e =
     cbind (field e 0) (\<lambda>f0. cbind (field e 1) (\<lambda>f1. cbind (field e 2) (\<lambda>f2. cbind (field e 3) (\<lambda>f3.
     cbind (field e 4) (\<lambda>f4. cbind (field e 5) (\<lambda>f5. cbind (field e 6) (\<lambda>f6.
       Inr \<lparr>trade_date = f0, stock_code = f1, stock_name = f2, mkt = f3, yesterday_price = f4,
            open_price = '' '', high_price = '' '', low_price = '' '', close_price = '' '',
            increase_rate = '' '', qty = f5, amount = f6, per = '' ''\<rparr>)))))))"

definition holdings_read :: "string option \<Rightarrow> StockClass list cres" where
  "holdings_read file = read_file 5 holdings_row file"

fun query_holdings :: "StockClass \<Rightarrow> StockClass list \<Rightarrow> int" where
  "query_holdings stock [] = - 404"
| "query_holdings stock (item # items) =
     (if stock_code item = stock_code stock then atoi (qty item) else query_holdings stock items)"

definition type_buy :: string where "type_buy = [CHR 0xE4, CHR 0xB9, CHR 0xB0, CHR 0xE5, CHR 0x85, CHR 0xA5]"
definition type_sell :: string where "type_sell = [CHR 0xE5, CHR 0x8D, CHR 0x96, CHR 0xE5, CHR 0x87, CHR 0xBA]"

text \<open>
  The loop of \<open>update_holdings\<close>: the updated list when the stock is found. (The iterator
  that \<open>erase(iter_stock--)\<close> leaves behind is never used.)
\<close>

fun update_found :: "string \<Rightarrow> int \<Rightarrow> StockClass \<Rightarrow> StockClass list \<Rightarrow> StockClass list option cres" where
  "update_found order_type n stock [] = Inr None"
| "update_found order_type n stock (item # items) =
     (if stock_code item = stock_code stock then
        (if order_type = type_buy then
           cbind (int_range (atoi (qty item) + n)) (\<lambda>q. Inr (Some (item\<lparr>qty := int_to_string q\<rparr> # items)))
         else cbind (int_range (atoi (qty item) - n)) (\<lambda>q.
           if q < 1 then Inr (Some items) else Inr (Some (item\<lparr>qty := int_to_string q\<rparr> # items))))
      else cbind (update_found order_type n stock items) (\<lambda>r. Inr (map_option (\<lambda>is. item # is) r)))"

text \<open>
  When the stock is not held, the loop variable \<open>item\<close> still holds a copy of the last
  entry (a fresh object if there is none): the fields not assigned keep that entry's values.
\<close>

definition update_holdings :: "string \<Rightarrow> string \<Rightarrow> int \<Rightarrow> StockClass \<Rightarrow> StockClass list \<Rightarrow> StockClass list cres" where
  "update_holdings date order_type n stock stk_list =
     cbind (update_found order_type n stock stk_list) (\<lambda>r.
       case r of
         Some l \<Rightarrow> Inr l
       | None \<Rightarrow>
           let item = (if stk_list = [] then StockClass0 else last stk_list)
           in Inr (stk_list @ [item\<lparr>trade_date := date, stock_code := stock_code stock,
                 stock_name := stock_name stock, mkt := mkt stock, qty := int_to_string n,
                 amount := fmt_f (fl_mult Double (fl_of_int Double n) (atof (yesterday_price stock)))\<rparr>]))"

section \<open>\<open>order.cpp\<close>\<close>

record OrderClass =
  o_trade_date :: string
  o_stock_code :: string
  o_stock_name :: string
  o_mkt :: string
  o_order_type :: string
  o_price :: string
  o_qty :: string
  o_status :: string
  o_order_id :: int

definition status_queued :: string where "status_queued = [CHR 0xE6, CHR 0x8E, CHR 0x92, CHR 0xE9, CHR 0x98, CHR 0x9F, CHR 0xE4, CHR 0xB8, CHR 0xAD]"
definition status_withdrawn :: string where "status_withdrawn = [CHR 0xE5, CHR 0xB7, CHR 0xB2, CHR 0xE6, CHR 0x92, CHR 0xA4, CHR 0xE5, CHR 0x8D, CHR 0x95]"

section \<open>Lookups by first match\<close>

text \<open>
  The query loops of the three lists share one contract: the first entry that matches the
  key is returned.
\<close>

locale first_match =
  fixes matches :: "'k \<Rightarrow> 'a \<Rightarrow> bool" and find_first :: "'k \<Rightarrow> 'a list \<Rightarrow> 'a option"
  assumes find_Nil: "find_first k [] = None"
    and find_Cons: "find_first k (x # xs) = (if matches k x then Some x else find_first k xs)"
begin

lemma find_None: "find_first k xs = None \<longleftrightarrow> (\<forall>x \<in> set xs. \<not> matches k x)"
  by (induction xs) (auto simp: find_Nil find_Cons)

lemma find_Some: "find_first k xs = Some x \<Longrightarrow> x \<in> set xs \<and> matches k x"
  by (induction xs) (auto simp: find_Nil find_Cons split: if_splits)

lemma find_append: "find_first k (xs @ ys) = (case find_first k xs of None \<Rightarrow> find_first k ys | Some x \<Rightarrow> Some x)"
  by (induction xs) (auto simp: find_Nil find_Cons)

lemma find_first_index:
  "find_first k xs = Some x \<Longrightarrow> \<exists>i < length xs. xs ! i = x \<and> matches k x \<and> (\<forall>j < i. \<not> matches k (xs ! j))"
proof (induction xs)
  case (Cons y ys)
  show ?case
  proof (cases "matches k y")
    case True
    with Cons.prems show ?thesis by (intro exI[of _ 0]) (auto simp: find_Cons)
  next
    case False
    with Cons obtain i where "i < length ys" "ys ! i = x" "matches k x" "\<forall>j < i. \<not> matches k (ys ! j)"
      by (auto simp: find_Cons)
    with False show ?thesis by (intro exI[of _ "Suc i"]) (auto simp: less_Suc_eq_0_disj)
  qed
qed (simp add: find_Nil)

end

interpretation acct: first_match "\<lambda>i item. acct_id item = cstr i" getAcct
  by unfold_locales simp_all

interpretation quote_code: first_match "\<lambda>c item. stock_code item = cstr c" quote_queryStockbyCode
  by unfold_locales simp_all

interpretation quote_mkt: first_match "\<lambda>k item. stock_code item = cstr (fst k) \<and> mkt item = MktName ! nat (snd k)"
    quote_queryStock
  by unfold_locales simp_all

section \<open>Positions\<close>

text \<open>The share count the holdings list records for a stock code.\<close>

fun position :: "StockClass list \<Rightarrow> string \<Rightarrow> int option" where
  "position [] c = None"
| "position (item # items) c = (if stock_code item = c then Some (atoi (qty item)) else position items c)"

definition codes_distinct :: "StockClass list \<Rightarrow> bool" where
  "codes_distinct l = distinct (map stock_code l)"

lemma query_holdings_position:
  "query_holdings stock l = (case position l (stock_code stock) of None \<Rightarrow> - 404 | Some q \<Rightarrow> q)"
  by (induction l) auto

lemma position_None: "position l c = None \<longleftrightarrow> c \<notin> stock_code ` set l"
  by (induction l) auto

lemma position_append: "position (l @ m) c = (case position l c of None \<Rightarrow> position m c | Some q \<Rightarrow> Some q)"
  by (induction l) auto

lemma int_range_Inr: "int_range n = Inr q \<longleftrightarrow> q = n \<and> INT_MIN \<le> n \<and> n \<le> INT_MAX"
  by (auto simp: int_range_def)

lemma update_found_None:
  "update_found t n s l = Inr None \<Longrightarrow> position l (stock_code s) = None"
  by (induction l) (auto simp: cbind_Inr_iff split: if_splits)

lemma update_found_codes:
  "update_found t n s l = Inr (Some l') \<Longrightarrow> stock_code ` set l' \<subseteq> stock_code ` set l \<and>
     (codes_distinct l \<longrightarrow> codes_distinct l')"
proof (induction l arbitrary: l')
  case (Cons item items)
  show ?case
  proof (cases "stock_code item = stock_code s")
    case True
    with Cons.prems show ?thesis by (auto simp: codes_distinct_def cbind_Inr_iff split: if_splits)
  next
    case False
    with Cons.prems obtain l'' where l'': "update_found t n s items = Inr (Some l'')" "l' = item # l''"
      by (auto simp: cbind_Inr_iff)
    from Cons.IH[OF l''(1)] show ?thesis using l''(2) by (auto simp: codes_distinct_def)
  qed
qed simp

lemma update_found_position:
  assumes "update_found t n s l = Inr (Some l')" "codes_distinct l"
  shows "\<exists>q. position l (stock_code s) = Some q \<and>
     position l' c = (if c \<noteq> stock_code s then position l c
       else if t = type_buy then Some (q + n) else if q - n < 1 then None else Some (q - n))"
  using assms
proof (induction l arbitrary: l')
  case (Cons item items)
  show ?case
  proof (cases "stock_code item = stock_code s")
    case True
    then have "position items (stock_code s) = None"
      using Cons.prems(2) by (simp add: position_None codes_distinct_def)
    with True Cons.prems show ?thesis
      by (auto simp: cbind_Inr_iff int_range_Inr atoi_int_to_string split: if_splits)
  next
    case False
    with Cons.prems obtain l'' where l'': "update_found t n s items = Inr (Some l'')" "l' = item # l''"
      by (auto simp: cbind_Inr_iff)
    have "codes_distinct items" using Cons.prems(2) by (simp add: codes_distinct_def)
    from Cons.IH[OF l''(1) this] show ?thesis using False l''(2) by auto
  qed
qed simp

text \<open>The contract of a position book: what buying and selling do to every position.\<close>

locale position_book =
  fixes inv :: "'h \<Rightarrow> bool" and pos :: "'h \<Rightarrow> 'c \<Rightarrow> int option" and key :: "'s \<Rightarrow> 'c"
    and buy :: "int \<Rightarrow> 's \<Rightarrow> 'h \<Rightarrow> 'h cres" and sell :: "int \<Rightarrow> 's \<Rightarrow> 'h \<Rightarrow> 'h cres"
  assumes buy_inv: "inv h \<Longrightarrow> buy n s h = Inr h' \<Longrightarrow> inv h'"
    and sell_inv: "inv h \<Longrightarrow> sell n s h = Inr h' \<Longrightarrow> inv h'"
    and buy_pos: "inv h \<Longrightarrow> buy n s h = Inr h' \<Longrightarrow> INT_MIN \<le> n \<Longrightarrow> n \<le> INT_MAX \<Longrightarrow>
      pos h' c = (if c \<noteq> key s then pos h c else Some (case pos h c of None \<Rightarrow> n | Some q \<Rightarrow> q + n))"
    and sell_pos: "inv h \<Longrightarrow> sell n s h = Inr h' \<Longrightarrow> INT_MIN \<le> n \<Longrightarrow> n \<le> INT_MAX \<Longrightarrow> pos h (key s) = Some q \<Longrightarrow>
      pos h' c = (if c \<noteq> key s then pos h c else if q - n < 1 then None else Some (q - n))"
begin

definition shares :: "'h \<Rightarrow> 'c \<Rightarrow> int" where
  "shares h c = (case pos h c of None \<Rightarrow> 0 | Some q \<Rightarrow> q)"

lemma buy_shares:
  "inv h \<Longrightarrow> buy n s h = Inr h' \<Longrightarrow> INT_MIN \<le> n \<Longrightarrow> n \<le> INT_MAX \<Longrightarrow>
     shares h' c = shares h c + (if c = key s then n else 0)"
  by (auto simp: shares_def buy_pos split: option.splits)

lemma sell_shares:
  "inv h \<Longrightarrow> sell n s h = Inr h' \<Longrightarrow> INT_MIN \<le> n \<Longrightarrow> n \<le> INT_MAX \<Longrightarrow> pos h (key s) = Some q \<Longrightarrow> n \<le> q \<Longrightarrow>
     shares h' c = shares h c - (if c = key s then n else 0)"
  by (auto simp: shares_def sell_pos)

text \<open>A run of trades: \<open>Inl\<close> buys, \<open>Inr\<close> sells. Sales are covered by the position.\<close>

fun run_trades :: "((int \<times> 's) + (int \<times> 's)) list \<Rightarrow> 'h \<Rightarrow> 'h option" where
  "run_trades [] h = Some h"
| "run_trades (t # ts) h =
     (case t of
        Inl (n, s) \<Rightarrow>
          (case buy n s h of Inr h' \<Rightarrow> if INT_MIN \<le> n \<and> n \<le> INT_MAX then run_trades ts h' else None | Inl _ \<Rightarrow> None)
      | Inr (n, s) \<Rightarrow>
          (case (sell n s h, pos h (key s)) of
             (Inr h', Some q) \<Rightarrow> if INT_MIN \<le> n \<and> n \<le> INT_MAX \<and> n \<le> q then run_trades ts h' else None
           | _ \<Rightarrow> None))"

definition net :: "'c \<Rightarrow> ((int \<times> 's) + (int \<times> 's)) list \<Rightarrow> int" where
  "net c ts = sum_list (map (\<lambda>t. case t of Inl (n, s) \<Rightarrow> if c = key s then n else 0
     | Inr (n, s) \<Rightarrow> if c = key s then - n else 0) ts)"

lemma shares_conserved: "inv h \<Longrightarrow> run_trades ts h = Some h' \<Longrightarrow> shares h' c = shares h c + net c ts"
proof (induction ts arbitrary: h)
  case (Cons t ts)
  show ?case
  proof (cases t)
    case (Inl p)
    then obtain n s where p: "t = Inl (n, s)" by (cases p) auto
    with Cons.prems obtain h1 where h1: "buy n s h = Inr h1" "INT_MIN \<le> n" "n \<le> INT_MAX" "run_trades ts h1 = Some h'"
      by (auto split: sum.splits if_splits)
    from Cons.IH[OF buy_inv[OF Cons.prems(1) h1(1)] h1(4)] buy_shares[OF Cons.prems(1) h1(1-3)] p
    show ?thesis by (simp add: net_def)
  next
    case (Inr p)
    then obtain n s where p: "t = Inr (n, s)" by (cases p) auto
    with Cons.prems obtain h1 q where h1: "sell n s h = Inr h1" "INT_MIN \<le> n" "n \<le> INT_MAX"
        "pos h (key s) = Some q" "n \<le> q" "run_trades ts h1 = Some h'"
      by (auto split: sum.splits if_splits option.splits)
    from Cons.IH[OF sell_inv[OF Cons.prems(1) h1(1)] h1(6)] sell_shares[OF Cons.prems(1) h1(1-5)] p
    show ?thesis by (simp add: net_def)
  qed
qed (simp add: net_def)

end

lemma buy_not_sell: "type_sell \<noteq> type_buy" by (simp add: type_buy_def type_sell_def)

lemma update_holdings_inv:
  "codes_distinct h \<Longrightarrow> update_holdings d t n s h = Inr h' \<Longrightarrow> codes_distinct h'"
proof -
  assume a: "codes_distinct h" "update_holdings d t n s h = Inr h'"
  then obtain r where r: "update_found t n s h = Inr r" by (auto simp: update_holdings_def cbind_Inr_iff)
  show ?thesis
  proof (cases r)
    case None
    then have "stock_code s \<notin> stock_code ` set h" using r update_found_None position_None by blast
    then show ?thesis using a r None by (auto simp: update_holdings_def Let_def codes_distinct_def)
  next
    case (Some l)
    then show ?thesis using a r update_found_codes[of t n s h l] by (simp add: update_holdings_def)
  qed
qed

lemma update_holdings_position:
  assumes "codes_distinct h" "update_holdings d t n s h = Inr h'" "INT_MIN \<le> n" "n \<le> INT_MAX"
  shows "position h' c = (if c \<noteq> stock_code s then position h c
     else case position h c of
        None \<Rightarrow> Some n
      | Some q \<Rightarrow> if t = type_buy then Some (q + n) else if q - n < 1 then None else Some (q - n))"
proof -
  from assms(2) obtain r where r: "update_found t n s h = Inr r"
    by (auto simp: update_holdings_def cbind_Inr_iff)
  show ?thesis
  proof (cases r)
    case None
    then show ?thesis using assms r update_found_None[of t n s h]
      by (auto simp: update_holdings_def Let_def position_append atoi_int_to_string split: option.splits)
  next
    case (Some l)
    then have "h' = l" using assms(2) r by (simp add: update_holdings_def)
    then show ?thesis using update_found_position[OF r[unfolded Some] assms(1), of c] by auto
  qed
qed

interpretation book: position_book codes_distinct position stock_code
    "update_holdings d type_buy" "update_holdings d type_sell" for d
  by unfold_locales (simp_all add: update_holdings_position update_holdings_inv buy_not_sell split: option.splits)

section \<open>Lines and fields\<close>

fun join :: "char \<Rightarrow> string list \<Rightarrow> string" where
  "join d [] = []"
| "join d [f] = f"
| "join d (f # g # fs) = f @ d # join d (g # fs)"

definition plain_field :: "string \<Rightarrow> bool" where
  "plain_field f = (f \<noteq> [] \<and> CHR '','' \<notin> set f \<and> NUL \<notin> set f)"

lemma strtok_first:
  assumes "f \<noteq> []" "d \<notin> set f"
  shows "strtok [d] (f @ d # r) = Some (f, r)" "strtok [d] f = Some (f, [])"
proof -
  have h: "hd f \<noteq> d" using assms hd_in_set by metis
  have t: "takeWhile (\<lambda>c. c \<noteq> d) f = f" "dropWhile (\<lambda>c. c \<noteq> d) f = []" using assms(2) by auto
  have a: "dropWhile (\<lambda>c. c = d) (f @ x) = f @ x" for x using h assms(1) by (cases f) auto
  show "strtok [d] (f @ d # r) = Some (f, r)"
    using assms(2) a[of "d # r"] by (auto simp: strtok_def Let_def takeWhile_append dropWhile_append3 t assms(1))
  show "strtok [d] f = Some (f, [])"
    using a[of "[]"] assms by (simp add: strtok_def Let_def t)
qed

lemma split_rest_join:
  "\<forall>f \<in> set fs. plain_field f \<Longrightarrow> split_rest '','' (join (CHR '','') fs) = fs"
proof (induction "CHR '',''" fs rule: join.induct)
  case 1
  then show ?case by (subst split_rest.simps) (simp add: strtok_def)
next
  case (2 f)
  then have "strtok '','' f = Some (f, [])" by (intro strtok_first) (auto simp: plain_field_def)
  moreover have "split_rest '','' [] = []" by (subst split_rest.simps) (simp add: strtok_def)
  ultimately show ?case by (subst split_rest.simps) simp
next
  case (3 f g fs)
  then have "strtok '','' (f @ CHR '','' # join (CHR '','') (g # fs)) = Some (f, join (CHR '','') (g # fs))"
    by (intro strtok_first) (auto simp: plain_field_def)
  with 3 show ?case by (subst split_rest.simps) simp
qed

lemma join_NUL: "\<forall>f \<in> set fs. plain_field f \<Longrightarrow> NUL \<notin> set (join (CHR '','') fs)"
  by (induction "CHR '',''" fs rule: join.induct) (auto simp: plain_field_def NUL_def)

lemma split_join: "\<forall>f \<in> set fs. plain_field f \<Longrightarrow> split (join (CHR '','') fs) '','' = fs"
  using split_rest_join join_NUL cstr_id by (simp add: split_def)

lemma split_fields: "f \<in> set (split_rest delim s) \<Longrightarrow> f \<noteq> [] \<and> set f \<inter> set delim = {}"
proof (induction delim s rule: split_rest.induct)
  case (1 delim s)
  show ?case
  proof (cases "strtok delim s")
    case None
    then have "split_rest delim s = []" by (subst split_rest.simps) simp
    with 1 show ?thesis by simp
  next
    case (Some p)
    then obtain t r where p: "strtok delim s = Some (t, r)" by (cases p) auto
    then have "split_rest delim s = t # split_rest delim r" by (subst split_rest.simps) simp
    moreover have "f \<in> set (split_rest delim r) \<Longrightarrow> f \<noteq> [] \<and> set f \<inter> set delim = {}"
      using 1(1)[OF p refl] by simp
    ultimately show ?thesis using 1(2) strtok_token[OF p] by auto
  qed
qed

text \<open>A file of lines, each closed by a newline.\<close>

definition file_of :: "string list \<Rightarrow> string" where
  "file_of ls = concat (map (\<lambda>l. l @ [CHR 0x0A]) ls)"

lemma getlines_file: "\<forall>l \<in> set ls. CHR 0x0A \<notin> set l \<Longrightarrow> getlines (file_of ls) = ls"
proof (induction ls)
  case Nil
  then show ?case by (simp add: file_of_def getlines.simps)
next
  case (Cons l ls)
  then have l: "CHR 0x0A \<notin> set l" by simp
  have t: "takeWhile (\<lambda>c. c \<noteq> CHR 0x0A) (l @ CHR 0x0A # r) = l"
    "dropWhile (\<lambda>c. c \<noteq> CHR 0x0A) (l @ CHR 0x0A # r) = CHR 0x0A # r" for r
    using l by (simp_all add: takeWhile_append dropWhile_append takeWhile_eq_all_conv)
  have "file_of (l # ls) = l @ CHR 0x0A # file_of ls" by (simp add: file_of_def)
  then show ?case using Cons t[of "file_of ls"] by (subst getlines.simps) simp
qed

text \<open>Reading: the rows before the first short one, provided each row that is read is long enough.\<close>

lemma read_rows_ok:
  assumes "\<And>l. l \<in> set ls \<Longrightarrow> least \<le> length (split l '','') \<Longrightarrow> row (split l '','') = Inr (f (split l '',''))"
  shows "read_rows least row ls = Inr (map f (takeWhile (\<lambda>e. least \<le> length e) (map (\<lambda>l. split l '','') ls)))"
  using assms by (induction ls) (auto simp: Let_def)

lemma read_file_ok:
  assumes "\<forall>fs \<in> set rows. \<forall>f \<in> set fs. plain_field f \<and> CHR 0x0A \<notin> set f"
    and "\<And>fs. fs \<in> set rows \<Longrightarrow> least \<le> length fs \<and> row fs = Inr (g fs)"
  shows "read_file least row (Some (file_of (map (join (CHR '','')) rows))) = Inr (map g rows)"
proof -
  have nl: "CHR 0x0A \<notin> set (join (CHR '','') fs)" if "\<forall>f \<in> set fs. CHR 0x0A \<notin> set f" for fs
    using that by (induction "CHR '',''" fs rule: join.induct) auto
  have sp: "split (join (CHR '','') fs) '','' = fs" if "fs \<in> set rows" for fs
    using split_join assms(1) that by blast
  have "read_rows least row (map (join (CHR '','')) rows)
      = Inr (map g (takeWhile (\<lambda>e. least \<le> length e) (map (\<lambda>l. split l '','') (map (join (CHR '','')) rows))))"
    using assms(2) sp by (intro read_rows_ok) auto
  also have "map (\<lambda>l. split l '','') (map (join (CHR '','')) rows) = rows"
    using sp by (simp add: map_idI)
  also have "takeWhile (\<lambda>e. least \<le> length e) rows = rows"
    using assms(2) by (simp add: takeWhile_eq_all_conv)
  finally show ?thesis
    using assms(1) nl by (subst read_file_def) (auto simp: getlines_file)
qed

definition quote_of :: "string list \<Rightarrow> StockClass" where
  "quote_of e = \<lparr>trade_date = e ! 0, stock_code = e ! 1, stock_name = e ! 2, mkt = e ! 3, yesterday_price = e ! 4,
     open_price = e ! 5, high_price = e ! 6, low_price = e ! 7, close_price = e ! 8, increase_rate = e ! 9,
     qty = e ! 10, amount = e ! 11, per = e ! 12\<rparr>"

lemma quote_row_ok: "13 \<le> length e \<Longrightarrow> e ! 12 \<noteq> [] \<Longrightarrow> quote_row e = Inr (quote_of e)"
  by (auto simp: quote_row_def quote_of_def field_def)

text \<open>C37: reading a quotation file. For a file whose lines are rows of at least 13 non-empty
  fields without commas, \<open>QuoteClass::read\<close> stores one entry per row, in file order, with
  the fields of the row (the header row of the file included).\<close>

theorem quote_read_rows:
  assumes "\<forall>fs \<in> set rows. 13 \<le> length fs \<and> (\<forall>f \<in> set fs. plain_field f \<and> CHR 0x0A \<notin> set f)"
  shows "quote_read (Some (file_of (map (join (CHR '','')) rows))) = Inr (map quote_of rows)"
  unfolding quote_read_def
proof (rule read_file_ok)
  show "\<forall>fs \<in> set rows. \<forall>f \<in> set fs. plain_field f \<and> CHR 0x0A \<notin> set f" using assms by blast
  fix fs assume fs: "fs \<in> set rows"
  then have "fs ! 12 \<in> set fs" using assms by (intro nth_mem) force
  then have "fs ! 12 \<noteq> []" using assms fs by (auto simp: plain_field_def)
  then show "10 \<le> length fs \<and> quote_row fs = Inr (quote_of fs)" using assms fs quote_row_ok by force
qed

definition sample_row :: "string list" where
  "sample_row = [''2023/5/4'', ''600028'', ''SINOPEC'', name_SHA, ''6.5'', ''6.5'', ''6.6'', ''6.4'', ''6.57'', ''0.3'', ''10'', ''20'', ''9'']"

theorem quote_read_rows_witness:
  "quote_read (Some (file_of (map (join (CHR '','')) [sample_row]))) = Inr (map quote_of [sample_row])"
proof (rule quote_read_rows)
  show "\<forall>fs \<in> set [sample_row]. 13 \<le> length fs \<and> (\<forall>f \<in> set fs. plain_field f \<and> CHR 0x0A \<notin> set f)"
    by code_simp
qed

text \<open>The size check of \<open>QuoteClass::read\<close> does not protect its reads: a line with 10
  fields passes the check \<open>elements.size() < 10\<close> and the method then dereferences the
  past-the-end iterator.\<close>

theorem quote_read_past_end:
  "quote_read (Some (file_of [join (CHR '','') (take 10 sample_row)])) = Inl EndIterator"
  by code_simp

text \<open>Quoted amounts with a thousands separator are split: of the last three fields
  \<open>"14,782.64"\<close>, \<open>"186,314.61"\<close>, \<open>5.79\<close> of a line of \<open>data/quote.csv\<close> the volume
  read is \<open>"14\<close>, the turnover \<open>782.64"\<close> and the price/earnings ratio \<open>"186\<close>.\<close>

theorem quote_read_splits_numbers:
  "quote_read (Some (file_of [join (CHR '','') (take 10 sample_row) @
     [CHR '','', CHR 0x22] @ ''14,782.64'' @ [CHR 0x22, CHR '','', CHR 0x22] @ ''186,314.61'' @ [CHR 0x22] @ '',5.79'']))
   = Inr [(quote_of sample_row)\<lparr>qty := CHR 0x22 # ''14'', amount := ''782.64'' @ [CHR 0x22], per := CHR 0x22 # ''186''\<rparr>]"
  by code_simp

end
