(* ===== verification/Trading.thy ===== *)
theory Trading
  imports Stock
begin

text \<open>
  The trading core of \<open>examples/http_server_test.cpp\<close>: \<open>initial\<close>, \<open>queryStockbyCode\<close>,
  \<open>queryStock\<close>, \<open>buyStock\<close>, \<open>sellStock\<close>, their variants by code, and
  \<open>withdrawOrder\<close>, over the global variables of that file. The clock and the CSV files are
  parameters. Every \<open>sprintf\<close> into the 2048-byte buffers is checked; messages printed to
  standard output are not modelled.
\<close>

section \<open>State\<close>

text \<open>What \<open>UtilsClass::getDate\<close> and \<open>getDateTimeString\<close> return at the time of a request.\<close>

record clock =
  getDate :: string
  getDateTimeString :: string

text \<open>
  The globals. \<open>account\<close> is \<open>None\<close> while the object holds no assigned members;
  \<open>success_log\<close> collects what is appended to \<open>log/success.txt\<close>.
\<close>

record server =
  account :: "AccountClass option"
  quote :: "StockClass list"
  holdings :: "StockClass list"
  order_list :: "OrderClass list"
  order_id :: int
  errorTxt :: string
  logTxt :: string
  success_log :: "string list"

definition TXT_SIZE :: nat where "TXT_SIZE = 2048"

definition newline_str :: string where "newline_str = [CHR 0x0A]"

text \<open>\<open>sprintf\<close> of a text to one of the two buffers, its terminator included.\<close>

definition set_errorTxt :: "string \<Rightarrow> server \<Rightarrow> server cres" where
  "set_errorTxt s st = (if length s + 1 \<le> TXT_SIZE then Inr (st\<lparr>errorTxt := s\<rparr>) else Inl BufferOverflow)"

definition set_logTxt :: "string \<Rightarrow> server \<Rightarrow> server cres" where
  "set_logTxt s st = (if length s + 1 \<le> TXT_SIZE then Inr (st\<lparr>logTxt := s\<rparr>) else Inl BufferOverflow)"

text \<open>\<open>sprintf(errorTxt, ...); return code;\<close>\<close>

definition fail_with :: "int \<Rightarrow> string \<Rightarrow> server \<Rightarrow> (int \<times> server) cres" where
  "fail_with code s st = cbind (set_errorTxt s st) (\<lambda>st'. Inr (code, st'))"

text \<open>The line \<open>"%s, %s, %s, %s, %s\n"\<close>.\<close>

definition log_line :: "string list \<Rightarrow> string" where
  "log_line fs = join (CHR 0x20) (map (\<lambda>f. cstr f @ '','') (butlast fs)) @ '' '' @ cstr (last fs) @ newline_str"

definition the_account :: "server \<Rightarrow> (AccountClass \<Rightarrow> 'a cres) \<Rightarrow> 'a cres" where
  "the_account st f = (case account st of None \<Rightarrow> Inl Uninitialised | Some a \<Rightarrow> f a)"

section \<open>Start-up and queries\<close>

definition isValidMktID :: "int \<Rightarrow> bool" where
  "isValidMktID mktID = (if mktID < SHA \<or> SME < mktID then False else True)"

definition msg_no_account :: "string \<Rightarrow> string" where
  "msg_no_account i = [CHR 0x45, CHR 0x72, CHR 0x72, CHR 0x6F, CHR 0x72, CHR 0x3A, CHR 0x20, CHR 0xE8, CHR 0xB4, CHR 0xA6, CHR 0xE6, CHR 0x88, CHR 0xB7, CHR 0x69, CHR 0x64, CHR 0x3D, CHR 0x5B] @ cstr i @ [CHR 0x5D, CHR 0xE4, CHR 0xB8, CHR 0x8D, CHR 0xE5, CHR 0xAD, CHR 0x98, CHR 0xE5, CHR 0x9C, CHR 0xA8, CHR 0x21] @ newline_str"

definition msg_no_stock :: "string \<Rightarrow> string" where
  "msg_no_stock code = [CHR 0x45, CHR 0x72, CHR 0x72, CHR 0x6F, CHR 0x72, CHR 0x3A, CHR 0x20, CHR 0xE8, CHR 0x82, CHR 0xA1, CHR 0xE7, CHR 0xA5, CHR 0xA8, CHR 0x5B] @ cstr code @ [CHR 0x5D, CHR 0xE4, CHR 0xB8, CHR 0x8D, CHR 0xE5, CHR 0xAD, CHR 0x98, CHR 0xE5, CHR 0x9C, CHR 0xA8, CHR 0x21] @ newline_str"

definition initial :: "string option \<Rightarrow> string option \<Rightarrow> string option \<Rightarrow> (int \<times> server) cres" where
  "initial acct_csv quote_csv holdings_csv =
     (let st = \<lparr>account = None, quote = [], holdings = [], order_list = [], order_id = 0,
                errorTxt = [], logTxt = [], success_log = []\<rparr>
      in cbind (acct_read acct_csv) (\<lambda>acct_list.
         case getAcct ''1'' acct_list of
           None \<Rightarrow> fail_with (- 1) (msg_no_account ''1'') st
         | Some a \<Rightarrow>
             cbind (quote_read quote_csv) (\<lambda>q. cbind (holdings_read holdings_csv) (\<lambda>h.
               Inr (0, st\<lparr>account := Some a, quote := q, holdings := h, order_id := 1\<rparr>)))))"

text \<open>The third component is the \<open>StockClass\<close> the caller passes in, filled on success.\<close>

definition queryStockbyCode :: "clock \<Rightarrow> string \<Rightarrow> StockClass \<Rightarrow> server \<Rightarrow> (int \<times> StockClass \<times> server) cres" where
  "queryStockbyCode clk code stock st =
     (case quote_queryStockbyCode code (quote st) of
        None \<Rightarrow> cbind (set_errorTxt (msg_no_stock code) st) (\<lambda>st'. Inr (- 404, stock, st'))
      | Some s \<Rightarrow>
          cbind (set_logTxt (log_line [getDateTimeString clk, [CHR 0xE7, CHR 0x94, CHR 0xA8, CHR 0xE4, CHR 0xBB, CHR 0xA3, CHR 0xE7, CHR 0xA0, CHR 0x81, CHR 0xE6, CHR 0x9F, CHR 0xA5, CHR 0xE8, CHR 0x82, CHR 0xA1, CHR 0xE7, CHR 0xA5, CHR 0xA8], stock_code s, stock_name s, mkt s]) st)
            (\<lambda>st'. Inr (0, s, st')))"

definition msg_bad_mkt :: "int \<Rightarrow> string" where
  "msg_bad_mkt m = [CHR 0x45, CHR 0x72, CHR 0x72, CHR 0x6F, CHR 0x72, CHR 0x3A, CHR 0x20, CHR 0x6D, CHR 0x6B, CHR 0x74, CHR 0x5F, CHR 0x69, CHR 0x64, CHR 0x20, CHR 0xE6, CHR 0x97, CHR 0xA0, CHR 0xE6, CHR 0x95, CHR 0x88, CHR 0x5B] @ int_to_string m @ [CHR 0x5D, CHR 0x2C, CHR 0x20, CHR 0xE6, CHR 0x9C, CHR 0x89, CHR 0xE6, CHR 0x95, CHR 0x88, CHR 0xE7, CHR 0x9A, CHR 0x84, CHR 0xE8, CHR 0x8C, CHR 0x83, CHR 0xE5, CHR 0x9B, CHR 0xB4, CHR 0xE6, CHR 0x98, CHR 0xAF, CHR 0x5B, CHR 0xE5, CHR 0xA4, CHR 0xA7, CHR 0xE4, CHR 0xBA, CHR 0x8E, CHR 0xE7, CHR 0xAD, CHR 0x89, CHR 0xE4, CHR 0xBA, CHR 0x8E, CHR 0x20] @ int_to_string SHA
     @ [CHR 0x2C, CHR 0x20, CHR 0xE4, CHR 0xB8, CHR 0x94, CHR 0xE5, CHR 0xB0, CHR 0x8F, CHR 0xE4, CHR 0xBA, CHR 0x8E, CHR 0xE7, CHR 0xAD, CHR 0x89, CHR 0xE4, CHR 0xBA, CHR 0x8E, CHR 0x20] @ int_to_string SME @ [CHR 0x5D, CHR 0x21] @ newline_str"

definition queryStock :: "clock \<Rightarrow> string \<Rightarrow> int \<Rightarrow> StockClass \<Rightarrow> server \<Rightarrow> (int \<times> StockClass \<times> server) cres" where
  "queryStock clk code mkt_id stock st =
     (if \<not> isValidMktID mkt_id then
        cbind (set_errorTxt (msg_bad_mkt mkt_id) st) (\<lambda>st'. Inr (- 404, stock, st'))
      else case quote_queryStock (code, mkt_id) (quote st) of
        None \<Rightarrow> cbind (set_errorTxt (msg_no_stock code) st) (\<lambda>st'. Inr (- 404, stock, st'))
      | Some s \<Rightarrow>
          cbind (set_logTxt (log_line [getDateTimeString clk, [CHR 0xE5, CHR 0xA4, CHR 0x8D, CHR 0xE5, CHR 0x90, CHR 0x88, CHR 0xE6, CHR 0x9D, CHR 0xA1, CHR 0xE4, CHR 0xBB, CHR 0xB6, CHR 0xE6, CHR 0x9F, CHR 0xA5, CHR 0xE8, CHR 0x82, CHR 0xA1, CHR 0xE7, CHR 0xA5, CHR 0xA8], stock_code s, stock_name s, mkt s]) st)
            (\<lambda>st'. Inr (0, s, st')))"

section \<open>Orders\<close>

definition msg_no_permission :: "AccountClass \<Rightarrow> StockClass \<Rightarrow> string" where
  "msg_no_permission a s = [CHR 0x45, CHR 0x72, CHR 0x72, CHR 0x6F, CHR 0x72, CHR 0x3A, CHR 0x20, CHR 0xE8, CHR 0xB4, CHR 0xA6, CHR 0xE6, CHR 0x88, CHR 0xB7, CHR 0x41, CHR 0x63, CHR 0x63, CHR 0x74, CHR 0x5B, CHR 0x6E, CHR 0x61, CHR 0x6D, CHR 0x65, CHR 0x3D] @ cstr (cust_name a) @ [CHR 0x5D, CHR 0xE6, CHR 0xB2, CHR 0xA1, CHR 0xE6, CHR 0x9C, CHR 0x89, CHR 0xE5, CHR 0xB8, CHR 0x82, CHR 0xE5, CHR 0x9C, CHR 0xBA, CHR 0x5B] @ cstr (mkt s)
     @ [CHR 0x5D, CHR 0xE7, CHR 0x9A, CHR 0x84, CHR 0xE4, CHR 0xBA, CHR 0xA4, CHR 0xE6, CHR 0x98, CHR 0x93, CHR 0xE8, CHR 0xAE, CHR 0xB8, CHR 0xE5, CHR 0x8F, CHR 0xAF, CHR 0x2C, CHR 0xE9, CHR 0x9C, CHR 0x80, CHR 0xE5, CHR 0x85, CHR 0x88, CHR 0xE5, CHR 0xBC, CHR 0x80, CHR 0xE6, CHR 0x88, CHR 0xB7, CHR 0x21] @ newline_str"

definition msg_buy_qty :: string where "msg_buy_qty = [CHR 0x45, CHR 0x72, CHR 0x72, CHR 0x6F, CHR 0x72, CHR 0x3A, CHR 0x20, CHR 0xE4, CHR 0xB9, CHR 0xB0, CHR 0xE5, CHR 0x85, CHR 0xA5, CHR 0xE6, CHR 0x95, CHR 0xB0, CHR 0xE9, CHR 0x87, CHR 0x8F, CHR 0xE5, CHR 0xBF, CHR 0x85, CHR 0xE9, CHR 0xA1, CHR 0xBB, CHR 0xE5, CHR 0xA4, CHR 0xA7, CHR 0xE4, CHR 0xBA, CHR 0x8E, CHR 0xE9, CHR 0x9B, CHR 0xB6, CHR 0x21] @ newline_str"
definition msg_sell_qty :: string where "msg_sell_qty = [CHR 0x45, CHR 0x72, CHR 0x72, CHR 0x6F, CHR 0x72, CHR 0x3A, CHR 0x20, CHR 0xE5, CHR 0x8D, CHR 0x96, CHR 0xE5, CHR 0x87, CHR 0xBA, CHR 0xE6, CHR 0x95, CHR 0xB0, CHR 0xE9, CHR 0x87, CHR 0x8F, CHR 0xE5, CHR 0xBF, CHR 0x85, CHR 0xE9, CHR 0xA1, CHR 0xBB, CHR 0xE5, CHR 0xA4, CHR 0xA7, CHR 0xE4, CHR 0xBA, CHR 0x8E, CHR 0xE9, CHR 0x9B, CHR 0xB6, CHR 0x21] @ newline_str"

definition msg_balance :: "AccountClass \<Rightarrow> StockClass \<Rightarrow> int \<Rightarrow> fl \<Rightarrow> string" where
  "msg_balance a s n price = [CHR 0x45, CHR 0x72, CHR 0x72, CHR 0x6F, CHR 0x72, CHR 0x3A, CHR 0x20, CHR 0xE4, CHR 0xBD, CHR 0x99, CHR 0xE9, CHR 0xA2, CHR 0x9D, CHR 0xE4, CHR 0xB8, CHR 0x8D, CHR 0xE8, CHR 0xB6, CHR 0xB3, CHR 0x5B] @ fmt_f (balance a) @ [CHR 0x5D, CHR 0x2C, CHR 0x20, CHR 0xE4, CHR 0xB9, CHR 0xB0, CHR 0xE5, CHR 0x85, CHR 0xA5, CHR 0x5B, CHR 0x43, CHR 0x6F, CHR 0x64, CHR 0x65, CHR 0x3D] @ cstr (stock_code s)
     @ [CHR 0x2C, CHR 0x20, CHR 0x71, CHR 0x74, CHR 0x79, CHR 0x3D] @ int_to_string n @ [CHR 0x2C, CHR 0x20, CHR 0x70, CHR 0x72, CHR 0x69, CHR 0x63, CHR 0x65, CHR 0x3D] @ fmt_f price @ [CHR 0x5D, CHR 0x21] @ newline_str"

definition msg_band :: "StockClass \<Rightarrow> fl \<Rightarrow> string" where
  "msg_band s price = [CHR 0x45, CHR 0x72, CHR 0x72, CHR 0x6F, CHR 0x72, CHR 0x3A, CHR 0x20, CHR 0xE6, CHR 0x8A, CHR 0xA5, CHR 0xE4, CHR 0xBB, CHR 0xB7, CHR 0xE8, CHR 0xB6, CHR 0x85, CHR 0xE8, CHR 0xBF, CHR 0x87, CHR 0xE6, CHR 0xB6, CHR 0xA8, CHR 0xE8, CHR 0xB7, CHR 0x8C, CHR 0xE5, CHR 0xB9, CHR 0x85, CHR 0xE9, CHR 0x99, CHR 0x90, CHR 0xE5, CHR 0x88, CHR 0xB6, CHR 0x2C, CHR 0x20, CHR 0xE6, CHR 0x8A, CHR 0xA5, CHR 0xE4, CHR 0xBB, CHR 0xB7, CHR 0x5B, CHR 0xE8, CHR 0x82, CHR 0xA1, CHR 0xE7, CHR 0xA5, CHR 0xA8, CHR 0x3D] @ cstr (stock_code s) @ [CHR 0x2C, CHR 0x20, CHR 0xE6, CHR 0x98, CHR 0xA8, CHR 0xE6, CHR 0x94, CHR 0xB6, CHR 0x3D]
     @ cstr (close_price s) @ [CHR 0x2C, CHR 0x20, CHR 0x70, CHR 0x72, CHR 0x69, CHR 0x63, CHR 0x65, CHR 0x3D] @ fmt_f price @ [CHR 0x5D, CHR 0x21] @ newline_str"

definition msg_not_held :: "AccountClass \<Rightarrow> StockClass \<Rightarrow> string" where
  "msg_not_held a s = [CHR 0x45, CHR 0x72, CHR 0x72, CHR 0x6F, CHR 0x72, CHR 0x3A, CHR 0x20, CHR 0xE8, CHR 0xB4, CHR 0xA6, CHR 0xE6, CHR 0x88, CHR 0xB7, CHR 0x41, CHR 0x63, CHR 0x63, CHR 0x74, CHR 0x5B, CHR 0x6E, CHR 0x61, CHR 0x6D, CHR 0x65, CHR 0x3D] @ cstr (cust_name a) @ [CHR 0x5D, CHR 0xE6, CHR 0xB2, CHR 0xA1, CHR 0xE6, CHR 0x9C, CHR 0x89, CHR 0xE8, CHR 0xAF, CHR 0xA5, CHR 0xE8, CHR 0x82, CHR 0xA1, CHR 0xE7, CHR 0xA5, CHR 0xA8, CHR 0x5B] @ cstr (stock_code s)
     @ [CHR 0x5D, CHR 0x21] @ newline_str"

definition msg_too_few :: "AccountClass \<Rightarrow> StockClass \<Rightarrow> int \<Rightarrow> int \<Rightarrow> string" where
  "msg_too_few a s held n = [CHR 0x45, CHR 0x72, CHR 0x72, CHR 0x6F, CHR 0x72, CHR 0x3A, CHR 0x20, CHR 0xE8, CHR 0xB4, CHR 0xA6, CHR 0xE6, CHR 0x88, CHR 0xB7, CHR 0x41, CHR 0x63, CHR 0x63, CHR 0x74, CHR 0x5B, CHR 0x6E, CHR 0x61, CHR 0x6D, CHR 0x65, CHR 0x3D] @ cstr (cust_name a) @ [CHR 0x5D, CHR 0xE8, CHR 0x82, CHR 0xA1, CHR 0xE7, CHR 0xA5, CHR 0xA8, CHR 0x5B] @ cstr (stock_code s)
     @ [CHR 0x5D, CHR 0xE7, CHR 0x9A, CHR 0x84, CHR 0xE4, CHR 0xBD, CHR 0x99, CHR 0xE9, CHR 0xA2, CHR 0x9D, CHR 0x5B] @ int_to_string held @ [CHR 0x5D, CHR 0xE4, CHR 0xB8, CHR 0x8D, CHR 0xE8, CHR 0xB6, CHR 0xB3, CHR 0x2C, CHR 0x20, CHR 0xE5, CHR 0x8D, CHR 0x96, CHR 0xE5, CHR 0x87, CHR 0xBA, CHR 0xE7, CHR 0x9A, CHR 0x84, CHR 0xE8, CHR 0x82, CHR 0xA1, CHR 0xE7, CHR 0xA5, CHR 0xA8, CHR 0xE6, CHR 0x95, CHR 0xB0, CHR 0xE9, CHR 0x87, CHR 0x8F, CHR 0x5B] @ int_to_string n @ [CHR 0x5D, CHR 0x21] @ newline_str"

text \<open>\<open>std::atof(stock->close_price.c_str()) + 0.00001\<close> and the band of ten per cent around it.\<close>

definition reference_price :: "StockClass \<Rightarrow> fl" where
  "reference_price s = fl_add Double (atof (close_price s)) (dconst 1 100000)"

definition outside_band :: "StockClass \<Rightarrow> fl \<Rightarrow> bool" where
  "outside_band s price =
     (fl_less (fl_mult Double (reference_price s) (dconst 11 10)) price \<or>
      fl_less price (fl_mult Double (reference_price s) (dconst 90 100)))"

text \<open>An order is appended to the queue under the next number.\<close>

definition enqueue :: "clock \<Rightarrow> string \<Rightarrow> StockClass \<Rightarrow> fl \<Rightarrow> int \<Rightarrow> server \<Rightarrow> server cres" where
  "enqueue clk order_type s price n st =
     (if order_id st = LONG_MAX then Inl IntOverflow
      else Inr (st\<lparr>order_list := order_list st @ [\<lparr>o_trade_date = getDate clk, o_stock_code = stock_code s,
                  o_stock_name = stock_name s, o_mkt = mkt s, o_order_type = order_type,
                  o_price = fmt_f price, o_qty = int_to_string n, o_status = status_queued,
                  o_order_id = order_id st\<rparr>],
                order_id := order_id st + 1\<rparr>))"

definition execute :: "clock \<Rightarrow> string \<Rightarrow> StockClass \<Rightarrow> int \<Rightarrow> server \<Rightarrow> server cres" where
  "execute clk order_type s n st =
     cbind (update_holdings (getDate clk) order_type n s (holdings st)) (\<lambda>h. Inr (st\<lparr>holdings := h\<rparr>))"

text \<open>The lot-size rule of each market, with its return code; these branches set no message.\<close>

definition lot_error :: "StockClass \<Rightarrow> int \<Rightarrow> int option" where
  "lot_error s n =
     (if str_eq (mkt s) name_SHA \<and> c_rem n 1000 \<noteq> 0 then Some (- 503)
      else if str_eq (mkt s) name_SHB \<and> c_rem n 200 \<noteq> 0 then Some (- 504)
      else if str_eq (mkt s) name_SZA \<and> c_rem n 500 \<noteq> 0 then Some (- 505)
      else if str_eq (mkt s) name_SZB \<and> c_rem n 300 \<noteq> 0 then Some (- 506)
      else if str_eq (mkt s) name_GEM \<and> c_rem n 600 \<noteq> 0 then Some (- 507)
      else if str_eq (mkt s) name_STAR \<and> c_rem n 700 \<noteq> 0 then Some (- 508)
      else if str_eq (mkt s) name_SME \<and> c_rem n 800 \<noteq> 0 then Some (- 509)
      else None)"

definition buyStock :: "clock \<Rightarrow> StockClass \<Rightarrow> fl \<Rightarrow> int \<Rightarrow> server \<Rightarrow> (int \<times> server) cres" where
  "buyStock clk stock price n st =
     the_account st (\<lambda>a.
       if \<not> mktPermission a (mkt stock) then fail_with (- 501) (msg_no_permission a stock) st
       else if n \<le> 0 then fail_with (- 502) msg_buy_qty st
       else if fl_less price (dconst 1 100) \<and> fl_less (fl_of_int Double 500) price then Inr (- 510, st)
       else case lot_error stock n of
         Some code \<Rightarrow> Inr (code, st)
       | None \<Rightarrow>
           if fl_less (balance a) (fl_mult Float (fl_of_int Float n) price) then
             fail_with (- 505) (msg_balance a stock n price) st
           else if outside_band stock price then fail_with (- 506) (msg_band stock price) st
           else
             cbind (if fl_less (reference_price stock) price then execute clk type_buy stock n st
                    else enqueue clk type_buy stock price n st)
               (\<lambda>st1. cbind (set_logTxt (log_line [getDateTimeString clk, [CHR 0xE4, CHR 0xB9, CHR 0xB0, CHR 0xE5, CHR 0x85, CHR 0xA5, CHR 0xE8, CHR 0x82, CHR 0xA1, CHR 0xE7, CHR 0xA5, CHR 0xA8], stock_code stock,
                   stock_name stock, mkt stock]) st1) (\<lambda>st2. Inr (0, st2))))"

definition buyStockbyCode :: "clock \<Rightarrow> string \<Rightarrow> fl \<Rightarrow> int \<Rightarrow> server \<Rightarrow> (int \<times> server) cres" where
  "buyStockbyCode clk code price n st =
     cbind (queryStockbyCode clk code StockClass0 st) (\<lambda>(ret, stock, st1).
       if ret \<noteq> 0 then Inr (- 404, st1)
       else cbind (buyStock clk stock price n st1) (\<lambda>(ret2, st2).
         if ret2 \<noteq> 0 then Inr (- 500, st2) else Inr (0, st2)))"

definition sellStock :: "clock \<Rightarrow> StockClass \<Rightarrow> fl \<Rightarrow> int \<Rightarrow> server \<Rightarrow> (int \<times> server) cres" where
  "sellStock clk stock price n st =
     the_account st (\<lambda>a.
       if \<not> mktPermission a (mkt stock) then fail_with (- 501) (msg_no_permission a stock) st
       else if n \<le> 0 then fail_with (- 502) msg_sell_qty st
       else if query_holdings stock (holdings st) < 0 then fail_with (- 601) (msg_not_held a stock) st
       else if query_holdings stock (holdings st) < n then
         fail_with (- 602) (msg_too_few a stock (query_holdings stock (holdings st)) n) st
       else if outside_band stock price then fail_with (- 506) (msg_band stock price) st
       else
         cbind (if fl_less (reference_price stock) price then enqueue clk type_sell stock price n st
                else execute clk type_sell stock n st)
           (\<lambda>st1. cbind (set_logTxt (log_line [getDateTimeString clk, [CHR 0xE5, CHR 0x8D, CHR 0x96, CHR 0xE5, CHR 0x87, CHR 0xBA, CHR 0xE8, CHR 0x82, CHR 0xA1, CHR 0xE7, CHR 0xA5, CHR 0xA8], stock_code stock,
               stock_name stock, mkt stock]) st1) (\<lambda>st2. Inr (0, st2))))"

definition sellStockbyCode :: "clock \<Rightarrow> string \<Rightarrow> fl \<Rightarrow> int \<Rightarrow> server \<Rightarrow> (int \<times> server) cres" where
  "sellStockbyCode clk code price n st =
     cbind (queryStockbyCode clk code StockClass0 st) (\<lambda>(ret, stock, st1).
       if ret \<noteq> 0 then Inr (- 404, st1)
       else cbind (sellStock clk stock price n st1) (\<lambda>(ret2, st2).
         if ret2 \<noteq> 0 then Inr (- 600, st2) else Inr (0, st2)))"

section \<open>Withdrawal\<close>

datatype withdrawal = Withdrawn "OrderClass list" OrderClass | AlreadyWithdrawn | NoSuchOrder

fun withdraw_loop :: "int \<Rightarrow> OrderClass list \<Rightarrow> withdrawal" where
  "withdraw_loop i [] = NoSuchOrder"
| "withdraw_loop i (item # items) =
     (if o_order_id item = i \<and> o_status item \<noteq> status_withdrawn then
        Withdrawn (item\<lparr>o_status := status_withdrawn\<rparr> # items) item
      else if o_order_id item = i \<and> o_status item = status_withdrawn then AlreadyWithdrawn
      else case withdraw_loop i items of
             Withdrawn items' o' \<Rightarrow> Withdrawn (item # items') o'
           | AlreadyWithdrawn \<Rightarrow> AlreadyWithdrawn
           | NoSuchOrder \<Rightarrow> NoSuchOrder)"

definition msg_twice :: "int \<Rightarrow> string" where
  "msg_twice i = [CHR 0x45, CHR 0x72, CHR 0x72, CHR 0x6F, CHR 0x72, CHR 0x3A, CHR 0x20, CHR 0xE9, CHR 0x87, CHR 0x8D, CHR 0xE5, CHR 0xA4, CHR 0x8D, CHR 0xE6, CHR 0x92, CHR 0xA4, CHR 0xE5, CHR 0x8D, CHR 0x95, CHR 0x2C, CHR 0x20, CHR 0xE5, CHR 0xA7, CHR 0x94, CHR 0xE6, CHR 0x89, CHR 0x98, CHR 0xE7, CHR 0xBC, CHR 0x96, CHR 0xE5, CHR 0x8F, CHR 0xB7, CHR 0x5B, CHR 0x69, CHR 0x64, CHR 0x3D] @ int_to_string i @ [CHR 0x5D, CHR 0xE4, CHR 0xB9, CHR 0x8B, CHR 0xE5, CHR 0x89, CHR 0x8D, CHR 0xE5, CHR 0xB7, CHR 0xB2, CHR 0xE7, CHR 0xBB, CHR 0x8F, CHR 0xE8, CHR 0xA2, CHR 0xAB, CHR 0xE6, CHR 0x92, CHR 0xA4, CHR 0xE5, CHR 0x8D, CHR 0x95, CHR 0xE4, CHR 0xBA, CHR 0x86, CHR 0x21] @ newline_str"

definition msg_no_order :: "int \<Rightarrow> string" where
  "msg_no_order i = [CHR 0x45, CHR 0x72, CHR 0x72, CHR 0x6F, CHR 0x72, CHR 0x3A, CHR 0x20, CHR 0xE6, CHR 0x92, CHR 0xA4, CHR 0xE5, CHR 0x8D, CHR 0x95, CHR 0xE5, CHR 0xA4, CHR 0xB1, CHR 0xE8, CHR 0xB4, CHR 0xA5, CHR 0x2C, CHR 0x20, CHR 0xE6, CHR 0x89, CHR 0xBE, CHR 0xE4, CHR 0xB8, CHR 0x8D, CHR 0xE5, CHR 0x88, CHR 0xB0, CHR 0xE5, CHR 0xA7, CHR 0x94, CHR 0xE6, CHR 0x89, CHR 0x98, CHR 0xE5, CHR 0x8D, CHR 0x95, CHR 0x5B, CHR 0x69, CHR 0x64, CHR 0x3D] @ int_to_string i @ [CHR 0x5D, CHR 0x21] @ newline_str"

definition withdrawOrder :: "clock \<Rightarrow> int \<Rightarrow> server \<Rightarrow> (int \<times> server) cres" where
  "withdrawOrder clk i st =
     (case withdraw_loop i (order_list st) of
        Withdrawn orders item \<Rightarrow>
          cbind (set_logTxt (log_line [getDateTimeString clk, [CHR 0xE6, CHR 0x92, CHR 0xA4, CHR 0xE5, CHR 0x8D, CHR 0x95, CHR 0xE6, CHR 0x88, CHR 0x90, CHR 0xE5, CHR 0x8A, CHR 0x9F], o_stock_code item, o_stock_name item, o_mkt item])
              (st\<lparr>order_list := orders\<rparr>)) (\<lambda>st'. Inr (0, st'))
      | AlreadyWithdrawn \<Rightarrow> fail_with (- 701) (msg_twice i) st
      | NoSuchOrder \<Rightarrow> fail_with (- 704) (msg_no_order i) st)"

section \<open>Behaviour of the operations\<close>

text \<open>A rejected request changes nothing but the message; a query nothing but the texts.\<close>

definition same_but_texts :: "server \<Rightarrow> server \<Rightarrow> bool" where
  "same_but_texts st st' = (st' = st\<lparr>errorTxt := errorTxt st', logTxt := logTxt st'\<rparr>)"

lemma same_refl [simp]: "same_but_texts st st"
  by (cases st) (simp add: same_but_texts_def)

lemma same_trans: "same_but_texts a b \<Longrightarrow> same_but_texts b c \<Longrightarrow> same_but_texts a c"
  by (cases a; cases b; cases c) (auto simp: same_but_texts_def)

lemma same_fields:
  "same_but_texts st st' \<Longrightarrow> account st' = account st \<and> quote st' = quote st \<and> holdings st' = holdings st
     \<and> order_list st' = order_list st \<and> order_id st' = order_id st \<and> success_log st' = success_log st"
  by (cases st; cases st') (auto simp: same_but_texts_def)

lemma fail_with_Inr: "fail_with code s st = Inr (ret, st') \<Longrightarrow> ret = code \<and> same_but_texts st st'"
  by (cases st; cases st') (auto simp: fail_with_def set_errorTxt_def same_but_texts_def split: if_splits)

lemma set_logTxt_Inr: "set_logTxt s st = Inr st' \<Longrightarrow> same_but_texts st st'"
  by (cases st; cases st') (auto simp: set_logTxt_def same_but_texts_def split: if_splits)

lemma set_errorTxt_Inr: "set_errorTxt s st = Inr st' \<Longrightarrow> same_but_texts st st'"
  by (cases st; cases st') (auto simp: set_errorTxt_def same_but_texts_def split: if_splits)

lemma the_account_Inr: "the_account st f = Inr r \<longleftrightarrow> (\<exists>a. account st = Some a \<and> f a = Inr r)"
  by (auto simp: the_account_def split: option.splits)

lemma query_Inr:
  assumes "queryStockbyCode clk code s0 st = Inr (ret, s, st')"
  shows "same_but_texts st st'" "ret = 0 \<Longrightarrow> quote_queryStockbyCode code (quote st) = Some s"
    "ret \<noteq> 0 \<Longrightarrow> ret = - 404 \<and> quote_queryStockbyCode code (quote st) = None"
  using assms set_logTxt_Inr set_errorTxt_Inr
  by (auto simp: queryStockbyCode_def cbind_Inr_iff split: option.splits)

text \<open>What an accepted order does: it trades at once, or it waits in the queue.\<close>

definition executed :: "clock \<Rightarrow> string \<Rightarrow> StockClass \<Rightarrow> int \<Rightarrow> server \<Rightarrow> server \<Rightarrow> bool" where
  "executed clk t s n st st' = (\<exists>h. update_holdings (getDate clk) t n s (holdings st) = Inr h \<and>
     same_but_texts (st\<lparr>holdings := h\<rparr>) st')"

definition queued :: "clock \<Rightarrow> string \<Rightarrow> StockClass \<Rightarrow> fl \<Rightarrow> int \<Rightarrow> server \<Rightarrow> server \<Rightarrow> bool" where
  "queued clk t s price n st st' = (\<exists>st1. enqueue clk t s price n st = Inr st1 \<and> same_but_texts st1 st')"

definition buy_allowed :: "AccountClass \<Rightarrow> StockClass \<Rightarrow> fl \<Rightarrow> int \<Rightarrow> bool" where
  "buy_allowed a s price n = (mktPermission a (mkt s) \<and> 0 < n \<and> lot_error s n = None \<and>
     \<not> fl_less (balance a) (fl_mult Float (fl_of_int Float n) price) \<and> \<not> outside_band s price)"

definition sell_allowed :: "AccountClass \<Rightarrow> StockClass \<Rightarrow> fl \<Rightarrow> int \<Rightarrow> StockClass list \<Rightarrow> bool" where
  "sell_allowed a s price n h = (mktPermission a (mkt s) \<and> 0 < n \<and> n \<le> query_holdings s h \<and> \<not> outside_band s price)"

lemma lot_error_nonzero: "lot_error s n = Some c \<Longrightarrow> c \<noteq> 0"
  by (auto simp: lot_error_def split: if_splits)

lemma buyStock_cases:
  assumes "buyStock clk s price n st = Inr (ret, st')"
  obtains (rejected) "ret \<noteq> 0" "same_but_texts st st'"
  | (accepted) a where "ret = 0" "account st = Some a" "buy_allowed a s price n"
      "if fl_less (reference_price s) price then executed clk type_buy s n st st' else queued clk type_buy s price n st st'"
proof -
  from assms obtain a where a: "account st = Some a" by (auto simp: buyStock_def the_account_Inr)
  show thesis
  proof (cases "ret = 0")
    case False
    have "same_but_texts st st'"
      using assms False a
      by (auto simp: buyStock_def the_account_def cbind_Inr_iff dest: fail_with_Inr split: if_splits option.splits)
    with False show thesis by (rule rejected)
  next
    case True
    have c: "buy_allowed a s price n" "\<exists>st1. (if fl_less (reference_price s) price then execute clk type_buy s n st
        else enqueue clk type_buy s price n st) = Inr st1 \<and> same_but_texts st1 st'"
      using assms True a
      by (auto simp: buyStock_def the_account_def cbind_Inr_iff buy_allowed_def
          dest: fail_with_Inr set_logTxt_Inr lot_error_nonzero split: if_splits option.splits)
    then show thesis using True a
      by (intro accepted[of a]) (auto simp: executed_def queued_def execute_def cbind_Inr_iff split: if_splits)
  qed
qed

lemma sellStock_cases:
  assumes "sellStock clk s price n st = Inr (ret, st')"
  obtains (rejected) "ret \<noteq> 0" "same_but_texts st st'"
  | (accepted) a where "ret = 0" "account st = Some a" "sell_allowed a s price n (holdings st)"
      "if fl_less (reference_price s) price then queued clk type_sell s price n st st' else executed clk type_sell s n st st'"
proof -
  from assms obtain a where a: "account st = Some a" by (auto simp: sellStock_def the_account_Inr)
  show thesis
  proof (cases "ret = 0")
    case False
    have "same_but_texts st st'"
      using assms False a
      by (auto simp: sellStock_def the_account_def cbind_Inr_iff dest: fail_with_Inr split: if_splits)
    with False show thesis by (rule rejected)
  next
    case True
    have c: "sell_allowed a s price n (holdings st)" "\<exists>st1. (if fl_less (reference_price s) price
        then enqueue clk type_sell s price n st else execute clk type_sell s n st) = Inr st1 \<and> same_but_texts st1 st'"
      using assms True a
      by (auto simp: sellStock_def the_account_def cbind_Inr_iff sell_allowed_def
          dest: fail_with_Inr set_logTxt_Inr split: if_splits)
    then show thesis using True a
      by (intro accepted[of a]) (auto simp: executed_def queued_def execute_def cbind_Inr_iff split: if_splits)
  qed
qed

lemma executed_same: "same_but_texts a b \<Longrightarrow> executed clk t s n b c \<Longrightarrow> executed clk t s n a c"
  by (cases a; cases b; cases c) (auto simp: executed_def same_but_texts_def)

lemma queued_same: "same_but_texts a b \<Longrightarrow> queued clk t s p n b c \<Longrightarrow> queued clk t s p n a c"
  by (cases a; cases b; cases c) (auto simp: queued_def enqueue_def same_but_texts_def split: if_splits)

lemma buyStockbyCode_cases:
  assumes "buyStockbyCode clk code price n st = Inr (ret, st')"
  obtains (unknown) "ret = - 404" "quote_queryStockbyCode code (quote st) = None" "same_but_texts st st'"
  | (rejected) s where "ret = - 500" "quote_queryStockbyCode code (quote st) = Some s" "same_but_texts st st'"
  | (accepted) a s where "ret = 0" "account st = Some a" "quote_queryStockbyCode code (quote st) = Some s"
      "buy_allowed a s price n"
      "if fl_less (reference_price s) price then executed clk type_buy s n st st' else queued clk type_buy s price n st st'"
proof -
  from assms obtain r s st1 where q: "queryStockbyCode clk code StockClass0 st = Inr (r, s, st1)"
    and k: "(if r \<noteq> 0 then Inr (- 404, st1) else cbind (buyStock clk s price n st1)
       (\<lambda>(ret2, st2). if ret2 \<noteq> 0 then Inr (- 500, st2) else Inr (0, st2))) = Inr (ret, st')"
    by (auto simp: buyStockbyCode_def cbind_Inr_iff)
  note same = query_Inr(1)[OF q]
  show thesis
  proof (cases "r = 0")
    case False
    then show thesis using k same query_Inr(3)[OF q] by (intro unknown) auto
  next
    case True
    with k obtain r2 st2 where b: "buyStock clk s price n st1 = Inr (r2, st2)"
      and r2: "(if r2 \<noteq> 0 then Inr (- 500, st2) else Inr (0, st2)) = (Inr (ret, st') :: (int \<times> server) cres)"
      by (auto simp: cbind_Inr_iff)
    from b show thesis
    proof (cases rule: buyStock_cases)
      case rejected
      with r2 same that(2) query_Inr(2)[OF q True] show thesis by (auto intro: same_trans split: if_splits)
    next
      case (accepted a)
      then show thesis using r2 same query_Inr(2)[OF q True] same_fields[OF same]
        by (intro that(3)[of a s]) (auto intro: executed_same queued_same split: if_splits)
    qed
  qed
qed

lemma sellStockbyCode_cases:
  assumes "sellStockbyCode clk code price n st = Inr (ret, st')"
  obtains (unknown) "ret = - 404" "quote_queryStockbyCode code (quote st) = None" "same_but_texts st st'"
  | (rejected) s where "ret = - 600" "quote_queryStockbyCode code (quote st) = Some s" "same_but_texts st st'"
  | (accepted) a s where "ret = 0" "account st = Some a" "quote_queryStockbyCode code (quote st) = Some s"
      "sell_allowed a s price n (holdings st)"
      "if fl_less (reference_price s) price then queued clk type_sell s price n st st' else executed clk type_sell s n st st'"
proof -
  from assms obtain r s st1 where q: "queryStockbyCode clk code StockClass0 st = Inr (r, s, st1)"
    and k: "(if r \<noteq> 0 then Inr (- 404, st1) else cbind (sellStock clk s price n st1)
       (\<lambda>(ret2, st2). if ret2 \<noteq> 0 then Inr (- 600, st2) else Inr (0, st2))) = Inr (ret, st')"
    by (auto simp: sellStockbyCode_def cbind_Inr_iff)
  note same = query_Inr(1)[OF q]
  show thesis
  proof (cases "r = 0")
    case False
    then show thesis using k same query_Inr(3)[OF q] by (intro unknown) auto
  next
    case True
    with k obtain r2 st2 where b: "sellStock clk s price n st1 = Inr (r2, st2)"
      and r2: "(if r2 \<noteq> 0 then Inr (- 600, st2) else Inr (0, st2)) = (Inr (ret, st') :: (int \<times> server) cres)"
      by (auto simp: cbind_Inr_iff)
    from b show thesis
    proof (cases rule: sellStock_cases)
      case rejected
      with r2 same that(2) query_Inr(2)[OF q True] show thesis by (auto intro: same_trans split: if_splits)
    next
      case (accepted a)
      then show thesis using r2 same query_Inr(2)[OF q True] same_fields[OF same]
        by (intro that(3)[of a s]) (auto intro: executed_same queued_same split: if_splits)
    qed
  qed
qed

section \<open>The server as a state machine\<close>

datatype trade_request =
    Buy string fl int
  | Sell string fl int
  | Withdraw int
  | QueryCode string
  | QueryMkt string int

text \<open>One request at some time; the quantities are values of type \<open>int\<close>.\<close>

inductive trade_step :: "server \<Rightarrow> trade_request \<Rightarrow> int \<Rightarrow> server \<Rightarrow> bool" where
  step_buy: "buyStockbyCode clk code price n st = Inr (ret, st') \<Longrightarrow> INT_MIN \<le> n \<Longrightarrow> n \<le> INT_MAX \<Longrightarrow>
     trade_step st (Buy code price n) ret st'"
| step_sell: "sellStockbyCode clk code price n st = Inr (ret, st') \<Longrightarrow> INT_MIN \<le> n \<Longrightarrow> n \<le> INT_MAX \<Longrightarrow>
     trade_step st (Sell code price n) ret st'"
| step_withdraw: "withdrawOrder clk i st = Inr (ret, st') \<Longrightarrow> trade_step st (Withdraw i) ret st'"
| step_query: "queryStockbyCode clk code s0 st = Inr (ret, s, st') \<Longrightarrow> trade_step st (QueryCode code) ret st'"
| step_query_mkt: "queryStock clk code m s0 st = Inr (ret, s, st') \<Longrightarrow> trade_step st (QueryMkt code m) ret st'"

inductive_cases trade_stepE: "trade_step st r ret st'"
inductive_cases buy_stepE: "trade_step st (Buy code price n) ret st'"
inductive_cases sell_stepE: "trade_step st (Sell code price n) ret st'"

lemma queryStock_Inr: "queryStock clk code m s0 st = Inr (ret, s, st') \<Longrightarrow> same_but_texts st st'"
  using set_logTxt_Inr set_errorTxt_Inr
  by (auto simp: queryStock_def cbind_Inr_iff split: option.splits if_splits)

lemma withdrawOrder_Inr:
  assumes "withdrawOrder clk i st = Inr (ret, st')"
  obtains (ok) orders item where "ret = 0" "withdraw_loop i (order_list st) = Withdrawn orders item"
      "same_but_texts (st\<lparr>order_list := orders\<rparr>) st'"
  | (twice) "ret = - 701" "withdraw_loop i (order_list st) = AlreadyWithdrawn" "same_but_texts st st'"
  | (none) "ret = - 704" "withdraw_loop i (order_list st) = NoSuchOrder" "same_but_texts st st'"
  using assms
  by (auto simp: withdrawOrder_def cbind_Inr_iff dest: fail_with_Inr set_logTxt_Inr split: withdrawal.splits)

text \<open>Every accepted step falls in one of four effects on the state.\<close>

lemma trade_step_effect:
  assumes "trade_step st r ret st'"
  obtains (texts) "same_but_texts st st'"
  | (trade) clk t s n where "0 < n" "n \<le> INT_MAX" "executed clk t s n st st'" "t = type_buy \<or> t = type_sell \<and> n \<le> query_holdings s (holdings st)"
  | (queue) clk t s price n where "0 < n" "n \<le> INT_MAX" "queued clk t s price n st st'" "t = type_buy \<or> t = type_sell"
  | (withdraw) i orders item where "withdraw_loop i (order_list st) = Withdrawn orders item" "same_but_texts (st\<lparr>order_list := orders\<rparr>) st'"
  using assms
proof (cases rule: trade_step.cases)
  case (step_buy clk code price n)
  from step_buy(2) show thesis
    by (cases rule: buyStockbyCode_cases) (use step_buy(3,4) in \<open>auto simp: buy_allowed_def intro: that split: if_splits\<close>)
next
  case (step_sell clk code price n)
  from step_sell(2) show thesis
    by (cases rule: sellStockbyCode_cases) (use step_sell(3,4) in \<open>auto simp: sell_allowed_def intro: that split: if_splits\<close>)
next
  case (step_withdraw clk i)
  from step_withdraw(2) show thesis by (cases rule: withdrawOrder_Inr) (auto intro: that)
qed (auto intro: texts dest: query_Inr(1) queryStock_Inr)

section \<open>Invariants of the server\<close>

text \<open>
  Orders are numbered 1, 2, ... in the order of the queue and are never removed; each is a
  purchase or a sale of a positive number of shares, waiting or withdrawn; no stock is held
  under two entries and no position is negative.
\<close>

definition order_ok :: "OrderClass \<Rightarrow> bool" where
  "order_ok x = (o_status x \<in> {status_queued, status_withdrawn} \<and> o_order_type x \<in> {type_buy, type_sell} \<and> 0 < atoi (o_qty x))"

definition positions_nonneg :: "StockClass list \<Rightarrow> bool" where
  "positions_nonneg h = (\<forall>c q. position h c = Some q \<longrightarrow> 0 \<le> q)"

definition trading_inv :: "server \<Rightarrow> bool" where
  "trading_inv st = (1 \<le> order_id st \<and> map o_order_id (order_list st) = [1..order_id st - 1] \<and>
     (\<forall>x \<in> set (order_list st). order_ok x) \<and> codes_distinct (holdings st) \<and> positions_nonneg (holdings st))"

lemma withdraw_loop_orders:
  "withdraw_loop i os = Withdrawn os' item \<Longrightarrow>
     map o_order_id os' = map o_order_id os \<and> ((\<forall>x \<in> set os. order_ok x) \<longrightarrow> (\<forall>x \<in> set os'. order_ok x))"
proof (induction os arbitrary: os')
  case (Cons x xs)
  show ?case
  proof (cases "o_order_id x = i")
    case True
    then have "os' = x\<lparr>o_status := status_withdrawn\<rparr> # xs" using Cons.prems by (auto split: if_splits)
    then show ?thesis by (simp add: order_ok_def)
  next
    case False
    with Cons.prems obtain xs' where "withdraw_loop i xs = Withdrawn xs' item" "os' = x # xs'"
      by (auto split: withdrawal.splits)
    then show ?thesis using Cons.IH[of xs'] by simp
  qed
qed simp

lemma executed_inv:
  assumes "executed clk t s n st st'" "0 < n" "n \<le> INT_MAX" "trading_inv st"
    "t = type_buy \<or> t = type_sell \<and> n \<le> query_holdings s (holdings st)"
  shows "trading_inv st'"
proof -
  from assms(1) obtain h where h: "update_holdings (getDate clk) t n s (holdings st) = Inr h"
    "same_but_texts (st\<lparr>holdings := h\<rparr>) st'" by (auto simp: executed_def)
  have d: "codes_distinct (holdings st)" "positions_nonneg (holdings st)"
    using assms(4) by (auto simp: trading_inv_def)
  have "INT_MIN \<le> n" using assms(2) by (simp add: limit_defs)
  note p = update_holdings_position[OF d(1) h(1) this assms(3)]
  have "positions_nonneg h"
    using d(2) assms(2) by (fastforce simp: positions_nonneg_def p split: if_splits option.splits)
  then show ?thesis using assms(4) same_fields[OF h(2)] update_holdings_inv[OF d(1) h(1)]
    by (simp add: trading_inv_def)
qed

lemma queued_inv:
  assumes "queued clk t s price n st st'" "0 < n" "n \<le> INT_MAX" "trading_inv st" "t = type_buy \<or> t = type_sell"
  shows "trading_inv st'"
proof -
  from assms(1) obtain st1 where st1: "enqueue clk t s price n st = Inr st1" "same_but_texts st1 st'"
    by (auto simp: queued_def)
  have i: "1 \<le> order_id st" using assms(4) by (simp add: trading_inv_def)
  have "[1..order_id st] = [1..order_id st - 1] @ [order_id st]"
    using i upto_rec2[of 1 "order_id st"] by simp
  moreover have "atoi (int_to_string n) = n" using assms(2,3) by (intro atoi_int_to_string) (auto simp: limit_defs)
  ultimately have "trading_inv st1"
    using st1(1) assms by (auto simp: enqueue_def trading_inv_def order_ok_def split: if_splits)
  then show ?thesis using same_fields[OF st1(2)] by (simp add: trading_inv_def)
qed

lemma trade_step_inv: "trading_inv st \<Longrightarrow> trade_step st r ret st' \<Longrightarrow> trading_inv st'"
proof (erule trade_step_effect)
  assume "trading_inv st" "same_but_texts st st'"
  then show ?thesis using same_fields[of st st'] by (simp add: trading_inv_def)
next
  fix i orders item
  assume "trading_inv st" "withdraw_loop i (order_list st) = Withdrawn orders item" "same_but_texts (st\<lparr>order_list := orders\<rparr>) st'"
  then show ?thesis using withdraw_loop_orders[of i "order_list st" orders item] same_fields[of "st\<lparr>order_list := orders\<rparr>" st']
    by (simp add: trading_inv_def)
qed (auto intro: executed_inv queued_inv)

interpretation trading: step_invariant trade_step trading_inv
  by unfold_locales (rule trade_step_inv)

text \<open>How an order may evolve: nothing but its status ever changes, and only to withdrawn.\<close>

definition order_evolves :: "OrderClass \<Rightarrow> OrderClass \<Rightarrow> bool" where
  "order_evolves x y = (y = x \<or> y = x\<lparr>o_status := status_withdrawn\<rparr>)"

definition state_evolves :: "server \<Rightarrow> server \<Rightarrow> bool" where
  "state_evolves st st' = (account st' = account st \<and> quote st' = quote st \<and>
     length (order_list st) \<le> length (order_list st') \<and>
     (\<forall>i < length (order_list st). order_evolves (order_list st ! i) (order_list st' ! i)))"

lemma order_evolves_simps [simp]: "order_evolves x x" "order_evolves x y \<Longrightarrow> order_evolves y z \<Longrightarrow> order_evolves x z"
  by (auto simp: order_evolves_def)

lemma withdraw_loop_evolves:
  "withdraw_loop i os = Withdrawn os' item \<Longrightarrow>
     length os' = length os \<and> (\<forall>j < length os. order_evolves (os ! j) (os' ! j))"
proof (induction os arbitrary: os')
  case (Cons x xs)
  then show ?case
    by (auto simp: order_evolves_def less_Suc_eq_0_disj split: if_splits withdrawal.splits)
qed simp

lemma trade_step_evolves: "trade_step st r ret st' \<Longrightarrow> state_evolves st st'"
proof (erule trade_step_effect)
  assume "same_but_texts st st'"
  then show ?thesis using same_fields[of st st'] by (simp add: state_evolves_def)
next
  fix clk t s n assume "executed clk t s n st st'"
  then show ?thesis using same_fields by (fastforce simp: executed_def state_evolves_def)
next
  fix clk t s price n assume "queued clk t s price n st st'"
  then obtain st1 where "enqueue clk t s price n st = Inr st1" "same_but_texts st1 st'" by (auto simp: queued_def)
  then show ?thesis using same_fields[of st1 st']
    by (auto simp: enqueue_def state_evolves_def nth_append split: if_splits)
next
  fix i orders item
  assume "withdraw_loop i (order_list st) = Withdrawn orders item" "same_but_texts (st\<lparr>order_list := orders\<rparr>) st'"
  then show ?thesis using withdraw_loop_evolves[of i "order_list st" orders item] same_fields[of "st\<lparr>order_list := orders\<rparr>" st']
    by (simp add: state_evolves_def)
qed

lemma state_evolves_trans:
  assumes "state_evolves a b" "state_evolves b c"
  shows "state_evolves a c"
proof -
  have "order_evolves (order_list a ! i) (order_list c ! i)" if "i < length (order_list a)" for i
  proof (rule order_evolves_simps(2))
    show "order_evolves (order_list a ! i) (order_list b ! i)" using assms(1) that by (simp add: state_evolves_def)
    show "order_evolves (order_list b ! i) (order_list c ! i)" using assms that by (simp add: state_evolves_def)
  qed
  then show ?thesis using assms by (simp add: state_evolves_def)
qed

lemma state_evolves_refl: "state_evolves st st"
  by (simp add: state_evolves_def)

interpretation evolution: step_preorder trade_step state_evolves
  by unfold_locales (rule state_evolves_refl, erule state_evolves_trans, assumption, rule trade_step_evolves)

section \<open>Prices\<close>

lemma fl_not_less: "x \<noteq> NaN \<Longrightarrow> y \<noteq> NaN \<Longrightarrow> \<not> fl_less y x \<Longrightarrow> fl_le x y"
  by (cases x; cases y) (auto simp: Let_def min.commute)


lemma price_window_empty: "\<not> (fl_less price (dconst 1 100) \<and> fl_less (fl_of_int Double 500) price)"
proof -
  have c: "dconst 1 100 = Fin False 5764607523034235 (- 59)" "fl_of_int Double 500 = Fin False 8796093022208000 (- 44)"
    by code_simp+
  show ?thesis
  proof (cases price)
    case (Fin s n k)
    have "fl_rat (dconst 1 100) < fl_rat (fl_of_int Double 500)" unfolding c by (subst fl_less_rat[symmetric]) code_simp
    then show ?thesis using Fin fl_less_rat[of s n k] fl_less_rat[of _ _ _ s n k] c by force
  qed (auto simp: c)
qed

end
