(* ===== verification/TradingProps.thy ===== *)
theory TradingProps
  imports Trading
begin

text \<open>
  The properties of the trading core: the ledger of shares and the numbering of orders over
  runs of the server, when orders are accepted, what a withdrawal does, and the defects the
  model shows. A small concrete server serves the witnesses.
\<close>

section \<open>Ledger and queue\<close>

definition shares_held :: "StockClass list \<Rightarrow> string \<Rightarrow> int" where
  "shares_held h c = (case position h c of None \<Rightarrow> 0 | Some q \<Rightarrow> q)"

text \<open>What an answered request moved: accepted purchases above and accepted sales at or below the
  reference price trade at once, everything else moves no shares.\<close>

definition traded :: "StockClass list \<Rightarrow> string \<Rightarrow> trade_request \<times> int \<Rightarrow> int" where
  "traded q c rz =
     (case rz of
        (Buy code price n, ret) \<Rightarrow>
          (case quote_queryStockbyCode code q of
             Some s \<Rightarrow> if ret = 0 \<and> fl_less (reference_price s) price \<and> stock_code s = c then n else 0
           | None \<Rightarrow> 0)
      | (Sell code price n, ret) \<Rightarrow>
          (case quote_queryStockbyCode code q of
             Some s \<Rightarrow> if ret = 0 \<and> \<not> fl_less (reference_price s) price \<and> stock_code s = c then - n else 0
           | None \<Rightarrow> 0)
      | _ \<Rightarrow> 0)"

lemma shares_held_book: "shares_held h c = book.shares h c"
  by (simp add: shares_held_def book.shares_def)

lemma executed_shares:
  assumes "executed clk t s n st st'" "codes_distinct (holdings st)" "0 < n" "n \<le> INT_MAX"
    "t = type_buy \<or> t = type_sell \<and> n \<le> query_holdings s (holdings st)"
  shows "shares_held (holdings st') c = shares_held (holdings st) c +
     (if c = stock_code s then (if t = type_buy then n else - n) else 0)"
proof -
  from assms(1) obtain h where h: "update_holdings (getDate clk) t n s (holdings st) = Inr h"
    "same_but_texts (st\<lparr>holdings := h\<rparr>) st'" by (auto simp: executed_def)
  have e: "holdings st' = h" using same_fields[OF h(2)] by simp
  have r: "INT_MIN \<le> n" using assms(3) by (simp add: limit_defs)
  from assms(5) show ?thesis
  proof
    assume "t = type_buy"
    then show ?thesis using book.buy_shares[OF assms(2), of "getDate clk" n s h c] h(1) r assms(4) e
      by (simp add: shares_held_book)
  next
    assume t: "t = type_sell \<and> n \<le> query_holdings s (holdings st)"
    then obtain q where q: "position (holdings st) (stock_code s) = Some q" "n \<le> q"
      using assms(3) by (auto simp: query_holdings_position split: option.splits)
    show ?thesis using book.sell_shares[OF assms(2), of "getDate clk" n s h q c] h(1) r assms(4) e t q buy_not_sell
      by (simp add: shares_held_book)
  qed
qed

lemma trade_step_ledger:
  assumes "trading_inv st" "trade_step st r ret st'"
  shows "shares_held (holdings st') c = shares_held (holdings st) c + traded (quote st) c (r, ret)"
proof -
  have d: "codes_distinct (holdings st)" using assms(1) by (simp add: trading_inv_def)
  have same: "shares_held (holdings st') c = shares_held (holdings st) c"
    if "same_but_texts x st'" "holdings x = holdings st" for x using same_fields[OF that(1)] that(2) by simp
  have queue: "shares_held (holdings st') c = shares_held (holdings st) c" if "queued clk t s p n st st'" for clk t s p n
    using that same by (auto simp: queued_def enqueue_def split: if_splits)
  from assms(2) show ?thesis
  proof (cases rule: trade_step.cases)
    case (step_buy clk code price n)
    from step_buy(2) show ?thesis
    proof (cases rule: buyStockbyCode_cases)
      case (accepted a s)
      then show ?thesis using step_buy(1,3,4) queue executed_shares[OF _ d, of clk type_buy s n st' c]
        by (auto simp: traded_def buy_allowed_def split: if_splits)
    qed (use step_buy(1) same in \<open>auto simp: traded_def split: option.splits\<close>)
  next
    case (step_sell clk code price n)
    from step_sell(2) show ?thesis
    proof (cases rule: sellStockbyCode_cases)
      case (accepted a s)
      then show ?thesis using step_sell(1,3,4) queue executed_shares[OF _ d, of clk type_sell s n st' c] buy_not_sell
        by (auto simp: traded_def sell_allowed_def split: if_splits)
    qed (use step_sell(1) same in \<open>auto simp: traded_def split: option.splits\<close>)
  next
    case (step_withdraw clk i)
    from step_withdraw(2) show ?thesis
      by (cases rule: withdrawOrder_Inr) (use step_withdraw(1) same in \<open>auto simp: traded_def\<close>)
  qed (use same in \<open>auto simp: traded_def dest: query_Inr(1) queryStock_Inr\<close>)
qed

lemma ledger_run:
  "reaches trade_step st0 tr st \<Longrightarrow> trading_inv st0 \<Longrightarrow>
     shares_held (holdings st) c = shares_held (holdings st0) c + sum_list (map (traded (quote st0) c) tr)"
proof (induction rule: reaches.induct)
  case (reaches_step s tr s' r z s'')
  have "trading_inv s'" using trading.reaches_inv reaches_step by blast
  moreover have "quote s' = quote s" using evolution.reaches_rel reaches_step by (auto simp: state_evolves_def)
  ultimately show ?case using trade_step_ledger[of s' r z s'' c] reaches_step by simp
qed simp

lemma initial_inv:
  assumes "initial a q h = Inr (0, st0)" "codes_distinct (holdings st0)" "positions_nonneg (holdings st0)"
  shows "trading_inv st0"
  using assms by (auto simp: initial_def trading_inv_def Let_def cbind_Inr_iff split: option.splits dest: fail_with_Inr)

text \<open>The withdrawal loop finds the order by its number.\<close>

lemma withdraw_loop_at:
  assumes "map o_order_id os = [a..b]"
  shows "withdraw_loop i os =
     (if a \<le> i \<and> i \<le> b then
        (let x = os ! nat (i - a)
         in if o_status x = status_withdrawn then AlreadyWithdrawn
            else Withdrawn (os[nat (i - a) := x\<lparr>o_status := status_withdrawn\<rparr>]) x)
      else NoSuchOrder)"
  using assms
proof (induction os arbitrary: a)
  case Nil
  then show ?case by (auto simp: upto_Nil)
next
  case (Cons x xs)
  have ab: "a \<le> b" using Cons.prems by (cases "a \<le> b") auto
  have x: "o_order_id x = a" and xs: "map o_order_id xs = [a + 1..b]"
    using Cons.prems upto_rec1[OF ab] by auto
  show ?case
  proof (cases "i = a")
    case True
    then show ?thesis using x ab by simp
  next
    case False
    have e: "nat (i - a) = Suc (nat (i - (a + 1)))" if "a < i" using that by simp
    show ?thesis using Cons.IH[OF xs] False x e by (auto simp: Let_def)
  qed
qed

section \<open>A concrete server\<close>

definition sample_clock :: clock where
  "sample_clock = \<lparr>getDate = ''2023-05-04'', getDateTimeString = ''2023-05-04 10:00:00''\<rparr>"

definition sample_acct_csv :: string where
  "sample_acct_csv = file_of [''1,0001,Zhang,3701,JK,95566,FT,yes,yes,yes,yes,yes,yes,yes,100000000'']"

definition sample_quote_csv :: string where
  "sample_quote_csv = file_of [join (CHR '','') sample_row]"

definition sample_holdings_csv :: string where
  "sample_holdings_csv = file_of [''2023-05-05,600028,SINOPEC,'' @ name_SHA @ '',6.57,12000,78840'']"

definition sample_account :: AccountClass where
  "sample_account = \<lparr>acct_id = ''1'', bank_acct = ''0001'', cust_name = ''Zhang'', cust_id = ''3701'', branch = ''JK'',
     tel = ''95566'', address = ''FT'', mkt_SHA = True, mkt_SHB = True, mkt_SZA = True, mkt_SZB = True,
     mkt_GEM = True, mkt_STAR = True, mkt_SME = True, balance = atof ''100000000''\<rparr>"

definition sample_holding :: StockClass where
  "sample_holding = \<lparr>trade_date = ''2023-05-05'', stock_code = ''600028'', stock_name = ''SINOPEC'', mkt = name_SHA,
     yesterday_price = ''6.57'', open_price = '' '', high_price = '' '', low_price = '' '', close_price = '' '',
     increase_rate = '' '', qty = ''12000'', amount = ''78840'', per = '' ''\<rparr>"

definition sample_server :: server where
  "sample_server = \<lparr>account = Some sample_account, quote = [quote_of sample_row], holdings = [sample_holding],
     order_list = [], order_id = 1, errorTxt = [], logTxt = [], success_log = []\<rparr>"

lemma sample_initial:
  "initial (Some sample_acct_csv) (Some sample_quote_csv) (Some sample_holdings_csv) = Inr (0, sample_server)"
  by code_simp

definition bid :: fl where "bid = to_float (dconst 66 10)"
definition low_bid :: fl where "low_bid = to_float (dconst 6 1)"

definition state_of :: "(int \<times> server) cres \<Rightarrow> server" where
  "state_of r = (case r of Inr (_, st) \<Rightarrow> st | Inl _ \<Rightarrow> sample_server)"

definition after_buy :: server where
  "after_buy = state_of (buyStockbyCode sample_clock ''600028'' bid 1000 sample_server)"

definition after_order :: server where
  "after_order = state_of (buyStockbyCode sample_clock ''600028'' low_bid 1000 sample_server)"

definition after_sale :: server where
  "after_sale = state_of (sellStockbyCode sample_clock ''600028'' low_bid 5000 sample_server)"

lemma sample_buy: "buyStockbyCode sample_clock ''600028'' bid 1000 sample_server = Inr (0, after_buy)"
  by code_simp

lemma sample_order: "buyStockbyCode sample_clock ''600028'' low_bid 1000 sample_server = Inr (0, after_order)"
  by code_simp

lemma sample_sale: "sellStockbyCode sample_clock ''600028'' low_bid 5000 sample_server = Inr (0, after_sale)"
  by code_simp

lemma sample_ok: "codes_distinct (holdings sample_server)" "positions_nonneg (holdings sample_server)"
  "trading_inv sample_server"
proof -
  have p: "position (holdings sample_server) c = (if c = ''600028'' then Some 12000 else None)" for c
  proof -
    have "atoi ''12000'' = 12000" by code_simp
    then show ?thesis by (simp add: sample_server_def sample_holding_def)
  qed
  show a: "codes_distinct (holdings sample_server)" by code_simp
  show b: "positions_nonneg (holdings sample_server)" by (simp add: positions_nonneg_def p)
  show "trading_inv sample_server" by (rule initial_inv[OF sample_initial a b])
qed

lemma sample_runs:
  "reaches trade_step sample_server [(Buy ''600028'' bid 1000, 0)] after_buy"
  "reaches trade_step sample_server [(Buy ''600028'' low_bid 1000, 0)] after_order"
proof -
  have s: "trade_step sample_server (Buy ''600028'' bid 1000) 0 after_buy"
    "trade_step sample_server (Buy ''600028'' low_bid 1000) 0 after_order"
    using step_buy[OF sample_buy] step_buy[OF sample_order] by (simp_all add: limit_defs)
  show "reaches trade_step sample_server [(Buy ''600028'' bid 1000, 0)] after_buy"
    "reaches trade_step sample_server [(Buy ''600028'' low_bid 1000, 0)] after_order"
    using reaches_step[where step = trade_step, OF reaches_start s(1)]
      reaches_step[where step = trade_step, OF reaches_start s(2)] by (simp_all only: append_Nil)
qed

section \<open>Properties\<close>

text \<open>C1: in every state the server can reach after a successful start the orders are
  numbered 1, 2, ... without gaps and below the next number, each is a well-formed purchase
  or sale, waiting or withdrawn, the holdings list no stock twice and no position is
  negative. \<open>initial\<close> does not check the file of holdings: that the holdings it loads list no
  stock twice and no negative position is a hypothesis.\<close>

theorem trading_invariant:
  assumes "initial a q h = Inr (0, st0)" "codes_distinct (holdings st0)" "positions_nonneg (holdings st0)"
    and "reaches trade_step st0 tr st"
  shows "trading_inv st"
  by (rule trading.reaches_inv[OF assms(4) initial_inv[OF assms(1-3)]])

theorem trading_invariant_witness: "trading_inv after_order"
  by (rule trading_invariant[OF sample_initial sample_ok(1,2) sample_runs(2)])

text \<open>C2: the ledger. Over any sequence of requests the shares held of every stock change by
  exactly the purchases and sales the server answered with 0 and priced to trade at once;
  queued orders, withdrawals, queries and rejected requests move no shares. The first state
  satisfies the invariant, as every state reached from a good start does.\<close>

theorem shares_ledger:
  assumes "trading_inv st0" "reaches trade_step st0 tr st"
  shows "shares_held (holdings st) c = shares_held (holdings st0) c + sum_list (map (traded (quote st0) c) tr)"
  by (rule ledger_run[OF assms(2,1)])

theorem shares_ledger_witness:
  "shares_held (holdings after_buy) ''600028'' = shares_held (holdings sample_server) ''600028''
     + sum_list (map (traded (quote sample_server) ''600028'') [(Buy ''600028'' bid 1000, 0)])
   \<and> sum_list (map (traded (quote sample_server) ''600028'') [(Buy ''600028'' bid 1000, 0)]) = 1000"
proof -
  have "sum_list (map (traded (quote sample_server) ''600028'') [(Buy ''600028'' bid 1000, 0)]) = 1000" by code_simp
  with shares_ledger[OF sample_ok(3) sample_runs(1), of "''600028''"] show ?thesis by blast
qed

text \<open>C31: history. Whatever requests follow, the account (its balance included) and the
  quotations stay as they are, no order is removed, and of an order nothing ever changes but
  its status, and that only to withdrawn. In particular an accepted purchase never debits the
  account.\<close>

theorem history_preserved:
  assumes "reaches trade_step st0 tr st"
  shows "account st = account st0 \<and> quote st = quote st0 \<and> length (order_list st0) \<le> length (order_list st) \<and>
    (\<forall>i < length (order_list st0). order_list st ! i = order_list st0 ! i \<or>
       order_list st ! i = (order_list st0 ! i)\<lparr>o_status := status_withdrawn\<rparr>)"
  using evolution.reaches_rel[OF assms] by (simp add: state_evolves_def order_evolves_def)

theorem history_preserved_witness: "account after_buy = account sample_server \<and> holdings after_buy \<noteq> holdings sample_server"
proof -
  have "holdings after_buy \<noteq> holdings sample_server" by code_simp
  with history_preserved[OF sample_runs(1)] show ?thesis by blast
qed

text \<open>C30: a request the server does not answer with 0 changes no account, quotation, holding
  or order, only the message buffers.\<close>

theorem rejected_unchanged:
  assumes "trade_step st r ret st'" "ret \<noteq> 0"
  shows "account st' = account st \<and> quote st' = quote st \<and> holdings st' = holdings st \<and>
    order_list st' = order_list st \<and> order_id st' = order_id st"
proof -
  have "same_but_texts st st'"
    using assms(1)
  proof (cases rule: trade_step.cases)
    case (step_buy clk code price n)
    from step_buy(2) show ?thesis by (cases rule: buyStockbyCode_cases) (use assms(2) in auto)
  next
    case (step_sell clk code price n)
    from step_sell(2) show ?thesis by (cases rule: sellStockbyCode_cases) (use assms(2) in auto)
  next
    case (step_withdraw clk i)
    from step_withdraw(2) show ?thesis by (cases rule: withdrawOrder_Inr) (use assms(2) in auto)
  qed (auto dest: query_Inr(1) queryStock_Inr)
  then show ?thesis using same_fields by blast
qed

theorem rejected_unchanged_witness:
  "\<exists>st'. trade_step sample_server (Buy ''600028'' bid 999) (- 500) st' \<and> holdings st' = holdings sample_server"
proof -
  have "buyStockbyCode sample_clock ''600028'' bid 999 sample_server
      = Inr (- 500, state_of (buyStockbyCode sample_clock ''600028'' bid 999 sample_server))" by code_simp
  from step_buy[OF this] have s: "trade_step sample_server (Buy ''600028'' bid 999) (- 500)
      (state_of (buyStockbyCode sample_clock ''600028'' bid 999 sample_server))" by (simp add: limit_defs)
  then show ?thesis using rejected_unchanged[OF s] by auto
qed

text \<open>C11: when a purchase is accepted. A purchase that the server answers at all is answered
  with 0 exactly if the code is quoted, the account is admitted to the stock's market, the
  quantity is positive and a multiple of the market's lot, the balance covers the cost and the
  price lies in the band of ten per cent; the answer is -404 exactly if the code is not quoted.\<close>

theorem buy_accepted_iff:
  assumes "buyStockbyCode clk code price n st = Inr (ret, st')"
  shows "(ret = 0 \<longleftrightarrow> (\<exists>a s. account st = Some a \<and> quote_queryStockbyCode code (quote st) = Some s \<and> buy_allowed a s price n))
    \<and> (ret = - 404 \<longleftrightarrow> quote_queryStockbyCode code (quote st) = None)"
  using assms
proof (cases rule: buyStockbyCode_cases)
  case (rejected s)
  then show ?thesis using assms price_window_empty[of price]
    by (auto simp: buyStockbyCode_def queryStockbyCode_def buyStock_def buy_allowed_def the_account_def set_logTxt_def
        cbind_Inr_iff split: if_splits option.splits)
qed auto

theorem buy_accepted_iff_witness:
  "buyStockbyCode sample_clock ''600028'' bid 1000 sample_server = Inr (0, after_buy) \<and>
   (\<exists>a s. account sample_server = Some a \<and> quote_queryStockbyCode ''600028'' (quote sample_server) = Some s \<and> buy_allowed a s bid 1000)"
  using buy_accepted_iff[OF sample_buy] sample_buy by simp

text \<open>C12: when a sale is accepted, likewise: the code is quoted, the account is admitted to
  the market, the quantity is positive and covered by the position, and the price lies in the
  band.\<close>

theorem sell_accepted_iff:
  assumes "sellStockbyCode clk code price n st = Inr (ret, st')"
  shows "(ret = 0 \<longleftrightarrow> (\<exists>a s. account st = Some a \<and> quote_queryStockbyCode code (quote st) = Some s \<and>
        sell_allowed a s price n (holdings st)))
    \<and> (ret = - 404 \<longleftrightarrow> quote_queryStockbyCode code (quote st) = None)"
  using assms
proof (cases rule: sellStockbyCode_cases)
  case (rejected s)
  then show ?thesis using assms
    by (auto simp: sellStockbyCode_def queryStockbyCode_def sellStock_def sell_allowed_def the_account_def set_logTxt_def
        cbind_Inr_iff split: if_splits option.splits)
qed auto

theorem sell_accepted_iff_witness:
  "\<exists>a s. account sample_server = Some a \<and> quote_queryStockbyCode ''600028'' (quote sample_server) = Some s \<and>
     sell_allowed a s low_bid 5000 (holdings sample_server)"
  using sell_accepted_iff[OF sample_sale] by simp

text \<open>C16: withdrawal. With orders numbered as the server numbers them, \<open>withdrawOrder\<close>
  answers 0 for an order that is not withdrawn yet and marks exactly that order; it answers
  -701 for one withdrawn before and -704 for a number never given out, changing nothing.\<close>

theorem withdraw_effect:
  assumes "trading_inv st" "withdrawOrder clk i st = Inr (ret, st')"
  shows "if 1 \<le> i \<and> i < order_id st then
       (let x = order_list st ! nat (i - 1)
        in if o_status x = status_withdrawn then ret = - 701 \<and> order_list st' = order_list st
           else ret = 0 \<and> order_list st' = (order_list st)[nat (i - 1) := x\<lparr>o_status := status_withdrawn\<rparr>])
     else ret = - 704 \<and> order_list st' = order_list st"
proof -
  have m: "map o_order_id (order_list st) = [1..order_id st - 1]" using assms(1) by (simp add: trading_inv_def)
  note w = withdraw_loop_at[OF m, of i]
  from assms(2) show ?thesis
    by (cases rule: withdrawOrder_Inr) (use w same_fields in \<open>fastforce simp: Let_def split: if_splits\<close>)+
qed

theorem withdraw_effect_witness:
  "trading_inv after_order \<and> withdrawOrder sample_clock 1 after_order = Inr (0, state_of (withdrawOrder sample_clock 1 after_order))
   \<and> order_list (state_of (withdrawOrder sample_clock 1 after_order))
     = (order_list after_order)[0 := (order_list after_order ! 0)\<lparr>o_status := status_withdrawn\<rparr>]"
proof -
  have r: "withdrawOrder sample_clock 1 after_order = Inr (0, state_of (withdrawOrder sample_clock 1 after_order))" by code_simp
  have i: "trading_inv after_order" by (rule trading.reaches_inv[OF sample_runs(2) sample_ok(3)])
  have c: "1 < order_id after_order" "o_status (order_list after_order ! 0) \<noteq> status_withdrawn" by code_simp+
  show ?thesis using withdraw_effect[OF i r] r i c by (simp add: Let_def)
qed

lemma cstr_markets:
  "cstr name_SHA = name_SHA" "cstr name_SHB = name_SHB" "cstr name_SZA = name_SZA" "cstr name_SZB = name_SZB"
  "cstr name_GEM = name_GEM" "cstr name_STAR = name_STAR" "cstr name_SME = name_SME"
  by code_simp+

lemma markets_distinct: "distinct [name_SHA, name_SHB, name_SZA, name_SZB, name_GEM, name_STAR, name_SME]"
  by code_simp

lemma lot_error_codes: "lot_error s n = Some c \<Longrightarrow> - 509 \<le> c \<and> c \<le> - 503"
  by (simp add: lot_error_def split: if_splits)

text \<open>The lot of each market.\<close>

definition lot_table :: "(string \<times> int) list" where
  "lot_table = [(name_SHA, 1000), (name_SHB, 200), (name_SZA, 500), (name_SZB, 300), (name_GEM, 600),
     (name_STAR, 700), (name_SME, 800)]"

lemma permission_market: "mktPermission a m \<Longrightarrow> cstr m \<in> fst ` set lot_table"
  by (simp add: mktPermission_def str_eq_def lot_table_def cstr_markets split: if_splits)

lemma lot_error_None:
  assumes "lot_error s n = None" "(cstr (mkt s), k) \<in> set lot_table"
  shows "k dvd n"
proof -
  have z: "c_rem n k = 0" if "(cstr (mkt s), k) = row" "row \<in> set lot_table" for row
    using that(2) that(1)[symmetric] assms(1) markets_distinct unfolding lot_table_def
    by (simp only: list.set insert_iff empty_iff simp_thms, elim disjE)
       (simp_all add: lot_error_def str_eq_def cstr_markets split: if_splits)
  have "0 < k" using assms(2) by (simp add: lot_table_def) auto
  then show ?thesis using z[OF refl assms(2)] c_rem_0_iff by blast
qed

text \<open>Lot sizes. An accepted purchase is in one of the seven markets and its quantity is
  a multiple of that market's lot.\<close>

theorem buy_in_lots:
  assumes "buyStockbyCode clk code price n st = Inr (0, st')"
  shows "\<exists>s k. quote_queryStockbyCode code (quote st) = Some s \<and> (cstr (mkt s), k) \<in> set lot_table \<and> k dvd n"
  using assms
proof (cases rule: buyStockbyCode_cases)
  case (accepted a s)
  then have "mktPermission a (mkt s)" "lot_error s n = None" by (simp_all add: buy_allowed_def)
  then show ?thesis using permission_market[of a "mkt s"] lot_error_None[of s n] accepted(3) by force
qed simp_all

theorem buy_in_lots_witness:
  "\<exists>s k. quote_queryStockbyCode ''600028'' (quote sample_server) = Some s \<and> (cstr (mkt s), k) \<in> set lot_table \<and> k dvd 1000"
  by (rule buy_in_lots[OF sample_buy])

lemma fl_mult_Fin_not_NaN: "fl_mult f (Fin s n k) (Fin t m j) \<noteq> NaN"
  by (simp add: fl_round_dyadic_def fl_make_not_NaN)

text \<open>C36: the price band. For a stock whose closing price is a finite number, an accepted
  order, purchase or sale, has a price between 0.9 and 1.1 times the reference price (as the
  machine computes these products), unless the price is NaN.\<close>

theorem price_in_band:
  assumes "buyStockbyCode clk code price n st = Inr (0, st') \<or> sellStockbyCode clk code price n st = Inr (0, st')"
    "quote_queryStockbyCode code (quote st) = Some s" "reference_price s = Fin g m k" "price \<noteq> NaN"
  shows "fl_le (fl_mult Double (reference_price s) (dconst 90 100)) price \<and>
     fl_le price (fl_mult Double (reference_price s) (dconst 11 10))"
proof -
  have "\<not> outside_band s price"
    using assms(1)
  proof
    assume "buyStockbyCode clk code price n st = Inr (0, st')"
    then show ?thesis by (cases rule: buyStockbyCode_cases) (use assms(2) in \<open>auto simp: buy_allowed_def\<close>)
  next
    assume "sellStockbyCode clk code price n st = Inr (0, st')"
    then show ?thesis by (cases rule: sellStockbyCode_cases) (use assms(2) in \<open>auto simp: sell_allowed_def\<close>)
  qed
  moreover have "\<exists>t m j. dconst 90 100 = Fin t m j" "\<exists>t m j. dconst 11 10 = Fin t m j"
  proof -
    have "dconst 90 100 = Fin False 8106479329266893 (- 53)" "dconst 11 10 = Fin False 4953959590107546 (- 52)"
      by code_simp+
    then show "\<exists>t m j. dconst 90 100 = Fin t m j" "\<exists>t m j. dconst 11 10 = Fin t m j" by blast+
  qed
  then have "fl_mult Double (reference_price s) (dconst 90 100) \<noteq> NaN"
    "fl_mult Double (reference_price s) (dconst 11 10) \<noteq> NaN"
    using assms(3) fl_mult_Fin_not_NaN by metis+
  ultimately show ?thesis using assms(4) by (simp add: outside_band_def fl_not_less)
qed

theorem price_in_band_witness:
  "fl_le (fl_mult Double (reference_price (quote_of sample_row)) (dconst 90 100)) bid \<and>
     fl_le bid (fl_mult Double (reference_price (quote_of sample_row)) (dconst 11 10))"
proof (rule price_in_band)
  show "buyStockbyCode sample_clock ''600028'' bid 1000 sample_server = Inr (0, after_buy) \<or>
    sellStockbyCode sample_clock ''600028'' bid 1000 sample_server = Inr (0, after_buy)" using sample_buy by blast
  show "quote_queryStockbyCode ''600028'' (quote sample_server) = Some (quote_of sample_row)" by code_simp
  show "reference_price (quote_of sample_row) = Fin False 7397173646955108 (- 50)" by code_simp
  show "bid \<noteq> NaN" by code_simp
qed

text \<open>The check of the quoted price in \<open>buyStock\<close> is dead: its condition
  \<open>price < 0.01 && price > 500\<close> holds for no \<open>float\<close>, so the code -510 is never
  returned.\<close>

theorem price_check_dead: "buyStock clk s price n st \<noteq> Inr (- 510, st')"
  using price_window_empty[of price]
  by (auto simp: buyStock_def the_account_Inr cbind_Inr_iff dest!: fail_with_Inr lot_error_codes
      split: if_splits option.splits)

text \<open>When the account file has no account 1, \<open>initial\<close> reports -1 but the server runs
  on without quotations: no purchase, sale, withdrawal or query is ever answered with 0, the
  unassigned account is never read, and there are no holdings and no orders.\<close>

theorem no_account_no_trading:
  assumes "initial a q h = Inr (- 1, st0)" "reaches trade_step st0 tr st"
  shows "quote st = [] \<and> holdings st = [] \<and> order_list st = [] \<and> (\<forall>rz \<in> set tr. snd rz \<noteq> 0)"
proof -
  let ?bare = "\<lambda>st. quote st = [] \<and> holdings st = [] \<and> order_list st = []"
  have s0: "?bare st0"
    using assms(1) same_fields by (fastforce simp: initial_def Let_def cbind_Inr_iff split: option.splits dest: fail_with_Inr)
  have step: "?bare s' \<and> z \<noteq> 0" if s: "?bare s" and t: "trade_step s r z s'" for s r z s'
    using t
  proof (cases rule: trade_step.cases)
    case (step_buy clk code price n)
    from step_buy(2) show ?thesis by (cases rule: buyStockbyCode_cases) (use s same_fields in force)+
  next
    case (step_sell clk code price n)
    from step_sell(2) show ?thesis by (cases rule: sellStockbyCode_cases) (use s same_fields in force)+
  next
    case (step_withdraw clk i)
    from step_withdraw(2) show ?thesis by (cases rule: withdrawOrder_Inr) (use s same_fields in force)+
  next
    case (step_query clk code s0 x)
    then have "same_but_texts s s'" "z \<noteq> 0" using s query_Inr[OF step_query(2)] by auto
    then show ?thesis using s same_fields by metis
  next
    case (step_query_mkt clk code m s0 x)
    then have "same_but_texts s s'" "z \<noteq> 0"
      using s queryStock_Inr[OF step_query_mkt(2)] by (auto simp: queryStock_def cbind_Inr_iff split: if_splits)
    then show ?thesis using s same_fields by metis
  qed
  show ?thesis using assms(2) s0
  proof (induction rule: reaches.induct)
    case (reaches_step s tr s' r z s'')
    then show ?case using step[of s' r z s''] by auto
  qed simp
qed

theorem no_account_no_trading_witness:
  "initial None (Some sample_quote_csv) None = Inr (- 1, state_of (initial None (Some sample_quote_csv) None)) \<and>
   quote (state_of (initial None (Some sample_quote_csv) None)) = []"
proof -
  have i: "initial None (Some sample_quote_csv) None = Inr (- 1, state_of (initial None (Some sample_quote_csv) None))"
    by code_simp
  show ?thesis using no_account_no_trading[OF i reaches_start] i by blast
qed

text \<open>The first purchase of a stock records the price of another one: the new entry keeps
  the \<open>yesterday_price\<close> (for a holding, the purchase price) of the entry that was last in
  the list, because the loop variable still holds a copy of it.\<close>

theorem new_holding_inherits_price:
  assumes "update_holdings d t n s h = Inr h'" "position h (stock_code s) = None" "h \<noteq> []"
  shows "length h' = length h + 1 \<and> yesterday_price (last h') = yesterday_price (last h)"
proof -
  from assms(1) obtain r where r: "update_found t n s h = Inr r" by (auto simp: update_holdings_def cbind_Inr_iff)
  have "r = None"
  proof (cases r)
    case (Some l)
    have "update_found t n s h = Inr (Some l) \<Longrightarrow> position h (stock_code s) \<noteq> None"
    proof (induction h arbitrary: l)
      case (Cons x xs)
      then show ?case by (auto simp: cbind_Inr_iff split: if_splits)
    qed simp
    then show ?thesis using r Some assms(2) by simp
  qed simp
  then show ?thesis using assms(1,3) r by (auto simp: update_holdings_def Let_def)
qed

theorem new_holding_inherits_price_witness:
  "\<exists>h'. update_holdings ''2023-05-04'' type_buy 300 (sample_holding\<lparr>stock_code := ''000001'', yesterday_price := ''12.55''\<rparr>) [sample_holding] = Inr h'
     \<and> yesterday_price (last h') = ''6.57''"
proof -
  let ?u = "update_holdings ''2023-05-04'' type_buy 300 (sample_holding\<lparr>stock_code := ''000001'', yesterday_price := ''12.55''\<rparr>) [sample_holding]"
  have "no_ub ?u" by code_simp
  then obtain h' where h': "?u = Inr h'" by (auto simp: no_ub_iff)
  have "position [sample_holding] ''000001'' = None" "yesterday_price (last [sample_holding]) = ''6.57''" by code_simp+
  then show ?thesis using new_holding_inherits_price[OF h'] h' by simp
qed

text \<open>A stock code that is not quoted is copied into the 2048-byte \<open>errorTxt\<close> without a
  check: every such code of 2022 bytes or more overruns it.\<close>

theorem unknown_code_overflow:
  assumes "quote_queryStockbyCode code (quote st) = None" "2022 \<le> length (cstr code)"
  shows "buyStockbyCode clk code price n st = Inl BufferOverflow"
proof -
  have "2048 \<le> length (msg_no_stock code)" using assms(2) by (simp add: msg_no_stock_def newline_str_def)
  then show ?thesis using assms(1) by (simp add: buyStockbyCode_def queryStockbyCode_def set_errorTxt_def TXT_SIZE_def)
qed

theorem unknown_code_overflow_witness:
  "buyStockbyCode sample_clock (replicate 2022 (CHR ''A'')) bid 100 sample_server = Inl BufferOverflow"
proof (rule unknown_code_overflow)
  have c: "cstr (replicate n (CHR ''A'')) = replicate n (CHR ''A'')" for n
    by (rule cstr_id) (simp add: NUL_def)
  show "2022 \<le> length (cstr (replicate 2022 (CHR ''A'')))" by (simp add: c)
  have "hd (replicate 2022 (CHR ''A'')) \<noteq> hd ''600028''" by simp
  then have "replicate 2022 (CHR ''A'') \<noteq> ''600028''" by metis
  then show "quote_queryStockbyCode (replicate 2022 (CHR ''A'')) (quote sample_server) = None"
    using c[of 2022] by (simp add: sample_server_def quote_of_def sample_row_def)
qed

end
