(* ===== verification/TradeHandlers.thy ===== *)
theory TradeHandlers
  imports TradingProps CJsonPrint HttpMessage
begin

text \<open>
  The request handlers of \<open>examples/http_server_test.cpp\<close>, the routes \<open>main\<close> registers, and
  \<open>HttpHandler::HandleHttpRequest\<close>, which dispatches to them. A request is given as it is after
  \<open>ParseUrl\<close>. Items built for a reply are trees of their own, so the linked form they have in memory
  is not repeated here; which of them are allocated is, for the handler that keeps pointers into one; text printed to standard output is not modelled, and the self tests some
  handlers call are named, not run.
\<close>

section \<open>Requests and replies\<close>

record request =
  req_msg :: message
  req_method :: int
  req_path :: string
  query_params :: params

text \<open>What a handler works with: the clock, the allocator of the JSON printer, the environment.\<close>

record world =
  wclock :: clock
  whooks :: hooks
  wenv :: env

type_synonym reply = "(int \<times> message \<times> server) cres"

definition response_status :: "env \<Rightarrow> int \<Rightarrow> string option \<Rightarrow> message \<Rightarrow> (int \<times> message) cres" where
  "response_status e code msg resp =
     (let text = (case msg of None \<Rightarrow> http_status_str code | Some t \<Rightarrow> t)
      in cbind (DumpBody e (Set_value ''message'' (JString text) (Set_value ''code'' (JInt code) resp)))
           (\<lambda>m. Inr (code, m)))"

text \<open>\<open>response_status(resp, 0, "OK"); return 200;\<close>\<close>

definition finish_ok :: "env \<Rightarrow> message \<Rightarrow> server \<Rightarrow> reply" where
  "finish_ok e resp st = cbind (response_status e 0 (Some ''OK'') resp) (\<lambda>(_, m). Inr (200, m, st))"

definition parse_body :: "string \<Rightarrow> cJSON option cres" where
  "parse_body s = (case cJSON_Parse (Some s) of
     Some (Inr r) \<Rightarrow> Inr (parsed_item r) | Some (Inl e) \<Rightarrow> Inl e | None \<Rightarrow> Inl Diverges)"

definition string_field :: "cJSON option \<Rightarrow> string \<Rightarrow> string option" where
  "string_field j name = map_option cstr (cJSON_GetStringValue (cJSON_GetObjectItem j name))"

definition number_field :: "cJSON option \<Rightarrow> string \<Rightarrow> fl" where
  "number_field j name = cJSON_GetNumberValue (cJSON_GetObjectItem j name)"

text \<open>A fresh object to which strings are added one after the other.\<close>

definition string_member :: "string \<times> string \<Rightarrow> cJSON" where
  "string_member ns = CJSON cJSON_String (Some (cstr (snd ns))) 0 (Fin False 0 0) (Some (cstr (fst ns))) []"

definition object_of :: "(string \<times> string) list \<Rightarrow> cJSON" where
  "object_of fs = CJSON cJSON_Object None 0 (Fin False 0 0) None (map string_member fs)"

definition array_of :: "cJSON list \<Rightarrow> cJSON" where
  "array_of items = CJSON cJSON_Array None 0 (Fin False 0 0) None items"

text \<open>\<open>resp->body = cJSON_Print(item)\<close>: a null pointer cannot become a string.\<close>

definition print_body :: "hooks \<Rightarrow> cJSON \<Rightarrow> message \<Rightarrow> message cres" where
  "print_body hk it resp = cbind (cJSON_Print hk (Some it)) (\<lambda>r.
     case r of None \<Rightarrow> Inl NullDereference | Some t \<Rightarrow> Inr (resp\<lparr>body := t\<rparr>))"

text \<open>The reply starts as an echo of the request.\<close>

definition echo_reply :: "request \<Rightarrow> message \<Rightarrow> message" where
  "echo_reply req resp = resp\<lparr>content_type := content_type (req_msg req), body := body (req_msg req)\<rparr>"

section \<open>The items a handler owns\<close>

text \<open>
  The items a handler has allocated, in the order of allocation: one that has been deleted is
  \<open>None\<close>, and an access to it is an error. A pointer to a string of an item is the item with the
  name of the member whose \<open>valuestring\<close> it points to.
\<close>

type_synonym trees = "cJSON option list"
type_synonym string_ptr = "nat \<times> string"

definition new_tree :: "cJSON \<Rightarrow> trees \<Rightarrow> nat \<times> trees" where
  "new_tree t H = (length H, H @ [Some t])"

definition tree_at :: "nat \<Rightarrow> trees \<Rightarrow> cJSON cres" where
  "tree_at p H = (if p < length H then (case H ! p of None \<Rightarrow> Inl UseAfterFree | Some t \<Rightarrow> Inr t) else Inl OutOfBounds)"

definition tree_of :: "nat option \<Rightarrow> trees \<Rightarrow> cJSON option cres" where
  "tree_of p H = (case p of None \<Rightarrow> Inr None | Some p \<Rightarrow> cbind (tree_at p H) (\<lambda>t. Inr (Some t)))"

text \<open>\<open>cJSON_Parse\<close>, \<open>cJSON_Delete\<close>, and the accesses \<open>cJSON_GetStringValue(cJSON_GetObjectItem(j, name))\<close> and
  \<open>cJSON_GetNumberValue(cJSON_GetObjectItem(j, name))\<close>.\<close>

definition parse_tree :: "string \<Rightarrow> trees \<Rightarrow> (nat option \<times> trees) cres" where
  "parse_tree s H = cbind (parse_body s) (\<lambda>j. Inr (case j of None \<Rightarrow> (None, H)
     | Some t \<Rightarrow> (case new_tree t H of (p, H') \<Rightarrow> (Some p, H'))))"

definition delete_tree :: "nat option \<Rightarrow> trees \<Rightarrow> trees cres" where
  "delete_tree p H = (case p of None \<Rightarrow> Inr H | Some p \<Rightarrow> cbind (tree_at p H) (\<lambda>_. Inr (H[p := None])))"

definition get_string :: "nat option \<Rightarrow> string \<Rightarrow> trees \<Rightarrow> string_ptr option cres" where
  "get_string p name H = cbind (tree_of p H) (\<lambda>j.
     Inr (case p of None \<Rightarrow> None | Some a \<Rightarrow> map_option (\<lambda>_. (a, name)) (string_field j name)))"

definition get_number :: "nat option \<Rightarrow> string \<Rightarrow> trees \<Rightarrow> fl cres" where
  "get_number p name H = cbind (tree_of p H) (\<lambda>j. Inr (number_field j name))"

definition read_string :: "string_ptr \<Rightarrow> trees \<Rightarrow> string cres" where
  "read_string s H = cbind (tree_at (fst s) H) (\<lambda>t.
     case string_field (Some t) (snd s) of None \<Rightarrow> Inl NullDereference | Some v \<Rightarrow> Inr v)"

definition print_tree :: "hooks \<Rightarrow> nat \<Rightarrow> message \<Rightarrow> trees \<Rightarrow> message cres" where
  "print_tree hk p resp H = cbind (tree_at p H) (\<lambda>t. print_body hk t resp)"

section \<open>Handlers\<close>

text \<open>
  \<open>/InsertOrder\<close>. The pointers \<open>side\<close>, \<open>code\<close> and \<open>market\<close> point into the parsed body.
\<close>

definition handle_insert_order :: "world \<Rightarrow> request \<Rightarrow> message \<Rightarrow> server \<Rightarrow> reply" where
  "handle_insert_order w req resp0 st =
     (let resp = echo_reply req resp0 in
      cbind (parse_tree (body (req_msg req)) []) (\<lambda>(cjson_body, H).
      cbind (get_string cjson_body ''ticker'' H) (\<lambda>code.
      cbind (get_string cjson_body ''market'' H) (\<lambda>market.
      cbind (get_string cjson_body ''side'' H) (\<lambda>side.
      cbind (get_number cjson_body ''price'' H) (\<lambda>pv.
      cbind (get_number cjson_body ''qty'' H) (\<lambda>qv.
      cbind (fl_to_int (fl_round qv)) (\<lambda>n.
        let price = to_float pv in
        if code = None \<or> market = None \<or> side = None then Inr (201, resp, st)
        else if 65535 < n \<or> n < 0 then Inr (201, resp, st)
        else if fl_isnan price then Inr (201, resp, st)
        else if fl_less (fl_of_int Float 65535) price \<or> n < 0 then Inr (201, resp, st)
        else
          cbind (read_string (the side) H) (\<lambda>side_s.
          cbind (read_string (the code) H) (\<lambda>code_s.
          cbind (if side_s = [CHR 0xE4, CHR 0xB9, CHR 0xB0] then buyStockbyCode (wclock w) code_s price n st
                 else sellStockbyCode (wclock w) code_s price n st) (\<lambda>(ret, st1).
          cbind (delete_tree cjson_body H) (\<lambda>H.
            if ret \<noteq> 0 then
              (case new_tree (object_of [(''return_code'', int_to_string ret), (''message'', errorTxt st1)]) H of (obj, H) \<Rightarrow>
                cbind (print_tree (whooks w) obj resp H) (\<lambda>resp. Inr (400, resp, st1)))
            else
              (case new_tree (object_of [(''return_code'', int_to_string ret), (''message'', [CHR 0xE6, CHR 0x88, CHR 0x90, CHR 0xE5, CHR 0x8A, CHR 0x9F, CHR 0xEF, CHR 0xBC, CHR 0x81])]) H of (obj, H) \<Rightarrow>
                cbind (print_tree (whooks w) obj resp H) (\<lambda>resp.
                cbind (read_string (the side) H) (\<lambda>side_s.
                cbind (read_string (the code) H) (\<lambda>code_s.
                cbind (read_string (the market) H) (\<lambda>market_s.
                cbind (set_logTxt (log_line [getDateTimeString (wclock w), [CHR 0xE5, CHR 0xA7, CHR 0x94, CHR 0xE6, CHR 0x89, CHR 0x98], side_s, code_s, market_s]) st1) (\<lambda>st2.
                cbind (delete_tree (Some obj) H) (\<lambda>H.
                  finish_ok (wenv w) resp (st2\<lparr>success_log := success_log st2 @ [logTxt st2]\<rparr>))))))))))))))))))))"

definition stock_fields :: "StockClass \<Rightarrow> (string \<times> string) list" where
  "stock_fields s = [(''trade_date'', trade_date s), (''stock_code'', stock_code s), (''stock_name'', stock_name s),
     (''mkt'', mkt s), (''yesterday_price'', yesterday_price s), (''open_price'', open_price s),
     (''high_price'', high_price s), (''low_price'', low_price s), (''close_price'', close_price s),
     (''increase_rate'', increase_rate s), (''qty'', qty s), (''amount'', amount s), (''per'', per s)]"

definition query_log :: "clock \<Rightarrow> StockClass \<Rightarrow> string" where
  "query_log clk s = cstr (getDateTimeString clk) @ '', '' @ [CHR 0xE4, CHR 0xBB, CHR 0xA3, CHR 0xE7, CHR 0xA0, CHR 0x81, CHR 0xE6, CHR 0x9F, CHR 0xA5, CHR 0xE8, CHR 0x82, CHR 0xA1, CHR 0xE7, CHR 0xA5, CHR 0xA8] @ '', '' @ cstr (stock_code s) @ newline_str"

definition handle_query_stock_bycode :: "world \<Rightarrow> request \<Rightarrow> message \<Rightarrow> server \<Rightarrow> reply" where
  "handle_query_stock_bycode w req resp0 st =
     (let resp = echo_reply req resp0
      in cbind (parse_body (body (req_msg req))) (\<lambda>j.
        case string_field j ''stock_code'' of None \<Rightarrow> Inr (400, resp, st)
        | Some code \<Rightarrow>
            cbind (queryStockbyCode (wclock w) code StockClass0 st) (\<lambda>(ret, stock, st1).
              if ret = 0 then
                cbind (print_body (whooks w) (array_of [object_of (stock_fields stock)]) resp) (\<lambda>resp1.
                cbind (set_logTxt (query_log (wclock w) stock) st1) (\<lambda>st2.
                  finish_ok (wenv w) resp1 (st2\<lparr>success_log := success_log st2 @ [logTxt st2]\<rparr>)))
              else cbind (response_status (wenv w) 400 (Some ''there are something wrong!'') resp)
                (\<lambda>(_, resp1). Inr (400, resp1, st1)))))"

text \<open>\<open>/WithdrawOrder\<close>: what \<open>withdrawOrder\<close> returns is not used.\<close>

definition handle_withdraw_order :: "world \<Rightarrow> request \<Rightarrow> message \<Rightarrow> server \<Rightarrow> reply" where
  "handle_withdraw_order w req resp st =
     cbind (withdrawOrder (wclock w) (atoi (GetParam ''order_id'' (query_params req))) st) (\<lambda>(_, st1).
       finish_ok (wenv w) resp st1)"

text \<open>\<open>/echo\<close> and \<open>/User\<close>.\<close>

definition handle_echo :: "world \<Rightarrow> request \<Rightarrow> message \<Rightarrow> server \<Rightarrow> reply" where
  "handle_echo w req resp st = finish_ok (wenv w) resp st"

text \<open>\<open>/Grade\<close>: the self tests called for a grade.\<close>

definition grade_tests :: "fl \<Rightarrow> string list" where
  "grade_tests grade =
     (if fl_le (fl_of_int Float 90) grade then
        [''test_hthread'', ''test_ifconfig'', ''test_hdir'', ''test_objectpool'', ''test_parse_confile'', ''test_websocket_client'']
      else if fl_le (fl_of_int Float 80) grade then [''test_socketpair'', ''test_hstring'', ''test_sync'', ''test_base64'']
      else [])"

definition handle_grade :: "world \<Rightarrow> request \<Rightarrow> message \<Rightarrow> server \<Rightarrow> reply \<times> string list" where
  "handle_grade w req resp st =
     (case parse_body (body (req_msg req)) of Inl e \<Rightarrow> (Inl e, [])
      | Inr j \<Rightarrow> (finish_ok (wenv w) resp st, grade_tests (to_float (number_field j ''grade''))))"

text \<open>\<open>/CheckCourse\<close>: the self tests called for a weekday, a number and an hour.\<close>

definition weekday_tests :: "string \<Rightarrow> int \<Rightarrow> string list" where
  "weekday_tests d n =
     (if d = ''MONDAY'' then [''test_cjson''] else if d = ''TUESDAY'' then [''test_http_async_client'']
      else if d = ''WEDNESDAY'' then [''test_nmap''] else if d = ''THURSDAY'' then [''test_http_client'']
      else if d = ''FRIDAY'' then [''test_hloop''] else if d = ''SATDAY'' then [''test_curl'']
      else if d = ''SUNDAY'' then [''test_http_sync_post''] else if n = 1 then [''test_connect''] else [])"

definition hour_tests :: "fl \<Rightarrow> string list" where
  "hour_tests hours = (if fl_le (dconst 830 100) hours \<and> fl_le hours (dconst 1830 100)
     then [''test_date'', ''test_hatomic_main''] else [''test_hmutex'', ''test_md5'', ''test_sha1''])"

definition handle_check_course :: "world \<Rightarrow> request \<Rightarrow> message \<Rightarrow> server \<Rightarrow> reply \<times> string list" where
  "handle_check_course w req resp0 st =
     (let resp = echo_reply req resp0
      in case cbind (parse_body (body (req_msg req))) (\<lambda>j. cbind (fl_to_int (fl_round (number_field j ''qty''))) (\<lambda>n. Inr (j, n))) of
           Inl e \<Rightarrow> (Inl e, [])
         | Inr (j, n) \<Rightarrow>
             (case string_field j ''weekday'' of
                None \<Rightarrow> (Inr (400, resp, st), [])
              | Some d \<Rightarrow> (finish_ok (wenv w) resp st,
                  weekday_tests d n @ hour_tests (to_float (number_field j ''hours'')))))"

definition handle_json :: "world \<Rightarrow> request \<Rightarrow> message \<Rightarrow> server \<Rightarrow> reply" where
  "handle_json w req resp st =
     (if content_type (req_msg req) \<noteq> APPLICATION_JSON then
        cbind (response_status (wenv w) 400 None resp) (\<lambda>(c, m). Inr (c, m, st))
      else Inr (200, resp\<lparr>content_type := APPLICATION_JSON,
        json := map_set ''string'' (JString ''hello'') (map_set ''float'' (JDouble (dconst 314 100))
          (map_set ''int'' (JInt 123) (json (req_msg req))))\<rparr>, st))"

section \<open>Routes and dispatch\<close>

datatype api = Echo | User | WithdrawOrder | CheckCourse | InsertOrder | QueryStockbyCode | Grade | Json

definition main_routes :: "((string \<times> string) \<times> api) list" where
  "main_routes = [((''POST'', ''/echo''), Echo), ((''POST'', ''/User''), User), ((''GET'', ''/WithdrawOrder''), WithdrawOrder),
     ((''POST'', ''/CheckCourse''), CheckCourse), ((''POST'', ''/InsertOrder''), InsertOrder),
     ((''POST'', ''/QueryStockbyCode''), QueryStockbyCode), ((''PATCH'', ''/Grade''), Grade), ((''PUT'', ''/Json''), Json)]"

definition router :: "api api_handlers" where
  "router = fold (\<lambda>((m, p), a). Handle m p a) main_routes []"

definition run_api :: "api \<Rightarrow> world \<Rightarrow> request \<Rightarrow> message \<Rightarrow> server \<Rightarrow> reply" where
  "run_api a w req resp st =
     (case a of Echo \<Rightarrow> handle_echo w req resp st | User \<Rightarrow> handle_echo w req resp st
      | WithdrawOrder \<Rightarrow> handle_withdraw_order w req resp st
      | CheckCourse \<Rightarrow> fst (handle_check_course w req resp st)
      | InsertOrder \<Rightarrow> handle_insert_order w req resp st
      | QueryStockbyCode \<Rightarrow> handle_query_stock_bycode w req resp st
      | Grade \<Rightarrow> fst (handle_grade w req resp st)
      | Json \<Rightarrow> handle_json w req resp st)"

definition status_page :: "int \<Rightarrow> string" where
  "status_page code =
     (let t = take 7 (int_to_string code @ '' '') @ http_status_str code; nl = newline_str
      in ''<!DOCTYPE html>'' @ nl @ ''<html>'' @ nl @ ''<head>'' @ nl @ ''  <title>'' @ t @ ''</title>'' @ nl
         @ ''</head>'' @ nl @ ''<body>'' @ nl @ ''  <center><h1>'' @ t @ ''</h1></center>'' @ nl @ ''  <hr>'' @ nl
         @ ''</body>'' @ nl @ ''</html>'')"

text \<open>The label \<open>make_http_status_page\<close>, without an error page configured.\<close>

definition make_status :: "int \<Rightarrow> int \<Rightarrow> int \<Rightarrow> message \<Rightarrow> int \<times> message" where
  "make_status meth code ret m =
     (let code' = (if 100 \<le> ret \<and> ret < 600 then ret else code)
      in if 400 \<le> code' \<and> body m = [] \<and> meth \<noteq> HTTP_HEAD
         then (code', m\<lparr>content_type := TEXT_HTML, body := status_page code'\<rparr>) else (code', m))"

text \<open>
  \<open>HandleHttpRequest\<close> of the service that \<open>main\<close> builds: no preprocessor, no postprocessor, the
  default document root. \<open>files\<close> is the file service: its status and the body it supplies; \<open>res\<close> is
  the response with the headers the caller has set.
\<close>

definition HandleHttpRequest :: "(string \<Rightarrow> int \<times> string) \<Rightarrow> world \<Rightarrow> request \<Rightarrow> message \<Rightarrow> server \<Rightarrow> reply" where
  "HandleHttpRequest files w req res st =
     (case GetApi [] router (req_path req) (req_method req) (query_params req) of (_, h, qs) \<Rightarrow>
        (case h of
           Some a \<Rightarrow> cbind (run_api a w (req\<lparr>query_params := qs\<rparr>) res st) (\<lambda>(ret, m, st1).
             case make_status (req_method req) 200 ret m of (code, m') \<Rightarrow> Inr (code, m', st1))
         | None \<Rightarrow>
             if req_method req = HTTP_GET \<or> req_method req = HTTP_HEAD then
               (if hd (req_path req @ [NUL]) \<noteq> CHR ''/'' \<or> strstr (cstr (req_path req)) ''/../'' \<noteq> None
                then (case make_status (req_method req) 400 0 res of (code, m) \<Rightarrow> Inr (code, m, st))
                else (case files (req_path req) of (ret, t) \<Rightarrow>
                  (case make_status (req_method req) 200 ret (res\<lparr>body := t\<rparr>) of (code, m) \<Rightarrow> Inr (code, m, st))))
             else (case make_status (req_method req) 200 501 res of (code, m) \<Rightarrow> Inr (code, m, st))))"

section \<open>Replies\<close>

lemma doubles_object: "doubles (object_of fs)"
  by (auto simp: object_of_def string_member_def is_double_def list_all_iff)

lemma render_member: "\<exists>t. render True d (string_member ns) = Some t"
  by (simp add: string_member_def cJSON_types)

lemma render_members_strings: "\<exists>t. render_members True d (map string_member fs) = Some t"
proof (induction fs)
  case (Cons f fs)
  then obtain ts where "render_members True d (map string_member fs) = Some ts" by blast
  moreover obtain t where "render True d (string_member f) = Some t" using render_member by blast
  ultimately show ?case by (simp add: render_members_Cons)
qed simp

lemma render_object: "\<exists>t. render True d (object_of fs) = Some t"
proof -
  obtain t where "render_members True (d + 1) (map string_member fs) = Some t" using render_members_strings by blast
  then show ?thesis by (simp add: object_of_def cJSON_types)
qed

lemma print_body_run:
  assumes "doubles it" "render True 0 it = Some t" "\<forall>k. allocate_ok hk k" "int (length t) + 6 \<le> INT_MAX"
  shows "print_body hk it resp = Inr (resp\<lparr>body := t\<rparr>)"
  using print_refines[OF assms(1), of hk True] assms(2-4) by (auto simp: print_body_def cJSON_Print_def)

lemma finish_ok_body: "body resp \<noteq> [] \<Longrightarrow> \<exists>m. finish_ok e resp st = Inr (200, m, st) \<and> body m = body resp"
  by (auto simp: finish_ok_def response_status_def Let_def DumpBody_def Set_value_def)

lemma finish_ok_empty: "finish_ok e message_init st = Inr (200, message_init, st)"
proof -
  have "FillContentType message_init = message_init" "Set_value k v message_init = message_init" for k v
    by (simp_all add: FillContentType_def append_boundary_def structured_type_def Set_value_def message_init_def
      CONTENT_TYPE_NONE_def APPLICATION_JSON_def MULTIPART_FORM_DATA_def APPLICATION_URLENCODED_def)
  then show ?thesis
    by (simp add: finish_ok_def response_status_def DumpBody_def)
      (simp add: message_init_def CONTENT_TYPE_NONE_def APPLICATION_JSON_def MULTIPART_FORM_DATA_def APPLICATION_URLENCODED_def)
qed

section \<open>Dispatch\<close>

definition route_table :: "((string \<times> int) \<times> api) list" where
  "route_table = map (\<lambda>((m, p), a). ((p, http_method_enum m), a)) main_routes"

lemma router_literal: "\<forall>p \<in> set (map fst router). literal p"
  by code_simp

lemma route_table_distinct: "distinct (map fst route_table)"
  by code_simp

lemma router_lookup: "registered router key = map_of route_table key"
proof -
  have handle: "Handle m p = AddApi p (http_method_enum m)" for m p and a :: api
    by (simp add: Handle_def fun_eq_iff)
  have "router = fold (\<lambda>(k, h). register k h) route_table []"
    by (simp add: router_def route_table_def fold_map comp_def case_prod_unfold register_def handle)
  then have "registered router key = (case map_of (rev route_table) key of Some h \<Rightarrow> Some h | None \<Rightarrow> None)"
    using routes.get_put_all[of route_table "[]" key] by (simp add: registered_def split: prod.splits option.splits)
  then show ?thesis using map_of_rev_distinct[OF route_table_distinct] by (simp split: option.splits)
qed

lemma GetApi_router:
  "GetApi [] router path m qs = (fst (GetApi [] router path m qs), registered router (url_path (cstr path), m), qs)"
proof -
  have "strip_base s [] = Some s" for s by (cases s) simp_all
  moreover have "cstr [] = []" by (simp add: cstr_def)
  ultimately show ?thesis unfolding GetApi_literal[OF router_literal]
    by (simp add: GetApi_url_def registered_def split: option.splits)
qed

section \<open>Properties\<close>

text \<open>A page for a status, which a HEAD request does not get.\<close>

definition with_page :: "int \<Rightarrow> int \<Rightarrow> message \<Rightarrow> message" where
  "with_page meth code m = (if meth = HTTP_HEAD then m else m\<lparr>content_type := TEXT_HTML, body := status_page code\<rparr>)"




section \<open>Orders\<close>

text \<open>The bodies that pass the checks of \<open>handle_insert_order\<close>, with what is read from them.\<close>

definition order_ok :: "string \<Rightarrow> string \<Rightarrow> string \<Rightarrow> string \<Rightarrow> fl \<Rightarrow> int \<Rightarrow> bool" where
  "order_ok b code market side price n = (\<exists>j. parse_body b = Inr j \<and> string_field j ''ticker'' = Some code
     \<and> string_field j ''market'' = Some market \<and> string_field j ''side'' = Some side
     \<and> to_float (number_field j ''price'') = price \<and> fl_to_int (fl_round (number_field j ''qty'')) = Inr n
     \<and> 0 \<le> n \<and> n \<le> 65535 \<and> \<not> fl_isnan price \<and> \<not> fl_less (fl_of_int Float 65535) price)"

definition place :: "clock \<Rightarrow> string \<Rightarrow> string \<Rightarrow> fl \<Rightarrow> int \<Rightarrow> server \<Rightarrow> (int \<times> server) cres" where
  "place clk side code price n st =
     (if side = [CHR 0xE4, CHR 0xB9, CHR 0xB0] then buyStockbyCode clk code price n st else sellStockbyCode clk code price n st)"

section \<open>Samples\<close>

definition sample_world :: world where
  "sample_world = \<lparr>wclock = sample_clock, whooks = generous,
     wenv = \<lparr>dump_json = (\<lambda>_. ''{}''), read_file = (\<lambda>_. None), http_date = ''now''\<rparr>\<rparr>"

definition sample_request :: "string \<Rightarrow> request" where
  "sample_request b = \<lparr>req_msg = message_init\<lparr>content_type := APPLICATION_JSON, body := b\<rparr>, req_method = HTTP_POST,
     req_path = ''/InsertOrder'', query_params = []\<rparr>"

definition buy_body :: string where
  "buy_body = [CHR 0x7B, CHR 0x22, CHR 0x74, CHR 0x69, CHR 0x63, CHR 0x6B, CHR 0x65, CHR 0x72, CHR 0x22, CHR 0x3A, CHR 0x22, CHR 0x36, CHR 0x30, CHR 0x30, CHR 0x30, CHR 0x32, CHR 0x38, CHR 0x22, CHR 0x2C, CHR 0x22, CHR 0x6D, CHR 0x61, CHR 0x72, CHR 0x6B, CHR 0x65, CHR 0x74, CHR 0x22, CHR 0x3A, CHR 0x22, CHR 0x53, CHR 0x48, CHR 0x41, CHR 0x22, CHR 0x2C, CHR 0x22, CHR 0x73, CHR 0x69, CHR 0x64, CHR 0x65, CHR 0x22, CHR 0x3A, CHR 0x22, CHR 0xE4, CHR 0xB9, CHR 0xB0, CHR 0x22, CHR 0x2C, CHR 0x22, CHR 0x70, CHR 0x72, CHR 0x69, CHR 0x63, CHR 0x65, CHR 0x22, CHR 0x3A, CHR 0x36, CHR 0x2E, CHR 0x36, CHR 0x2C, CHR 0x22, CHR 0x71, CHR 0x74, CHR 0x79, CHR 0x22, CHR 0x3A, CHR 0x31, CHR 0x30, CHR 0x30, CHR 0x30, CHR 0x7D]"

definition odd_body :: string where
  "odd_body = [CHR 0x7B, CHR 0x22, CHR 0x74, CHR 0x69, CHR 0x63, CHR 0x6B, CHR 0x65, CHR 0x72, CHR 0x22, CHR 0x3A, CHR 0x22, CHR 0x36, CHR 0x30, CHR 0x30, CHR 0x30, CHR 0x32, CHR 0x38, CHR 0x22, CHR 0x2C, CHR 0x22, CHR 0x6D, CHR 0x61, CHR 0x72, CHR 0x6B, CHR 0x65, CHR 0x74, CHR 0x22, CHR 0x3A, CHR 0x22, CHR 0x53, CHR 0x48, CHR 0x41, CHR 0x22, CHR 0x2C, CHR 0x22, CHR 0x73, CHR 0x69, CHR 0x64, CHR 0x65, CHR 0x22, CHR 0x3A, CHR 0x22, CHR 0xE4, CHR 0xB9, CHR 0xB0, CHR 0x22, CHR 0x2C, CHR 0x22, CHR 0x70, CHR 0x72, CHR 0x69, CHR 0x63, CHR 0x65, CHR 0x22, CHR 0x3A, CHR 0x36, CHR 0x2E, CHR 0x36, CHR 0x2C, CHR 0x22, CHR 0x71, CHR 0x74, CHR 0x79, CHR 0x22, CHR 0x3A, CHR 0x35, CHR 0x30, CHR 0x30, CHR 0x7D]"

definition query_body :: string where
  "query_body = [CHR 0x7B, CHR 0x22, CHR 0x73, CHR 0x74, CHR 0x6F, CHR 0x63, CHR 0x6B, CHR 0x5F, CHR 0x63, CHR 0x6F, CHR 0x64, CHR 0x65, CHR 0x22, CHR 0x3A, CHR 0x22, CHR 0x36, CHR 0x30, CHR 0x30, CHR 0x30, CHR 0x32, CHR 0x38, CHR 0x22, CHR 0x7D]"

definition item_of :: "string \<Rightarrow> cJSON option" where
  "item_of b = (case parse_body b of Inr j \<Rightarrow> j | Inl _ \<Rightarrow> None)"

lemma sample_bodies:
  "parse_body buy_body = Inr (item_of buy_body)" "parse_body odd_body = Inr (item_of odd_body)"
  "parse_body query_body = Inr (item_of query_body)" "string_field (item_of query_body) ''stock_code'' = Some ''600028''"
  by code_simp+

lemma buy_body_ok: "order_ok buy_body ''600028'' ''SHA'' [CHR 0xE4, CHR 0xB9, CHR 0xB0] bid 1000"
  unfolding order_ok_def
  by (intro exI[of _ "item_of buy_body"] conjI sample_bodies(1)) code_simp+

lemma odd_body_ok: "order_ok odd_body ''600028'' ''SHA'' [CHR 0xE4, CHR 0xB9, CHR 0xB0] bid 500"
  unfolding order_ok_def
  by (intro exI[of _ "item_of odd_body"] conjI sample_bodies(2)) code_simp+

definition after_odd :: server where
  "after_odd = state_of (buyStockbyCode sample_clock ''600028'' bid 500 sample_server)"

lemma sample_odd: "buyStockbyCode sample_clock ''600028'' bid 500 sample_server = Inr (- 500, after_odd)"
  by code_simp

lemma sample_world_simps [simp]: "wclock sample_world = sample_clock" "allocate_ok (whooks sample_world) k"
  "body (req_msg (sample_request b)) = b"
  by (simp_all add: sample_world_def generous_def sample_request_def)

lemma string_field_NULL [simp]: "string_field None name = None"
  by (simp add: string_field_def cJSON_GetStringValue_def cJSON_GetObjectItem_def get_object_item_def cJSON_IsString_def type_is_def)

lemma tree_ops [simp]:
  "tree_at 0 [Some t] = Inr t" "tree_at 0 [None, x] = Inl UseAfterFree" "tree_at 1 [x, Some t] = Inr t"
  "tree_of (Some 0) [Some t] = Inr (Some t)"
  "delete_tree (Some 0) [Some t] = Inr [None]"
  by (simp_all add: tree_at_def tree_of_def delete_tree_def)

lemma field_ops:
  "string_field (Some t) name = Some v \<Longrightarrow> get_string (Some 0) name [Some t] = Inr (Some (0, name))"
  "string_field (Some t) name = Some v \<Longrightarrow> read_string (0, name) [Some t] = Inr v"
  "get_number (Some 0) name [Some t] = Inr (number_field (Some t) name)"
  "read_string (0, name) [None, x] = Inl UseAfterFree"
  by (simp_all add: get_string_def read_string_def get_number_def)

text \<open>
  A body that passes the checks, with the pointers followed: the body is deleted once the order is
  placed, and the log line of an accepted order is the next to read from it.
\<close>

lemma insert_order_run:
  assumes "order_ok (body (req_msg req)) code market side price n"
  shows "handle_insert_order w req resp st =
    cbind (place (wclock w) side code price n st) (\<lambda>(ret, st1).
      if ret \<noteq> 0 then
        cbind (print_body (whooks w) (object_of [(''return_code'', int_to_string ret), (''message'', errorTxt st1)])
          (echo_reply req resp)) (\<lambda>resp1. Inr (400, resp1, st1))
      else
        cbind (print_body (whooks w) (object_of [(''return_code'', int_to_string ret),
          (''message'', [CHR 0xE6, CHR 0x88, CHR 0x90, CHR 0xE5, CHR 0x8A, CHR 0x9F, CHR 0xEF, CHR 0xBC, CHR 0x81])])
          (echo_reply req resp)) (\<lambda>resp1. Inl UseAfterFree))"
proof -
  from assms obtain j where j: "parse_body (body (req_msg req)) = Inr j" "string_field j ''ticker'' = Some code"
    "string_field j ''market'' = Some market" "string_field j ''side'' = Some side"
    "to_float (number_field j ''price'') = price" "fl_to_int (fl_round (number_field j ''qty'')) = Inr n"
    "0 \<le> n" "n \<le> 65535" "\<not> fl_isnan price" "\<not> fl_less (fl_of_int Float 65535) price" by (auto simp: order_ok_def)
  then obtain t where t: "j = Some t" by (cases j) simp_all
  note f = j(2-6)[unfolded t]
  have p: "parse_tree (body (req_msg req)) [] = Inr (Some 0, [Some t])"
    using j(1) t by (simp add: parse_tree_def new_tree_def)
  have c: "\<not> (65535 < n \<or> n < 0)" "\<not> n < 0" using j(7,8) by simp_all
  have nt: "new_tree x [None] = (1, [None, Some x])" for x by (simp add: new_tree_def)
  show ?thesis
    unfolding handle_insert_order_def place_def Let_def p cbind_simps prod.case field_ops(1)[OF f(1)] field_ops(1)[OF f(2)]
      field_ops(1)[OF f(3)] field_ops(2)[OF f(1)] field_ops(2)[OF f(3)] field_ops(3,4) f(4,5) option.sel tree_ops nt print_tree_def
    using j(9,10) c by (simp only: option.distinct if_False simp_thms)
qed

text \<open>C21: an order that passes the checks of the handler and is refused by the trading core is answered
  with status 400; the body is the JSON text of an object with the return code and the current
  error message, and the state is the one the trading core left.\<close>

theorem insert_order_refused:
  assumes "order_ok (body (req_msg req)) code market side price n" "place (wclock w) side code price n st = Inr (ret, st1)"
    "ret \<noteq> 0" "\<forall>k. allocate_ok (whooks w) k"
    "render True 0 (object_of [(''return_code'', int_to_string ret), (''message'', errorTxt st1)]) = Some t"
    "int (length t) + 6 \<le> INT_MAX"
  shows "handle_insert_order w req resp st = Inr (400, (echo_reply req resp)\<lparr>body := t\<rparr>, st1)"
  using insert_order_run[OF assms(1)] assms(2,3) print_body_run[OF doubles_object assms(5,4,6)] by simp

theorem insert_order_refused_witness:
  "\<exists>t. handle_insert_order sample_world (sample_request odd_body) message_init sample_server =
    Inr (400, (echo_reply (sample_request odd_body) message_init)\<lparr>body := t\<rparr>, after_odd)"
proof -
  have "render True 0 (object_of [(''return_code'', int_to_string (- 500)), (''message'', errorTxt after_odd)]) \<noteq> None"
    "length (the (render True 0 (object_of [(''return_code'', int_to_string (- 500)), (''message'', errorTxt after_odd)]))) < 1000"
    by code_simp+
  then obtain t where t: "render True 0 (object_of [(''return_code'', int_to_string (- 500)), (''message'', errorTxt after_odd)]) = Some t"
    "int (length t) + 6 \<le> INT_MAX" by (auto simp: limit_defs)
  have "order_ok (body (req_msg (sample_request odd_body))) ''600028'' ''SHA'' [CHR 0xE4, CHR 0xB9, CHR 0xB0] bid 500" using odd_body_ok by simp
  moreover have "place (wclock sample_world) [CHR 0xE4, CHR 0xB9, CHR 0xB0] ''600028'' bid 500 sample_server = Inr (- 500, after_odd)"
    using sample_odd by (simp add: place_def)
  moreover have "(- 500 :: int) \<noteq> 0" "\<forall>k. allocate_ok (whooks sample_world) k" by simp_all
  ultimately show ?thesis using t insert_order_refused by blast
qed

text \<open>C23: every order the trading core accepts makes the handler read freed memory: the log line is
  formatted from the strings of the request body after that body has been deleted.\<close>

theorem insert_order_use_after_free:
  assumes "order_ok (body (req_msg req)) code market side price n" "place (wclock w) side code price n st = Inr (0, st1)"
    "\<forall>k. allocate_ok (whooks w) k"
  shows "handle_insert_order w req resp st = Inl UseAfterFree"
proof -
  have "render True 0 (object_of [(''return_code'', int_to_string 0), (''message'', [CHR 0xE6, CHR 0x88, CHR 0x90, CHR 0xE5, CHR 0x8A, CHR 0x9F, CHR 0xEF, CHR 0xBC, CHR 0x81])]) \<noteq> None"
    "length (the (render True 0 (object_of [(''return_code'', int_to_string 0), (''message'', [CHR 0xE6, CHR 0x88, CHR 0x90, CHR 0xE5, CHR 0x8A, CHR 0x9F, CHR 0xEF, CHR 0xBC, CHR 0x81])]))) < 100"
    by code_simp+
  then obtain t where t: "render True 0 (object_of [(''return_code'', int_to_string 0), (''message'', [CHR 0xE6, CHR 0x88, CHR 0x90, CHR 0xE5, CHR 0x8A, CHR 0x9F, CHR 0xEF, CHR 0xBC, CHR 0x81])]) = Some t"
    "int (length t) + 6 \<le> INT_MAX" by (auto simp: limit_defs)
  show ?thesis
    using insert_order_run[OF assms(1)] assms(2) print_body_run[OF doubles_object t(1) assms(3) t(2)] by simp
qed

theorem insert_order_use_after_free_witness:
  "handle_insert_order sample_world (sample_request buy_body) message_init sample_server = Inl UseAfterFree"
proof -
  have "order_ok (body (req_msg (sample_request buy_body))) ''600028'' ''SHA'' [CHR 0xE4, CHR 0xB9, CHR 0xB0] bid 1000" using buy_body_ok by simp
  moreover have "place (wclock sample_world) [CHR 0xE4, CHR 0xB9, CHR 0xB0] ''600028'' bid 1000 sample_server = Inr (0, after_buy)"
    using sample_buy by (simp add: place_def)
  ultimately show ?thesis by (rule insert_order_use_after_free) simp
qed

section \<open>Queries and withdrawals\<close>

text \<open>C22: a query for a known code is answered with status 200 and the JSON text of an array with one
  object that holds the thirteen fields of the quotation.\<close>

theorem query_answer:
  assumes "parse_body (body (req_msg req)) = Inr j" "string_field j ''stock_code'' = Some code"
    "queryStockbyCode (wclock w) code StockClass0 st = Inr (0, s, st1)"
    "\<forall>k. allocate_ok (whooks w) k" "render True 0 (array_of [object_of (stock_fields s)]) = Some t"
    "int (length t) + 6 \<le> INT_MAX" "length (query_log (wclock w) s) < TXT_SIZE"
  shows "\<exists>m st2. handle_query_stock_bycode w req resp st = Inr (200, m, st2) \<and> body m = t"
proof -
  have d: "doubles (array_of [object_of (stock_fields s)])" using doubles_object by (simp add: array_of_def is_double_def)
  let ?r = "(echo_reply req resp)\<lparr>body := t\<rparr>"
  have p: "print_body (whooks w) (array_of [object_of (stock_fields s)]) (echo_reply req resp) = Inr ?r"
    using print_body_run[OF d assms(5,4,6)] .
  have ne: "body ?r \<noteq> []" using assms(5) by (auto simp: array_of_def cJSON_types)
  let ?st = "st1\<lparr>logTxt := query_log (wclock w) s\<rparr>"
  from finish_ok_body[OF ne, of "wenv w" "?st\<lparr>success_log := success_log ?st @ [logTxt ?st]\<rparr>"] obtain m where
    "finish_ok (wenv w) ?r (?st\<lparr>success_log := success_log ?st @ [logTxt ?st]\<rparr>)
      = Inr (200, m, ?st\<lparr>success_log := success_log ?st @ [logTxt ?st]\<rparr>)" "body m = t" by auto
  then show ?thesis using assms(1-3,7) p by (simp add: handle_query_stock_bycode_def set_logTxt_def Let_def)
qed

theorem query_answer_witness:
  "\<exists>m st2. handle_query_stock_bycode sample_world (sample_request query_body) message_init sample_server = Inr (200, m, st2)
    \<and> Some (body m) = render True 0 (array_of [object_of (stock_fields (quote_of sample_row))])"
proof -
  let ?s = "quote_of sample_row"
  have "render True 0 (array_of [object_of (stock_fields ?s)]) \<noteq> None"
    "length (the (render True 0 (array_of [object_of (stock_fields ?s)]))) < 1000" by code_simp+
  then obtain t where t: "render True 0 (array_of [object_of (stock_fields ?s)]) = Some t" "int (length t) + 6 \<le> INT_MAX"
    by (auto simp: limit_defs)
  have q: "\<exists>st1. queryStockbyCode (wclock sample_world) ''600028'' StockClass0 sample_server = Inr (0, ?s, st1)"
  proof -
    have "quote_queryStockbyCode ''600028'' (quote sample_server) = Some ?s"
      "length (log_line [getDateTimeString sample_clock, [CHR 0xE7, CHR 0x94, CHR 0xA8, CHR 0xE4, CHR 0xBB, CHR 0xA3, CHR 0xE7, CHR 0xA0, CHR 0x81, CHR 0xE6, CHR 0x9F, CHR 0xA5, CHR 0xE8, CHR 0x82, CHR 0xA1, CHR 0xE7, CHR 0xA5, CHR 0xA8], stock_code ?s, stock_name ?s, mkt ?s]) + 1 \<le> TXT_SIZE"
      by code_simp+
    then show ?thesis by (simp add: queryStockbyCode_def set_logTxt_def)
  qed
  have "length (query_log (wclock sample_world) ?s) < TXT_SIZE" by code_simp
  then show ?thesis
    using query_answer[of "sample_request query_body" "item_of query_body" "''600028''" sample_world sample_server ?s _ t message_init]
      sample_bodies(3,4) q t by fastforce
qed

text \<open>A withdrawal is answered with status 200 and an empty body whatever \<open>withdrawOrder\<close>
  returned: the client cannot tell a withdrawn order from one that does not exist.\<close>

theorem withdraw_answer_blind:
  assumes "withdrawOrder (wclock w) (atoi (GetParam ''order_id'' (query_params req))) st = Inr (ret, st1)"
  shows "handle_withdraw_order w req message_init st = Inr (200, message_init, st1)"
  using assms by (simp add: handle_withdraw_order_def finish_ok_empty)

theorem withdraw_answer_blind_witness:
  "\<exists>st1. withdrawOrder sample_clock 0 sample_server = Inr (- 704, st1) \<and>
    handle_withdraw_order sample_world (sample_request []) message_init sample_server = Inr (200, message_init, st1)"
proof -
  have a: "atoi (GetParam ''order_id'' (query_params (sample_request []))) = 0" by code_simp
  have "withdrawOrder sample_clock 0 sample_server = fail_with (- 704) (msg_no_order 0) sample_server"
    by (simp add: withdrawOrder_def sample_server_def)
  moreover have "length (msg_no_order 0) + 1 \<le> TXT_SIZE" by code_simp
  ultimately have w: "withdrawOrder sample_clock 0 sample_server = Inr (- 704, sample_server\<lparr>errorTxt := msg_no_order 0\<rparr>)"
    by (simp add: fail_with_def set_errorTxt_def)
  then show ?thesis using withdraw_answer_blind[of sample_world "sample_request []" sample_server "- 704"] a by simp
qed

text \<open>A purchase refused for its lot size leaves the message of an earlier request in \<open>errorTxt\<close>.\<close>

lemma lot_refusal_stale:
  assumes "buyStockbyCode clk code price n st = Inr (ret, st1)" "quote_queryStockbyCode code (quote st) = Some s"
    "account st = Some a" "mktPermission a (mkt s)" "0 < n" "lot_error s n \<noteq> None"
  shows "ret = - 500 \<and> errorTxt st1 = errorTxt st"
proof -
  obtain c where c: "lot_error s n = Some c" "c \<noteq> 0" using assms(6) lot_error_nonzero by auto
  show ?thesis using assms(1-5) c
    by (auto simp: buyStockbyCode_def queryStockbyCode_def set_logTxt_def buyStock_def the_account_def cbind_Inr_iff
      split: if_splits)
qed


text \<open>A query for an unknown code is answered with the body of the request, not with a message.\<close>

lemma query_unknown_echoes:
  assumes "parse_body (body (req_msg req)) = Inr j" "string_field j ''stock_code'' = Some code"
    "queryStockbyCode (wclock w) code StockClass0 st = Inr (- 404, s, st1)" "body (req_msg req) \<noteq> []"
  shows "\<exists>m. handle_query_stock_bycode w req resp st = Inr (400, m, st1) \<and> body m = body (req_msg req)"
  using assms by (auto simp: handle_query_stock_bycode_def response_status_def DumpBody_def Set_value_def echo_reply_def Let_def)

end
