(* ===== verification/WebSocket.thy ===== *)
theory WebSocket
  imports Prelude
begin

text \<open>
  The WebSocket codec: \<open>src/http/websocket_parser.c\<close>. The frame parser is the loop of
  \<open>websocket_parser_execute\<close> over one received buffer, with the callbacks of its
  settings as arguments; the frame builder writes into a buffer of the caller. Sizes
  (\<open>size_t\<close>) are integers modulo \<open>2 ^ 64\<close>; pointers are addresses of a flat 64-bit
  memory, so that the test \<open>p + parser->require <= end\<close> wraps as the machine computes it.

  The parser is related to a machine that takes one byte at a time
  (\<open>ws_byte\<close>): the two agree however the stream is cut into buffers.
\<close>

unbundle bit_operations_syntax

section \<open>Data\<close>

definition SIZE_MOD :: int where "SIZE_MOD = 18446744073709551616"

datatype ws_state = s_start | s_head | s_length | s_mask | s_body

definition WS_OP_CONTINUE :: int where "WS_OP_CONTINUE = 0x0"
definition WS_OP_TEXT :: int where "WS_OP_TEXT = 0x1"
definition WS_OP_BINARY :: int where "WS_OP_BINARY = 0x2"
definition WS_OP_CLOSE :: int where "WS_OP_CLOSE = 0x8"
definition WS_OP_PING :: int where "WS_OP_PING = 0x9"
definition WS_OP_PONG :: int where "WS_OP_PONG = 0xA"
definition WS_FINAL_FRAME :: int where "WS_FINAL_FRAME = 0x10"
definition WS_HAS_MASK :: int where "WS_HAS_MASK = 0x20"
definition WS_OP_MASK :: int where "WS_OP_MASK = 0xF"

lemmas ws_flag_defs = WS_OP_CONTINUE_def WS_OP_TEXT_def WS_OP_BINARY_def WS_OP_CLOSE_def
  WS_OP_PING_def WS_OP_PONG_def WS_FINAL_FRAME_def WS_HAS_MASK_def WS_OP_MASK_def

abbreviation WS_FIN :: int where "WS_FIN \<equiv> WS_FINAL_FRAME"

record websocket_parser =
  ws_state :: ws_state
  flags :: int
  mask :: string
  mask_offset :: int
  ws_length :: int
  require :: int
  offset :: int

definition websocket_parser_init :: websocket_parser where
  "websocket_parser_init = \<lparr> ws_state = s_start, flags = 0, mask = replicate 4 NUL,
     mask_offset = 0, ws_length = 0, require = 0, offset = 0 \<rparr>"

text \<open>
  The callbacks. Each returns an \<open>int\<close>; the body callback may rewrite the bytes it is
  given and advance \<open>mask_offset\<close>, as \<open>websocket_parser_decode\<close> does. A callback that
  throws or reads outside what it is given is an error value.
\<close>

record 'u websocket_parser_settings =
  on_frame_header :: "websocket_parser \<Rightarrow> 'u \<Rightarrow> (int \<times> 'u) cres"
  on_frame_body :: "websocket_parser \<Rightarrow> string \<Rightarrow> 'u \<Rightarrow> (int \<times> string \<times> int \<times> 'u) cres"
  on_frame_end :: "websocket_parser \<Rightarrow> 'u \<Rightarrow> (int \<times> 'u) cres"

section \<open>Masking\<close>

definition xor_char :: "char \<Rightarrow> char \<Rightarrow> char" where
  "xor_char a b = char_of (byte_of a XOR byte_of b)"

definition websocket_decode :: "string \<Rightarrow> string \<Rightarrow> int \<Rightarrow> string \<times> int" where
  "websocket_decode src m off =
     (map (\<lambda>i. xor_char (src ! i) (m ! nat ((int i + off) mod 4))) [0..<length src],
      (int (length src) + off) mod 4)"

definition websocket_parser_decode :: "string \<Rightarrow> websocket_parser \<Rightarrow> string \<times> int" where
  "websocket_parser_decode src prs = websocket_decode src (mask prs) (mask_offset prs)"

section \<open>The parser\<close>

text \<open>
  One iteration of the loop either leaves the function (a callback returned non-zero) with
  the number of bytes parsed, or goes on. The buffer is the bytes before \<open>p\<close> and the
  bytes from \<open>p\<close> on; \<open>frame_offset\<close> is the local variable of that name.
\<close>

datatype 'u ws_iter =
    Return websocket_parser 'u string int
  | Continue websocket_parser 'u string string int

definition notify ::
  "(int \<times> 'u) cres \<Rightarrow> ('u \<Rightarrow> 'u ws_iter cres) \<Rightarrow> ('u \<Rightarrow> 'u ws_iter cres) \<Rightarrow> 'u ws_iter cres" where
  "notify r ret k = cbind r (\<lambda>(rc, u). if rc \<noteq> 0 then ret u else k u)"

text \<open>The end of a header: what follows the length or the mask.\<close>

definition header_done ::
  "'u websocket_parser_settings \<Rightarrow> websocket_parser \<Rightarrow> 'u \<Rightarrow> ('u \<Rightarrow> websocket_parser \<Rightarrow> 'u ws_iter cres)
     \<Rightarrow> ('u \<Rightarrow> websocket_parser \<Rightarrow> 'u ws_iter cres) \<Rightarrow> 'u ws_iter cres" where
  "header_done st prs u ret k =
     (if ws_length prs \<noteq> 0 then
        (let prs' = prs \<lparr> ws_state := s_body, require := ws_length prs \<rparr>
         in notify (on_frame_header st prs' u) (\<lambda>u. ret u prs') (\<lambda>u. k u prs'))
      else
        (let prs' = prs \<lparr> ws_state := s_start \<rparr>
         in notify (on_frame_header st prs' u) (\<lambda>u. ret u prs')
              (\<lambda>u. notify (on_frame_end st prs' u) (\<lambda>u. ret u prs') (\<lambda>u. k u prs'))))"

definition s_start_case :: "websocket_parser \<Rightarrow> char \<Rightarrow> websocket_parser" where
  "s_start_case prs c = prs \<lparr> offset := 0, ws_length := 0, mask_offset := 0,
     flags := (byte_of c AND WS_OP_MASK) OR (if byte_of c AND 0x80 \<noteq> 0 then WS_FIN else 0),
     ws_state := s_head \<rparr>"

definition s_head_flags :: "websocket_parser \<Rightarrow> char \<Rightarrow> websocket_parser" where
  "s_head_flags prs c = prs \<lparr> ws_length := byte_of c AND 0x7F,
     flags := (if byte_of c AND 0x80 \<noteq> 0 then flags prs OR WS_HAS_MASK else flags prs) \<rparr>"

text \<open>The inner loops of the cases \<open>s_length\<close> and \<open>s_mask\<close>.\<close>

fun read_length :: "websocket_parser \<Rightarrow> string \<Rightarrow> websocket_parser \<times> string \<times> string" where
  "read_length prs [] = (prs, [], [])"
| "read_length prs (c # cs) =
     (if require prs = 0 then (prs, [], c # cs)
      else (let (prs', d, r) = read_length (prs \<lparr>
                  ws_length := ((ws_length prs * 256) mod SIZE_MOD) OR byte_of c,
                  require := require prs - 1 \<rparr>) cs
            in (prs', c # d, r)))"

fun read_mask :: "websocket_parser \<Rightarrow> string \<Rightarrow> websocket_parser \<times> string \<times> string" where
  "read_mask prs [] = (prs, [], [])"
| "read_mask prs (c # cs) =
     (if require prs = 0 then (prs, [], c # cs)
      else (let (prs', d, r) = read_mask (prs \<lparr>
                  mask := (mask prs)[nat (4 - require prs) := c],
                  require := require prs - 1 \<rparr>) cs
            in (prs', c # d, r)))"

text \<open>
  The body case. \<open>base\<close> is the address of the buffer. A region that reaches past the end
  of the buffer is handed to the callback, which reads it: that is out of bounds.
\<close>

definition s_body_case ::
  "'u websocket_parser_settings \<Rightarrow> int \<Rightarrow> websocket_parser \<Rightarrow> 'u \<Rightarrow> string \<Rightarrow> string \<Rightarrow> int \<Rightarrow> 'u ws_iter cres" where
  "s_body_case st base prs u pre rest fo =
     (let p = int (length pre); len = p + int (length rest);
          fin = (\<lambda>prs u pre rest fo n.
             if require prs = 0 then
               notify (on_frame_end st prs u) (\<lambda>u. Inr (Return prs u (pre @ rest) n))
                 (\<lambda>u. Inr (Continue (prs \<lparr> ws_state := s_start \<rparr>) u pre rest fo))
             else Inr (Continue prs u pre rest fo))
      in if 0 < require prs then
           (if (base + p + require prs) mod SIZE_MOD \<le> (base + len) mod SIZE_MOD then
              (if require prs > int (length rest) then Inl OutOfBounds
               else let k = nat (require prs) in
                 cbind (on_frame_body st prs (take k rest) u) (\<lambda>(rc, b, mo, u).
                   if rc \<noteq> 0 then Inr (Return (prs \<lparr> mask_offset := mo \<rparr>) u (pre @ b @ drop k rest) p)
                   else fin (prs \<lparr> mask_offset := mo, require := 0 \<rparr>) u (pre @ b) (drop k rest)
                          (p + int k) (p + int k - 1)))
            else
              cbind (on_frame_body st prs rest u) (\<lambda>(rc, b, mo, u).
                if rc \<noteq> 0 then Inr (Return (prs \<lparr> mask_offset := mo \<rparr>) u (pre @ b) p)
                else fin (prs \<lparr> mask_offset := mo, require := require prs - int (length rest),
                          offset := (offset prs + (len - fo)) mod SIZE_MOD \<rparr>) u (pre @ b) [] 0 (len - 1)))
         else fin prs u (pre @ take 1 rest) (drop 1 rest) fo p)"

definition ws_iteration ::
  "'u websocket_parser_settings \<Rightarrow> int \<Rightarrow> websocket_parser \<Rightarrow> 'u \<Rightarrow> string \<Rightarrow> char \<Rightarrow> string \<Rightarrow> int \<Rightarrow> 'u ws_iter cres" where
  "ws_iteration st base prs u pre c cs fo =
     (let p = int (length pre) in
      case ws_state prs of
        s_start \<Rightarrow> Inr (Continue (s_start_case prs c) u (pre @ [c]) cs (fo + 1))
      | s_head \<Rightarrow>
          (let prs = s_head_flags prs c;
               ret = (\<lambda>u prs. Inr (Return prs u (pre @ c # cs) p));
               k = (\<lambda>u prs. Inr (Continue prs u (pre @ [c]) cs (fo + 1)))
           in if ws_length prs \<ge> 126 then
                k u (prs \<lparr> require := (if ws_length prs = 127 then 8 else 2), ws_length := 0,
                       ws_state := s_length \<rparr>)
              else if flags prs AND WS_HAS_MASK \<noteq> 0 then
                k u (prs \<lparr> ws_state := s_mask, require := 4 \<rparr>)
              else header_done st prs u ret k)
      | s_length \<Rightarrow>
          (let (prs, d, r) = read_length prs (c # cs);
               q = p + int (length d);
               ret = (\<lambda>u prs. Inr (Return prs u (pre @ c # cs) (q - 1)));
               k = (\<lambda>u prs. Inr (Continue prs u (pre @ d) r (fo + int (length d))))
           in if require prs = 0 then
                (if flags prs AND WS_HAS_MASK \<noteq> 0 then
                   k u (prs \<lparr> ws_state := s_mask, require := 4 \<rparr>)
                 else header_done st prs u ret k)
              else k u prs)
      | s_mask \<Rightarrow>
          (let (prs, d, r) = read_mask prs (c # cs);
               q = p + int (length d);
               ret = (\<lambda>u prs. Inr (Return prs u (pre @ c # cs) (q - 1)));
               k = (\<lambda>u prs. Inr (Continue prs u (pre @ d) r (fo + int (length d))))
           in if require prs = 0 then header_done st prs u ret k else k u prs)
      | s_body \<Rightarrow> s_body_case st base prs u pre (c # cs) fo)"

fun state_rank :: "ws_state \<Rightarrow> nat" where
  "state_rank s_length = 2"
| "state_rank s_mask = 1"
| "state_rank _ = 0"

lemma read_length_split: "read_length prs cs = (prs', d, r) \<Longrightarrow> cs = d @ r"
  by (induction prs cs arbitrary: prs' d r rule: read_length.induct)
    (auto simp: Let_def split: if_splits prod.splits)

lemma read_mask_split: "read_mask prs cs = (prs', d, r) \<Longrightarrow> cs = d @ r"
  by (induction prs cs arbitrary: prs' d r rule: read_mask.induct)
    (auto simp: Let_def split: if_splits prod.splits)

definition ws_weight :: "websocket_parser \<Rightarrow> string \<Rightarrow> nat" where
  "ws_weight prs rest = 3 * length rest + state_rank (ws_state prs)"

lemma notify_InrE:
  assumes "notify r ret k = Inr x"
  obtains u where "ret u = Inr x" | u where "r = Inr (0, u)" "k u = Inr x"
  using assms by (auto simp: notify_def cbind_Inr_iff split: if_splits)

lemma header_done_Continue:
  assumes "header_done st prs u (\<lambda>u prs. Inr (Return prs u buf n)) (\<lambda>u prs. Inr (Continue prs u pre rest fo))
      = Inr (Continue prs' u' pre' rest' fo')"
  shows "state_rank (ws_state prs') = 0" "rest' = rest"
  using assms by (auto simp: header_done_def Let_def split: if_splits elim!: notify_InrE)

lemma read_length_consumes:
  assumes "read_length prs (c # cs) = (prs', d, r)"
  shows "length r \<le> Suc (length cs)" "require prs \<noteq> 0 \<Longrightarrow> length r \<le> length cs"
    "require prs = 0 \<Longrightarrow> prs' = prs"
  using assms by (auto simp: Let_def split: if_splits prod.splits dest: read_length_split)

lemma read_mask_consumes:
  assumes "read_mask prs (c # cs) = (prs', d, r)"
  shows "length r \<le> Suc (length cs)" "require prs \<noteq> 0 \<Longrightarrow> length r \<le> length cs"
    "require prs = 0 \<Longrightarrow> prs' = prs"
  using assms by (auto simp: Let_def split: if_splits prod.splits dest: read_mask_split)

lemma read_length_state: "read_length prs cs = (prs', d, r) \<Longrightarrow> ws_state prs' = ws_state prs"
  by (induction prs cs arbitrary: prs' d r rule: read_length.induct)
    (auto simp: Let_def split: if_splits prod.splits)

lemma read_mask_state: "read_mask prs cs = (prs', d, r) \<Longrightarrow> ws_state prs' = ws_state prs"
  by (induction prs cs arbitrary: prs' d r rule: read_mask.induct)
    (auto simp: Let_def split: if_splits prod.splits)

lemma state_rank_le: "state_rank s \<le> 2"
  by (cases s) auto

lemma ws_weight_less: "length r \<le> length cs \<Longrightarrow> ws_weight prs' r < ws_weight prs (c # cs)"
  using state_rank_le[of "ws_state prs'"] by (simp add: ws_weight_def)

lemma s_body_case_decreases:
  assumes "s_body_case st base prs u pre (c # cs) fo = Inr (Continue prs' u' pre' rest' fo')"
  shows "length rest' \<le> length cs"
  using assms
  by (auto simp: s_body_case_def Let_def cbind_Inr_iff split: if_splits elim!: notify_InrE)

lemma ws_iteration_decreases:
  assumes it: "ws_iteration st base prs u pre c cs fo = Inr (Continue prs' u' pre' rest' fo')"
  shows "ws_weight prs' rest' < ws_weight prs (c # cs)"
proof (cases "ws_state prs")
  case s_start
  then show ?thesis using it by (auto simp: ws_iteration_def intro: ws_weight_less)
next
  case s_head
  then have "rest' = cs" using it
    by (auto simp: ws_iteration_def Let_def header_done_Continue split: if_splits)
  then show ?thesis by (simp add: ws_weight_less)
next
  case s_length
  obtain prs1 d r where rl: "read_length prs (c # cs) = (prs1, d, r)" by (cases "read_length prs (c # cs)")
  show ?thesis
  proof (cases "require prs = 0")
    case False
    then have "length r \<le> length cs" using read_length_consumes[OF rl] by simp
    moreover have "rest' = r" using it s_length rl
      by (auto simp: ws_iteration_def Let_def header_done_Continue split: if_splits)
    ultimately show ?thesis by (simp add: ws_weight_less)
  next
    case True
    then have "prs1 = prs" "length r \<le> Suc (length cs)" using read_length_consumes[OF rl] by auto
    moreover have "rest' = r" "state_rank (ws_state prs') < 2" using it s_length rl True \<open>prs1 = prs\<close>
      by (auto simp: ws_iteration_def Let_def header_done_Continue split: if_splits)
    ultimately show ?thesis using s_length by (simp add: ws_weight_def)
  qed
next
  case s_mask
  obtain prs1 d r where rl: "read_mask prs (c # cs) = (prs1, d, r)" by (cases "read_mask prs (c # cs)")
  show ?thesis
  proof (cases "require prs = 0")
    case False
    then have "length r \<le> length cs" using read_mask_consumes[OF rl] by simp
    moreover have "rest' = r" using it s_mask rl
      by (auto simp: ws_iteration_def Let_def header_done_Continue split: if_splits)
    ultimately show ?thesis by (simp add: ws_weight_less)
  next
    case True
    then have "prs1 = prs" "length r \<le> Suc (length cs)" using read_mask_consumes[OF rl] by auto
    moreover have "rest' = r" "state_rank (ws_state prs') < 1" using it s_mask rl True \<open>prs1 = prs\<close>
      by (auto simp: ws_iteration_def Let_def header_done_Continue split: if_splits)
    ultimately show ?thesis using s_mask by (simp add: ws_weight_def)
  qed
next
  case s_body
  then show ?thesis using it
    by (auto simp: ws_iteration_def Let_def intro!: ws_weight_less dest: s_body_case_decreases)
qed

text \<open>
  The loop, from a position in the buffer to its end; the function \<open>websocket_parser_execute\<close>
  starts it at the front. The result is the parser, the user's state, the buffer and the
  number of bytes parsed (\<open>GET_NPARSED\<close>).
\<close>

function ws_loop ::
  "'u websocket_parser_settings \<Rightarrow> int \<Rightarrow> websocket_parser \<Rightarrow> 'u \<Rightarrow> string \<Rightarrow> string \<Rightarrow> int
     \<Rightarrow> (websocket_parser \<times> 'u \<times> string \<times> int) cres" where
  "ws_loop st base prs u pre [] fo = Inr (prs, u, pre, int (length pre))"
| "ws_loop st base prs u pre (c # cs) fo =
     (case ws_iteration st base prs u pre c cs fo of
        Inl e \<Rightarrow> Inl e
      | Inr (Return prs u buf n) \<Rightarrow> Inr (prs, u, buf, n)
      | Inr (Continue prs u pre rest fo) \<Rightarrow> ws_loop st base prs u pre rest fo)"
  by pat_completeness auto
termination
  by (relation "measure (\<lambda>(st, base, prs, u, pre, rest, fo). ws_weight prs rest)")
    (auto intro: ws_iteration_decreases)

definition websocket_parser_execute ::
  "websocket_parser \<Rightarrow> 'u websocket_parser_settings \<Rightarrow> int \<Rightarrow> string \<Rightarrow> 'u
     \<Rightarrow> (websocket_parser \<times> 'u \<times> string \<times> int) cres" where
  "websocket_parser_execute prs st base data u = ws_loop st base prs u [] data 0"

section \<open>The builder\<close>

definition websocket_calc_frame_size :: "int \<Rightarrow> int \<Rightarrow> int" where
  "websocket_calc_frame_size fl data_len =
     (let size = data_len + 2;
          size = (if data_len \<ge> 126 then (if data_len > 0xFFFF then size + 8 else size + 2) else size);
          size = (if fl AND WS_HAS_MASK \<noteq> 0 then size + 4 else size)
      in size mod SIZE_MOD)"

definition frame_head :: "int \<Rightarrow> int \<Rightarrow> string" where
  "frame_head fl data_len =
     (let b0 = (if fl AND WS_FIN \<noteq> 0 then 0x80 else 0) OR (fl AND WS_OP_MASK);
          b1 = (if fl AND WS_HAS_MASK \<noteq> 0 then 0x80 else 0)
      in if data_len < 126 then [char_of b0, char_of (b1 OR data_len)]
         else if data_len \<le> 0xFFFF then
           [char_of b0, char_of (b1 OR 126), char_of (drop_bit 8 data_len), char_of (data_len AND 0xFF)]
         else
           [char_of b0, char_of (b1 OR 127),
            char_of (drop_bit 56 data_len AND 0xFF), char_of (drop_bit 48 data_len AND 0xFF),
            char_of (drop_bit 40 data_len AND 0xFF), char_of (drop_bit 32 data_len AND 0xFF),
            char_of (drop_bit 24 data_len AND 0xFF), char_of (drop_bit 16 data_len AND 0xFF),
            char_of (drop_bit 8 data_len AND 0xFF), char_of (data_len AND 0xFF)])"

text \<open>\<open>m\<close> is the mask argument, \<open>None\<close> for \<open>NULL\<close>: then the bytes already in the buffer are used.\<close>

definition websocket_build_frame ::
  "string \<Rightarrow> int \<Rightarrow> string option \<Rightarrow> string \<Rightarrow> int \<Rightarrow> (string \<times> int) cres" where
  "websocket_build_frame frame fl m data data_len =
     (let hd = frame_head fl data_len; body_offset = length hd in
      cbind (wr_bytes frame 0 hd) (\<lambda>frame.
      if fl AND WS_HAS_MASK \<noteq> 0 then
        cbind (case m of Some k \<Rightarrow> wr_bytes frame body_offset (take 4 k) | None \<Rightarrow> Inr frame) (\<lambda>frame.
        cbind (rd_bytes (drop body_offset frame) 4) (\<lambda>k.
        cbind (rd_bytes data data_len) (\<lambda>src.
        cbind (wr_bytes frame (body_offset + 4) (fst (websocket_decode src k 0))) (\<lambda>frame.
        Inr (frame, (int body_offset + 4 + data_len) mod SIZE_MOD)))))
      else
        cbind (rd_bytes data data_len) (\<lambda>src.
        cbind (wr_bytes frame body_offset src) (\<lambda>frame.
        Inr (frame, (int body_offset + data_len) mod SIZE_MOD)))))"

section \<open>One byte at a time\<close>

text \<open>
  The reference: a machine that takes the stream byte by byte. It declares a payload of
  \<open>2 ^ 63\<close> bytes or more an error, as the protocol does (RFC 6455, 5.2: the most significant
  bit of the extended length must be 0).
\<close>

definition header_end ::
  "'u websocket_parser_settings \<Rightarrow> websocket_parser \<Rightarrow> 'u \<Rightarrow> (websocket_parser \<times> 'u) cres" where
  "header_end st prs u =
     (if ws_length prs \<noteq> 0 then
        (let prs = prs \<lparr> ws_state := s_body, require := ws_length prs \<rparr>
         in cbind (on_frame_header st prs u) (\<lambda>(_, u). Inr (prs, u)))
      else
        (let prs = prs \<lparr> ws_state := s_start \<rparr>
         in cbind (on_frame_header st prs u) (\<lambda>(_, u).
            cbind (on_frame_end st prs u) (\<lambda>(_, u). Inr (prs, u)))))"

definition length_end ::
  "'u websocket_parser_settings \<Rightarrow> websocket_parser \<Rightarrow> 'u \<Rightarrow> (websocket_parser \<times> 'u) cres" where
  "length_end st prs u =
     (if ws_length prs \<ge> 2 ^ 63 then Inl OutOfBounds
      else if flags prs AND WS_HAS_MASK \<noteq> 0 then Inr (prs \<lparr> ws_state := s_mask, require := 4 \<rparr>, u)
      else header_end st prs u)"

definition ws_byte ::
  "'u websocket_parser_settings \<Rightarrow> websocket_parser \<Rightarrow> 'u \<Rightarrow> char \<Rightarrow> (websocket_parser \<times> 'u) cres" where
  "ws_byte st prs u c =
     (case ws_state prs of
        s_start \<Rightarrow> Inr (s_start_case prs c, u)
      | s_head \<Rightarrow>
          (let prs = s_head_flags prs c
           in if ws_length prs \<ge> 126 then
                Inr (prs \<lparr> require := (if ws_length prs = 127 then 8 else 2), ws_length := 0,
                       ws_state := s_length \<rparr>, u)
              else length_end st prs u)
      | s_length \<Rightarrow>
          (let prs = prs \<lparr> ws_length := ws_length prs * 256 + byte_of c, require := require prs - 1 \<rparr>
           in if require prs = 0 then length_end st prs u else Inr (prs, u))
      | s_mask \<Rightarrow>
          (let prs = prs \<lparr> mask := (mask prs)[nat (4 - require prs) := c], require := require prs - 1 \<rparr>
           in if require prs = 0 then header_end st prs u else Inr (prs, u))
      | s_body \<Rightarrow>
          cbind (on_frame_body st prs [c] u) (\<lambda>(_, b, mo, u).
            let prs = prs \<lparr> mask_offset := mo, require := require prs - 1 \<rparr>
            in if require prs = 0 then
                 cbind (on_frame_end st prs u) (\<lambda>(_, u). Inr (prs \<lparr> ws_state := s_start \<rparr>, u))
               else Inr (prs, u)))"

fun ws_bytes ::
  "'u websocket_parser_settings \<Rightarrow> websocket_parser \<Rightarrow> 'u \<Rightarrow> string \<Rightarrow> (websocket_parser \<times> 'u) cres" where
  "ws_bytes st prs u [] = Inr (prs, u)"
| "ws_bytes st prs u (c # cs) = cbind (ws_byte st prs u c) (\<lambda>(prs, u). ws_bytes st prs u cs)"

lemma ws_bytes_append:
  "ws_bytes st prs u (xs @ ys) = cbind (ws_bytes st prs u xs) (\<lambda>(prs, u). ws_bytes st prs u ys)"
  by (induction xs arbitrary: prs u) (auto simp: cbind_def split: sum.splits)

definition ws_ok :: "websocket_parser \<Rightarrow> bool" where
  "ws_ok prs =
     (case ws_state prs of
        s_length \<Rightarrow> 0 < require prs \<and> require prs \<le> 8 \<and> 0 \<le> ws_length prs \<and>
                   ws_length prs < 256 ^ (8 - nat (require prs))
      | s_mask \<Rightarrow> 0 < require prs \<and> require prs \<le> 4 \<and> 0 \<le> ws_length prs \<and> ws_length prs < 2 ^ 63
      | s_body \<Rightarrow> 0 < require prs \<and> require prs < 2 ^ 63
      | _ \<Rightarrow> True)"

text \<open>The parser without the field \<open>offset\<close>, which nothing reads.\<close>

abbreviation strip :: "websocket_parser \<Rightarrow> websocket_parser" where
  "strip prs \<equiv> prs \<lparr> offset := 0 \<rparr>"


lemma or_byte: "(a * 256) OR byte_of c = a * 256 + byte_of c"
proof -
  have "(a * 256) AND byte_of c = 0"
  proof (rule bit_eqI)
    fix n
    have p: "a * 256 = push_bit 8 a" by (simp add: push_bit_eq_mult)
    have b: "byte_of c = take_bit 8 (byte_of c)" by (simp add: take_bit_eq_mod)
    show "bit ((a * 256) AND byte_of c) n = bit 0 n"
      unfolding p by (subst b) (auto simp: bit_simps)
  qed
  then show ?thesis by (simp add: disjunctive_add_eq_or)
qed

lemma length_step:
  "0 \<le> l \<Longrightarrow> l < 2 ^ 56 \<Longrightarrow> ((l * 256) mod SIZE_MOD) OR byte_of c = l * 256 + byte_of c"
  by (simp add: SIZE_MOD_def or_byte)

text \<open>
  What the codec expects of its callbacks: they return 0 and look only at what describes
  the frame, and handing over a body in two pieces is the same as handing it over in one.
\<close>

locale frame_callbacks =
  fixes st :: "'u websocket_parser_settings"
    and hd_cb :: "int \<Rightarrow> int \<Rightarrow> 'u \<Rightarrow> 'u cres"
    and body_cb :: "int \<Rightarrow> string \<Rightarrow> int \<Rightarrow> string \<Rightarrow> 'u \<Rightarrow> (string \<times> int \<times> 'u) cres"
    and end_cb :: "int \<Rightarrow> 'u \<Rightarrow> 'u cres"
  assumes header_law: "on_frame_header st prs u = cbind (hd_cb (flags prs) (ws_length prs) u) (\<lambda>u. Inr (0, u))"
    and body_law: "on_frame_body st prs xs u =
          cbind (body_cb (flags prs) (mask prs) (mask_offset prs) xs u) (\<lambda>(b, mo, u). Inr (0, b, mo, u))"
    and end_law: "on_frame_end st prs u = cbind (end_cb (flags prs) u) (\<lambda>u. Inr (0, u))"
    and body_append: "body_cb fl m mo (xs @ ys) u =
          cbind (body_cb fl m mo xs u) (\<lambda>(b, mo, u).
          cbind (body_cb fl m mo ys u) (\<lambda>(b', mo, u). Inr (b @ b', mo, u)))"
    and body_length: "body_cb fl m mo xs u = Inr (b, mo', u') \<Longrightarrow> length b = length xs"
begin

lemmas cb_laws = header_law body_law end_law

lemma header_done_end:
  assumes "header_end st (strip prs) u = Inr (p1, u1)"
  shows "\<exists>prs1. header_done st prs u ret k = k u1 prs1 \<and> strip prs1 = p1"
  using assms
  by (cases prs) (auto simp: header_done_def header_end_def notify_def cb_laws cbind_Inr_iff Let_def split: if_splits)


lemma header_end_ok:
  assumes "header_end st prs u = Inr (p1, u1)" "0 \<le> ws_length prs" "ws_length prs < 2 ^ 63"
  shows "ws_ok p1"
  using assms by (auto simp: header_end_def cbind_Inr_iff Let_def ws_ok_def split: if_splits)

lemma length_end_ok:
  assumes "length_end st prs u = Inr (p1, u1)" "0 \<le> ws_length prs"
  shows "ws_ok p1"
  using assms header_end_ok[of prs u p1 u1] by (auto simp: length_end_def ws_ok_def split: if_splits)

lemma ok_length_step:
  assumes "ws_state prs = s_length" "ws_ok prs"
  shows "0 \<le> ws_length prs" "ws_length prs < 2 ^ 56"
    "require prs \<noteq> 1 \<Longrightarrow> ws_ok (prs \<lparr> ws_length := ws_length prs * 256 + byte_of c, require := require prs - 1 \<rparr>)"
proof -
  obtain n where n: "require prs = int n" "0 < n" "n \<le> 8"
    using assms by (metis nat_0_le less_imp_le of_nat_0_less_iff of_nat_le_iff of_nat_numeral ws_ok_def ws_state.simps(23) zero_less_imp_eq_int)
  have l: "0 \<le> ws_length prs" "ws_length prs < 256 ^ (8 - n)" using assms n by (auto simp: ws_ok_def)
  show "0 \<le> ws_length prs" by (fact l)
  have "(256::int) ^ (8 - n) \<le> 256 ^ 7" by (rule power_increasing) (use n in auto)
  then show "ws_length prs < 2 ^ 56" using l by simp
  show "ws_ok (prs \<lparr> ws_length := ws_length prs * 256 + byte_of c, require := require prs - 1 \<rparr>)"
    if "require prs \<noteq> 1"
  proof -
    have e: "8 - nat (int n - 1) = Suc (8 - n)" using n that by simp
    have "ws_length prs * 256 + byte_of c < (ws_length prs + 1) * 256"
      using byte_of_less[of c] by (simp add: algebra_simps)
    also have "\<dots> \<le> 256 ^ (8 - n) * 256" using l by simp
    finally show ?thesis using n that l assms(1) byte_of_nonneg[of c] by (simp add: ws_ok_def e mult.commute)
  qed
qed

lemma read_length_sim:
  assumes "ws_state prs = s_length" "ws_ok prs" "read_length prs cs = (prs1, d, r)"
    "ws_bytes st (strip prs) u cs = Inr X" "cs \<noteq> []"
  shows "if require prs1 = 0
    then 0 \<le> ws_length prs1 \<and> (\<exists>p u1. length_end st (strip prs1) u = Inr (p, u1) \<and> ws_bytes st (strip prs) u d = Inr (p, u1))
    else r = [] \<and> ws_ok prs1 \<and> ws_bytes st (strip prs) u d = Inr (strip prs1, u)"
  using assms
proof (induction cs arbitrary: prs prs1 d r)
  case Nil
  then show ?case by simp
next
  case (Cons c cs)
  let ?p = "prs \<lparr> ws_length := ws_length prs * 256 + byte_of c, require := require prs - 1 \<rparr>"
  note ok = ok_length_step[OF Cons.prems(1,2)]
  have req: "require prs \<noteq> 0" using Cons.prems by (auto simp: ws_ok_def)
  obtain d1 where rl: "read_length ?p cs = (prs1, d1, r)" and d: "d = c # d1"
    using Cons.prems(3) req ok by (auto simp: Let_def length_step split: prod.splits)
  have byte: "ws_byte st (strip prs) u c =
      (if require prs = 1 then length_end st (strip ?p) u else Inr (strip ?p, u))"
    using Cons.prems(1) by (cases prs) (simp add: ws_byte_def Let_def)
  show ?case
  proof (cases "require prs = 1")
    case True
    have "prs1 = ?p" "d1 = []" using rl True by (cases cs; simp)+
    moreover obtain p u1 where "length_end st (strip ?p) u = Inr (p, u1)"
      using Cons.prems(4) byte True by (auto simp: cbind_Inr_iff)
    ultimately show ?thesis using True byte d ok by simp
  next
    case False
    show ?thesis
    proof (cases "cs = []")
      case True
      then have "prs1 = ?p" "d1 = []" "r = []" using rl by auto
      then show ?thesis using False byte d ok(3)[OF False] req by simp
    next
      case ne: False
      have "ws_bytes st (strip ?p) u cs = Inr X" using Cons.prems(4) byte False by simp
      from Cons.IH[OF _ ok(3)[OF False] rl this ne] show ?thesis
        using Cons.prems(1) d byte False by (simp split: if_splits)
    qed
  qed
qed

lemma read_mask_sim:
  assumes "ws_state prs = s_mask" "ws_ok prs" "read_mask prs cs = (prs1, d, r)"
    "ws_bytes st (strip prs) u cs = Inr X" "cs \<noteq> []"
  shows "if require prs1 = 0
    then 0 \<le> ws_length prs1 \<and> ws_length prs1 < 2 ^ 63 \<and>
      (\<exists>p u1. header_end st (strip prs1) u = Inr (p, u1) \<and> ws_bytes st (strip prs) u d = Inr (p, u1))
    else r = [] \<and> ws_ok prs1 \<and> ws_bytes st (strip prs) u d = Inr (strip prs1, u)"
  using assms
proof (induction cs arbitrary: prs prs1 d r)
  case Nil
  then show ?case by simp
next
  case (Cons c cs)
  let ?p = "prs \<lparr> mask := (mask prs)[nat (4 - require prs) := c], require := require prs - 1 \<rparr>"
  have req: "require prs \<noteq> 0" and len: "0 \<le> ws_length prs" "ws_length prs < 2 ^ 63"
    using Cons.prems by (auto simp: ws_ok_def)
  obtain d1 where rl: "read_mask ?p cs = (prs1, d1, r)" and d: "d = c # d1"
    using Cons.prems(3) req by (auto simp: Let_def split: prod.splits)
  have byte: "ws_byte st (strip prs) u c =
      (if require prs = 1 then header_end st (strip ?p) u else Inr (strip ?p, u))"
    using Cons.prems(1) by (cases prs) (simp add: ws_byte_def Let_def)
  show ?case
  proof (cases "require prs = 1")
    case True
    have "prs1 = ?p" "d1 = []" using rl True by (cases cs; simp)+
    moreover obtain p u1 where "header_end st (strip ?p) u = Inr (p, u1)"
      using Cons.prems(4) byte True by (auto simp: cbind_Inr_iff)
    ultimately show ?thesis using True byte d len by simp
  next
    case False
    have okp: "ws_ok ?p" using Cons.prems(1,2) False by (simp add: ws_ok_def)
    show ?thesis
    proof (cases "cs = []")
      case True
      then have "prs1 = ?p" "d1 = []" "r = []" using rl by auto
      then show ?thesis using False byte d okp req by simp
    next
      case ne: False
      have "ws_bytes st (strip ?p) u cs = Inr X" using Cons.prems(4) byte False by simp
      from Cons.IH[OF _ okp rl this ne] show ?thesis
        using Cons.prems(1) d byte False by (simp split: if_splits)
    qed
  qed
qed

end

lemma ws_bytes_prefix:
  assumes "ws_bytes st prs u (xs @ ys) = Inr X"
  obtains p1 u1 where "ws_bytes st prs u xs = Inr (p1, u1)" "ws_bytes st p1 u1 ys = Inr X"
  using assms by (auto simp: ws_bytes_append cbind_Inr_iff)

lemma ws_ok_s_start: "ws_ok (prs \<lparr> ws_state := s_start \<rparr>)"
  by (simp add: ws_ok_def)

context frame_callbacks
begin

lemma body_run:
  assumes "ws_state prs = s_body" "xs \<noteq> []" "int (length xs) \<le> require prs"
  shows "ws_bytes st prs u xs =
    cbind (body_cb (flags prs) (mask prs) (mask_offset prs) xs u) (\<lambda>(b, mo, u1).
      let p = prs \<lparr> mask_offset := mo, require := require prs - int (length xs) \<rparr>
      in if int (length xs) = require prs
         then cbind (end_cb (flags prs) u1) (\<lambda>u2. Inr (p \<lparr> ws_state := s_start \<rparr>, u2))
         else Inr (p, u1))"
  using assms
proof (induction xs arbitrary: prs u)
  case Nil
  then show ?case by simp
next
  case (Cons c cs)
  show ?case
  proof (cases "cs = []")
    case True
    then show ?thesis using Cons.prems(1)
      by (auto simp: ws_byte_def cb_laws cbind_def Let_def split: sum.splits)
  next
    case False
    then have n1: "require prs \<noteq> 1" using Cons.prems(3) by (cases cs) auto
    have IH: "ws_bytes st (prs \<lparr> mask_offset := mo, require := require prs - 1 \<rparr>) u1 cs =
      cbind (body_cb (flags prs) (mask prs) mo cs u1) (\<lambda>(b, mo, u1).
      let p = prs \<lparr> mask_offset := mo, require := require prs - int (length (c # cs)) \<rparr>
      in if int (length (c # cs)) = require prs
         then cbind (end_cb (flags prs) u1) (\<lambda>u2. Inr (p \<lparr> ws_state := s_start \<rparr>, u2))
         else Inr (p, u1))" for mo u1
      using Cons.IH[of "prs \<lparr> mask_offset := mo, require := require prs - 1 \<rparr>" u1] Cons.prems(1,3) False
      by (simp add: diff_diff_eq eq_diff_eq add.commute cong: if_cong)
    have "ws_bytes st prs u (c # cs) =
      cbind (body_cb (flags prs) (mask prs) (mask_offset prs) [c] u) (\<lambda>(b, mo, u1).
        ws_bytes st (prs \<lparr> mask_offset := mo, require := require prs - 1 \<rparr>) u1 cs)"
      using Cons.prems(1) n1 by (auto simp: ws_byte_def cb_laws cbind_def Let_def split: sum.splits)
    also have "\<dots> = cbind (body_cb (flags prs) (mask prs) (mask_offset prs) ([c] @ cs) u) (\<lambda>(b, mo, u1).
      let p = prs \<lparr> mask_offset := mo, require := require prs - int (length (c # cs)) \<rparr>
      in if int (length (c # cs)) = require prs
         then cbind (end_cb (flags prs) u1) (\<lambda>u2. Inr (p \<lparr> ws_state := s_start \<rparr>, u2))
         else Inr (p, u1))"
      unfolding body_append IH by (auto simp: cbind_def split: sum.splits)
    finally show ?thesis by simp
  qed
qed

lemma body_sim:
  assumes "ws_state prs = s_body" "xs \<noteq> []" "int (length xs) \<le> require prs"
    "ws_bytes st (strip prs) u xs = Inr X"
  shows "\<exists>b mo u1. body_cb (flags prs) (mask prs) (mask_offset prs) xs u = Inr (b, mo, u1) \<and>
     (if int (length xs) = require prs
      then \<exists>u2. end_cb (flags prs) u1 = Inr u2 \<and>
        X = (prs \<lparr> offset := 0, mask_offset := mo, require := 0, ws_state := s_start \<rparr>, u2)
      else X = (prs \<lparr> offset := 0, mask_offset := mo, require := require prs - int (length xs) \<rparr>, u1))"
  using assms(4) body_run[of "strip prs" xs u] assms(1-3)
  by (auto simp: cbind_Inr_iff Let_def split: if_splits)

lemma s_body_case_sim:
  assumes "ws_state prs = s_body" "ws_ok prs" "ws_bytes st (strip prs) u (c # cs) = Inr X"
    "0 \<le> base" "base + int (length pre) + int (length (c # cs)) < 2 ^ 63"
  shows "\<exists>prs1 u1 pre1 d r fo1. s_body_case st base prs u pre (c # cs) fo = Inr (Continue prs1 u1 pre1 r fo1) \<and>
     c # cs = d @ r \<and> length pre1 = length pre + length d \<and>
     ws_bytes st (strip prs) u d = Inr (strip prs1, u1) \<and> ws_ok prs1"
proof -
  let ?xs = "c # cs"
  have req: "0 < require prs" "require prs < 2 ^ 63" using assms by (auto simp: ws_ok_def)
  have nowrap: "((base + int (length pre) + require prs) mod SIZE_MOD
       \<le> (base + (int (length pre) + int (length ?xs))) mod SIZE_MOD) = (require prs \<le> int (length ?xs))"
    using assms(4,5) req by (simp add: SIZE_MOD_def)
  show ?thesis
  proof (cases "require prs \<le> int (length ?xs)")
    case True
    define k where "k = nat (require prs)"
    have k: "int k = require prs" "0 < k" "k \<le> length ?xs" using True req by (auto simp: k_def)
    obtain X1 where X1: "ws_bytes st (strip prs) u (take k ?xs) = Inr X1"
      using assms(3) ws_bytes_prefix[of st "strip prs" u "take k ?xs" "drop k ?xs" X]
      by (metis append_take_drop_id)
    have len: "length (take k ?xs) = k" using k by simp
    obtain b mo u1 u2 where
      b: "body_cb (flags prs) (mask prs) (mask_offset prs) (take k ?xs) u = Inr (b, mo, u1)"
      and e: "end_cb (flags prs) u1 = Inr u2"
      and X1': "X1 = (prs \<lparr> offset := 0, mask_offset := mo, require := 0, ws_state := s_start \<rparr>, u2)"
      using body_sim[OF assms(1) _ _ X1] k len by auto
    have "s_body_case st base prs u pre ?xs fo =
        Inr (Continue (prs \<lparr> mask_offset := mo, require := 0, ws_state := s_start \<rparr>) u2 (pre @ b) (drop k ?xs)
              (int (length pre) + int k))"
      using req nowrap True b e by (simp add: s_body_case_def Let_def cb_laws notify_def k_def[symmetric])
    moreover have "?xs = take k ?xs @ drop k ?xs" by simp
    moreover have "length (pre @ b) = length pre + length (take k ?xs)" using body_length[OF b] by simp
    moreover have "ws_bytes st (strip prs) u (take k ?xs)
        = Inr (strip (prs \<lparr> mask_offset := mo, require := 0, ws_state := s_start \<rparr>), u2)"
      using X1 X1' by (cases prs) simp
    ultimately show ?thesis by (blast intro: ws_ok_s_start)
  next
    case False
    then have l: "int (length ?xs) < require prs" by simp
    obtain b mo u1 where
      b: "body_cb (flags prs) (mask prs) (mask_offset prs) ?xs u = Inr (b, mo, u1)"
      and X': "X = (prs \<lparr> offset := 0, mask_offset := mo, require := require prs - int (length ?xs) \<rparr>, u1)"
      using body_sim[OF assms(1) _ _ assms(3)] l by auto
    let ?p1 = "prs \<lparr> mask_offset := mo, require := require prs - int (length ?xs),
        offset := (offset prs + (int (length pre) + int (length ?xs) - fo)) mod SIZE_MOD \<rparr>"
    have "s_body_case st base prs u pre ?xs fo = Inr (Continue ?p1 u1 (pre @ b) [] 0)"
      using req nowrap l b by (simp add: s_body_case_def Let_def cb_laws notify_def)
    moreover have "length (pre @ b) = length pre + length ?xs" using body_length[OF b] by simp
    moreover have "ws_bytes st (strip prs) u ?xs = Inr (strip ?p1, u1)"
      using assms(3) X' by (cases prs) simp
    moreover have "ws_ok ?p1" using assms(1) req l by (simp add: ws_ok_def)
    ultimately show ?thesis by (metis append_Nil2)
  qed
qed

end

text \<open>Feeding a list of buffers, each at an address of its own.\<close>

fun ws_feed ::
  "'u websocket_parser_settings \<Rightarrow> websocket_parser \<Rightarrow> 'u \<Rightarrow> (int \<times> string) list \<Rightarrow> (websocket_parser \<times> 'u) cres" where
  "ws_feed st prs u [] = Inr (prs, u)"
| "ws_feed st prs u ((base, buf) # bufs) =
     cbind (websocket_parser_execute prs st base buf u) (\<lambda>(prs, u, _, n).
       if n = int (length buf) then ws_feed st prs u bufs else Inr (prs, u))"

definition addressable :: "int \<times> string \<Rightarrow> bool" where
  "addressable b = (0 \<le> fst b \<and> fst b + int (length (snd b)) < 2 ^ 63)"

lemma ws_ok_init: "ws_ok websocket_parser_init"
  by (simp add: ws_ok_def websocket_parser_init_def)

lemma low_7_bits: "0 \<le> byte_of c AND 0x7F" "byte_of c AND 0x7F < 128"
proof -
  have "byte_of c AND 0x7F = take_bit 7 (byte_of c)" by (simp add: take_bit_eq_mask mask_eq_exp_minus_1)
  then show "0 \<le> byte_of c AND 0x7F" "byte_of c AND 0x7F < 128" by (simp_all add: take_bit_eq_mod)
qed

lemma ws_ok_s_length: "l = 0 \<Longrightarrow> r = 8 \<or> r = 2 \<Longrightarrow> ws_ok (prs \<lparr> require := r, ws_length := l, ws_state := s_length \<rparr>)"
  by (auto simp: ws_ok_def)

lemma ws_ok_strip: "ws_ok (strip prs) = ws_ok prs"
  by (simp add: ws_ok_def cong: ws_state.case_cong)

context frame_callbacks
begin

lemma length_end_sim:
  assumes "length_end st (strip prs) u = Inr (p1, u1)" "0 \<le> ws_length prs"
  shows "\<exists>prs1. (if flags prs AND WS_HAS_MASK \<noteq> 0 then k u (prs \<lparr> ws_state := s_mask, require := 4 \<rparr>)
      else header_done st prs u ret k) = k u1 prs1 \<and> strip prs1 = p1 \<and> ws_ok prs1"
proof (cases "flags prs AND WS_HAS_MASK \<noteq> 0")
  case True
  then have "u1 = u" "strip (prs \<lparr> ws_state := s_mask, require := 4 \<rparr>) = p1" "ws_length prs < 2 ^ 63"
    using assms(1) by (cases prs; auto simp: length_end_def split: if_splits)+
  then show ?thesis using True assms(2) by (auto simp: ws_ok_def)
next
  case False
  then have he: "header_end st (strip prs) u = Inr (p1, u1)"
    using assms(1) by (auto simp: length_end_def split: if_splits)
  from header_done_end[OF he, of ret k] obtain prs1
    where "header_done st prs u ret k = k u1 prs1" "strip prs1 = p1" by blast
  moreover have "ws_ok p1" using length_end_ok[OF assms(1)] assms(2) by simp
  then have "ws_ok prs1" using \<open>strip prs1 = p1\<close> ws_ok_strip by blast
  ultimately show ?thesis using False by auto
qed

lemma ws_iteration_sim:
  assumes ok: "ws_ok prs" and run: "ws_bytes st (strip prs) u (c # cs) = Inr X"
    and addr: "0 \<le> base" "base + int (length pre) + int (length (c # cs)) < 2 ^ 63"
  shows "\<exists>prs1 u1 pre1 d r fo1. ws_iteration st base prs u pre c cs fo = Inr (Continue prs1 u1 pre1 r fo1) \<and>
     c # cs = d @ r \<and> length pre1 = length pre + length d \<and>
     ws_bytes st (strip prs) u d = Inr (strip prs1, u1) \<and> ws_ok prs1"
proof (cases "ws_state prs")
  case s_start
  have b: "ws_byte st (strip prs) u c = Inr (strip (s_start_case prs c), u)"
    using s_start by (cases prs) (simp add: ws_byte_def s_start_case_def)
  have "ws_ok (s_start_case prs c)" by (simp add: s_start_case_def ws_ok_def)
  with b s_start show ?thesis
    by (intro exI[of _ "s_start_case prs c"] exI[of _ u] exI[of _ "pre @ [c]"] exI[of _ "[c]"] exI[of _ cs])
      (simp add: ws_iteration_def)
next
  case s_head
  let ?p = "s_head_flags prs c"
  have st: "s_head_flags (strip prs) c = strip ?p" by (cases prs) (simp add: s_head_flags_def)
  obtain p1 u1 where b: "ws_byte st (strip prs) u c = Inr (p1, u1)"
    using run by (auto simp: cbind_Inr_iff)
  let ?k = "\<lambda>u prs. Inr (Continue prs u (pre @ [c]) cs (fo + 1))"
  have "\<exists>prs1. ws_iteration st base prs u pre c cs fo = ?k u1 prs1 \<and> strip prs1 = p1 \<and> ws_ok prs1"
  proof (cases "ws_length ?p \<ge> 126")
    case True
    let ?q = "?p \<lparr> require := (if ws_length ?p = 127 then 8 else 2), ws_length := 0, ws_state := s_length \<rparr>"
    have "u1 = u" "strip ?q = p1"
      using b s_head True by (cases ?p; simp add: ws_byte_def st)+
    moreover have "ws_ok ?q" by (rule ws_ok_s_length) auto
    moreover have "ws_iteration st base prs u pre c cs fo = ?k u ?q"
      using s_head True by (simp add: ws_iteration_def Let_def)
    ultimately show ?thesis by blast
  next
    case False
    then have le: "length_end st (strip ?p) u = Inr (p1, u1)" using b s_head by (simp add: ws_byte_def st)
    have "0 \<le> ws_length ?p" by (simp add: s_head_flags_def low_7_bits)
    from length_end_sim[OF le this, of ?k "\<lambda>u prs. Inr (Return prs u (pre @ c # cs) (int (length pre)))"]
    show ?thesis using s_head False by (simp add: ws_iteration_def Let_def)
  qed
  then obtain prs1 where "ws_iteration st base prs u pre c cs fo = ?k u1 prs1" "strip prs1 = p1" "ws_ok prs1"
    by blast
  with b show ?thesis
    by (intro exI[of _ prs1] exI[of _ u1] exI[of _ "pre @ [c]"] exI[of _ "[c]"] exI[of _ cs]) simp
next
  case s_length
  obtain p1 d r where rl: "read_length prs (c # cs) = (p1, d, r)" by (cases "read_length prs (c # cs)")
  note sim = read_length_sim[OF s_length ok rl run list.distinct(2)]
  show ?thesis
  proof (cases "require p1 = 0")
    case True
    with sim obtain p u1 where le: "length_end st (strip p1) u = Inr (p, u1)" "0 \<le> ws_length p1"
      and bs: "ws_bytes st (strip prs) u d = Inr (p, u1)" by auto
    from length_end_sim[OF le, of "\<lambda>u prs. Inr (Continue prs u (pre @ d) r (fo + int (length d)))"
        "\<lambda>u prs. Inr (Return prs u (pre @ c # cs) (int (length pre) + int (length d) - 1))"]
    show ?thesis using s_length True rl bs read_length_split[OF rl]
      by (fastforce simp: ws_iteration_def Let_def)
  next
    case False
    with sim show ?thesis using s_length rl read_length_split[OF rl]
      by - (rule exI[of _ p1], rule exI[of _ u], rule exI[of _ "pre @ d"], rule exI[of _ d], rule exI[of _ r],
         simp add: ws_iteration_def Let_def)
  qed
next
  case s_mask
  obtain p1 d r where rl: "read_mask prs (c # cs) = (p1, d, r)" by (cases "read_mask prs (c # cs)")
  note sim = read_mask_sim[OF s_mask ok rl run list.distinct(2)]
  show ?thesis
  proof (cases "require p1 = 0")
    case True
    with sim obtain p u1 where he: "header_end st (strip p1) u = Inr (p, u1)"
      and l: "0 \<le> ws_length p1" "ws_length p1 < 2 ^ 63"
      and bs: "ws_bytes st (strip prs) u d = Inr (p, u1)" by auto
    from header_done_end[OF he, of "\<lambda>u prs. Inr (Return prs u (pre @ c # cs) (int (length pre) + int (length d) - 1))"
       "\<lambda>u prs. Inr (Continue prs u (pre @ d) r (fo + int (length d)))"]
    obtain prs1 where hd: "header_done st p1 u (\<lambda>u prs. Inr (Return prs u (pre @ c # cs) (int (length pre) + int (length d) - 1)))
       (\<lambda>u prs. Inr (Continue prs u (pre @ d) r (fo + int (length d)))) = Inr (Continue prs1 u1 (pre @ d) r (fo + int (length d)))"
      and sp: "strip prs1 = p" by blast
    have "ws_ok p" using header_end_ok[OF he] l by simp
    then have "ws_ok prs1" using sp ws_ok_strip by blast
    then show ?thesis using s_mask True rl bs read_mask_split[OF rl] hd sp
      by (fastforce simp: ws_iteration_def Let_def)
  next
    case False
    with sim show ?thesis using s_mask rl read_mask_split[OF rl]
      by - (rule exI[of _ p1], rule exI[of _ u], rule exI[of _ "pre @ d"], rule exI[of _ d], rule exI[of _ r],
         simp add: ws_iteration_def Let_def)
  qed
next
  case s_body
  from s_body_case_sim[OF s_body ok run addr] s_body show ?thesis by (simp add: ws_iteration_def Let_def)
qed

lemma ws_loop_sim:
  assumes "ws_ok prs" "ws_bytes st (strip prs) u rest = Inr (p2, u2)"
    "0 \<le> base" "base + int (length pre) + int (length rest) < 2 ^ 63"
  shows "\<exists>prs2 buf. ws_loop st base prs u pre rest fo = Inr (prs2, u2, buf, int (length pre) + int (length rest)) \<and>
     strip prs2 = p2 \<and> ws_ok prs2"
  using assms
proof (induction "ws_weight prs rest" arbitrary: prs u pre rest fo rule: less_induct)
  case less
  show ?case
  proof (cases rest)
    case Nil
    then show ?thesis using less.prems by auto
  next
    case (Cons c cs)
    from ws_iteration_sim[OF less.prems(1) less.prems(2)[unfolded Cons] less.prems(3) less.prems(4)[unfolded Cons], of fo]
    obtain prs1 u1 pre1 d r fo1 where
      it: "ws_iteration st base prs u pre c cs fo = Inr (Continue prs1 u1 pre1 r fo1)"
      and cut: "c # cs = d @ r" and len: "length pre1 = length pre + length d"
      and bs: "ws_bytes st (strip prs) u d = Inr (strip prs1, u1)" and ok1: "ws_ok prs1" by blast
    have "ws_bytes st (strip prs1) u1 r = Inr (p2, u2)"
      using less.prems(2) bs unfolding Cons cut ws_bytes_append by simp
    moreover have n: "int (length pre1) + int (length r) = int (length pre) + int (length rest)"
      using cut len Cons by (metis length_append of_nat_add add.assoc)
    ultimately show ?thesis
      using less.hyps[OF _ ok1 _ less.prems(3), of r u1 pre1 fo1] ws_iteration_decreases[OF it] less.prems(4) it Cons
      by (simp add: add.assoc)
  qed
qed

text \<open>The buffered parser agrees with the byte machine however the stream is cut.\<close>

lemma feed_sim:
  assumes "ws_ok prs" "ws_bytes st (strip prs) u (concat (map snd bufs)) = Inr (p2, u2)" "list_all addressable bufs"
  shows "\<exists>prs2. ws_feed st prs u bufs = Inr (prs2, u2) \<and> strip prs2 = p2 \<and> ws_ok prs2"
  using assms
proof (induction bufs arbitrary: prs u)
  case Nil
  then show ?case by auto
next
  case (Cons b bufs)
  obtain base buf where b: "b = (base, buf)" by (cases b)
  obtain p1 u1 where r1: "ws_bytes st (strip prs) u buf = Inr (p1, u1)"
    and r2: "ws_bytes st p1 u1 (concat (map snd bufs)) = Inr (p2, u2)"
    using Cons.prems(2) b by (auto elim: ws_bytes_prefix)
  have "0 \<le> base" "base + int (length []) + int (length buf) < 2 ^ 63"
    using Cons.prems(3) b by (auto simp: addressable_def)
  from ws_loop_sim[OF Cons.prems(1) r1 this, of 0] obtain prs2 out
    where "ws_loop st base prs u [] buf 0 = Inr (prs2, u1, out, int (length buf))" "strip prs2 = p1" "ws_ok prs2"
    by auto
  with Cons.IH[of prs2 u1] Cons.prems(3) r2 b show ?case
    by (simp add: websocket_parser_execute_def)
qed

end

end
