(* ===== verification/WsSession.thy ===== *)
theory WsSession
  imports WebSocket
begin

text \<open>
  WebSocket messages: the class \<open>WebSocketParser\<close> (\<open>src/http/WebSocketParser.cpp\<close>), whose
  callbacks collect the frames of \<open>websocket_parser_execute\<close> into messages, the frame
  functions of \<open>src/http/wsdef.c\<close>, and \<open>WebSocketChannel::send\<close>. The calls of
  \<open>onMessage\<close> are recorded as a list. Its lemmas show that what a channel sends is what
  the parser at the other end delivers, however the bytes are cut, and where it is not.
\<close>

section \<open>WebSocketParser\<close>

datatype websocket_parser_state = WS_FRAME_BEGIN | WS_FRAME_HEADER | WS_FRAME_BODY | WS_FRAME_END

text \<open>The constructor leaves \<open>opcode\<close> unassigned: \<open>None\<close>.\<close>

record WebSocketParser =
  wp_state :: websocket_parser_state
  opcode :: "int option"
  message :: string
  delivered :: "(int \<times> string) list"

definition WebSocketParser_init :: WebSocketParser where
  "WebSocketParser_init = \<lparr> wp_state = WS_FRAME_BEGIN, opcode = None, message = [], delivered = [] \<rparr>"

text \<open>
  \<open>int length = parser->length\<close> truncates; a negative \<open>length\<close> is compared with and passed to
  \<open>reserve\<close> as a \<open>size_t\<close> above every \<open>max_size\<close>, which throws \<open>length_error\<close>. The
  callbacks are given as functions of what they read of the parser.
\<close>

definition wp_frame_header :: "int \<Rightarrow> int \<Rightarrow> WebSocketParser \<Rightarrow> WebSocketParser cres" where
  "wp_frame_header fl len wp =
     (let opc = fl AND WS_OP_MASK;
          wp = (if opc \<noteq> WS_OP_CONTINUE then wp \<lparr> opcode := Some opc \<rparr> else wp);
          length' = wrap32 len
      in if length' < 0 then Inl UncaughtException
         else
           let wp = (if wp_state wp = WS_FRAME_BEGIN \<or> wp_state wp = WS_FRAME_END then wp \<lparr> message := [] \<rparr> else wp)
           in Inr (wp \<lparr> wp_state := WS_FRAME_HEADER \<rparr>))"

definition wp_frame_body ::
  "int \<Rightarrow> string \<Rightarrow> int \<Rightarrow> string \<Rightarrow> WebSocketParser \<Rightarrow> (string \<times> int \<times> WebSocketParser) cres" where
  "wp_frame_body fl m mo bytes wp =
     (let wp = wp \<lparr> wp_state := WS_FRAME_BODY \<rparr>;
          (bytes, mo) = (if fl AND WS_HAS_MASK \<noteq> 0 then websocket_decode bytes m mo else (bytes, mo))
      in Inr (bytes, mo, wp \<lparr> message := message wp @ bytes \<rparr>))"

definition wp_frame_end :: "int \<Rightarrow> WebSocketParser \<Rightarrow> WebSocketParser cres" where
  "wp_frame_end fl wp =
     (let wp = wp \<lparr> wp_state := WS_FRAME_END \<rparr>
      in if fl AND WS_FIN \<noteq> 0 then
           (case opcode wp of
              None \<Rightarrow> Inl Uninitialised
            | Some opc \<Rightarrow> Inr (wp \<lparr> delivered := delivered wp @ [(opc, message wp)] \<rparr>))
         else Inr wp)"

definition ws_cbs :: "WebSocketParser websocket_parser_settings" where
  "ws_cbs = \<lparr>
     on_frame_header = (\<lambda>prs wp. cbind (wp_frame_header (flags prs) (ws_length prs) wp) (\<lambda>wp. Inr (0, wp))),
     on_frame_body = (\<lambda>prs bytes wp. cbind (wp_frame_body (flags prs) (mask prs) (mask_offset prs) bytes wp)
        (\<lambda>(bytes, mo, wp). Inr (0, bytes, mo, wp))),
     on_frame_end = (\<lambda>prs wp. cbind (wp_frame_end (flags prs) wp) (\<lambda>wp. Inr (0, wp))) \<rparr>"

text \<open>\<open>FeedRecvData\<close>: the parser, the message state and what is returned, converted to \<open>int\<close>.\<close>

definition FeedRecvData ::
  "websocket_parser \<times> WebSocketParser \<Rightarrow> int \<Rightarrow> string \<Rightarrow> ((websocket_parser \<times> WebSocketParser) \<times> int) cres" where
  "FeedRecvData w base data =
     cbind (websocket_parser_execute (fst w) ws_cbs base data (snd w)) (\<lambda>(prs, wp, _, n). Inr ((prs, wp), wrap32 n))"

section \<open>Frames\<close>

datatype ws_opcode =
  WS_OPCODE_CONTINUE | WS_OPCODE_TEXT | WS_OPCODE_BINARY | WS_OPCODE_CLOSE | WS_OPCODE_PING | WS_OPCODE_PONG

fun opcode_val :: "ws_opcode \<Rightarrow> int" where
  "opcode_val WS_OPCODE_CONTINUE = 0x0"
| "opcode_val WS_OPCODE_TEXT = 0x1"
| "opcode_val WS_OPCODE_BINARY = 0x2"
| "opcode_val WS_OPCODE_CLOSE = 0x8"
| "opcode_val WS_OPCODE_PING = 0x9"
| "opcode_val WS_OPCODE_PONG = 0xA"

definition ws_calc_frame_size :: "int \<Rightarrow> bool \<Rightarrow> int cres" where
  "ws_calc_frame_size data_len has_mask =
     cbind (int_range (data_len + 2)) (\<lambda>size.
     cbind (if data_len \<ge> 126 then
              (if data_len > 0xFFFF then int_range (size + 8) else int_range (size + 2))
            else Inr size) (\<lambda>size.
     if has_mask then int_range (size + 4) else Inr size))"

definition ws_flags :: "ws_opcode \<Rightarrow> bool \<Rightarrow> bool \<Rightarrow> int" where
  "ws_flags opc has_mask fin =
     (let fl = opcode_val opc;
          fl = (if fin then fl OR WS_FIN else fl)
      in if has_mask then fl OR WS_HAS_MASK else fl)"

text \<open>\<open>data_len\<close> is an \<open>int\<close>, converted to \<open>size_t\<close> for the builder; the result is converted back.\<close>

definition ws_build_frame ::
  "string \<Rightarrow> string \<Rightarrow> int \<Rightarrow> string \<Rightarrow> bool \<Rightarrow> ws_opcode \<Rightarrow> bool \<Rightarrow> (string \<times> int) cres" where
  "ws_build_frame out data data_len m has_mask opc fin =
     cbind (websocket_build_frame out (ws_flags opc has_mask fin) (Some m) data (data_len mod SIZE_MOD))
       (\<lambda>(out, n). Inr (out, wrap32 n))"

section \<open>WebSocketChannel\<close>

datatype ws_session_type = WS_CLIENT | WS_SERVER

text \<open>\<open>ceil2e\<close> of \<open>src/base/hmath.h\<close>: the least power of two not below its argument.\<close>

function shift_count :: "int \<Rightarrow> nat" where
  "shift_count n = (if n div 2 \<le> 0 then 0 else Suc (shift_count (n div 2)))"
  by pat_completeness auto
termination
  by (relation "measure nat") auto

declare shift_count.simps [simp del]

definition ceil2e :: "int \<Rightarrow> int" where
  "ceil2e num = (if num = 0 \<or> num = 1 then 1 else (2 ^ (1 + shift_count (num - 1))) mod SIZE_MOD)"

text \<open>
  \<open>send\<close> with the channel's buffer; \<open>r\<close> is the four bytes that \<open>rand()\<close> stored into \<open>mask\<close>.
  \<open>resize\<close> keeps the old bytes; the new ones are not initialised before they are written.
  The result is the buffer and the bytes handed to \<open>write\<close>.
\<close>

definition ws_send ::
  "ws_session_type \<Rightarrow> string \<Rightarrow> string \<Rightarrow> string \<Rightarrow> ws_opcode \<Rightarrow> (string \<times> string) cres" where
  "ws_send ty r sendbuf msg opc =
     (let has_mask = (ty = WS_CLIENT);
          m = (if ty = WS_CLIENT then r else replicate 4 NUL);
          size = wrap32 (int (length msg))
      in cbind (ws_calc_frame_size size has_mask) (\<lambda>frame_size.
         let sendbuf = (if int (length sendbuf) < frame_size mod SIZE_MOD
               then sendbuf @ replicate (nat (ceil2e (frame_size mod SIZE_MOD)) - length sendbuf) NUL else sendbuf)
         in cbind (ws_build_frame sendbuf msg size m has_mask opc True) (\<lambda>(sendbuf, _).
            cbind (rd_bytes sendbuf (frame_size mod SIZE_MOD)) (\<lambda>out. Inr (sendbuf, out)))))"

section \<open>The callbacks keep the codec's contract\<close>

lemma websocket_decode_append:
  "websocket_decode (xs @ ys) m off =
     (let (a, off1) = websocket_decode xs m off; (b, off2) = websocket_decode ys m off1 in (a @ b, off2))"
proof -
  have idx: "nat ((int (length xs + i) + off) mod 4) = nat ((int i + (int (length xs) + off) mod 4) mod 4)" for i
    by (simp add: mod_add_right_eq add.commute add.left_commute)
  have "[0..<length (xs @ ys)] = [0..<length xs] @ map (\<lambda>i. length xs + i) [0..<length ys]"
    using upt_add_eq_append[of 0 "length xs" "length ys"] map_add_upt[of "length xs" "length ys"]
    by (simp add: add.commute)
  then show ?thesis
    by (simp add: websocket_decode_def Let_def o_def nth_append idx mod_add_right_eq add.commute add.left_commute)
qed

lemma length_websocket_decode [simp]: "length (fst (websocket_decode xs m off)) = length xs"
  by (simp add: websocket_decode_def)

interpretation ws_cb: frame_callbacks ws_cbs wp_frame_header wp_frame_body wp_frame_end
proof
  show "wp_frame_body fl m mo (xs @ ys) u =
          cbind (wp_frame_body fl m mo xs u) (\<lambda>(b, mo, u).
          cbind (wp_frame_body fl m mo ys u) (\<lambda>(b', mo, u). Inr (b @ b', mo, u)))" for fl m mo xs ys u
    by (simp add: wp_frame_body_def Let_def websocket_decode_append split: prod.splits)
  show "length b = length xs" if "wp_frame_body fl m mo xs u = Inr (b, mo', u')" for fl m mo xs u b mo' u'
    using that by (auto simp: wp_frame_body_def websocket_decode_def Let_def split: if_splits)
qed (simp_all add: ws_cbs_def)

section \<open>What the builder writes\<close>

text \<open>A frame as a byte string.\<close>

definition frame_bytes :: "int \<Rightarrow> string \<Rightarrow> string \<Rightarrow> string" where
  "frame_bytes fl m data = frame_head fl (int (length data)) @
     (if fl AND WS_HAS_MASK \<noteq> 0 then m @ fst (websocket_decode data m 0) else data)"

lemma length_frame_bytes:
  assumes "length m = 4" "int (length data) + 14 < SIZE_MOD"
  shows "int (length (frame_bytes fl m data)) = websocket_calc_frame_size fl (int (length data))"
  using assms by (simp add: frame_bytes_def frame_head_def websocket_calc_frame_size_def Let_def)

lemma calc_frame_size_mod [simp]:
  "websocket_calc_frame_size fl n mod SIZE_MOD = websocket_calc_frame_size fl n"
  by (simp add: websocket_calc_frame_size_def Let_def)

lemma websocket_build_frame_bytes:
  assumes m: "length m = 4" and small: "int (length data) + 14 < SIZE_MOD"
    and fits: "websocket_calc_frame_size fl (int (length data)) \<le> int (length out)"
  shows "websocket_build_frame out fl (Some m) data (int (length data)) =
    Inr (frame_bytes fl m data @ drop (length (frame_bytes fl m data)) out,
         websocket_calc_frame_size fl (int (length data)))"
proof -
  define hd where "hd = frame_head fl (int (length data))"
  have len: "int (length (frame_bytes fl m data)) = websocket_calc_frame_size fl (int (length data))"
    by (rule length_frame_bytes[OF m small])
  then have fits': "length (frame_bytes fl m data) \<le> length out" using fits by simp
  have w1: "wr_bytes out 0 hd = Inr (hd @ drop (length hd) out)"
    using fits' by (simp add: wr_bytes_def hd_def frame_bytes_def)
  show ?thesis
  proof (cases "fl AND WS_HAS_MASK \<noteq> 0")
    case True
    let ?t = "drop (length hd) out"
    let ?d = "fst (websocket_decode data m 0)"
    have l: "length hd + (4 + length data) \<le> length out"
      using fits' True m by (simp add: frame_bytes_def hd_def)
    have w2: "wr_bytes (hd @ ?t) (length hd) (take 4 m) = Inr (hd @ m @ drop 4 ?t)"
      using l m by (subst wr_bytes_append) simp_all
    have w3: "rd_bytes (drop (length hd) (hd @ m @ drop 4 ?t)) 4 = Inr m"
      using m l by (simp add: rd_bytes_def)
    have w4: "wr_bytes (hd @ m @ drop 4 ?t) (length hd + 4) ?d = Inr (hd @ m @ ?d @ drop (length data) (drop 4 ?t))"
      using wr_bytes_append[of ?d "drop 4 ?t" "hd @ m"] l m by simp
    have fb: "frame_bytes fl m data = hd @ m @ ?d" using True by (simp add: frame_bytes_def hd_def)
    show ?thesis
      unfolding websocket_build_frame_def hd_def[symmetric] Let_def w1 fb
      using True w2 w3 w4 len m small by (simp add: fb add.commute add.left_commute)
  next
    case False
    let ?t = "drop (length hd) out"
    have l: "length hd + length data \<le> length out"
      using fits' False by (simp add: frame_bytes_def hd_def)
    have w2: "wr_bytes (hd @ ?t) (length hd) data = Inr (hd @ data @ drop (length data) ?t)"
      using l by (subst wr_bytes_append) simp_all
    have fb: "frame_bytes fl m data = hd @ data" using False by (simp add: frame_bytes_def hd_def)
    show ?thesis
      unfolding websocket_build_frame_def hd_def[symmetric] Let_def w1 fb
      using False w2 len small by (simp add: fb add.commute add.left_commute)
  qed
qed

lemma ws_flags_bits:
  "(ws_flags opc has_mask fin AND WS_HAS_MASK \<noteq> 0) = has_mask"
  "(ws_flags opc has_mask fin AND WS_FIN \<noteq> 0) = fin"
  "ws_flags opc has_mask fin AND WS_OP_MASK = opcode_val opc"
  by (cases opc; cases has_mask; cases fin; simp add: ws_flags_def ws_flag_defs)+

lemma ws_calc_frame_size_eq:
  assumes "0 \<le> n" "n + 14 \<le> INT_MAX"
  shows "ws_calc_frame_size n has_mask = Inr (websocket_calc_frame_size (ws_flags opc has_mask fin) n)"
  using assms ws_flags_bits(1)[of opc has_mask fin]
  by (auto simp: ws_calc_frame_size_def websocket_calc_frame_size_def int_range_def limit_defs SIZE_MOD_def Let_def)

lemma shift_count_bound: "0 < n \<Longrightarrow> n < 2 ^ (1 + shift_count n)"
proof (induction n rule: shift_count.induct)
  case (1 n)
  show ?case
  proof (cases "n div 2 \<le> 0")
    case True
    then show ?thesis using 1 by (subst shift_count.simps) simp
  next
    case False
    with 1 have "n div 2 < 2 ^ (1 + shift_count (n div 2))" by simp
    then show ?thesis using False by (subst shift_count.simps) simp
  qed
qed

lemma shift_count_le: "0 < n \<Longrightarrow> n < 2 ^ Suc k \<Longrightarrow> shift_count n \<le> k"
proof (induction k arbitrary: n)
  case 0
  then show ?case by (subst shift_count.simps) simp
next
  case (Suc k)
  show ?case
  proof (cases "n div 2 \<le> 0")
    case False
    with Suc.IH[of "n div 2"] Suc.prems show ?thesis by (subst shift_count.simps) simp
  qed (subst shift_count.simps, simp)
qed

lemma ceil2e_ge: "0 \<le> n \<Longrightarrow> n \<le> INT_MAX \<Longrightarrow> n \<le> ceil2e n"
proof -
  assume n: "0 \<le> n" "n \<le> INT_MAX"
  show ?thesis
  proof (cases "n = 0 \<or> n = 1")
    case False
    then have "0 < n - 1" using n by simp
    from shift_count_bound[OF this] shift_count_le[OF this, of 31]
    have b: "n - 1 < 2 ^ (1 + shift_count (n - 1))" "shift_count (n - 1) \<le> 31"
      using n by (auto simp: limit_defs)
    have "(2::int) ^ (1 + shift_count (n - 1)) \<le> 2 ^ 32" by (rule power_increasing) (use b in auto)
    then show ?thesis using False b by (simp add: ceil2e_def SIZE_MOD_def)
  qed (auto simp: ceil2e_def)
qed

definition channel_mask :: "ws_session_type \<Rightarrow> string \<Rightarrow> string" where
  "channel_mask ty r = (if ty = WS_CLIENT then r else replicate 4 NUL)"

lemma ws_send_bytes:
  assumes "length r = 4" "int (length msg) + 14 \<le> INT_MAX"
  shows "\<exists>sendbuf'. ws_send ty r sendbuf msg opc =
    Inr (sendbuf', frame_bytes (ws_flags opc (ty = WS_CLIENT) True) (channel_mask ty r) msg)"
proof -
  let ?n = "int (length msg)" and ?hm = "ty = WS_CLIENT" and ?m = "channel_mask ty r"
  let ?fl = "ws_flags opc ?hm True"
  let ?fb = "frame_bytes ?fl ?m msg"
  have w: "wrap32 ?n = ?n" using assms by (intro wrap32_id) (simp_all add: limit_defs)
  define size where "size = websocket_calc_frame_size ?fl ?n"
  have small: "?n + 14 < SIZE_MOD" using assms by (simp add: limit_defs SIZE_MOD_def)
  have m4: "length ?m = 4" using assms(1) by (simp add: channel_mask_def)
  have len: "int (length ?fb) = size" unfolding size_def by (rule length_frame_bytes[OF m4 small])
  have calc: "ws_calc_frame_size ?n ?hm = Inr size"
    unfolding size_def using assms by (intro ws_calc_frame_size_eq) simp_all
  have sz: "0 \<le> size" "size \<le> INT_MAX"
    using assms by (auto simp: size_def websocket_calc_frame_size_def Let_def limit_defs SIZE_MOD_def)
  then have szm: "size mod SIZE_MOD = size" by (simp add: limit_defs SIZE_MOD_def)
  define out where "out = (if int (length sendbuf) < size then sendbuf @ replicate (nat (ceil2e size) - length sendbuf) NUL else sendbuf)"
  have fits: "size \<le> int (length out)" using ceil2e_ge[OF sz] by (auto simp: out_def)
  have build: "websocket_build_frame out ?fl (Some ?m) msg ?n = Inr (?fb @ drop (length ?fb) out, size)"
    unfolding size_def by (rule websocket_build_frame_bytes[OF m4 small]) (use fits in \<open>simp add: size_def\<close>)
  have nm: "?n mod SIZE_MOD = ?n" using small by (simp add: SIZE_MOD_def)
  have rd: "rd_bytes (?fb @ drop (length ?fb) out) size = Inr ?fb"
    by (simp add: rd_bytes_def flip: len)
  have "ws_send ty r sendbuf msg opc = Inr (?fb @ drop (length ?fb) out, ?fb)"
    unfolding ws_send_def Let_def w calc cbind_simps szm channel_mask_def[symmetric] out_def[symmetric]
      ws_build_frame_def nm build by (simp add: rd)
  then show ?thesis by blast
qed

section \<open>Reading a frame back\<close>

lemma and_7F: "(x::int) AND 0x7F = x mod 128"
proof -
  have "x AND 0x7F = take_bit 7 x" by (simp add: take_bit_eq_mask mask_eq_exp_minus_1)
  then show ?thesis by (simp add: take_bit_eq_mod)
qed

lemma and_FF: "(x::int) AND 0xFF = x mod 256"
proof -
  have "x AND 0xFF = take_bit 8 x" by (simp add: take_bit_eq_mask mask_eq_exp_minus_1)
  then show ?thesis by (simp add: take_bit_eq_mod)
qed

lemma bit_128: "bit (128::int) n \<longleftrightarrow> n = 7"
proof -
  have "bit ((2::int) ^ 7) n \<longleftrightarrow> n = 7" by (auto simp only: bit_exp_iff possible_bit_int)
  then show ?thesis by simp
qed

lemma or_80:
  assumes "0 \<le> x" "x < 128"
  shows "(0x80 OR x) = 128 + (x::int)"
proof -
  have b: "x = take_bit 7 x" using assms by (simp add: take_bit_eq_mod)
  have "(0x80::int) AND x = 0"
    by (rule bit_eqI, subst b) (auto simp: bit_and_iff bit_128 bit_take_bit_iff)
  then show ?thesis by (simp add: disjunctive_add_eq_or)
qed

lemma and_80: "(x::int) AND 0x80 = (if odd (x div 128) then 0x80 else 0)"
proof -
  have "x AND 0x80 = (if bit x 7 then 0x80 else 0)"
    by (rule bit_eqI) (auto simp: bit_and_iff bit_128)
  then show ?thesis by (simp add: bit_iff_odd)
qed

fun be_val :: "int \<Rightarrow> string \<Rightarrow> int" where
  "be_val acc [] = acc"
| "be_val acc (c # cs) = be_val (acc * 256 + byte_of c) cs"

lemma length_run:
  "ws_state prs = s_length \<Longrightarrow> bs \<noteq> [] \<Longrightarrow> require prs = int (length bs) \<Longrightarrow>
     ws_bytes st prs u bs = length_end st (prs \<lparr> ws_length := be_val (ws_length prs) bs, require := 0 \<rparr>) u"
proof (induction bs arbitrary: prs)
  case (Cons c cs)
  show ?case
  proof (cases "cs = []")
    case True
    then show ?thesis using Cons.prems by (auto simp: ws_byte_def cbind_def split: sum.splits)
  next
    case False
    then show ?thesis using Cons.prems
        Cons.IH[of "prs \<lparr> ws_length := ws_length prs * 256 + byte_of c, require := require prs - 1 \<rparr>"]
      by (simp add: ws_byte_def Let_def)
  qed
qed simp

lemma drop_step: "k' = 8 + k \<Longrightarrow> drop_bit k' n * 256 + drop_bit k n mod 256 = drop_bit k (n::int)"
proof -
  assume "k' = 8 + k"
  then have "drop_bit k' n = drop_bit 8 (drop_bit k n)" by (simp only: drop_bit_drop_bit)
  also have "\<dots> = drop_bit k n div 256" by (simp add: drop_bit_eq_div[of 8 "drop_bit k n"] del: drop_bit_drop_bit)
  finally show ?thesis by (simp only: div_mult_mod_eq)
qed

lemma be_val_8:
  assumes "0 \<le> n" "n < 2 ^ 64"
  shows "be_val 0 [char_of (drop_bit 56 n AND 0xFF), char_of (drop_bit 48 n AND 0xFF),
      char_of (drop_bit 40 n AND 0xFF), char_of (drop_bit 32 n AND 0xFF),
      char_of (drop_bit 24 n AND 0xFF), char_of (drop_bit 16 n AND 0xFF),
      char_of (drop_bit 8 n AND 0xFF), char_of (n AND 0xFF)] = n"
proof -
  have "0 \<le> n div 2 ^ 56" "n div 2 ^ 56 < 256" using assms by auto
  then have top: "drop_bit 56 n mod 256 = drop_bit 56 n" by (simp only: drop_bit_eq_div mod_pos_pos_trivial)
  have chain: "drop_bit 56 n * 256 + drop_bit 48 n mod 256 = drop_bit 48 n"
    "drop_bit 48 n * 256 + drop_bit 40 n mod 256 = drop_bit 40 n"
    "drop_bit 40 n * 256 + drop_bit 32 n mod 256 = drop_bit 32 n"
    "drop_bit 32 n * 256 + drop_bit 24 n mod 256 = drop_bit 24 n"
    "drop_bit 24 n * 256 + drop_bit 16 n mod 256 = drop_bit 16 n"
    "drop_bit 16 n * 256 + drop_bit 8 n mod 256 = drop_bit 8 n"
    by (rule drop_step, simp)+
  have last: "drop_bit 8 n * 256 + n mod 256 = n" using drop_step[of 8 0 n] by (simp only: drop_bit_0 id_apply)
  show ?thesis
    by (simp only: be_val.simps of_char_of and_FF mod_mod_trivial mult_zero_left add_0 top chain last)
qed

lemma be_val_2:
  assumes "0 \<le> n" "n \<le> 0xFFFF"
  shows "be_val 0 [char_of (drop_bit 8 n), char_of (n AND 0xFF)] = n"
  using assms by (simp add: and_FF drop_bit_eq_div)

lemma head_run:
  assumes "ws_state prs = s_start" "0 \<le> n" "n < 2 ^ 63"
  shows "\<exists>P. ws_bytes st prs u (frame_head (ws_flags opc hm fin) n) = length_end st P u \<and>
     flags P = ws_flags opc hm fin \<and> ws_length P = n \<and> mask_offset P = 0 \<and> mask P = mask prs"
proof -
  let ?fl = "ws_flags opc hm fin"
  define b0 where "b0 = (if ?fl AND WS_FIN \<noteq> 0 then 0x80 else 0) OR (?fl AND WS_OP_MASK)"
  define b1 where "b1 = (if ?fl AND WS_HAS_MASK \<noteq> 0 then 0x80 else 0 :: int)"
  define p0 where "p0 = s_start_case prs (char_of b0)"
  have p0: "ws_state p0 = s_head" "mask p0 = mask prs" "mask_offset p0 = 0"
    "flags p0 OR (if hm then WS_HAS_MASK else 0) = ?fl"
    using ws_flags_bits[of opc hm fin]
    by (simp_all add: p0_def s_start_case_def b0_def)
      (cases opc; cases hm; cases fin; simp add: ws_flags_def ws_flag_defs)
  have step0: "ws_byte st prs u (char_of b0) = Inr (p0, u)"
    using assms(1) by (simp add: ws_byte_def p0_def)
  have b1: "b1 OR l = (if hm then 128 + l else l)" if "0 \<le> l" "l < 128" for l
    using that or_80[of l] ws_flags_bits(1)[of opc hm fin] by (simp add: b1_def)
  have hf: "ws_length (s_head_flags p0 (char_of (b1 OR l))) = l"
      "flags (s_head_flags p0 (char_of (b1 OR l))) = ?fl"
      "mask (s_head_flags p0 (char_of (b1 OR l))) = mask prs"
      "mask_offset (s_head_flags p0 (char_of (b1 OR l))) = 0" if "0 \<le> l" "l < 128" for l
    using that p0 b1[OF that] by (auto simp: s_head_flags_def and_7F and_80 split: if_splits)
  consider "n < 126" | "126 \<le> n" "n \<le> 0xFFFF" | "0xFFFF < n" by linarith
  then show ?thesis
  proof cases
    case 1
    let ?p = "s_head_flags p0 (char_of (b1 OR n))"
    have "ws_bytes st prs u (frame_head ?fl n) = length_end st ?p u"
      using 1 assms(2) hf(1)[of n] p0(1) step0
      by (auto simp: frame_head_def Let_def b0_def[symmetric] b1_def[symmetric] ws_byte_def[of st p0]
          cbind_def split: sum.splits)
    then show ?thesis using hf[of n] 1 assms(2) by (intro exI[of _ ?p]) simp
  next
    case 2
    let ?p = "s_head_flags p0 (char_of (b1 OR 126)) \<lparr> require := 2, ws_length := 0, ws_state := s_length \<rparr>"
    let ?bs = "[char_of (drop_bit 8 n), char_of (n AND 0xFF)]"
    have fh: "frame_head ?fl n = [char_of b0, char_of (b1 OR 126)] @ ?bs"
      using 2 by (simp add: frame_head_def Let_def b0_def b1_def)
    have "ws_bytes st prs u [char_of b0, char_of (b1 OR 126)] = Inr (?p, u)"
      using hf(1)[of 126] p0(1) step0 by (simp add: ws_byte_def[of st p0])
    then have "ws_bytes st prs u (frame_head ?fl n) = ws_bytes st ?p u ?bs"
      unfolding fh ws_bytes_append by (simp del: ws_bytes.simps)
    also have "\<dots> = length_end st (?p \<lparr> ws_length := n, require := 0 \<rparr>) u"
      using length_run[of ?p ?bs st u] be_val_2[of n] 2 by simp
    finally show ?thesis using hf[of 126] by (intro exI[of _ "?p \<lparr> ws_length := n, require := 0 \<rparr>"]) simp
  next
    case 3
    let ?p = "s_head_flags p0 (char_of (b1 OR 127)) \<lparr> require := 8, ws_length := 0, ws_state := s_length \<rparr>"
    let ?bs = "[char_of (drop_bit 56 n AND 0xFF), char_of (drop_bit 48 n AND 0xFF),
            char_of (drop_bit 40 n AND 0xFF), char_of (drop_bit 32 n AND 0xFF),
            char_of (drop_bit 24 n AND 0xFF), char_of (drop_bit 16 n AND 0xFF),
            char_of (drop_bit 8 n AND 0xFF), char_of (n AND 0xFF)]"
    have fh: "frame_head ?fl n = [char_of b0, char_of (b1 OR 127)] @ ?bs"
      using 3 by (simp add: frame_head_def Let_def b0_def b1_def)
    have "ws_bytes st prs u [char_of b0, char_of (b1 OR 127)] = Inr (?p, u)"
      using hf(1)[of 127] p0(1) step0 by (simp add: ws_byte_def[of st p0])
    then have "ws_bytes st prs u (frame_head ?fl n) = ws_bytes st ?p u ?bs"
      unfolding fh ws_bytes_append by (simp del: ws_bytes.simps)
    also have "\<dots> = length_end st (?p \<lparr> ws_length := n, require := 0 \<rparr>) u"
      using length_run[of ?p ?bs st u] be_val_8[of n] assms by simp
    finally show ?thesis using hf[of 127] by (intro exI[of _ "?p \<lparr> ws_length := n, require := 0 \<rparr>"]) simp
  qed
qed

lemma mask_run:
  assumes "ws_state prs = s_mask" "require prs = 4" "length (mask prs) = 4" "length m = 4"
  shows "ws_bytes st prs u m = header_end st (prs \<lparr> mask := m, require := 0 \<rparr>) u"
proof -
  obtain a b c d where m: "m = [a, b, c, d]"
    using assms(4) by (auto simp: length_Suc_conv numeral_eq_Suc)
  obtain w x y z where old: "mask prs = [w, x, y, z]"
    using assms(3) by (auto simp: length_Suc_conv numeral_eq_Suc)
  show ?thesis
    unfolding m using assms(1,2) old
    by (auto simp: ws_byte_def Let_def cbind_def split: sum.splits)
qed

text \<open>The mask is an involution.\<close>

lemma byte_xor_less: "byte_of a XOR byte_of b < 256"
  using XOR_upper[of "byte_of a" 8 "byte_of b"] byte_of_less[of a] byte_of_less[of b] by simp

lemma xor_char_cancel: "xor_char (xor_char a b) b = a"
proof -
  have "byte_of (xor_char a b) = byte_of a XOR byte_of b"
    using byte_xor_less[of a b] by (simp add: xor_char_def)
  then have "byte_of (xor_char a b) XOR byte_of b = byte_of a" by (simp add: xor.assoc)
  then show ?thesis by (simp add: xor_char_def)
qed

lemma websocket_decode_involution: "fst (websocket_decode (fst (websocket_decode xs m off)) m off) = xs"
  by (rule nth_equalityI) (simp_all add: websocket_decode_def xor_char_cancel)

text \<open>What a frame does to the message state.\<close>

definition deliver :: "ws_opcode \<Rightarrow> bool \<Rightarrow> string \<Rightarrow> WebSocketParser \<Rightarrow> WebSocketParser cres" where
  "deliver opc fin msg wp =
     (let wp = wp \<lparr> opcode := (if opc = WS_OPCODE_CONTINUE then opcode wp else Some (opcode_val opc)),
            message := msg, wp_state := WS_FRAME_END \<rparr>
      in if fin then
           (case opcode wp of None \<Rightarrow> Inl Uninitialised
            | Some v \<Rightarrow> Inr (wp \<lparr> delivered := delivered wp @ [(v, msg)] \<rparr>))
         else Inr wp)"

lemma wrap32_nonneg: "0 \<le> n \<Longrightarrow> n \<le> INT_MAX \<Longrightarrow> \<not> wrap32 n < 0"
  by (simp add: wrap32_id limit_defs)

lemma opcode_val_continue: "opcode_val opc = WS_OP_CONTINUE \<longleftrightarrow> opc = WS_OPCODE_CONTINUE"
  by (cases opc) (simp_all add: ws_flag_defs)

text \<open>The message state between the callbacks of a frame.\<close>

definition after_header :: "ws_opcode \<Rightarrow> WebSocketParser \<Rightarrow> WebSocketParser" where
  "after_header opc wp = wp \<lparr> opcode := (if opc = WS_OPCODE_CONTINUE then opcode wp else Some (opcode_val opc)),
     message := [], wp_state := WS_FRAME_HEADER \<rparr>"

lemma frame_callbacks_deliver:
  assumes "int (length msg) \<le> INT_MAX" "wp_state wp \<in> {WS_FRAME_BEGIN, WS_FRAME_END}"
    and fl: "fl = ws_flags opc hm fin"
  shows "wp_frame_header fl (int (length msg)) wp = Inr (after_header opc wp)"
    "msg = [] \<Longrightarrow> wp_frame_end fl (after_header opc wp) = deliver opc fin msg wp"
    "\<exists>mo wp2. wp_frame_body fl m 0 (if hm then fst (websocket_decode msg m 0) else msg) (after_header opc wp)
         = Inr (msg, mo, wp2) \<and> wp_frame_end fl wp2 = deliver opc fin msg wp"
proof -
  note bits = ws_flags_bits[of opc hm fin, folded fl]
  have "wp = wp \<lparr> opcode := opcode wp \<rparr>" by simp
  then show "wp_frame_header fl (int (length msg)) wp = Inr (after_header opc wp)"
    using assms(1,2) bits wrap32_nonneg[of "int (length msg)"]
    by (auto simp: wp_frame_header_def Let_def opcode_val_continue after_header_def)
  show "wp_frame_end fl (after_header opc wp) = deliver opc fin msg wp" if "msg = []"
    using bits that by (auto simp: wp_frame_end_def after_header_def deliver_def Let_def split: option.splits)
  obtain mo where "(if hm then websocket_decode (fst (websocket_decode msg m 0)) m 0 else (msg, 0)) = (msg, mo)"
    using websocket_decode_involution[of msg m 0] by (cases hm) (auto simp: prod_eq_iff)
  then have "wp_frame_body fl m 0 (if hm then fst (websocket_decode msg m 0) else msg) (after_header opc wp) =
     Inr (msg, mo, (after_header opc wp) \<lparr> wp_state := WS_FRAME_BODY, message := msg \<rparr>)"
    using bits by (cases hm) (auto simp: wp_frame_body_def after_header_def)
  moreover have "wp_frame_end fl ((after_header opc wp) \<lparr> wp_state := WS_FRAME_BODY, message := msg \<rparr>) = deliver opc fin msg wp"
    using bits by (auto simp: wp_frame_end_def after_header_def deliver_def Let_def split: option.splits)
  ultimately show "\<exists>mo wp2. wp_frame_body fl m 0 (if hm then fst (websocket_decode msg m 0) else msg) (after_header opc wp)
         = Inr (msg, mo, wp2) \<and> wp_frame_end fl wp2 = deliver opc fin msg wp" by blast
qed

lemma header_end_run:
  assumes "int (length msg) \<le> INT_MAX" "wp_state wp \<in> {WS_FRAME_BEGIN, WS_FRAME_END}"
    and P: "flags P = ws_flags opc hm fin" "ws_length P = int (length msg)" "mask_offset P = 0"
    and wire: "wire = (if hm then fst (websocket_decode msg (mask P) 0) else msg)"
    and dl: "deliver opc fin msg wp = Inr wp'"
  shows "\<exists>P'. cbind (header_end ws_cbs P wp) (\<lambda>(p, u). ws_bytes ws_cbs p u wire) = Inr (P', wp') \<and>
     ws_state P' = s_start \<and> mask P' = mask P"
proof (cases "msg = []")
  case True
  then have "wire = []" using wire by (auto simp: websocket_decode_def)
  then show ?thesis
    using True frame_callbacks_deliver(1,2)[OF assms(1,2) P(1)] P dl
    by (simp add: header_end_def ws_cb.cb_laws)
next
  case False
  let ?p = "P \<lparr> ws_state := s_body, require := int (length msg) \<rparr>"
  have len: "length wire = length msg" by (simp add: wire)
  then have ne: "wire \<noteq> []" using False by (metis length_0_conv)
  obtain mo wp2 where b: "wp_frame_body (flags P) (mask P) 0 wire (after_header opc wp) = Inr (msg, mo, wp2)"
    and e: "wp_frame_end (flags P) wp2 = Inr wp'"
    using frame_callbacks_deliver(3)[OF assms(1,2) P(1), of "mask P"] wire dl by auto
  have "header_end ws_cbs P wp = Inr (?p, after_header opc wp)"
    using False frame_callbacks_deliver(1)[OF assms(1,2) P(1)] P by (simp add: header_end_def ws_cb.cb_laws)
  moreover have "ws_bytes ws_cbs ?p (after_header opc wp) wire =
      Inr (?p \<lparr> mask_offset := mo, require := 0, ws_state := s_start \<rparr>, wp')"
    using ws_cb.body_run[of ?p wire "after_header opc wp"] ne len b e P by simp
  ultimately show ?thesis by simp
qed

lemma frame_run:
  assumes "int (length msg) \<le> INT_MAX" "wp_state wp \<in> {WS_FRAME_BEGIN, WS_FRAME_END}"
    and prs: "ws_state prs = s_start" "length (mask prs) = 4" and m: "length m = 4"
    and dl: "deliver opc fin msg wp = Inr wp'"
  shows "\<exists>P'. ws_bytes ws_cbs prs wp (frame_bytes (ws_flags opc hm fin) m msg) = Inr (P', wp') \<and>
     ws_state P' = s_start \<and> length (mask P') = 4"
proof -
  let ?fl = "ws_flags opc hm fin" and ?n = "int (length msg)"
  have n: "0 \<le> ?n" "?n < 2 ^ 63" using assms(1) by (auto simp: limit_defs)
  obtain P where P: "ws_bytes ws_cbs prs wp (frame_head ?fl ?n) = length_end ws_cbs P wp"
    "flags P = ?fl" "ws_length P = ?n" "mask_offset P = 0" "mask P = mask prs"
    using head_run[OF prs(1) n, of ws_cbs wp opc hm fin] by blast
  show ?thesis
  proof (cases hm)
    case True
    let ?P = "P \<lparr> ws_state := s_mask, mask := m, require := 0 \<rparr>"
    have "length_end ws_cbs P wp = Inr (P \<lparr> ws_state := s_mask, require := 4 \<rparr>, wp)"
      using P(2,3) n True ws_flags_bits(1)[of opc hm fin] by (simp add: length_end_def)
    then have "ws_bytes ws_cbs prs wp (frame_head ?fl ?n @ m @ w) =
        cbind (header_end ws_cbs ?P wp) (\<lambda>(p, u). ws_bytes ws_cbs p u w)" for w
      using P(1,5) prs m mask_run[of "P \<lparr> ws_state := s_mask, require := 4 \<rparr>" m ws_cbs wp]
      by (simp add: ws_bytes_append)
    moreover have "frame_bytes ?fl m msg = frame_head ?fl ?n @ m @ fst (websocket_decode msg m 0)"
      using True ws_flags_bits(1)[of opc hm fin] by (simp add: frame_bytes_def)
    ultimately show ?thesis
      using header_end_run[OF assms(1,2), of ?P opc hm fin "fst (websocket_decode msg m 0)" wp'] P True m dl by auto
  next
    case False
    have "length_end ws_cbs P wp = header_end ws_cbs P wp"
      using P(2,3) n False ws_flags_bits(1)[of opc hm fin] by (simp add: length_end_def)
    then have "ws_bytes ws_cbs prs wp (frame_head ?fl ?n @ w) =
        cbind (header_end ws_cbs P wp) (\<lambda>(p, u). ws_bytes ws_cbs p u w)" for w
      using P(1) by (simp add: ws_bytes_append)
    moreover have "frame_bytes ?fl m msg = frame_head ?fl ?n @ msg"
      using False ws_flags_bits(1)[of opc hm fin] by (simp add: frame_bytes_def)
    ultimately show ?thesis
      using header_end_run[OF assms(1,2), of P opc hm fin msg wp'] P False prs dl by auto
  qed
qed

section \<open>The connection\<close>

text \<open>The WebSocket branch of \<open>on_recv\<close>: \<open>False\<close> where the connection is closed.\<close>

definition ws_on_recv ::
  "websocket_parser \<times> WebSocketParser \<Rightarrow> int \<Rightarrow> string \<Rightarrow> ((websocket_parser \<times> WebSocketParser) \<times> bool) cres" where
  "ws_on_recv w base buf = cbind (FeedRecvData w base buf) (\<lambda>(w, nfeed). Inr (w, nfeed = int (length buf)))"

fun ws_recv_all ::
  "websocket_parser \<times> WebSocketParser \<Rightarrow> (int \<times> string) list \<Rightarrow> (websocket_parser \<times> WebSocketParser) cres" where
  "ws_recv_all w [] = Inr w"
| "ws_recv_all w ((base, buf) # bufs) =
     cbind (ws_on_recv w base buf) (\<lambda>(w, ok). if ok then ws_recv_all w bufs else Inr w)"

definition WebSocketParser_new :: "websocket_parser \<times> WebSocketParser" where
  "WebSocketParser_new = (websocket_parser_init, WebSocketParser_init)"

text \<open>
  A channel that sends one message after another, with one buffer; each message comes with
  the four bytes \<open>rand()\<close> gives and its opcode. The result is all the bytes written.
\<close>

fun ws_send_all :: "ws_session_type \<Rightarrow> string \<Rightarrow> (string \<times> string \<times> ws_opcode) list \<Rightarrow> string cres" where
  "ws_send_all ty sendbuf [] = Inr []"
| "ws_send_all ty sendbuf ((r, msg, opc) # ms) =
     cbind (ws_send ty r sendbuf msg opc) (\<lambda>(sendbuf, out).
     cbind (ws_send_all ty sendbuf ms) (\<lambda>rest. Inr (out @ rest)))"

definition sendable :: "string \<times> string \<times> ws_opcode \<Rightarrow> bool" where
  "sendable m = (case m of (r, msg, opc) \<Rightarrow>
     length r = 4 \<and> int (length msg) + 14 \<le> INT_MAX \<and> opc \<noteq> WS_OPCODE_CONTINUE)"

text \<open>A buffer as \<open>on_recv\<close> is given one: its size is an \<open>int\<close>, its end an address of the lower half.\<close>

definition recv_buf :: "int \<times> string \<Rightarrow> bool" where
  "recv_buf b = (addressable b \<and> int (length (snd b)) \<le> INT_MAX)"

lemma ws_recv_all_feed:
  assumes "list_all recv_buf bufs" "ws_ok prs" "ws_bytes ws_cbs (strip prs) wp (concat (map snd bufs)) = Inr (p2, wp2)"
  shows "\<exists>prs2. ws_recv_all (prs, wp) bufs = Inr (prs2, wp2) \<and> strip prs2 = p2"
  using assms
proof (induction bufs arbitrary: prs wp)
  case Nil
  then show ?case by simp
next
  case (Cons b bufs)
  obtain base buf where b: "b = (base, buf)" by (cases b)
  obtain p1 wp1 where r1: "ws_bytes ws_cbs (strip prs) wp buf = Inr (p1, wp1)"
    and r2: "ws_bytes ws_cbs p1 wp1 (concat (map snd bufs)) = Inr (p2, wp2)"
    using Cons.prems(3) b by (auto elim: ws_bytes_prefix)
  have "0 \<le> base" "base + int (length []) + int (length buf) < 2 ^ 63" and int: "int (length buf) \<le> INT_MAX"
    using Cons.prems(1) b by (auto simp: recv_buf_def addressable_def)
  from ws_cb.ws_loop_sim[OF Cons.prems(2) r1 this(1,2), of 0] obtain prs1 out
    where ex: "websocket_parser_execute prs ws_cbs base buf wp = Inr (prs1, wp1, out, int (length buf))"
      and p1: "strip prs1 = p1" and ok: "ws_ok prs1"
    by (auto simp: websocket_parser_execute_def)
  have "ws_on_recv (prs, wp) base buf = Inr ((prs1, wp1), True)"
    using ex int by (simp add: ws_on_recv_def FeedRecvData_def wrap32_id limit_defs)
  with Cons.IH[of prs1 wp1] Cons.prems(1) r2 p1 ok b show ?case by auto
qed

lemma deliver_message:
  "opc \<noteq> WS_OPCODE_CONTINUE \<Longrightarrow> \<exists>wp'. deliver opc True msg wp = Inr wp' \<and> wp_state wp' = WS_FRAME_END \<and>
     delivered wp' = delivered wp @ [(opcode_val opc, msg)]"
  by (simp add: deliver_def Let_def)

lemma ws_send_all_run:
  assumes "list_all sendable ms" "wp_state wp \<in> {WS_FRAME_BEGIN, WS_FRAME_END}"
    "ws_state prs = s_start" "length (mask prs) = 4"
  shows "\<exists>wire P' wp'. ws_send_all ty sendbuf ms = Inr wire \<and> ws_bytes ws_cbs prs wp wire = Inr (P', wp') \<and>
     delivered wp' = delivered wp @ map (\<lambda>(r, msg, opc). (opcode_val opc, msg)) ms"
  using assms
proof (induction ms arbitrary: sendbuf wp prs)
  case Nil
  then show ?case by simp
next
  case (Cons x ms)
  obtain r msg opc where x: "x = (r, msg, opc)" by (cases x)
  have sd: "length r = 4" "int (length msg) + 14 \<le> INT_MAX" "opc \<noteq> WS_OPCODE_CONTINUE"
    using Cons.prems(1) x by (auto simp: sendable_def)
  let ?fb = "frame_bytes (ws_flags opc (ty = WS_CLIENT) True) (channel_mask ty r) msg"
  obtain sendbuf' where s: "ws_send ty r sendbuf msg opc = Inr (sendbuf', ?fb)"
    using ws_send_bytes[OF sd(1,2)] by blast
  obtain wp1 where d: "deliver opc True msg wp = Inr wp1" "wp_state wp1 = WS_FRAME_END"
      "delivered wp1 = delivered wp @ [(opcode_val opc, msg)]"
    using deliver_message[OF sd(3)] by blast
  have m4: "length (channel_mask ty r) = 4" using sd by (simp add: channel_mask_def)
  have len: "int (length msg) \<le> INT_MAX" using sd(2) by simp
  obtain P where P: "ws_bytes ws_cbs prs wp ?fb = Inr (P, wp1)" "ws_state P = s_start" "length (mask P) = 4"
    using frame_run[OF len Cons.prems(2-4) m4 d(1), of "ty = WS_CLIENT"] by blast
  obtain wire P' wp' where "ws_send_all ty sendbuf' ms = Inr wire" "ws_bytes ws_cbs P wp1 wire = Inr (P', wp')"
     "delivered wp' = delivered wp1 @ map (\<lambda>(r, msg, opc). (opcode_val opc, msg)) ms"
    using Cons.IH[of wp1 P sendbuf'] Cons.prems(1) d(2) P(2,3) by auto
  then show ?case using s P(1) d(3) x by (simp add: ws_bytes_append)
qed

text \<open>
  C8: messages sent by one end, whatever it sent and however the network cuts the bytes, are
  delivered by the parser at the other end, all of them, in order and unchanged.
\<close>

theorem ws_message_roundtrip:
  assumes "list_all sendable ms" "list_all recv_buf bufs"
    and "ws_send_all ty sendbuf ms = Inr (concat (map snd bufs))"
  shows "\<exists>prs wp. ws_recv_all WebSocketParser_new bufs = Inr (prs, wp) \<and>
     delivered wp = map (\<lambda>(r, msg, opc). (opcode_val opc, msg)) ms"
proof -
  have init: "wp_state WebSocketParser_init \<in> {WS_FRAME_BEGIN, WS_FRAME_END}"
    "ws_state websocket_parser_init = s_start" "length (mask websocket_parser_init) = 4"
    "delivered WebSocketParser_init = []" "strip websocket_parser_init = websocket_parser_init"
    by (simp_all add: WebSocketParser_init_def websocket_parser_init_def)
  obtain wire P' wp' where w: "ws_send_all ty sendbuf ms = Inr wire"
    "ws_bytes ws_cbs websocket_parser_init WebSocketParser_init wire = Inr (P', wp')"
    "delivered wp' = map (\<lambda>(r, msg, opc). (opcode_val opc, msg)) ms"
    using ws_send_all_run[OF assms(1) init(1-3), of ty sendbuf] init(4) by auto
  then have "ws_bytes ws_cbs (strip websocket_parser_init) WebSocketParser_init (concat (map snd bufs)) = Inr (P', wp')"
    using assms(3) init(5) by simp
  from ws_recv_all_feed[OF assms(2) ws_ok_init this] w(3) show ?thesis
    by (auto simp: WebSocketParser_new_def)
qed

text \<open>What a channel can send it does send: no message of a sendable list overruns its buffer.\<close>

theorem ws_send_all_total:
  assumes "list_all sendable ms"
  shows "\<exists>wire. ws_send_all ty sendbuf ms = Inr wire"
  using ws_send_all_run[OF assms, of WebSocketParser_init websocket_parser_init ty sendbuf]
  by (auto simp: WebSocketParser_init_def websocket_parser_init_def)

text \<open>C18: however a stream is cut, the parser does what the byte machine does on the whole of it.\<close>

theorem ws_recv_any_cut:
  assumes "list_all recv_buf bufs" "ws_ok prs"
    and "ws_bytes ws_cbs (strip prs) wp (concat (map snd bufs)) = Inr (p2, wp2)"
  shows "\<exists>prs2. ws_recv_all (prs, wp) bufs = Inr (prs2, wp2) \<and> strip prs2 = p2"
  by (rule ws_recv_all_feed[OF assms])

text \<open>
  A message in two fragments: only the second is delivered. \<open>on_frame_header\<close> clears the
  message when the state is \<open>WS_FRAME_END\<close>, which it also is between two fragments.
\<close>

theorem ws_fragments_lost:
  assumes "opc \<noteq> WS_OPCODE_CONTINUE" "int (length a) \<le> INT_MAX" "int (length b) \<le> INT_MAX"
    and "length m = 4" "list_all recv_buf bufs"
    and "concat (map snd bufs) = frame_bytes (ws_flags opc hm False) m a @
           frame_bytes (ws_flags WS_OPCODE_CONTINUE hm True) m b"
  shows "\<exists>prs wp. ws_recv_all WebSocketParser_new bufs = Inr (prs, wp) \<and> delivered wp = [(opcode_val opc, b)]"
proof -
  let ?p0 = "websocket_parser_init" and ?w0 = "WebSocketParser_init"
  have init: "wp_state ?w0 \<in> {WS_FRAME_BEGIN, WS_FRAME_END}"
    "ws_state ?p0 = s_start" "length (mask ?p0) = 4" "delivered ?w0 = []" "strip ?p0 = ?p0"
    by (simp_all add: WebSocketParser_init_def websocket_parser_init_def)
  obtain w1 where d1: "deliver opc False a ?w0 = Inr w1" and w1: "wp_state w1 \<in> {WS_FRAME_BEGIN, WS_FRAME_END}"
    "delivered w1 = []" "opcode w1 = Some (opcode_val opc)"
    using assms(1) init(4) by (simp add: deliver_def)
  obtain P1 where P1: "ws_bytes ws_cbs ?p0 ?w0 (frame_bytes (ws_flags opc hm False) m a) = Inr (P1, w1)"
    "ws_state P1 = s_start" "length (mask P1) = 4"
    using frame_run[OF assms(2) init(1-3) assms(4) d1, of hm] by blast
  obtain w2 where d2: "deliver WS_OPCODE_CONTINUE True b w1 = Inr w2" and w2: "delivered w2 = [(opcode_val opc, b)]"
    using w1 by (simp add: deliver_def)
  obtain P2 where P2: "ws_bytes ws_cbs P1 w1 (frame_bytes (ws_flags WS_OPCODE_CONTINUE hm True) m b) = Inr (P2, w2)"
    using frame_run[OF assms(3) w1(1) P1(2,3) assms(4) d2, of hm] by blast
  have "ws_bytes ws_cbs (strip ?p0) ?w0 (concat (map snd bufs)) = Inr (P2, w2)"
    using P1(1) P2 init(5) by (simp add: assms(6) ws_bytes_append)
  from ws_recv_all_feed[OF assms(5) ws_ok_init this] w2 show ?thesis by (auto simp: WebSocketParser_new_def)
qed

section \<open>Frames the parser does not survive\<close>

text \<open>A binary frame that announces \<open>0xFFFFFFFF00000001\<close> bytes, with one byte of its body.\<close>

definition huge_frame :: string where
  "huge_frame = [CHR 0x82, CHR 0x7F, CHR 0xFF, CHR 0xFF, CHR 0xFF, CHR 0xFF,
     CHR 0x00, CHR 0x00, CHR 0x00, CHR 0x01, CHR ''x'']"

text \<open>The header of a binary frame that announces \<open>2 ^ 31\<close> bytes.\<close>

definition long_frame :: string where
  "long_frame = [CHR 0x82, CHR 0x7F, CHR 0x00, CHR 0x00, CHR 0x00, CHR 0x00,
     CHR 0x80, CHR 0x00, CHR 0x00, CHR 0x00]"

lemmas ws_eval = ws_on_recv_def FeedRecvData_def WebSocketParser_new_def websocket_parser_execute_def
  websocket_parser_init_def WebSocketParser_init_def ws_iteration_def s_start_case_def s_head_flags_def
  header_done_def notify_def ws_cbs_def wp_frame_header_def wrap32_def ws_flag_defs

lemma huge_frame_header:
  "ws_loop ws_cbs base websocket_parser_init WebSocketParser_init [] huge_frame 0 =
   ws_loop ws_cbs base \<lparr> ws_state = s_body, flags = 0x12, mask = replicate 4 NUL, mask_offset = 0,
       ws_length = 0xFFFFFFFF00000001, require = 0xFFFFFFFF00000001, offset = 0 \<rparr>
     \<lparr> wp_state = WS_FRAME_HEADER, opcode = Some 2, message = [], delivered = [] \<rparr>
     (butlast huge_frame) [CHR ''x''] 10"
  by (simp add: huge_frame_def ws_eval SIZE_MOD_def)

text \<open>
  C40: a frame header may announce so many bytes that the address of their end wraps. The test
  for a complete body then succeeds, and the body callback is given memory far outside the
  received buffer; the buffer may lie anywhere above the first four gigabytes.
\<close>

theorem ws_length_overread:
  assumes "2 ^ 32 \<le> base" "base < 2 ^ 63"
  shows "ws_on_recv WebSocketParser_new base huge_frame = Inl OutOfBounds"
proof -
  have w: "(base + 10 + 0xFFFFFFFF00000001) mod SIZE_MOD = base + 10 - 0xFFFFFFFF"
  proof -
    have "base + 10 + 0xFFFFFFFF00000001 = base + 10 - 0xFFFFFFFF + SIZE_MOD" by (simp add: SIZE_MOD_def)
    moreover have "(base + 10 - 0xFFFFFFFF) mod SIZE_MOD = base + 10 - 0xFFFFFFFF"
      using assms by (simp add: SIZE_MOD_def)
    ultimately show ?thesis by (simp only: mod_add_self2)
  qed
  have e: "(base + 11) mod SIZE_MOD = base + 11" using assms by (simp add: SIZE_MOD_def)
  show ?thesis
    unfolding ws_on_recv_def FeedRecvData_def WebSocketParser_new_def websocket_parser_execute_def fst_conv snd_conv
      huge_frame_header
    using w e by (simp add: huge_frame_def ws_iteration_def s_body_case_def add.assoc)
qed

theorem ws_length_overread_witness: "ws_on_recv WebSocketParser_new 0x7F0000000000 huge_frame = Inl OutOfBounds"
  using ws_length_overread[of "0x7F0000000000"] by simp

text \<open>
  A frame header that announces \<open>2 ^ 31\<close> bytes makes \<open>on_frame_header\<close> reserve a negative
  number of bytes: the exception is caught nowhere.
\<close>

theorem ws_header_throws:
  "ws_on_recv WebSocketParser_new base long_frame = Inl UncaughtException"
  by (simp add: long_frame_def ws_eval SIZE_MOD_def)

text \<open>A first frame that is a continuation reads the opcode that the constructor left unassigned.\<close>

theorem ws_continuation_first:
  "ws_on_recv WebSocketParser_new base [CHR 0x80, CHR 0x00] = Inl Uninitialised"
  by (simp add: ws_eval wp_frame_end_def)

definition sample_messages :: "(string \<times> string \<times> ws_opcode) list" where
  "sample_messages = [(''WSWS'', ''hi'', WS_OPCODE_TEXT), (''abcd'', [], WS_OPCODE_PING)]"

definition sample_cut :: "(int \<times> string) list" where
  "sample_cut = [(4096, [CHR 0x81, CHR 0x82, CHR ''W'', CHR ''S'', CHR ''W'']),
     (8192, [CHR ''S'', CHR 0x3F, CHR 0x3A, CHR 0x89, CHR 0x80, CHR ''a'', CHR ''b'', CHR ''c'', CHR ''d''])]"

lemma sample_cut_ok: "list_all sendable sample_messages" "list_all recv_buf sample_cut"
  "ws_send_all WS_CLIENT [] sample_messages = Inr (concat (map snd sample_cut))"
  by code_simp+

theorem ws_message_roundtrip_witness:
  "\<exists>prs wp. ws_recv_all WebSocketParser_new sample_cut = Inr (prs, wp) \<and> delivered wp = [(1, ''hi''), (9, [])]"
  using ws_message_roundtrip[OF sample_cut_ok] by (simp add: sample_messages_def)

lemma sample_run:
  "\<exists>r. ws_bytes ws_cbs (strip websocket_parser_init) WebSocketParser_init (concat (map snd sample_cut)) = Inr r
     \<and> delivered (snd r) = [(1, ''hi''), (9, [])]"
proof -
  have "(case ws_bytes ws_cbs (strip websocket_parser_init) WebSocketParser_init (concat (map snd sample_cut)) of
      Inr r \<Rightarrow> delivered (snd r) = [(1, ''hi''), (9, [])] | Inl _ \<Rightarrow> False)"
    by code_simp
  then show ?thesis by (auto split: sum.splits)
qed

theorem ws_recv_any_cut_witness:
  "\<exists>prs wp. ws_recv_all (websocket_parser_init, WebSocketParser_init) sample_cut = Inr (prs, wp) \<and>
     delivered wp = [(1, ''hi''), (9, [])]"
proof -
  obtain p2 wp2 where r: "ws_bytes ws_cbs (strip websocket_parser_init) WebSocketParser_init
      (concat (map snd sample_cut)) = Inr (p2, wp2)" and d: "delivered wp2 = [(1, ''hi''), (9, [])]"
    using sample_run by auto
  from ws_recv_any_cut[OF sample_cut_ok(2) ws_ok_init r] d show ?thesis by auto
qed

definition sample_fragments :: "(int \<times> string) list" where
  "sample_fragments = [(4096, [CHR 0x01, CHR 0x02, CHR ''a'', CHR ''b'', CHR 0x80, CHR 0x02, CHR ''c'', CHR ''d''])]"

theorem ws_fragments_lost_witness:
  "\<exists>prs wp. ws_recv_all WebSocketParser_new sample_fragments = Inr (prs, wp) \<and> delivered wp = [(1, ''cd'')]"
proof -
  have a: "int (length ''ab'') \<le> INT_MAX" "int (length ''cd'') \<le> INT_MAX" "list_all recv_buf sample_fragments"
    by code_simp+
  have b: "concat (map snd sample_fragments) = frame_bytes (ws_flags WS_OPCODE_TEXT False False) ''WSWS'' ''ab'' @
      frame_bytes (ws_flags WS_OPCODE_CONTINUE False True) ''WSWS'' ''cd''"
    by code_simp
  show ?thesis
    using ws_fragments_lost[OF _ a(1,2) _ a(3) b] by simp
qed

end
