(* ===== verification/Base64.thy ===== *)
theory Base64
  imports Prelude
begin

text \<open>
  Base 64: \<open>src/utils/base64.c\<close>. The encoder is its loop over the input, which only appends
  to the output; the decoder writes into the buffer of its caller, with every access checked.
  Lengths are \<open>unsigned int\<close>: subtractions wrap modulo \<open>2 ^ 32\<close>.
\<close>

unbundle bit_operations_syntax

section \<open>Tables\<close>

definition base64en :: string where
  "base64en = ''ABCDEFGHIJKLMNOPQRSTUVWXYZabcdefghijklmnopqrstuvwxyz0123456789+/''"

definition BASE64_PAD :: char where "BASE64_PAD = CHR ''=''"
definition BASE64DE_FIRST :: char where "BASE64DE_FIRST = CHR ''+''"
definition BASE64DE_LAST :: char where "BASE64DE_LAST = CHR ''z''"

definition base64de :: "int list" where
  "base64de =
     [62, -1, -1, -1, 63, 52, 53, 54,
      55, 56, 57, 58, 59, 60, 61, -1,
      -1, -1, -1, -1, -1, -1, 0, 1,
      2, 3, 4, 5, 6, 7, 8, 9,
      10, 11, 12, 13, 14, 15, 16, 17,
      18, 19, 20, 21, 22, 23, 24, 25,
      -1, -1, -1, -1, -1, -1, 26, 27,
      28, 29, 30, 31, 32, 33, 34, 35,
      36, 37, 38, 39, 40, 41, 42, 43,
      44, 45, 46, 47, 48, 49, 50, 51]"

definition BASE64_ENCODE_OUT_SIZE :: "nat \<Rightarrow> nat" where "BASE64_ENCODE_OUT_SIZE s = (s + 2) div 3 * 4"
definition BASE64_DECODE_OUT_SIZE :: "nat \<Rightarrow> nat" where "BASE64_DECODE_OUT_SIZE s = s div 4 * 3"

definition UINT_MOD :: int where "UINT_MOD = 4294967296"

abbreviation en64 :: "int \<Rightarrow> char" where "en64 k \<equiv> base64en ! nat k"

section \<open>Encoder\<close>

text \<open>What iteration \<open>i\<close> appends.\<close>

definition encode_step :: "string \<Rightarrow> nat \<Rightarrow> string" where
  "encode_step inp i =
     (if i mod 3 = 0 then [en64 (drop_bit 2 (byte_of (inp ! i)) AND 0x3F)]
      else if i mod 3 = 1 then
        [en64 (push_bit 4 (byte_of (inp ! (i - 1)) AND 0x3) + (drop_bit 4 (byte_of (inp ! i)) AND 0xF))]
      else
        [en64 (push_bit 2 (byte_of (inp ! (i - 1)) AND 0xF) + (drop_bit 6 (byte_of (inp ! i)) AND 0x3)),
         en64 (byte_of (inp ! i) AND 0x3F)])"

text \<open>After the loop \<open>i\<close> is moved back; for an empty input it wraps.\<close>

definition base64_encode :: "string \<Rightarrow> string cres" where
  "base64_encode inp =
     (let out = concat (map (encode_step inp) [0..<length inp]);
          i = (int (length inp) - 1) mod UINT_MOD
      in if i mod 3 = 0 then
           cbind (rd inp (nat i)) (\<lambda>c.
             Inr (out @ [en64 (push_bit 4 (byte_of c AND 0x3)), BASE64_PAD, BASE64_PAD]))
         else if i mod 3 = 1 then
           cbind (rd inp (nat i)) (\<lambda>c. Inr (out @ [en64 (push_bit 2 (byte_of c AND 0xF)), BASE64_PAD]))
         else Inr out)"

section \<open>Decoder\<close>

datatype base64_result = BASE64_OK | BASE64_INVALID

text \<open>\<open>char\<close> is signed: a byte of 128 and more is below \<open>BASE64DE_FIRST\<close>.\<close>

definition schar :: "char \<Rightarrow> int" where
  "schar c = (if byte_of c < 128 then byte_of c else byte_of c - 256)"

definition de64 :: "char \<Rightarrow> int" where
  "de64 c = (if schar c < schar BASE64DE_FIRST \<or> schar c > schar BASE64DE_LAST then -1
             else base64de ! nat (schar c - schar BASE64DE_FIRST))"

definition add_at :: "string \<Rightarrow> nat \<Rightarrow> int \<Rightarrow> string cres" where
  "add_at out j v = cbind (rd out j) (\<lambda>c. wr out j (char_of (byte_of c + v)))"

text \<open>The loop from iteration \<open>i\<close> on; the list is the input from there.\<close>

fun decode_loop :: "string \<Rightarrow> nat \<Rightarrow> nat \<Rightarrow> string \<Rightarrow> string \<Rightarrow> (base64_result \<times> string) cres" where
  "decode_loop inp i j out [] = Inr (BASE64_OK, out)"
| "decode_loop inp i j out (ch # rest) =
     (let inlen = int (length inp) in
      if ch = CHR ''='' then Inr (BASE64_OK, out)
      else if de64 ch = -1 then Inr (BASE64_INVALID, out)
      else let c = de64 ch in
        if i mod 4 = 0 then
          cbind (wr out j (char_of (push_bit 2 c AND 0xFF))) (\<lambda>out. decode_loop inp (i + 1) j out rest)
        else if i mod 4 = 1 then
          cbind (add_at out j (drop_bit 4 c AND 0x3)) (\<lambda>out.
          cbind (if int i < (inlen - 3) mod UINT_MOD \<or> inp ! nat ((inlen - 2) mod UINT_MOD) \<noteq> CHR ''=''
                 then wr out (j + 1) (char_of (push_bit 4 (c AND 0xF))) else Inr out) (\<lambda>out.
          decode_loop inp (i + 1) (j + 1) out rest))
        else if i mod 4 = 2 then
          cbind (add_at out j (drop_bit 2 c AND 0xF)) (\<lambda>out.
          cbind (if int i < (inlen - 2) mod UINT_MOD \<or> inp ! nat ((inlen - 1) mod UINT_MOD) \<noteq> CHR ''=''
                 then wr out (j + 1) (char_of (push_bit 6 (c AND 0x3))) else Inr out) (\<lambda>out.
          decode_loop inp (i + 1) (j + 1) out rest))
        else
          cbind (add_at out j c) (\<lambda>out. decode_loop inp (i + 1) (j + 1) out rest))"

definition base64_decode :: "string \<Rightarrow> string \<Rightarrow> (base64_result \<times> string) cres" where
  "base64_decode inp out = decode_loop inp 0 0 out inp"

section \<open>Reference\<close>

text \<open>The encoding of RFC 4648, three bytes at a time, over sextets.\<close>

fun sextets :: "int list \<Rightarrow> int list" where
  "sextets (a # b # c # r) = (a div 4) # ((a mod 4) * 16 + b div 16) # ((b mod 16) * 4 + c div 64) # (c mod 64) # sextets r"
| "sextets [a, b] = [a div 4, (a mod 4) * 16 + b div 16, (b mod 16) * 4]"
| "sextets [a] = [a div 4, (a mod 4) * 16]"
| "sextets [] = []"

definition base64_spec :: "string \<Rightarrow> string" where
  "base64_spec inp = map en64 (sextets (map byte_of inp)) @ replicate ((3 - length inp mod 3) mod 3) BASE64_PAD"

lemma and_masks:
  "(x::int) AND 0x3 = x mod 4" "x AND 0xF = x mod 16" "x AND 0x3F = x mod 64" "x AND 0xFF = x mod 256"
proof -
  have "x AND 0x3 = take_bit 2 x" "x AND 0xF = take_bit 4 x" "x AND 0x3F = take_bit 6 x" "x AND 0xFF = take_bit 8 x"
    by (simp_all add: take_bit_eq_mask mask_eq_exp_minus_1)
  then show "x AND 0x3 = x mod 4" "x AND 0xF = x mod 16" "x AND 0x3F = x mod 64" "x AND 0xFF = x mod 256"
    by (simp_all add: take_bit_eq_mod)
qed

lemmas bit_arith = and_masks drop_bit_eq_div push_bit_eq_mult

lemma encode_step_shift: "encode_step (a # b # c # r) (i + 3) = encode_step r i"
proof -
  have "(a # b # c # r) ! (i + 3 - 1) = r ! (i - 1)" if "i \<noteq> 0"
  proof -
    have "i + 3 - 1 = Suc (Suc (Suc (i - 1)))" using that by simp
    then show ?thesis by (simp only: nth_Cons_Suc)
  qed
  moreover have "i + 3 = Suc (Suc (Suc i))" by simp
  then have "(a # b # c # r) ! (i + 3) = r ! i" by (simp only: nth_Cons_Suc)
  moreover have "(i + 3) mod 3 = i mod 3" by simp
  ultimately show ?thesis by (cases "i = 0") (simp_all only: encode_step_def mod_0 if_True refl not_False_eq_True)
qed

lemma div_in_range: "0 \<le> (x::int) \<Longrightarrow> x < 256 \<Longrightarrow>
  x div 4 mod 64 = x div 4 \<and> x div 16 mod 16 = x div 16 \<and> x div 64 mod 4 = x div 64"
  by auto

lemmas byte_div = div_in_range[OF byte_of_nonneg byte_of_less, THEN conjunct1]
  div_in_range[OF byte_of_nonneg byte_of_less, THEN conjunct2, THEN conjunct1]
  div_in_range[OF byte_of_nonneg byte_of_less, THEN conjunct2, THEN conjunct2]

lemma upt_3: "[0..<3] = [0, 1, 2]"
  by (simp add: upt_rec)

definition encode_out :: "string \<Rightarrow> string" where
  "encode_out inp = concat (map (encode_step inp) [0..<length inp])"

lemma encode_out_3:
  "encode_out (a # b # c # r) = map en64 (sextets (map byte_of [a, b, c])) @ encode_out r"
proof -
  let ?s = "encode_step (a # b # c # r)"
  have len: "length (a # b # c # r) = length r + 3" by simp
  have "[0..<length (a # b # c # r)] = [0, 1, 2] @ map (\<lambda>i. i + 3) [0..<length r]"
    unfolding len using map_add_upt[of 3 "length r"] upt_add_eq_append[of 0 3 "length r"]
    by (simp add: upt_3 add.commute del: upt_Suc)
  then have "encode_out (a # b # c # r) =
      concat (map ?s [0, 1, 2]) @ concat (map ?s (map (\<lambda>i. i + 3) [0..<length r]))"
    by (simp only: encode_out_def map_append concat_append)
  also have "map ?s (map (\<lambda>i. i + 3) [0..<length r]) = map (encode_step r) [0..<length r]"
    by (simp only: map_map o_def encode_step_shift)
  also have "concat (map ?s [0, 1, 2]) = map en64 (sextets (map byte_of [a, b, c]))"
    by (simp add: encode_step_def bit_arith byte_div mult.commute)
  finally show ?thesis by (simp only: encode_out_def)
qed

definition encode_tail :: "string \<Rightarrow> string" where
  "encode_tail inp =
     (if (length inp - 1) mod 3 = 0 then [en64 ((byte_of (last inp) mod 4) * 16), BASE64_PAD, BASE64_PAD]
      else if (length inp - 1) mod 3 = 1 then [en64 ((byte_of (last inp) mod 16) * 4), BASE64_PAD]
      else [])"

lemma list_3_induct [consumes 1, case_names one two three more]:
  assumes "xs \<noteq> []" "\<And>a. P [a]" "\<And>a b. P [a, b]" "\<And>a b c. P [a, b, c]"
    "\<And>a b c r. r \<noteq> [] \<Longrightarrow> P r \<Longrightarrow> P (a # b # c # r)"
  shows "P xs"
  using assms(1)
proof (induction xs rule: length_induct)
  case (1 xs)
  then obtain a r1 where xs: "xs = a # r1" by (cases xs) auto
  show ?case
  proof (cases r1)
    case Nil
    then show ?thesis using xs assms(2) by simp
  next
    case r1: (Cons b r2)
    show ?thesis
    proof (cases r2)
      case Nil
      then show ?thesis using xs r1 assms(3) by simp
    next
      case r2: (Cons c r3)
      show ?thesis
      proof (cases "r3 = []")
        case True
        then show ?thesis using xs r1 r2 assms(4) by simp
      next
        case False
        then have "P r3" using 1 xs r1 r2 by simp
        then show ?thesis using xs r1 r2 False assms(5) by simp
      qed
    qed
  qed
qed

lemma encode_out_tail: "inp \<noteq> [] \<Longrightarrow> encode_out inp @ encode_tail inp = base64_spec inp"
proof (induction inp rule: list_3_induct)
  case (one a)
  show ?case
    by (simp add: encode_out_def encode_tail_def base64_spec_def encode_step_def bit_arith byte_div numeral_2_eq_2)
next
  case (two a b)
  show ?case
    by (simp add: encode_out_def encode_tail_def base64_spec_def encode_step_def bit_arith byte_div mult.commute)
next
  case (three a b c)
  have "encode_out [] = []" by (simp add: encode_out_def)
  then show ?case by (simp add: encode_out_3 encode_tail_def base64_spec_def)
next
  case (more a b c r)
  have "length (a # b # c # r) - 1 = (length r - 1) + 3" using more(1) by (cases r) auto
  then have "(length (a # b # c # r) - 1) mod 3 = (length r - 1) mod 3" by (simp only: mod_add_self2)
  then have "encode_tail (a # b # c # r) = encode_tail r" using more(1) by (simp only: encode_tail_def last.simps list.distinct if_False)
  moreover have "base64_spec (a # b # c # r) = map en64 (sextets (map byte_of [a, b, c])) @ base64_spec r"
    by (simp add: base64_spec_def)
  ultimately show ?case using more by (simp add: encode_out_3)
qed

lemma base64_encode_is_spec:
  assumes "inp \<noteq> []" "int (length inp) < UINT_MOD"
  shows "base64_encode inp = Inr (base64_spec inp)"
proof -
  define n where "n = length inp - 1"
  have n: "length inp = Suc n" using assms(1) by (cases inp) (auto simp: n_def)
  have i: "(int (length inp) - 1) mod UINT_MOD = int n" using n assms(2) by simp
  have l: "rd inp n = Inr (last inp)" using n assms(1) by (simp add: rd_def last_conv_nth n_def)
  have m: "int n mod 3 = int (n mod 3)" by (simp add: zmod_int)
  have "base64_encode inp = Inr (encode_out inp @ encode_tail inp)"
    unfolding base64_encode_def encode_out_def[symmetric] Let_def i m encode_tail_def n_def[symmetric] nat_int l cbind_simps
    by (simp add: bit_arith mult.commute)
  then show ?thesis by (simp add: encode_out_tail[OF assms(1)])
qed

text \<open>An empty input is read at index \<open>2 ^ 32 - 1\<close>.\<close>

lemma base64_encode_empty: "base64_encode [] = Inl OutOfBounds"
  by (simp add: base64_encode_def UINT_MOD_def rd_def)

lemma base64_spec_length: "length (base64_spec inp) = BASE64_ENCODE_OUT_SIZE (length inp)"
proof (cases "inp = []")
  case False
  then show ?thesis
  proof (induction inp rule: list_3_induct)
    case (more a b c r)
    have "(length (a # b # c # r) + 2) div 3 = Suc ((length r + 2) div 3)" by simp
    with more show ?case by (simp add: base64_spec_def BASE64_ENCODE_OUT_SIZE_def)
  qed (simp_all add: base64_spec_def BASE64_ENCODE_OUT_SIZE_def)
qed (simp add: base64_spec_def BASE64_ENCODE_OUT_SIZE_def)

section \<open>Decoding what was encoded\<close>

lemma sextet_table: "list_all (\<lambda>k. de64 (en64 k) = k \<and> en64 k \<noteq> CHR ''='') (map int [0..<64])"
  by code_simp

lemma sextet_char:
  assumes "0 \<le> k" "k < 64"
  shows "de64 (en64 k) = k" "en64 k \<noteq> CHR ''=''" "de64 (en64 k) \<noteq> -1"
proof -
  have "k = int (nat k)" "nat k \<in> set [0..<64]" using assms by auto
  then have "k \<in> set (map int [0..<64])" by (metis image_eqI set_map)
  then show "de64 (en64 k) = k" "en64 k \<noteq> CHR ''=''" using sextet_table by (auto simp only: list_all_iff)
  then show "de64 (en64 k) \<noteq> -1" using assms by simp
qed

lemma wr_at: "length d = j \<Longrightarrow> wr (d @ x # t) j y = Inr (d @ y # t)"
  by (auto simp: wr_def)

lemma add_at_at: "length d = j \<Longrightarrow> add_at (d @ x # t) j v = Inr (d @ char_of (byte_of x + v) # t)"
  by (auto simp: add_at_def rd_def wr_at nth_append)

lemma wr_at_Suc: "length d = j \<Longrightarrow> wr (d @ x # y # t) (j + 1) z = Inr (d @ x # z # t)"
  using wr_at[of "d @ [x]" "j + 1" y t z] by simp

lemma decode_0:
  assumes "0 \<le> k" "k < 64" "i mod 4 = 0" "length d = j"
  shows "decode_loop inp i j (d @ x # t) (en64 k # rest) = decode_loop inp (i + 1) j (d @ char_of (k * 4) # t) rest"
proof -
  have "char_of (k * 4 mod 256) = (char_of (k * 4) :: char)" by (rule char_of_mod_256)
  then show ?thesis using assms(3,4) sextet_char[OF assms(1,2)]
    by (simp add: Let_def wr_at bit_arith mult.commute)
qed

lemma decode_1:
  assumes "0 \<le> k" "k < 64" "i mod 4 = 1" "length d = j"
  shows "int i < (int (length inp) - 3) mod UINT_MOD \<or> inp ! nat ((int (length inp) - 2) mod UINT_MOD) \<noteq> CHR ''='' \<Longrightarrow>
    decode_loop inp i j (d @ x # y # t) (en64 k # rest) =
      decode_loop inp (i + 1) (j + 1) (d @ char_of (byte_of x + k div 16 mod 4) # char_of (k mod 16 * 16) # t) rest"
   "\<not> (int i < (int (length inp) - 3) mod UINT_MOD \<or> inp ! nat ((int (length inp) - 2) mod UINT_MOD) \<noteq> CHR ''='') \<Longrightarrow>
    decode_loop inp i j (d @ x # t) (en64 k # rest) =
      decode_loop inp (i + 1) (j + 1) (d @ char_of (byte_of x + k div 16 mod 4) # t) rest"
  using assms(3,4) sextet_char[OF assms(1,2)]
  by (simp_all add: Let_def add_at_at wr_at_Suc[simplified] bit_arith mult.commute)

lemma decode_2:
  assumes "0 \<le> k" "k < 64" "i mod 4 = 2" "length d = j"
  shows "int i < (int (length inp) - 2) mod UINT_MOD \<or> inp ! nat ((int (length inp) - 1) mod UINT_MOD) \<noteq> CHR ''='' \<Longrightarrow>
    decode_loop inp i j (d @ x # y # t) (en64 k # rest) =
      decode_loop inp (i + 1) (j + 1) (d @ char_of (byte_of x + k div 4 mod 16) # char_of (k mod 4 * 64) # t) rest"
   "\<not> (int i < (int (length inp) - 2) mod UINT_MOD \<or> inp ! nat ((int (length inp) - 1) mod UINT_MOD) \<noteq> CHR ''='') \<Longrightarrow>
    decode_loop inp i j (d @ x # t) (en64 k # rest) =
      decode_loop inp (i + 1) (j + 1) (d @ char_of (byte_of x + k div 4 mod 16) # t) rest"
  using assms(3,4) sextet_char[OF assms(1,2)]
  by (simp_all add: Let_def add_at_at wr_at_Suc[simplified] bit_arith mult.commute)

lemma decode_3:
  assumes "0 \<le> k" "k < 64" "i mod 4 = 3" "length d = j"
  shows "decode_loop inp i j (d @ x # t) (en64 k # rest) =
      decode_loop inp (i + 1) (j + 1) (d @ char_of (byte_of x + k) # t) rest"
  using assms(3,4) sextet_char[OF assms(1,2)] by (simp add: Let_def add_at_at)

lemma decode_pad: "decode_loop inp i j out (BASE64_PAD # rest) = Inr (BASE64_OK, out)"
  by (simp add: BASE64_PAD_def)

lemma regroup:
  fixes a b c :: int
  assumes "0 \<le> a" "a < 256" "0 \<le> b" "b < 256" "0 \<le> c" "c < 256"
  shows "a div 4 * 4 mod 256 + (a mod 4 * 16 + b div 16) div 16 mod 4 = a"
    "(a mod 4 * 16 + b div 16) mod 16 * 16 mod 256 + (b mod 16 * 4 + c div 64) div 4 mod 16 = b"
    "(b mod 16 * 4 + c div 64) mod 4 * 64 mod 256 + c mod 64 = c"
    "(b mod 16 * 4) div 4 mod 16 = b mod 16"
proof -
  have b1: "0 \<le> b div 16" "b div 16 < 16" and c1: "0 \<le> c div 64" "c div 64 < 4" using assms by auto
  have a0: "a div 4 * 4 mod 256 = a div 4 * 4" using assms by simp
  have k1: "(a mod 4 * 16 + b div 16) div 16 = a mod 4" "(a mod 4 * 16 + b div 16) mod 16 = b div 16"
    using b1 by simp_all
  have k2: "(b mod 16 * 4 + c div 64) div 4 = b mod 16" "(b mod 16 * 4 + c div 64) mod 4 = c div 64"
    using c1 by simp_all
  show "a div 4 * 4 mod 256 + (a mod 4 * 16 + b div 16) div 16 mod 4 = a"
    by (simp only: a0 k1) simp
  show "(a mod 4 * 16 + b div 16) mod 16 * 16 mod 256 + (b mod 16 * 4 + c div 64) div 4 mod 16 = b"
    using b1 by (simp only: k1 k2) simp
  show "(b mod 16 * 4 + c div 64) mod 4 * 64 mod 256 + c mod 64 = c"
    using c1 by (simp only: k2) simp
  show "(b mod 16 * 4) div 4 mod 16 = b mod 16" by simp
qed

lemma sextet_range:
  "0 \<le> byte_of a div 4" "byte_of a div 4 < 64"
  "0 \<le> byte_of a mod 4 * 16 + byte_of b div 16" "byte_of a mod 4 * 16 + byte_of b div 16 < 64"
  "0 \<le> byte_of b mod 16 * 4 + byte_of c div 64" "byte_of b mod 16 * 4 + byte_of c div 64 < 64"
  "0 \<le> byte_of c mod 64" "byte_of c mod 64 < 64"
proof -
  have "byte_of b div 16 < 16" "0 \<le> byte_of b div 16" "byte_of c div 64 < 4" "0 \<le> byte_of c div 64"
    "byte_of a mod 4 < 4" "0 \<le> byte_of a mod 4" "byte_of b mod 16 < 16" "0 \<le> byte_of b mod 16"
    using byte_of_less[of b] byte_of_less[of c] byte_of_nonneg[of b] byte_of_nonneg[of c] by (simp_all del: byte_of_less byte_of_nonneg)
  then show "0 \<le> byte_of a mod 4 * 16 + byte_of b div 16" "byte_of a mod 4 * 16 + byte_of b div 16 < 64"
  "0 \<le> byte_of b mod 16 * 4 + byte_of c div 64" "byte_of b mod 16 * 4 + byte_of c div 64 < 64"
    by linarith+
  show "0 \<le> byte_of a div 4" "byte_of a div 4 < 64" "0 \<le> byte_of c mod 64" "byte_of c mod 64 < 64"
    using byte_of_less[of a] byte_of_nonneg[of a] by (simp_all del: byte_of_less byte_of_nonneg)
qed

declare decode_loop.simps(2) [simp del]

lemma join_bytes:
  "char_of (byte_of (char_of (byte_of a div 4 * 4) :: char) + (byte_of a mod 4 * 16 + byte_of b div 16) div 16 mod 4) = a"
  "char_of (byte_of (char_of ((byte_of a mod 4 * 16 + byte_of b div 16) mod 16 * 16) :: char)
     + (byte_of b mod 16 * 4 + byte_of c div 64) div 4 mod 16) = b"
  "char_of (byte_of (char_of ((byte_of b mod 16 * 4 + byte_of c div 64) mod 4 * 64) :: char) + byte_of c mod 64) = c"
  by (simp_all only: of_char_of regroup[OF byte_of_nonneg byte_of_less byte_of_nonneg byte_of_less byte_of_nonneg byte_of_less]
      char_of_char)

text \<open>A group of three bytes that is not the last, or is the last and full.\<close>

lemma decode_group:
  assumes i: "i mod 4 = 0" "length d = j"
    and g1: "int (i + 1) < (int (length inp) - 3) mod UINT_MOD \<or> inp ! nat ((int (length inp) - 2) mod UINT_MOD) \<noteq> CHR ''=''"
    and g2: "int (i + 2) < (int (length inp) - 2) mod UINT_MOD \<or> inp ! nat ((int (length inp) - 1) mod UINT_MOD) \<noteq> CHR ''=''"
  shows "decode_loop inp i j (d @ x # y # z # t) (map en64 (sextets (map byte_of [a, b, c])) @ rest) =
     decode_loop inp (i + 4) (j + 3) ((d @ [a, b, c]) @ t) rest"
proof -
  let ?k0 = "byte_of a div 4" and ?k1 = "byte_of a mod 4 * 16 + byte_of b div 16"
  let ?k2 = "byte_of b mod 16 * 4 + byte_of c div 64" and ?k3 = "byte_of c mod 64"
  have m: "(i + 1) mod 4 = 1" "(i + 1 + 1) mod 4 = 2" "(i + 1 + 1 + 1) mod 4 = 3" using i(1) by presburger+
  have g2': "int (i + 1 + 1) < (int (length inp) - 2) mod UINT_MOD \<or> inp ! nat ((int (length inp) - 1) mod UINT_MOD) \<noteq> CHR ''=''"
    using g2 by (simp only: add.assoc one_add_one)
  have d1: "length (d @ [a]) = j + 1" and d2: "length (d @ [a, b]) = j + 1 + 1" using i(2) by simp_all
  have s1: "decode_loop inp (i + 1) j (d @ char_of (?k0 * 4) # y # z # t) (en64 ?k1 # r) =
      decode_loop inp (i + 1 + 1) (j + 1) ((d @ [a]) @ char_of (?k1 mod 16 * 16) # z # t) r" for r
    unfolding decode_1(1)[OF sextet_range(3,4) m(1) i(2) g1] join_bytes by simp
  have s2: "decode_loop inp (i + 1 + 1) (j + 1) ((d @ [a]) @ char_of (?k1 mod 16 * 16) # z # t) (en64 ?k2 # r) =
      decode_loop inp (i + 1 + 1 + 1) (j + 1 + 1) ((d @ [a, b]) @ char_of (?k2 mod 4 * 64) # t) r" for r
    unfolding decode_2(1)[OF sextet_range(5,6) m(2) d1 g2'] join_bytes by simp
  have s3: "decode_loop inp (i + 1 + 1 + 1) (j + 1 + 1) ((d @ [a, b]) @ char_of (?k2 mod 4 * 64) # t) (en64 ?k3 # r) =
      decode_loop inp (i + 1 + 1 + 1 + 1) (j + 1 + 1 + 1) ((d @ [a, b, c]) @ t) r" for r
    unfolding decode_3[OF sextet_range(7,8) m(3) d2] join_bytes by simp
  have e: "i + 4 = i + 1 + 1 + 1 + 1" "j + 3 = j + 1 + 1 + 1" by simp_all
  show ?thesis
    unfolding e list.map sextets.simps append_Cons append_Nil decode_0[OF sextet_range(1,2) i] s1 s2 s3 ..
qed

text \<open>The last group, of one or two bytes.\<close>

lemma decode_last_1:
  assumes "inp = pre @ base64_spec [a]" "length pre mod 4 = 0" "length d = j" "int (length inp) < UINT_MOD"
  shows "decode_loop inp (length pre) j (d @ x # t) (base64_spec [a]) = Inr (BASE64_OK, d @ a # t)"
proof -
  let ?k0 = "byte_of a div 4" and ?k1 = "byte_of a mod 4 * 16"
  have sp: "base64_spec [a] = [en64 ?k0, en64 ?k1, BASE64_PAD, BASE64_PAD]"
    by (simp add: base64_spec_def numeral_2_eq_2)
  have len: "(int (length inp) - 3) mod UINT_MOD = int (length pre) + 1"
    "(int (length inp) - 2) mod UINT_MOD = int (length pre + 2)"
    using assms(1,4) sp by simp_all
  have pad: "inp ! (length pre + 2) = CHR ''=''" using assms(1) sp by (simp add: nth_append BASE64_PAD_def)
  have r: "0 \<le> ?k1" "?k1 < 64" using sextet_range(3,4)[of a NUL] by (simp_all add: NUL_def)
  have m: "(length pre + 1) mod 4 = 1" using assms(2) by presburger
  have a: "char_of (byte_of (char_of (?k0 * 4) :: char) + ?k1 div 16 mod 4) = a"
    using join_bytes(1)[of a NUL] by (simp add: NUL_def)
  have ng: "\<not> (int (length pre + 1) < (int (length inp) - 3) mod UINT_MOD \<or>
      inp ! nat ((int (length inp) - 2) mod UINT_MOD) \<noteq> CHR ''='')"
    unfolding len using pad by (simp only: nat_int) simp
  show ?thesis
    unfolding sp decode_0[OF sextet_range(1,2) assms(2,3)] decode_1(2)[OF r m assms(3) ng] decode_pad a ..
qed

lemma decode_last_2:
  assumes "inp = pre @ base64_spec [a, b]" "length pre mod 4 = 0" "length d = j" "int (length inp) < UINT_MOD"
  shows "decode_loop inp (length pre) j (d @ x # y # t) (base64_spec [a, b]) = Inr (BASE64_OK, d @ a # b # t)"
proof -
  let ?k0 = "byte_of a div 4" and ?k1 = "byte_of a mod 4 * 16 + byte_of b div 16" and ?k2 = "byte_of b mod 16 * 4"
  have sp: "base64_spec [a, b] = [en64 ?k0, en64 ?k1, en64 ?k2, BASE64_PAD]"
    by (simp add: base64_spec_def)
  have len: "(int (length inp) - 3) mod UINT_MOD = int (length pre) + 1"
    "(int (length inp) - 2) mod UINT_MOD = int (length pre + 2)"
    "(int (length inp) - 1) mod UINT_MOD = int (length pre + 3)"
    using assms(1,4) sp by simp_all
  have r: "0 \<le> ?k2" "?k2 < 64" using sextet_range(5,6)[of b NUL] by (simp_all add: NUL_def)
  have at: "inp ! (length pre + 2) = en64 ?k2" "inp ! (length pre + 3) = CHR ''=''"
    using assms(1) sp by (simp_all add: nth_append BASE64_PAD_def)
  have m: "(length pre + 1) mod 4 = 1" "(length pre + 1 + 1) mod 4 = 2" using assms(2) by presburger+
  have a: "char_of (byte_of (char_of (?k0 * 4) :: char) + ?k1 div 16 mod 4) = a" by (rule join_bytes(1))
  have b: "char_of (byte_of (char_of (?k1 mod 16 * 16) :: char) + ?k2 div 4 mod 16) = b"
    using join_bytes(2)[of a b NUL] by (simp add: NUL_def)
  have g1: "int (length pre + 1) < (int (length inp) - 3) mod UINT_MOD \<or>
      inp ! nat ((int (length inp) - 2) mod UINT_MOD) \<noteq> CHR ''=''"
    unfolding len nat_int at using sextet_char(2)[OF r] by blast
  have ng2: "\<not> (int (length pre + 1 + 1) < (int (length inp) - 2) mod UINT_MOD \<or>
      inp ! nat ((int (length inp) - 1) mod UINT_MOD) \<noteq> CHR ''='')"
    unfolding len nat_int at by simp
  have d1: "length (d @ [a]) = j + 1" using assms(3) by simp
  have s2: "decode_loop inp (length pre + 1 + 1) (j + 1) (d @ a # z # t) (en64 ?k2 # rest) =
      decode_loop inp (length pre + 1 + 1 + 1) (j + 1 + 1) (d @ a # char_of (byte_of z + ?k2 div 4 mod 16) # t) rest" for z rest
    using decode_2(2)[OF r m(2) d1 ng2, of z t rest] by simp
  show ?thesis
    unfolding sp decode_0[OF sextet_range(1,2) assms(2,3)] decode_1(1)[OF sextet_range(3,4) m(1) assms(3) g1] a s2 b decode_pad ..
qed

lemma decode_spec:
  assumes "xs \<noteq> []" "inp = pre @ base64_spec xs" "length pre mod 4 = 0" "length d = j"
    "length xs \<le> length t" "int (length inp) < UINT_MOD"
  shows "decode_loop inp (length pre) j (d @ t) (base64_spec xs) = Inr (BASE64_OK, d @ xs @ drop (length xs) t)"
  using assms
proof (induction xs arbitrary: pre d j t rule: list_3_induct)
  case (one a)
  obtain x t' where "t = x # t'" using one.prems(4) by (cases t) auto
  then show ?case using decode_last_1[OF one.prems(1,2,3,5), of x t'] by simp
next
  case (two a b)
  obtain x y t' where "t = x # y # t'" using two.prems(4) by (cases t; cases "tl t") auto
  then show ?case using decode_last_2[OF two.prems(1,2,3,5), of x y t'] by simp
next
  case (three a b c)
  obtain x y z t' where t: "t = x # y # z # t'"
    using three.prems(4) by (cases t; cases "tl t"; cases "tl (tl t)") auto
  have sp: "base64_spec [a, b, c] = map en64 (sextets (map byte_of [a, b, c])) @ []"
    by (simp add: base64_spec_def)
  have l4: "length (base64_spec [a, b, c]) = 4" by (simp add: base64_spec_def)
  have len: "(int (length inp) - 2) mod UINT_MOD = int (length pre + 2)"
    "(int (length inp) - 1) mod UINT_MOD = int (length pre + 3)"
    using three.prems(1,5) l4 by simp_all
  have at: "inp ! (length pre + 2) = en64 (byte_of b mod 16 * 4 + byte_of c div 64)"
      "inp ! (length pre + 3) = en64 (byte_of c mod 64)"
    using three.prems(1) sp by (simp_all add: nth_append)
  have g: "inp ! nat ((int (length inp) - 2) mod UINT_MOD) \<noteq> CHR ''=''"
      "inp ! nat ((int (length inp) - 1) mod UINT_MOD) \<noteq> CHR ''=''"
    unfolding len nat_int at by (rule sextet_char(2)[OF sextet_range(5,6)], rule sextet_char(2)[OF sextet_range(7,8)])
  show ?case
    using decode_group[OF three.prems(2,3) disjI2[OF g(1)] disjI2[OF g(2)], of x y z t' a b c "[]"]
    by (simp add: sp t)
next
  case (more a b c r)
  obtain x y z t' where t: "t = x # y # z # t'"
    using more.prems(4) by (cases t; cases "tl t"; cases "tl (tl t)") auto
  let ?g = "map en64 (sextets (map byte_of [a, b, c]))"
  have sp: "base64_spec (a # b # c # r) = ?g @ base64_spec r" by (simp add: base64_spec_def)
  have l4: "length ?g = 4" by simp
  have lr: "4 \<le> length (base64_spec r)"
    using more.hyps(1) by (cases r) (auto simp: base64_spec_length BASE64_ENCODE_OUT_SIZE_def)
  have len: "(int (length inp) - 3) mod UINT_MOD = int (length inp) - 3" "(int (length inp) - 2) mod UINT_MOD = int (length inp) - 2"
    "length inp \<ge> length pre + 8"
    using more.prems(1,5) sp l4 lr by simp_all
  have g: "int (length pre + 1) < (int (length inp) - 3) mod UINT_MOD" "int (length pre + 2) < (int (length inp) - 2) mod UINT_MOD"
    unfolding len(1,2) using len(3) by simp_all
  have m: "length (pre @ ?g) mod 4 = 0" using more.prems(2) l4 by simp
  have "decode_loop inp (length pre) j (d @ t) (base64_spec (a # b # c # r)) =
      decode_loop inp (length (pre @ ?g)) (j + 3) ((d @ [a, b, c]) @ t') (base64_spec r)"
    unfolding sp t decode_group[OF more.prems(2,3) disjI1[OF g(1)] disjI1[OF g(2)]] length_append l4 ..
  also have "\<dots> = Inr (BASE64_OK, (d @ [a, b, c]) @ r @ drop (length r) t')"
    by (rule more.IH) (use more.prems sp m t in auto)
  finally show ?case by (simp add: t)
qed

text \<open>
  C20: encoding any non-empty input and decoding the result gives the input back, inside a buffer
  that has room for no more than it.
\<close>

theorem base64_roundtrip:
  assumes "inp \<noteq> []" "int (BASE64_ENCODE_OUT_SIZE (length inp)) < UINT_MOD" "length out = length inp"
  shows "\<exists>enc. base64_encode inp = Inr enc \<and> length enc = BASE64_ENCODE_OUT_SIZE (length inp) \<and>
     base64_decode enc out = Inr (BASE64_OK, inp)"
proof -
  have "length inp \<le> BASE64_ENCODE_OUT_SIZE (length inp)" by (simp add: BASE64_ENCODE_OUT_SIZE_def)
  then have n: "int (length inp) < UINT_MOD" using assms(2) by linarith
  have "decode_loop (base64_spec inp) 0 0 out (base64_spec inp) = Inr (BASE64_OK, inp)"
    using decode_spec[of inp "base64_spec inp" "[]" "[]" 0 out] assms by (simp add: base64_spec_length)
  then show ?thesis using base64_encode_is_spec[OF assms(1) n] assms(3)
    by (simp add: base64_decode_def base64_spec_length)
qed

theorem base64_roundtrip_witness:
  "\<exists>enc. base64_encode ''hello'' = Inr enc \<and> length enc = 8 \<and> base64_decode enc ''.....'' = Inr (BASE64_OK, ''hello'')"
  using base64_roundtrip[of "''hello''" "''.....''"] by (simp add: BASE64_ENCODE_OUT_SIZE_def UINT_MOD_def)

text \<open>
  \<open>BASE64_DECODE_OUT_SIZE\<close> is too small for a text whose length is no multiple of four: seven
  characters decode to four and more bytes, and the macro allows three.
\<close>

lemma base64_decode_unpadded:
  "base64_decode ''QUJDQUI'' (replicate (BASE64_DECODE_OUT_SIZE 7) NUL) = Inl BufferOverflow"
  by code_simp

end
