(* ===== verification/WsHandshake.thy ===== *)
theory WsHandshake
  imports WsSession Sha1 Base64
begin

text \<open>
  The WebSocket handshake: \<open>ws_encode_key\<close> of \<open>src/http/wsdef.c\<close>, the answer of the server
  (\<open>on_recv\<close> of \<open>src/http/server/HttpServer.cpp\<close>) and the check of the client
  (\<open>WebSocketClient::open\<close>). It is where the hash and the encoding meet.
\<close>

definition ws_magic :: string where
  "ws_magic = ''258EAFA5-E914-47DA-95CA-C5AB0DC85B11''"

text \<open>
  The hash context is a local variable, so its content at the start is arbitrary. \<open>accept\<close> is
  the array of the caller; the encoder writes no terminator.
\<close>

definition ws_encode_key :: "SHA1_CTX \<Rightarrow> string \<Rightarrow> string \<Rightarrow> string cres" where
  "ws_encode_key ctx key accept =
     cbind (SHA1Update (SHA1Init ctx) (cstr key)) (\<lambda>ctx.
     cbind (SHA1Update ctx ws_magic) (\<lambda>ctx.
     cbind (SHA1Final ctx) (\<lambda>digest.
     cbind (base64_encode digest) (\<lambda>enc. wr_bytes accept 0 enc))))"

text \<open>The server: \<open>char ws_accept[32] = {0}\<close>, and the header is the C string in it.\<close>

definition server_accept :: "SHA1_CTX \<Rightarrow> string \<Rightarrow> string cres" where
  "server_accept ctx key = cbind (ws_encode_key ctx key (replicate 32 NUL)) (\<lambda>a. Inr (cstr a))"

text \<open>The client: \<open>strcmp(ws_accept, ws_accept2.c_str()) != 0\<close> closes the connection.\<close>

definition client_accepts :: "SHA1_CTX \<Rightarrow> string \<Rightarrow> string \<Rightarrow> bool cres" where
  "client_accepts ctx ws_key ws_accept2 =
     cbind (ws_encode_key ctx ws_key (replicate 32 NUL)) (\<lambda>a. Inr (cstr a = cstr ws_accept2))"

lemma en64_not_NUL: "list_all (\<lambda>c. c \<noteq> NUL) base64en"
  by code_simp

lemma sextets_range: "list_all (\<lambda>b. 0 \<le> b \<and> b < 256) xs \<Longrightarrow> list_all (\<lambda>k. 0 \<le> k \<and> k < 64) (sextets xs)"
  by (induction xs rule: sextets.induct) auto

lemma base64_spec_no_NUL: "NUL \<notin> set (base64_spec inp)"
proof
  assume "NUL \<in> set (base64_spec inp)"
  then consider k where "k \<in> set (sextets (map byte_of inp))" "en64 k = NUL" | "BASE64_PAD = NUL"
    by (auto simp: base64_spec_def split: if_splits)
  then show False
  proof cases
    case 1
    have "list_all (\<lambda>k. 0 \<le> k \<and> k < 64) (sextets (map byte_of inp))"
      by (rule sextets_range) (simp add: list_all_iff)
    then have k: "0 \<le> k" "k < 64" using 1(1) by (auto simp: list_all_iff)
    have "length base64en = 64" by (simp add: base64en_def)
    then have "en64 k \<in> set base64en" using k by (intro nth_mem) simp
    then show False using 1(2) en64_not_NUL by (auto simp only: list_all_iff)
  next
    case 2
    then show False by (simp add: BASE64_PAD_def NUL_def)
  qed
qed

lemma ws_encode_key_value:
  assumes "length (sha_buffer ctx) = 64" "length (cstr key) + 256 \<le> 2 ^ 32" "length accept = 32"
  shows "ws_encode_key ctx key accept =
    Inr (base64_spec (fips_sha1 (cstr key @ ws_magic)) @ drop 28 accept)"
proof -
  let ?msg = "cstr key @ ws_magic"
  have l: "length ws_magic = 36" by (simp add: ws_magic_def)
  have fit: "sha1_fits ([] @ cstr key)" "sha1_fits (([] @ cstr key) @ ws_magic)"
    using assms(2) l by (simp_all add: sha1_fits_def)
  obtain c1 where c1: "SHA1Update (SHA1Init ctx) (cstr key) = Inr c1" "sha1_absorbs c1 ([] @ cstr key)"
    using SHA1Update_absorbs[OF SHA1Init_absorbs[OF assms(1)] fit(1)] by blast
  obtain c2 where c2: "SHA1Update c1 ws_magic = Inr c2" "sha1_absorbs c2 ?msg"
    using SHA1Update_absorbs[OF c1(2) fit(2)] by auto
  have d: "SHA1Final c2 = Inr (fips_sha1 ?msg)"
    using c2(2) assms(2) l by (intro SHA1Final_digest) simp_all
  have n: "length (fips_sha1 ?msg) = 20" by (rule length_fips_sha1)
  then have "fips_sha1 ?msg \<noteq> []" by (metis list.size(3) zero_neq_numeral)
  then have e: "base64_encode (fips_sha1 ?msg) = Inr (base64_spec (fips_sha1 ?msg))"
    using n by (intro base64_encode_is_spec) (simp_all add: UINT_MOD_def)
  have "length (base64_spec (fips_sha1 ?msg)) = 28"
    using n by (simp add: base64_spec_length BASE64_ENCODE_OUT_SIZE_def)
  then have "wr_bytes accept 0 (base64_spec (fips_sha1 ?msg)) = Inr (base64_spec (fips_sha1 ?msg) @ drop 28 accept)"
    using assms(3) by (simp add: wr_bytes_def)
  then show ?thesis using c1(1) c2(1) d e by (simp add: ws_encode_key_def)
qed

text \<open>
  C19: the server answers with the Base 64 of the SHA-1 of the key and the magic string, as
  RFC 6455 wants it, inside its array, and the client that sent the key accepts this answer.
\<close>

theorem ws_handshake:
  assumes "length (sha_buffer ctx) = 64" "length (sha_buffer ctx') = 64" "length (cstr key) + 256 \<le> 2 ^ 32"
  shows "server_accept ctx key = Inr (base64_spec (fips_sha1 (cstr key @ ws_magic)))
    \<and> client_accepts ctx' key (base64_spec (fips_sha1 (cstr key @ ws_magic))) = Inr True"
proof -
  let ?a = "base64_spec (fips_sha1 (cstr key @ ws_magic))"
  have c: "cstr (?a @ replicate 4 NUL) = ?a" "cstr ?a = ?a"
    using base64_spec_no_NUL[of "fips_sha1 (cstr key @ ws_magic)"]
    by (auto simp: cstr_def takeWhile_append takeWhile_eq_all_conv)
  show ?thesis
    using ws_encode_key_value[OF assms(1,3), of "replicate 32 NUL"] ws_encode_key_value[OF assms(2,3), of "replicate 32 NUL"] c
    by (simp add: server_accept_def client_accepts_def)
qed

theorem ws_handshake_witness:
  "server_accept any_ctx ''dGhlIHNhbXBsZSBub25jZQ=='' =
     Inr (base64_spec (fips_sha1 ''dGhlIHNhbXBsZSBub25jZQ==258EAFA5-E914-47DA-95CA-C5AB0DC85B11''))"
proof -
  have b: "length (sha_buffer any_ctx) = 64" by (simp add: any_ctx_def)
  have c: "cstr ''dGhlIHNhbXBsZSBub25jZQ=='' = ''dGhlIHNhbXBsZSBub25jZQ==''" by (simp add: cstr_def NUL_def)
  show ?thesis
    using ws_handshake[OF b b, of "''dGhlIHNhbXBsZSBub25jZQ==''"] by (simp add: c ws_magic_def)
qed

end
