(* ===== verification/HttpServe.thy ===== *)
theory HttpServe
  imports HttpRequestParse HttpUrl TradeHandlers WsHandshake
begin

text \<open>
  \<open>on_recv\<close> of \<open>src/http/server/HttpServer.cpp\<close> for a connection that speaks HTTP/1: the bytes
  received go through the parser, the URL, the handler and the sender, and come back as the
  bytes of a response. This is where the parts of the server meet. The events of the socket
  are not modelled: a call gets one received buffer and returns the bytes written, and a closed
  connection is a flag. Logging is left out.
\<close>

section \<open>Connections\<close>

datatype ProtocolType = UNKNOWN | HTTP_V1 | HTTP_V2 | WEBSOCKET

record connection =
  protocol :: ProtocolType
  con_parser :: "(http_parser \<times> Http1Parser) option"
  con_handler :: handler
  con_closed :: bool

text \<open>The \<open>HttpHandler\<close> that \<open>on_accept\<close> makes, and a new \<open>Http1Parser\<close>.\<close>

definition HttpHandler0 :: handler where
  "HttpHandler0 = \<lparr> hstate = WANT_RECV, hmethod = HTTP_GET, hcode = 200, hres = message_init, hheader = [] \<rparr>"

definition on_accept :: connection where
  "on_accept = \<lparr> protocol = UNKNOWN, con_parser = None, con_handler = HttpHandler0, con_closed = False \<rparr>"

definition new_Http1Parser :: Http1Parser where
  "new_Http1Parser = \<lparr> h1_flags = 0, h1_state = HP_START_REQ_OR_RES, h1_parsed = Request_Reset, h1_url = [],
     header_field = [], header_value = [] \<rparr>"

section \<open>Receiving\<close>

definition MIN_HTTP_REQUEST_LEN :: nat where "MIN_HTTP_REQUEST_LEN = 14"

text \<open>\<open>char\<close> is signed, so bytes from 128 on are no graphic characters.\<close>

definition IS_GRAPH :: "char \<Rightarrow> bool" where "IS_GRAPH c = (0x20 \<le> byte_of c \<and> byte_of c < 0x7F)"

definition HTTP2_MAGIC :: string where
  "HTTP2_MAGIC = ''PRI * HTTP/2.0'' @ [CR, LF, CR, LF] @ ''SM'' @ [CR, LF, CR, LF]"

definition HTTP2_UPGRADE_RESPONSE :: string where
  "HTTP2_UPGRADE_RESPONSE = ''HTTP/1.1 101 Switching Protocols'' @ [CR, LF] @ ''Connection: Upgrade'' @ [CR, LF]
     @ ''Upgrade: h2c'' @ [CR, LF, CR, LF]"

definition is_http2 :: "string \<Rightarrow> bool" where
  "is_http2 buf = (let n = min (length buf) 24 in take n buf = take n HTTP2_MAGIC)"

text \<open>The parser of the connection, made on the first buffer; \<open>None\<close> closes the connection.
  \<open>HttpParser::New\<close> has no HTTP/2 parser in this build.\<close>

definition open_parser :: "string \<Rightarrow> connection \<Rightarrow> (http_parser \<times> Http1Parser) option" where
  "open_parser buf c = (case con_parser c of
       Some p \<Rightarrow> Some p
     | None \<Rightarrow> if length buf < MIN_HTTP_REQUEST_LEN \<or> \<not> list_all IS_GRAPH (take MIN_HTTP_REQUEST_LEN buf) \<or> is_http2 buf
               then None else Some (InitRequest new_Http1Parser))"

definition stricmp_eq :: "string \<Rightarrow> string \<Rightarrow> bool" where "stricmp_eq a b = (lower a = lower b)"

definition keepalive :: "parsed \<Rightarrow> bool" where
  "keepalive req = (case header_find ''connection'' (headers (p_msg req)) of
       Some v \<Rightarrow> if stricmp_eq v ''keep-alive'' then True else if stricmp_eq v ''close'' then False else True
     | None \<Rightarrow> \<not> (p_major req = 1 \<and> p_minor req = 0))"

text \<open>\<open>Server\<close> and \<open>Connection\<close>; the version text of the build is a parameter.\<close>

definition reply_headers :: "string \<Rightarrow> bool \<Rightarrow> params \<Rightarrow> params" where
  "reply_headers version ka hs =
     header_set ''Connection'' (if ka then ''keep-alive'' else ''close'')
       (header_set ''Server'' (take 63 (''httpd/'' @ cstr version)) hs)"

definition websocket_reply :: "SHA1_CTX \<Rightarrow> parsed \<Rightarrow> params \<Rightarrow> params cres" where
  "websocket_reply ctx req hs =
     (let hs = header_set ''Upgrade'' ''websocket'' (header_set ''Connection'' ''Upgrade'' hs)
      in case header_find ''Sec-WebSocket-Key'' (headers (p_msg req)) of
           None \<Rightarrow> Inr hs
         | Some k \<Rightarrow> cbind (server_accept ctx k) (\<lambda>a. Inr (header_set ''Sec-WebSocket-Accept'' a hs)))"

text \<open>\<open>HandleHttpRequest\<close> begins with \<open>ParseUrl\<close> on the request the parser has filled.\<close>

definition handle_request :: "(string \<Rightarrow> int \<times> string) \<Rightarrow> world \<Rightarrow> parsed \<Rightarrow> handler \<Rightarrow> server \<Rightarrow> (handler \<times> server) cres" where
  "handle_request files w req h st =
     cbind (ParseUrl (request_url_init \<lparr> ru_url := p_url req \<rparr>)) (\<lambda>r.
     cbind (HandleHttpRequest files w \<lparr> req_msg = p_msg req, req_method = p_method req, req_path = ru_path r,
              query_params = ru_query r \<rparr> (hres h) st) (\<lambda>(code, m, st1).
     Inr (h \<lparr> hstate := WANT_SEND, hcode := code, hres := m \<rparr>, st1)))"

text \<open>The loop over \<open>GetSendData\<close>; three rounds are enough for every state of the sender.\<close>

definition write_all :: "world \<Rightarrow> handler \<Rightarrow> (string \<times> handler) cres" where
  "write_all w h = cbind (send_all 3 (wenv w) h []) (\<lambda>r. case r of None \<Rightarrow> Inl Diverges | Some x \<Rightarrow> Inr x)"

definition reset_handler :: "handler \<Rightarrow> handler" where
  "reset_handler h = h \<lparr> hstate := WANT_RECV, hres := message_init, hcode := 200 \<rparr>"

definition close_connection :: "connection \<Rightarrow> connection" where
  "close_connection c = c \<lparr> con_closed := True \<rparr>"

text \<open>What \<open>on_recv\<close> does with a complete request.\<close>

definition answer :: "(string \<Rightarrow> int \<times> string) \<Rightarrow> string \<Rightarrow> SHA1_CTX \<Rightarrow> world \<Rightarrow> connection \<Rightarrow> http_parser \<times> Http1Parser
    \<Rightarrow> server \<Rightarrow> (string \<times> connection \<times> server) cres" where
  "answer files version ctx w c p st =
     (let req = h1_parsed (snd p); h0 = con_handler c;
          h = h0 \<lparr> hmethod := p_method req, hres := (hres h0) \<lparr> headers := reply_headers version (keepalive req) (headers (hres h0)) \<rparr> \<rparr>
      in case header_find ''upgrade'' (headers (p_msg req)) of
           None \<Rightarrow>
             cbind (handle_request files w req h st) (\<lambda>(h1, st1).
             cbind (write_all w h1) (\<lambda>(out, h2).
               if keepalive req
               then Inr (out, c \<lparr> con_handler := reset_handler h2, con_parser := Some (InitRequest (snd p)) \<rparr>, st1)
               else Inr (out, close_connection c, st1)))
         | Some v \<Rightarrow>
             if stricmp_eq v ''websocket'' then
               cbind (websocket_reply ctx req (headers (hres h))) (\<lambda>hs.
               cbind (write_all w (h \<lparr> hcode := 101, hres := (hres h) \<lparr> headers := hs \<rparr> \<rparr>)) (\<lambda>(out, h2).
                 Inr (out, c \<lparr> protocol := WEBSOCKET, con_handler := h2, con_parser := Some p \<rparr>, st)))
             else if take 2 (lower v) = ''h2'' then Inr (HTTP2_UPGRADE_RESPONSE, close_connection c, st)
             else Inr ([], close_connection c, st))"

definition on_recv :: "(string \<Rightarrow> int \<times> string) \<Rightarrow> string \<Rightarrow> SHA1_CTX \<Rightarrow> world \<Rightarrow> string \<Rightarrow> connection
    \<Rightarrow> server \<Rightarrow> (string \<times> connection \<times> server) cres" where
  "on_recv files version ctx w buf c st =
     (case open_parser buf c of
        None \<Rightarrow> Inr ([], close_connection c, st)
      | Some p0 \<Rightarrow>
          cbind (h1_FeedRecvData buf p0) (\<lambda>(nfeed, p).
            let c = c \<lparr> protocol := HTTP_V1, con_parser := Some p \<rparr>
            in if nfeed \<noteq> int (length buf) then Inr ([], close_connection c, st)
               else if WantRecv (snd p) then Inr ([], c, st)
               else answer files version ctx w c p st))"


section \<open>The first buffer\<close>

lemma method_name_facts:
  assumes "(m, name) \<in> set http_method_map"
  shows "list_all IS_GRAPH name" "3 \<le> length name" "take 4 (name @ '' '') \<noteq> ''PRI ''"
proof -
  have "list_all (\<lambda>(m, name). list_all IS_GRAPH name \<and> 3 \<le> length name \<and> take 4 (name @ '' '') \<noteq> ''PRI '') http_method_map"
    by code_simp
  then show "list_all IS_GRAPH name" "3 \<le> length name" "take 4 (name @ '' '') \<noteq> ''PRI ''" using assms by (auto simp: list_all_iff)
qed

lemma url_graph: "IS_URL_CHAR c \<Longrightarrow> IS_GRAPH c"
proof -
  have "list_all (\<lambda>c. IS_URL_CHAR c \<longrightarrow> IS_GRAPH c) (map char_of [0..255::int])" by code_simp
  then show "IS_URL_CHAR c \<Longrightarrow> IS_GRAPH c" using char_range[of c] by (auto simp only: list_all_iff)
qed

text \<open>A target of a path and a query.\<close>

definition target :: "string \<Rightarrow> string \<Rightarrow> string" where "target us q = CHR ''/'' # us @ query_part q"

definition target_chars :: "string \<Rightarrow> string \<Rightarrow> bool" where
  "target_chars us q = ((\<forall>c \<in> set us. IS_URL_CHAR c) \<and> (\<forall>c \<in> set q. query_char c))"

lemma target_graph: "target_chars us q \<Longrightarrow> list_all IS_GRAPH (target us q)"
proof -
  assume t: "target_chars us q"
  have "IS_GRAPH (CHR ''/'')" "IS_GRAPH (CHR ''?'')" by code_simp+
  moreover have "\<forall>c \<in> set us. IS_GRAPH c" "\<forall>c \<in> set q. IS_GRAPH c"
    using t url_graph calculation by (auto simp: target_chars_def query_char_def)
  ultimately show "list_all IS_GRAPH (target us q)" by (simp add: target_def query_part_def list_all_iff ball_Un)
qed

lemma foldl_path: "\<forall>c \<in> set us. IS_URL_CHAR c \<Longrightarrow> foldl parse_url_char s_req_path us = s_req_path"
  by (induction us) (simp_all add: url_state_chars)

lemma foldl_query: "\<forall>c \<in> set q. query_char c \<Longrightarrow> foldl parse_url_char s_req_query_string q = s_req_query_string"
  by (induction q) (simp_all add: url_state_chars)

lemma target_ok_target: "target_chars us q \<Longrightarrow> target_ok (target us q)"
  by (cases q) (simp_all add: target_ok_def target_def target_chars_def query_part_def foldl_path foldl_query slash_chars url_state_chars)

lemma list_all_take: "list_all P xs \<Longrightarrow> n \<le> length xs \<Longrightarrow> list_all P (take n (xs @ ys))"
  by (auto simp: list_all_iff dest: in_set_takeD)

lemma open_first:
  assumes "(m, name) \<in> set http_method_map" "target_chars us q"
  shows "open_parser (request_line name (target us q) @ t) on_accept = Some (InitRequest new_Http1Parser)"
proof -
  let ?x = "name @ '' '' @ target us q @ '' HTTP/1.1''" and ?b = "request_line name (target us q) @ t"
  note n = method_name_facts[OF assms(1)]
  have b: "?b = ?x @ [CR, LF] @ t" by (simp add: request_line_def)
  have l: "14 \<le> length ?x" using n(2) by (simp add: target_def)
  have "list_all IS_GRAPH ''  HTTP/1.1''" by code_simp
  then have "list_all IS_GRAPH ?x" using n(1) target_graph[OF assms(2)] by simp
  then have "list_all IS_GRAPH (take 14 ?b)" unfolding b by (rule list_all_take[OF _ l])
  moreover have "\<not> is_http2 ?b"
  proof
    assume h: "is_http2 ?b"
    define n where "n = min (length ?b) 24"
    have len: "4 \<le> n" using l unfolding b n_def by simp
    have "take n ?b = take n HTTP2_MAGIC" using h by (simp only: is_http2_def Let_def n_def)
    then have "take 4 (take n ?b) = take 4 (take n HTTP2_MAGIC)" by (rule arg_cong)
    then have "take 4 ?b = take 4 HTTP2_MAGIC" by (simp only: take_take min.absorb1[OF len])
    moreover have "take 4 ?b = take 4 ((name @ '' '') @ target us q @ '' HTTP/1.1'' @ [CR, LF] @ t)" by (simp add: request_line_def)
    then have "take 4 ?b = take 4 (name @ '' '')" using n(2) by (subst (asm) take_append) simp
    ultimately show False using n(3) by (simp add: HTTP2_MAGIC_def)
  qed
  ultimately show ?thesis using l b by (simp add: open_parser_def on_accept_def MIN_HTTP_REQUEST_LEN_def)
qed


section \<open>A request and its response\<close>

text \<open>A connection between two requests.\<close>

definition idle :: "connection \<Rightarrow> bool" where
  "idle c = (hres (con_handler c) = message_init \<and> hheader (con_handler c) = [] \<and> \<not> con_closed c
     \<and> (con_parser c = None \<or> (\<exists>hp. con_parser c = Some (InitRequest hp))))"

lemma idle_accept: "idle on_accept"
  by (simp add: idle_def on_accept_def HttpHandler0_def)

lemma open_idle:
  assumes "idle c" "(m, name) \<in> set http_method_map" "target_chars us q"
  shows "\<exists>hp. open_parser (request_line name (target us q) @ t) c = Some (InitRequest hp)"
  using open_first[OF assms(2,3), of t] assms(1) by (auto simp: idle_def open_parser_def on_accept_def)

text \<open>What the connection sends after a request with the headers \<open>H\<close>, and whether it stays open.\<close>

definition stays_open :: "params \<Rightarrow> bool" where
  "stays_open H = (case header_find ''connection'' H of None \<Rightarrow> True | Some v \<Rightarrow> \<not> stricmp_eq v ''close'')"

lemma keepalive_received:
  assumes "p_msg pd = received_msg H b" "p_major pd = 1" "p_minor pd = 1"
  shows "keepalive pd = stays_open H"
proof -
  have "lower ''keep-alive'' \<noteq> lower ''close''" by code_simp
  then show ?thesis using assms by (auto simp: keepalive_def stays_open_def received_msg_def stricmp_eq_def split: option.split)
qed

lemma not_found:
  assumes "\<forall>x \<in> set hs. token (fst x) \<and> map tolower (fst x) \<noteq> name" "lower name = name"
  shows "header_find name (store_all hs m) = header_find name m"
  using assms lower_token by (intro find_store_all) auto

lemma dispatch_run:
  assumes "map_of route_table (url_path (cstr (req_path req)), req_method req) = Some a"
  shows "HandleHttpRequest files w req res st = cbind (run_api a w req res st) (\<lambda>(ret, m, st1).
    case make_status (req_method req) 200 ret m of (code, m') \<Rightarrow> Inr (code, m', st1))"
proof -
  obtain c where g: "GetApi [] router (req_path req) (req_method req) (query_params req) = (c, Some a, query_params req)"
    using GetApi_router[of "req_path req" "req_method req" "query_params req"] assms by (metis router_lookup)
  have "req\<lparr>query_params := query_params req\<rparr> = req" by (cases req) simp
  then show ?thesis using g by (simp add: HandleHttpRequest_def)
qed

text \<open>From a complete request to the bytes of the response.\<close>

lemma answer_run:
  assumes c: "hres (con_handler c) = message_init" "hheader (con_handler c) = []" "\<not> con_closed c"
    and req: "received m url all b (snd p)" "H = store_all all (headers (p_msg Request_Reset))" "header_find ''upgrade'' H = None" "m \<noteq> HTTP_HEAD"
    and u: "ParseUrl (request_url_init \<lparr> ru_url := url \<rparr>) = Inr r" "map_of route_table (url_path (cstr (ru_path r)), m) = Some a"
    and run: "run_api a w \<lparr> req_msg = received_msg H b, req_method = m, req_path = ru_path r, query_params = ru_query r \<rparr>
        (message_init \<lparr> headers := reply_headers version (stays_open H) [] \<rparr>) st = Inr (ret, rm, st1)"
      "make_status m 200 ret rm = (code, m')"
    and m': "body m' \<noteq> []" "content_length m' = 0" "header_find CL (headers m') = None" "int (length (body m')) \<le> INT_MAX"
  shows "\<exists>hs c'. answer files version ctx w c p st = Inr (header_lines (status_line code) hs @ CRLF @ body m', c', st1)
    \<and> header_find CL hs = Some (int_to_string (int (length (body m')))) \<and> (if stays_open H then idle c' else con_closed c')"
proof -
  let ?pd = "h1_parsed (snd p)"
  have pd: "p_msg ?pd = received_msg H b" "p_major ?pd = 1" "p_minor ?pd = 1" "p_method ?pd = m" "p_url ?pd = url"
    using req(1,2) by (simp_all add: received_def Let_def)
  have ka: "keepalive ?pd = stays_open H" using keepalive_received[OF pd(1-3)] .
  have hd: "headers (p_msg ?pd) = H" using pd(1) by (simp add: received_msg_def)
  let ?h = "(con_handler c) \<lparr> hmethod := m, hres := message_init \<lparr> headers := reply_headers version (stays_open H) [] \<rparr> \<rparr>"
  let ?h1 = "?h \<lparr> hstate := WANT_SEND, hcode := code, hres := m' \<rparr>"
  have hr: "handle_request files w ?pd ?h st = Inr (?h1, st1)"
    using dispatch_run[of "\<lparr> req_msg = received_msg H b, req_method = m, req_path = ru_path r, query_params = ru_query r \<rparr>" a] u run pd
    by (simp add: handle_request_def)
  obtain hs h2 where s: "send_all 3 (wenv w) ?h1 [] = Inr (Some (header_lines (status_line code) hs @ CRLF @ body m', h2))"
      "header_find CL hs = Some (int_to_string (int (length (body m'))))" "hheader h2 = []"
    using send_all_response[of ?h1 "wenv w"] c m' req(4) by auto
  have m0: "headers message_init = []" by (simp add: message_init_def)
  have "answer files version ctx w c p st = Inr (header_lines (status_line code) hs @ CRLF @ body m',
      (if stays_open H then c \<lparr> con_handler := reset_handler h2, con_parser := Some (InitRequest (snd p)) \<rparr> else close_connection c), st1)"
    using hr s(1) c(1) req(3) by (simp add: answer_def Let_def hd ka pd(4) m0 write_all_def)
  moreover have "if stays_open H then idle (c \<lparr> con_handler := reset_handler h2, con_parser := Some (InitRequest (snd p)) \<rparr>)
      else con_closed (close_connection c)"
    using s(3) c(3) by (auto simp: idle_def reset_handler_def close_connection_def)
  ultimately show ?thesis using s(2)
    by (intro exI[of _ hs] exI[of _ "if stays_open H then c \<lparr> con_handler := reset_handler h2, con_parser := Some (InitRequest (snd p)) \<rparr>
      else close_connection c"]) (cases "stays_open H"; simp)
qed


section \<open>Requests that are misread\<close>

definition lines_text :: "string list \<Rightarrow> string" where
  "lines_text ls = concat (map (\<lambda>l. l @ [CR, LF]) ls)"

text \<open>A length above \<open>INT_MAX\<close> is a negative \<open>int\<close>, and \<open>reserve\<close> throws through the C parser.\<close>

lemma large_length_throws:
  "h1_FeedRecvData (lines_text [''GET / HTTP/1.1'', ''Content-Length: 3000000000'', []]) (InitRequest new_Http1Parser) = Inl UncaughtException"
  by code_simp

text \<open>Two requests in one buffer become one, with a target of both.\<close>

lemma pipelined_merged:
  "case h1_FeedRecvData (lines_text [''GET /a HTTP/1.1'', [], ''GET /b HTTP/1.1'', []]) (InitRequest new_Http1Parser) of
     Inr (n, _, hp) \<Rightarrow> n = 38 \<and> IsComplete hp \<and> p_url (h1_parsed hp) = ''/a/b'' | _ \<Rightarrow> False"
  by code_simp

text \<open>The name of a header without a value is joined to the next name.\<close>

lemma empty_value_joins_header:
  "case h1_FeedRecvData (lines_text [''GET / HTTP/1.1'', ''A:'', ''B: x'', []]) (InitRequest new_Http1Parser) of
     Inr (n, _, hp) \<Rightarrow> header_find ''AB'' (headers (p_msg (h1_parsed hp))) = Some ''x''
       \<and> header_find ''B'' (headers (p_msg (h1_parsed hp))) = None
   | _ \<Rightarrow> False"
  by code_simp

section \<open>Properties\<close>

lemma upgrade_absent:
  assumes "\<forall>x \<in> set hs. plain_header x" "\<forall>x \<in> set hs'. plain_header x" "token k" "map tolower k = ''content-length''"
  shows "header_find ''upgrade'' (store_all (hs @ (k, v) # hs') (headers (p_msg Request_Reset))) = None"
proof -
  have l: "lower ''upgrade'' = ''upgrade''" "header_find ''upgrade'' (headers (p_msg Request_Reset)) = None" by code_simp+
  have "\<forall>x \<in> set (hs @ (k, v) # hs'). token (fst x) \<and> map tolower (fst x) \<noteq> ''upgrade''"
    using assms by (auto simp: plain_header_def special_names_def)
  from not_found[OF this l(1)] l(2) show ?thesis by simp
qed

lemma url_path_target: "target_chars us q \<Longrightarrow> url_path (cstr (target us q)) = CHR ''/'' # us"
proof -
  assume t: "target_chars us q"
  have "\<not> IS_URL_CHAR NUL" "\<not> query_char NUL" "\<not> IS_URL_CHAR (CHR ''?'')" by code_simp+
  then have n: "NUL \<notin> set us" "NUL \<notin> set q" "CHR ''?'' \<notin> set us" using t unfolding target_chars_def by blast+
  then have "cstr (target us q) = target us q" by (intro cstr_id) (simp add: target_def query_part_def NUL_def)
  moreover have "takeWhile (\<lambda>c. c \<noteq> CHR ''?'') (us @ query_part q) = us"
    using n(3) by (subst takeWhile_append2) (auto simp: query_part_def)
  ultimately show ?thesis by (simp add: url_path_def target_def)
qed

text \<open>
  C3: End to end. An idle connection receives a well-formed request: any method but CONNECT and
  HEAD, a path registered by \<open>main\<close> with dumped parameters \<open>ps\<close>, header lines with a
  \<open>Content-Length\<close> among them, and a body. Then the handler registered for method and path is run
  on exactly this request, and one call of \<open>on_recv\<close> writes the status line, the header lines
  with the right \<open>Content-Length\<close>, and the body the handler (or the status page) left; the state
  of the server is the one the handler left. Afterwards the connection is idle again, or closed
  if the request asked for that.
\<close>

theorem request_answered:
  assumes c: "idle c" and m: "(m, name) \<in> set http_method_map" "m \<noteq> HTTP_CONNECT" "m \<noteq> HTTP_HEAD"
    and ps: "\<forall>x \<in> set us. IS_URL_CHAR x" "map_ok ps" "\<forall>(k, v) \<in> set ps. ascii k \<and> ascii v \<and> k \<noteq> [] \<and> v \<noteq> []" "dump_query_params ps = Inr q"
    and hs: "\<forall>x \<in> set hs. plain_header x" "\<forall>x \<in> set hs'. plain_header x" "token k" "map tolower k = ''content-length''"
    and tx: "all = hs @ (k, int_to_string (int (length b))) # hs'" "front = request_line name (target us q) @ headers_text all"
      "data = front @ [CR, LF] @ b"
    and len: "length us + length q < 65500" "length front + 2 \<le> 81920" "length data < 2 ^ 31"
    and H: "H = store_all all (headers (p_msg Request_Reset))"
    and api: "map_of route_table (CHR ''/'' # us, m) = Some a"
      "run_api a w \<lparr> req_msg = received_msg H b, req_method = m, req_path = target us q, query_params = ps \<rparr>
        (message_init \<lparr> headers := reply_headers version (stays_open H) [] \<rparr>) st = Inr (ret, rm, st1)"
      "make_status m 200 ret rm = (code, m')"
    and m': "body m' \<noteq> []" "content_length m' = 0" "header_find ''Content-Length'' (headers m') = None" "int (length (body m')) \<le> INT_MAX"
  shows "\<exists>rs c'. on_recv files version ctx w data c st = Inr (header_lines (status_line code) rs @ CRLF @ body m', c', st1)
    \<and> header_find ''Content-Length'' rs = Some (int_to_string (int (length (body m'))))
    \<and> (if stays_open H then idle c' else con_closed c')"
proof -
  have q: "\<forall>x \<in> set q. query_char x" using dump_loop_url[of ps "[]" q] ps(4) by (simp add: dump_query_params_def query_char_def)
  then have tc: "target_chars us q" using ps(1) by (simp add: target_chars_def)
  obtain hp where op: "open_parser data c = Some (InitRequest hp)"
    using open_idle[OF c m(1) tc, of "headers_text all @ [CR, LF] @ b"] tx by auto
  obtain hps hp' where feed: "h1_FeedRecvData data (InitRequest hp) = Inr (int (length data), hps, hp')" "received m (target us q) all b hp'"
    using request_with_body_run[OF m(1,2) target_ok_target[OF tc] hs tx len(2,3), of hp] by blast
  obtain r where r: "ParseUrl (request_url_init \<lparr> ru_url := target us q \<rparr>) = Inr r" "ru_path r = target us q" "ru_query r = ps"
    using ParseUrl_params[OF ps len(1), of "target us q"] by (auto simp: target_def)
  have up: "header_find ''upgrade'' H = None" unfolding H tx(1) by (rule upgrade_absent[OF hs])
  let ?c = "c \<lparr> protocol := HTTP_V1, con_parser := Some (hps, hp') \<rparr>"
  have "\<exists>rs c'. answer files version ctx w ?c (hps, hp') st = Inr (header_lines (status_line code) rs @ CRLF @ body m', c', st1)
    \<and> header_find CL rs = Some (int_to_string (int (length (body m')))) \<and> (if stays_open H then idle c' else con_closed c')"
  proof (rule answer_run[OF _ _ _ _ H up m(3) r(1)])
    show "map_of route_table (url_path (cstr (ru_path r)), m) = Some a" using url_path_target[OF tc] r(2) api(1) by simp
  qed (use c feed(2) api(2,3) m' r(2,3) in \<open>simp_all add: idle_def\<close>)
  moreover have "\<not> WantRecv hp'" using feed(2) by (simp add: received_def WantRecv_def IsComplete_def Let_def)
  ultimately show ?thesis using op feed(1) by (simp add: on_recv_def Let_def)
qed


theorem request_answered_witness:
  "\<forall>files ctx w st. \<exists>rs c'. on_recv files ''1.0'' ctx w (request_line ''POST'' (target ''QueryStockbyCode'' [])
       @ headers_text [(''Host'', ''localhost''), (''Content-Length'', int_to_string 2), (''Connection'', ''close'')] @ [CR, LF] @ ''{}'') on_accept st
     = Inr (header_lines (status_line 400) rs @ CRLF @ ''{}'', c', st) \<and> header_find ''Content-Length'' rs = Some ''2'' \<and> con_closed c'"
proof (intro allI)
  fix files ctx w st
  define all where "all = [(''Host'', ''localhost'')] @ (''Content-Length'', int_to_string (int (length ''{}''))) # [(''Connection'', ''close'')]"
  define H where "H = store_all all (headers (p_msg Request_Reset))"
  have m: "(HTTP_POST, ''POST'') \<in> set http_method_map" "HTTP_POST \<noteq> HTTP_CONNECT" "HTTP_POST \<noteq> HTTP_HEAD" by code_simp+
  have u: "\<forall>x \<in> set ''QueryStockbyCode''. IS_URL_CHAR x" by code_simp
  have ps: "map_ok ([] :: params)" "\<forall>(k, v) \<in> set ([] :: params). ascii k \<and> ascii v \<and> k \<noteq> [] \<and> v \<noteq> []" "dump_query_params [] = Inr []"
    by code_simp+
  have h: "\<forall>x \<in> set [(''Host'', ''localhost'')]. plain_header x" "\<forall>x \<in> set [(''Connection'', ''close'')]. plain_header x"
    "token ''Content-Length''" "map tolower ''Content-Length'' = ''content-length''" by code_simp+
  have a: "map_of route_table (CHR ''/'' # ''QueryStockbyCode'', HTTP_POST) = Some QueryStockbyCode" by code_simp
  have o: "\<not> stays_open H" unfolding H_def all_def by code_simp
  have d: "dec_digits 2 = ''2''" by code_simp
  have "case parse_body ''{}'' of Inl _ \<Rightarrow> False | Inr j \<Rightarrow> string_field j ''stock_code'' = None" by code_simp
  then obtain j where j: "parse_body ''{}'' = Inr j" "string_field j ''stock_code'' = None" by (auto split: sum.splits)
  define res where "res = message_init \<lparr> headers := reply_headers ''1.0'' (stays_open H) [] \<rparr>"
  let ?req = "\<lparr> req_msg = received_msg H ''{}'', req_method = HTTP_POST, req_path = target ''QueryStockbyCode'' [], query_params = [] \<rparr>"
  have r: "run_api QueryStockbyCode w ?req res st = Inr (400, echo_reply ?req res, st)"
    using j by (simp add: run_api_def handle_query_stock_bycode_def received_msg_def Let_def)
  have st: "make_status HTTP_POST 200 400 (echo_reply ?req res) = (400, echo_reply ?req res)"
    by (simp add: make_status_def echo_reply_def received_msg_def)
  have n: "header_find ''Content-Length'' (headers res) = None" unfolding res_def o by code_simp
  have m': "body (echo_reply ?req res) \<noteq> []" "content_length (echo_reply ?req res) = 0"
    "header_find ''Content-Length'' (headers (echo_reply ?req res)) = None" "int (length (body (echo_reply ?req res))) \<le> INT_MAX"
    using n by (simp_all add: echo_reply_def received_msg_def res_def message_init_def limit_defs)
  show "\<exists>rs c'. on_recv files ''1.0'' ctx w (request_line ''POST'' (target ''QueryStockbyCode'' [])
       @ headers_text [(''Host'', ''localhost''), (''Content-Length'', int_to_string 2), (''Connection'', ''close'')] @ [CR, LF] @ ''{}'') on_accept st
     = Inr (header_lines (status_line 400) rs @ CRLF @ ''{}'', c', st) \<and> header_find ''Content-Length'' rs = Some ''2'' \<and> con_closed c'"
    using request_answered[OF idle_accept m u ps h all_def refl refl _ _ _ H_def a r[unfolded res_def] st[unfolded res_def] m'[unfolded res_def], of files ctx] o
    by (simp add: all_def request_line_def target_def query_part_def headers_text_def header_line_def echo_reply_def received_msg_def int_to_string_def d)
qed

end
