(* ===== verification/Spec2Isabelle.thy ===== *)
theory Spec2Isabelle
  imports CJsonChain CJsonMinify Md5 HttpServe
begin

text \<open>
  \<^bold>\<open>A verification of the stock trading HTTP server.\<close>

  \<^bold>\<open>The program.\<close> The service in \<open>src/examples/http_server_test.cpp\<close> keeps an account, the
  quotations of the day, the holdings and the orders of a trading day, and answers HTTP requests that
  query stocks, buy, sell and withdraw. A buffer received from a socket goes to \<open>on_recv\<close>
  (\<open>src/http/server/HttpServer.cpp\<close>), which feeds it to the HTTP/1 parser
  (\<open>src/http/http_parser.c\<close>, wrapped by \<open>src/http/Http1Parser.cpp\<close>). When a request is complete,
  \<open>HttpHandler::HandleHttpRequest\<close> (\<open>src/http/server/HttpHandler.cpp\<close>) parses its URL, asks the
  router (\<open>src/http/server/HttpService.cpp\<close>) for a handler and calls it. A handler parses the body
  with cJSON (\<open>src/cjson/cJSON.c\<close>), calls the trading core and prints its answer with cJSON.
  \<open>GetSendData\<close> turns the response into bytes. A connection may be upgraded to a WebSocket, with
  a handshake that needs SHA-1 and Base 64 (\<open>src/utils\<close>).

  \<^bold>\<open>How the code is modelled.\<close> A pure or state-passing function of the source is a function of the
  same name; a class or struct is a record, an enumeration a datatype. Bytes are \<open>char\<close>, a C
  string is a list of them, a fixed-width integer is a \<open>word\<close> or an \<open>int\<close> with its wrap-around
  written out, \<open>float\<close> and \<open>double\<close> are IEEE 754 values. What the language leaves undefined, and an
  exception that nothing catches, is a value: a result of type \<open>cres\<close> is \<open>Inl\<close> of a fault
  (\<open>OutOfBounds\<close>, \<open>BufferOverflow\<close>, \<open>NullDereference\<close>, \<open>UseAfterFree\<close>, \<open>AssertFailure\<close>,
  \<open>UncaughtException\<close> and others) or \<open>Inr\<close> of what the code returns. Reads and writes are checked
  against the buffer they go to, so that a theorem that excludes faults speaks about memory.

  \<^bold>\<open>The theories, in the order of their imports.\<close>

  \<^item> \<open>Prelude\<close>: faults as values, checked buffers, machine integers, the C library routines the
    sources call, runs of a step relation with two interfaces, \<open>step_invariant\<close> and
    \<open>step_preorder\<close>. \<open>CFloat\<close>: binary32 and binary64 with rounding, conversion to and from text.
    \<open>StdMap\<close>: \<open>std::map\<close> with the interface \<open>keyed_store\<close>.

  \<^item> \<open>Stock\<close> (\<open>src/stock/*.cpp\<close>): the files of quotations, accounts and holdings, lookups (interface
    \<open>first_match\<close>) and positions (interface \<open>position_book\<close>). \<open>Trading\<close>: \<open>initial\<close>, the queries,
    \<open>buyStockbyCode\<close>, \<open>sellStockbyCode\<close>, \<open>withdrawOrder\<close> over the global state, and the step relation
    \<open>trade_step\<close> of a server that answers one request after another. \<open>TradingProps\<close>: the invariant of
    reachable states, the ledger of shares, exact conditions of acceptance, the price band, the effect
    of a withdrawal, that rejected requests change nothing and that history is kept.

  \<^item> \<open>CJsonParse\<close>, \<open>CJsonPrint\<close>, \<open>CJsonStore\<close>, \<open>CJsonChain\<close>, \<open>CJsonMinify\<close> (\<open>src/cjson/cJSON.c\<close>): the
    reader returns on every NUL-terminated text without a fault and gives well-formed items of bounded
    nesting, and \<open>cJSON_ParseWithLength\<close> reads past its buffer on objects cut off after a comma; the
    writer never leaves its buffer and refines an abstract text; strings survive both. The editing
    functions work on a store of linked cells: under the representation \<open>kids\<close> they are list
    operations (interface \<open>child_sequence\<close>), and deletion and replacement free exactly the trees they
    should. \<open>cJSON_Minify\<close> in place equals a reference on lists.

  \<^item> \<open>HttpDef\<close>, \<open>HttpQuery\<close>, \<open>HttpRouter\<close>, \<open>HttpMessage\<close>: names and numbers of the protocol, percent
    encoding and query strings, the router (pattern dispatch equals direct lookup on literal paths),
    content and headers of messages, and the sending state machine.

  \<^item> \<open>HttpParserDefs\<close>, \<open>HeaderLoops\<close>, \<open>HttpExecute\<close> (\<open>src/http/http_parser.c\<close>): one definition per
    case of the switch of \<open>http_parser_execute\<close>, the loops over a header name and a header value, and
    the whole function, which is shown to terminate. \<open>HttpSafety\<close>: the invariant behind its
    assertions, for callbacks that meet the interface \<open>safe_callbacks\<close>: no assertion fails, no byte
    outside the buffer is read and every range given to a callback lies inside it. \<open>Http1Session\<close>
    (\<open>src/http/Http1Parser.cpp\<close>): the callbacks, for which the interface is discharged. \<open>HeaderNames\<close>,
    \<open>RequestHead\<close>, \<open>HttpRequestParse\<close>: what the parser makes of the text of a well-formed request.
    \<open>HttpUrl\<close>: the URL parser with its 16-bit fields, \<open>DumpUrl\<close> and \<open>ParseUrl\<close>.

  \<^item> \<open>TradeHandlers\<close>: the handlers and routes of \<open>main\<close>, \<open>HandleHttpRequest\<close>, what orders and queries
    are answered with, and that an accepted order reads freed memory: the handler's items are kept in a
    list in which deleted ones are marked, and its string pointers point into them. \<open>HttpServe\<close>:
    \<open>on_recv\<close>, where the parts meet, and the end-to-end theorem: bytes in, parsed, dispatched, answered.

  \<^item> \<open>WebSocket\<close>, \<open>WsSession\<close>, \<open>WsHandshake\<close>: the frame parser and builder, messages over any cutting of
    the bytes (interface \<open>frame_callbacks\<close>), and the handshake. \<open>BlockHash\<close>, \<open>Sha1\<close>, \<open>Md5\<close>,
    \<open>Base64\<close> (\<open>src/utils\<close>): the streaming hashes (interface \<open>hash_context\<close>) compute the digests of
    FIPS 180 and RFC 1321, whose definitions here use none of the code's; Base 64 decodes what it encodes.

  \<^bold>\<open>Loops and fuel.\<close> Loops are functions with termination proofs wherever the code's own measure
  shows it, \<open>http_parser_execute\<close> included. Fuel is used where recursion follows pointers or is
  mutual, always with a lemma that it is enough: \<open>3 * n + 4\<close> for the JSON reader on \<open>n\<close> bytes; one more
  than the number of cells ever allocated for deletion, since a tree has no more cells than that; 64 for the
  padding of SHA-1, which needs at most 63 rounds; three rounds for sending a response, which is sent
  in at most two pieces. Running out of fuel is the fault \<open>Diverges\<close> or \<open>None\<close>, never a result.

  \<^bold>\<open>Assumptions of the model.\<close> The program is compiled with \<open>HTTP_PARSER_STRICT\<close> on a 64-bit
  little-endian machine; the WebSocket parser's pointer arithmetic is on flat 64-bit addresses. Callbacks
  of the HTTP parser do not write the parser, as those of \<open>Http1Parser\<close> do not. Allocations of the JSON reader
  succeed; those of the writer and of the editing functions may fail. The memory a buffer grows
  into holds one arbitrary character. The serialiser of nlohmann/json, the clock and the file
  service are parameters. Text printed to standard output is left out, and the self tests that two
  handlers call are named, not run.

  \<^bold>\<open>What is not modelled.\<close> The event loop, sockets, threads, timers, logging and the file cache are calls of
  the operating system; HTTP/2 needs a library that is not in the repository; the multipart parser
  is reached only from \<open>ParseBody\<close>, which no registered handler calls; in \<open>on_recv\<close> the branch of a
  connection that is already a WebSocket is not repeated, since it only passes the bytes to the parser
  that \<open>WsSession\<close> models; network clients, examples and tests are not part of the service.
\<close>

end
